(* ===== verification/CPrelude.thy ===== *)
theory CPrelude
  imports Main "HOL-Library.Word" "HOL-Library.Multiset" "HOL-Library.Monad_Syntax"
begin

text \<open>
  The vocabulary shared by the models of the C sources: machine integers at their width,
  C's arrays as lists, the test log that the harness keeps, and generic lemmas about words,
  lists and permutations.
\<close>

unbundle bit_operations_syntax

type_synonym u8 = "8 word"
type_synonym u16 = "16 word"
type_synonym u32 = "32 word"
type_synonym u64 = "64 word"

named_theorems c_simps \<open>evaluation rules of the C models\<close>

subsection \<open>Words\<close>

lemma uint_less_2p: "uint (x :: 'a::len word) < 2 ^ LENGTH('a)"
  by simp

lemma len_64: "LENGTH(64) = 64"
  by simp

lemma unat_of_nat_64 [simp]: "n < 2 ^ 64 \<Longrightarrow> unat (of_nat n :: u64) = n"
  by (simp add: unat_of_nat take_bit_nat_eq_self)

lemma ucast_32_64_less: "(ucast (x :: u32) :: u64) < 2 ^ 32"
proof -
  have "unat x < 2 ^ 32" using unsigned_less [of x] by simp
  then have "take_bit 64 (unat x) < 2 ^ 32"
    by (rule le_less_trans [OF take_bit_nat_less_eq_self])
  then show ?thesis by (simp add: word_less_nat_alt unsigned_ucast_eq)
qed

lemma unat_minus_1_64: "unat (-1 :: u64) = 2 ^ 64 - 1"
  by (simp add: unsigned_minus_1_eq_mask mask_eq_exp_minus_1)

lemma of_nat_64_eq_0_iff: "n < 2 ^ 64 \<Longrightarrow> (of_nat n :: u64) = 0 \<longleftrightarrow> n = 0"
  by (metis unat_of_nat_64 unat_eq_zero of_nat_0)

lemma unat_mod_less: "n \<noteq> 0 \<Longrightarrow> unat (r mod n :: u64) < unat n"
  by (simp add: unat_mod word_neq_0_conv unat_gt_0)

lemma unat_plus_nat_64: "unat x + unat y < 2 ^ 64 \<Longrightarrow> unat (x + y :: u64) = unat x + unat y"
  by (simp add: unat_word_ariths)

lemma dvd_less_add_le:
  fixes d a b :: nat
  assumes "d dvd a" and "d dvd b" and "a < b"
  shows "a + d \<le> b"
proof -
  from assms(1,2) have "d dvd b - a" by (rule dvd_diff_nat [rotated])
  then have "d \<le> b - a" using assms(3) by (intro dvd_imp_le) simp_all
  then show ?thesis using assms(3) by simp
qed

lemma and_not_mask: "(x :: 'a::len word) AND NOT (mask n) = push_bit n (drop_bit n x)"
  by (rule bit_word_eqI) (auto simp: bit_simps)

lemma unat_and_not_mask: "unat ((x :: 'a::len word) AND NOT (mask n)) = unat x div 2 ^ n * 2 ^ n"
proof -
  have "unat x div 2 ^ n * 2 ^ n \<le> unat x" by (rule div_times_less_eq_dividend)
  also have "\<dots> < 2 ^ LENGTH('a)" by (rule unsigned_less)
  finally have "unat x div 2 ^ n * 2 ^ n < 2 ^ LENGTH('a)" .
  then show ?thesis
    unfolding and_not_mask unsigned_push_bit_eq unsigned_drop_bit_eq
    by (simp add: push_bit_eq_mult drop_bit_eq_div take_bit_nat_eq_self)
qed

lemma minus_4096: "- 4096 = NOT (mask 12 :: u64)"
  using minus_exp_eq_not_mask [of 12, where 'a=u64] by simp

subsection \<open>Swapping two cells of a list keeps its elements\<close>

lemma mset_swap_two_lists:
  assumes "i < length xs" and "j < length ys"
  shows "mset (xs[i := ys ! j]) + mset (ys[j := xs ! i]) = mset xs + mset ys"
proof -
  obtain M where M: "mset xs = add_mset (xs ! i) M"
    using assms(1) by (meson multi_member_split nth_mem_mset)
  obtain N where N: "mset ys = add_mset (ys ! j) N"
    using assms(2) by (meson multi_member_split nth_mem_mset)
  have "mset (xs[i := ys ! j]) = add_mset (ys ! j) M"
    using assms(1) M by (simp add: mset_update)
  moreover have "mset (ys[j := xs ! i]) = add_mset (xs ! i) N"
    using assms(2) N by (simp add: mset_update)
  ultimately show ?thesis using M N by simp
qed

lemma list_update_append_add: "(p @ q)[length p + i := x] = p @ q[i := x]"
  by (induction p) simp_all

lemma length_filter_update:
  "j < length xs \<Longrightarrow> length (filter P (xs[j := q])) + (if P (xs ! j) then 1 else 0) =
     length (filter P xs) + (if P q then 1 else 0)"
proof (induction xs arbitrary: j)
  case (Cons x xs)
  show ?case
  proof (cases j)
    case (Suc i)
    then show ?thesis using Cons.IH [of i] Cons.prems by simp
  qed simp
qed simp

text \<open>A list sorted by an antisymmetric relation is determined by its elements.\<close>

lemma sorted_wrt_unique:
  assumes "mset xs = mset ys" and "sorted_wrt R xs" and "sorted_wrt R ys"
    and "\<forall>x \<in> set xs. \<forall>y \<in> set xs. R x y \<and> R y x \<longrightarrow> x = y"
  shows "xs = ys"
  using assms
proof (induction xs arbitrary: ys)
  case Nil
  then show ?case by simp
next
  case (Cons x xs)
  then obtain y ys' where ys: "ys = y # ys'" by (cases ys) auto
  have s: "set (x # xs) = set ys" using Cons.prems(1) by (metis set_mset_mset)
  have xy: "x = y"
  proof (rule ccontr)
    assume "x \<noteq> y"
    then have "x \<in> set ys'" "y \<in> set xs" using s ys by auto
    then have "R x y" "R y x" using Cons.prems(2,3) ys by auto
    then show False using Cons.prems(4) \<open>y \<in> set xs\<close> \<open>x \<noteq> y\<close> by auto
  qed
  then have "mset xs = mset ys'" using Cons.prems(1) ys by simp
  then show ?case using Cons ys xy by auto
qed

lemma find_unique:
  assumes "x \<in> set xs" and "P x" and "\<And>y. y \<in> set xs \<Longrightarrow> P y \<Longrightarrow> y = x"
  shows "List.find P xs = Some x"
proof (cases "List.find P xs")
  case None
  then show ?thesis using assms(1,2) by (auto simp: find_None_iff)
next
  case (Some y)
  then show ?thesis using assms(3) [of y] by (auto simp: find_Some_iff)
qed

end
