(* ===== verification/RandLcg.thy ===== *)
theory RandLcg
  imports CPrelude
begin

text \<open>
  The generator of \<^verbatim>\<open>libc/src/common/rand.c\<close>: a linear congruential generator on 64 bits,
  whose upper half is the output. The lemmas show that the generator has full period: from
  every seed every 64-bit state is reached. The rejection loops of the other operations
  terminate because of it.
\<close>

subsection \<open>The generator\<close>

definition seed_step :: "u64 \<Rightarrow> u64" where
  "seed_step s = 6364136223846793005 * s + 1"

definition rand32 :: "u64 \<Rightarrow> u32 \<times> u64" where
  "rand32 s = (let s' = seed_step s in (ucast (drop_bit 32 s'), s'))"

definition rand64 :: "u64 \<Rightarrow> u64 \<times> u64" where
  "rand64 s =
     (let (u0, s1) = rand32 s;
          u = (ucast u0 :: u64);
          (v, s2) = rand32 s1
      in (push_bit 32 u OR ucast v, s2))"

definition t_randseed :: "u64 \<Rightarrow> u64" where
  "t_randseed s = s"

subsection \<open>Geometric sums and their powers of two\<close>

definition geo :: "int \<Rightarrow> nat \<Rightarrow> int" where
  "geo a n = (\<Sum>i<n. a ^ i)"

lemma geo_pow: "a ^ n - 1 = (a - 1) * geo a n"
  unfolding geo_def by (rule power_diff_1_eq)

lemma sum_lessThan_add: "(\<Sum>i<m + n. (f i :: int)) = (\<Sum>i<m. f i) + (\<Sum>i<n. f (m + i))" for m n :: nat
  by (induction n) (simp_all add: add.assoc)

lemma geo_double: "geo a (2 * m) = geo a m * (1 + a ^ m)"
proof -
  have "geo a (m + m) = geo a m + (\<Sum>i<m. a ^ (m + i))"
    unfolding geo_def by (rule sum_lessThan_add)
  also have "(\<Sum>i<m. a ^ (m + i)) = a ^ m * geo a m"
    by (simp add: geo_def power_add sum_distrib_left)
  finally show ?thesis by (simp only: mult_2 distrib_left mult_1_right mult.commute [of "geo a m"])
qed

lemma geo_odd: "odd a \<Longrightarrow> odd (geo a n) \<longleftrightarrow> odd n"
  by (induction n) (auto simp: geo_def)

lemma pow_mod4: "a mod 4 = 1 \<Longrightarrow> (a::int) ^ m mod 4 = 1"
  by (simp flip: power_mod)

lemma pow2_dvd_geo:
  assumes a: "a mod 4 = 1"
  shows "2 ^ k dvd geo a n \<longleftrightarrow> 2 ^ k dvd n"
proof (induction k arbitrary: n)
  case 0
  show ?case by simp
next
  case (Suc k)
  have odd_a: "odd a" using a by presburger
  show ?case
  proof (cases "even n")
    case False
    then have "odd (geo a n)" using geo_odd odd_a by simp
    with False show ?thesis by (auto dest: dvd_mult_left)
  next
    case True
    then obtain m where n: "n = 2 * m" by blast
    define c where "c = (1 + a ^ m) div 2"
    have c: "1 + a ^ m = 2 * c" "odd c"
      using pow_mod4 [OF a, of m] unfolding c_def by presburger+
    have "geo a n = 2 * (geo a m * c)"
      by (simp only: n geo_double c mult.left_commute)
    then have "2 ^ Suc k dvd geo a n \<longleftrightarrow> 2 * 2 ^ k dvd 2 * (geo a m * c)"
      by (simp only: power_Suc)
    also have "\<dots> \<longleftrightarrow> 2 ^ k dvd geo a m"
      using c(2) by (subst dvd_mult_cancel_left) (simp add: coprime_dvd_mult_left_iff)
    also have "\<dots> \<longleftrightarrow> 2 ^ k dvd m" by (rule Suc.IH)
    finally show ?thesis by (simp add: n)
  qed
qed

subsection \<open>Iterating the generator\<close>

definition lcg_mul :: int where
  "lcg_mul = 6364136223846793005"

lemma seed_step_int: "seed_step (word_of_int x) = word_of_int (lcg_mul * x + 1)"
  by (simp add: seed_step_def lcg_mul_def)

lemma seed_step_funpow:
  "(seed_step ^^ n) s = word_of_int (lcg_mul ^ n * uint s + geo lcg_mul n)"
proof (induction n)
  case 0
  show ?case by (simp add: geo_def)
next
  case (Suc n)
  have "geo lcg_mul (Suc n) = lcg_mul * geo lcg_mul n + 1"
    using geo_pow [of lcg_mul n] by (simp add: geo_def algebra_simps)
  then have "lcg_mul * (lcg_mul ^ n * uint s + geo lcg_mul n) + 1 =
      lcg_mul ^ Suc n * uint s + geo lcg_mul (Suc n)"
    by (simp add: algebra_simps)
  then show ?case
    by (simp only: funpow.simps comp_apply Suc seed_step_int)
qed

text \<open>
  The increment after \<open>n\<close> steps is a multiple of the geometric sum by an odd factor, so the
  generator returns to a state exactly after multiples of \<open>2 ^ 64\<close> steps.
\<close>

lemma seed_step_returns_iff: "(seed_step ^^ n) s = s \<longleftrightarrow> 2 ^ 64 dvd n"
proof -
  let ?a = lcg_mul
  have odd_step: "odd ((?a - 1) * uint s + 1)"
    by (simp add: lcg_mul_def)
  have "(seed_step ^^ n) s = s \<longleftrightarrow>
      (word_of_int (?a ^ n * uint s + geo ?a n) :: u64) = word_of_int (uint s)"
    by (simp only: seed_step_funpow word_of_int_uint)
  also have "\<dots> \<longleftrightarrow> 2 ^ 64 dvd ?a ^ n * uint s + geo ?a n - uint s"
    by (simp only: word_of_int_eq_iff take_bit_eq_mod mod_eq_dvd_iff len_64)
  also have "?a ^ n * uint s + geo ?a n - uint s = (?a ^ n - 1) * uint s + geo ?a n"
    by (simp add: algebra_simps)
  also have "(?a ^ n - 1) * uint s + geo ?a n = geo ?a n * ((?a - 1) * uint s + 1)"
    by (simp add: geo_pow algebra_simps)
  also have "2 ^ 64 dvd \<dots> \<longleftrightarrow> (2::int) ^ 64 dvd geo ?a n"
    using odd_step by (intro coprime_dvd_mult_left_iff)
      (simp only: coprime_power_left_iff coprime_left_2_iff_odd simp_thms)
  also have "\<dots> \<longleftrightarrow> 2 ^ 64 dvd n"
    by (rule pow2_dvd_geo) (simp add: lcg_mul_def)
  finally show ?thesis .
qed

lemma seed_step_inj_on:
  assumes "N \<le> 2 ^ 64"
  shows "inj_on (\<lambda>n. (seed_step ^^ n) s) {..<N}"
proof (rule linorder_inj_onI)
  fix i j :: nat
  assume ij: "i < j" "i \<in> {..<N}" "j \<in> {..<N}"
  have "(seed_step ^^ j) s = (seed_step ^^ (j - i)) ((seed_step ^^ i) s)"
    using ij(1) by (metis funpow_add comp_apply le_add_diff_inverse2 less_imp_le)
  moreover have "\<not> 2 ^ 64 dvd j - i"
    using ij assms by (intro nat_dvd_not_less) auto
  ultimately show "(seed_step ^^ i) s \<noteq> (seed_step ^^ j) s"
    using seed_step_returns_iff [of "j - i" "(seed_step ^^ i) s"] by metis
qed auto

lemma seed_step_reaches: "\<exists>n. (seed_step ^^ n) s = t"
proof -
  define N where "N = card (UNIV :: u64 set)"
  have "N \<le> 2 ^ 64"
    by (simp only: N_def card_word len_64 order_refl)
  from card_image [OF seed_step_inj_on [OF this, of s]]
  have "card ((\<lambda>n. (seed_step ^^ n) s) ` {..<N}) = card (UNIV :: u64 set)"
    by (simp only: card_lessThan N_def)
  from card_subset_eq [OF finite subset_UNIV this]
  have "t \<in> (\<lambda>n. (seed_step ^^ n) s) ` {..<N}"
    by (simp only: UNIV_I)
  then show ?thesis by (elim imageE) (rule exI, rule sym)
qed

subsection \<open>Outputs along the orbit\<close>

lemma even_seed_step: "even (seed_step s) \<longleftrightarrow> odd s"
  by (simp add: seed_step_def)

lemma even_seed_step_funpow: "even ((seed_step ^^ n) s) \<longleftrightarrow> (even n \<longleftrightarrow> even s)"
  by (induction n) (auto simp: even_seed_step)

lemma snd_rand64: "snd (rand64 s) = seed_step (seed_step s)"
  by (simp add: rand64_def rand32_def Let_def)

lemma rand64_small: "seed_step s < 2 ^ 32 \<Longrightarrow> fst (rand64 s) < 2 ^ 32"
proof -
  assume "seed_step s < 2 ^ 32"
  then have "drop_bit 32 (seed_step s) = 0"
    by (simp add: drop_bit_eq_div div_word_less)
  then have "fst (rand64 s) = ucast (ucast (drop_bit 32 (seed_step (seed_step s))) :: u32)"
    by (simp add: rand64_def rand32_def Let_def)
  also have "\<dots> < (2 ^ 32 :: u64)"
    by (rule ucast_32_64_less)
  finally show ?thesis .
qed

text \<open>
  A small output is always ahead: the two states below 2, one of each parity, are both on the
  orbit, so an odd number of steps leads to one of them.
\<close>

lemma rand64_small_ahead: "\<exists>k. fst (rand64 ((seed_step ^^ (2 * k)) s)) < 2 ^ 32"
proof -
  define t :: u64 where "t = (if even s then 1 else 0)"
  obtain n where n: "(seed_step ^^ n) s = t"
    using seed_step_reaches by blast
  have "odd n"
    using even_seed_step_funpow [of n s] n by (auto simp: t_def split: if_splits)
  then obtain k where "n = Suc (2 * k)" by (auto elim!: oddE)
  with n have "seed_step ((seed_step ^^ (2 * k)) s) < 2 ^ 32"
    by (auto simp: t_def)
  then show ?thesis by (blast intro: rand64_small)
qed

subsection \<open>Property\<close>

text \<open>C7: The generator has full period: from every seed every 64-bit state is reached, and the
  seed comes back exactly after the multiples of \<open>2 ^ 64\<close> steps.\<close>

theorem lcg_full_period:
  "(\<exists>m. (seed_step ^^ m) s = t) \<and> ((seed_step ^^ n) s = s \<longleftrightarrow> 2 ^ 64 dvd n)"
  by (simp only: seed_step_reaches seed_step_returns_iff simp_thms)

end
