(* ===== verification/Rand.thy ===== *)
theory Rand
  imports RandLcg
begin

text \<open>
  The operations of \<^verbatim>\<open>libc/src/common/rand.c\<close> over the generator: uniform draws by rejection,
  shuffling, and the choice of \<open>k\<close> distinct numbers. The static \<^verbatim>\<open>seed\<close> is threaded through
  explicitly; arrays are lists, and \<open>None\<close> means that the code does not return a value
  (an unbounded loop, or undefined behaviour).
\<close>

subsection \<open>Uniform draws\<close>

definition randn_bound :: "u64 \<Rightarrow> u64" where
  "randn_bound n = (-1) - ((-1) mod n)"

partial_function (option) randn_loop :: "u64 \<Rightarrow> u64 \<Rightarrow> (u64 \<times> u64) option" where
  "randn_loop m s =
     (case rand64 s of (r, s') \<Rightarrow> if m \<le> r then randn_loop m s' else Some (r, s'))"

definition t_randn :: "u64 \<Rightarrow> u64 \<Rightarrow> (u64 \<times> u64) option" where
  "t_randn n s =
     (if n = 0 then None
      else case randn_loop (randn_bound n) s of
             None \<Rightarrow> None
           | Some (r, s') \<Rightarrow> Some (r mod n, s'))"

definition t_randint :: "u64 \<Rightarrow> u64 \<Rightarrow> u64 \<Rightarrow> (u64 \<times> u64) option" where
  "t_randint a b s =
     (let n = b - a + 1
      in if n \<noteq> 0
         then (case t_randn n s of None \<Rightarrow> None | Some (r, s') \<Rightarrow> Some (a + r, s'))
         else Some (rand64 s))"

lemma randn_loop_reaches:
  "fst (rand64 ((seed_step ^^ (2 * k)) s)) < m \<Longrightarrow> \<exists>r s'. randn_loop m s = Some (r, s') \<and> r < m"
proof (induction k arbitrary: s)
  case 0
  then show ?case
    by (cases "rand64 s") (subst randn_loop.simps, auto simp: not_le)
next
  case (Suc k)
  have "(seed_step ^^ (2 * Suc k)) s = (seed_step ^^ (2 * k)) (snd (rand64 s))"
    by (simp add: snd_rand64 funpow_swap1)
  with Suc show ?case
    by (cases "rand64 s") (subst randn_loop.simps, auto simp: not_le)
qed

lemma unat_randn_bound:
  "n \<noteq> 0 \<Longrightarrow> unat (randn_bound n) = unat n * (unat (-1 :: u64) div unat n)"
proof -
  have "(-1 :: u64) mod n \<le> -1" by simp
  then have "unat (randn_bound n) = unat (-1 :: u64) - unat (-1 :: u64) mod unat n"
    unfolding randn_bound_def by (simp only: unat_sub unat_mod)
  then show ?thesis by (simp only: minus_mod_eq_mult_div)
qed

lemma randn_bound_large:
  assumes "n \<noteq> 0" shows "2 ^ 32 \<le> randn_bound n"
proof -
  define X where "X = unat (-1 :: u64)"
  have X: "2 ^ 33 \<le> X" by (simp add: X_def unat_minus_1_64)
  have n: "0 < unat n" using assms by (simp add: unat_gt_0)
  have "unat n \<le> X" unfolding X_def by (simp flip: word_le_nat_alt)
  then have q: "1 \<le> X div unat n"
    using n by (simp add: div_greater_zero_iff Suc_le_eq)
  have "X < unat n * (X div unat n) + unat n"
    using n by (metis mult.commute div_mult_mod_eq mod_less_divisor nat_add_left_cancel_less)
  also have "\<dots> \<le> 2 * (unat n * (X div unat n))"
    using q by (cases "X div unat n") auto
  finally have "2 ^ 32 \<le> unat (randn_bound n)"
    using X by (simp add: unat_randn_bound [OF assms] X_def)
  then show ?thesis by (simp add: word_le_nat_alt)
qed

lemma t_randn_returns:
  assumes "n \<noteq> 0"
  shows "\<exists>r s'. t_randn n s = Some (r, s') \<and> r < n"
proof -
  obtain k where "fst (rand64 ((seed_step ^^ (2 * k)) s)) < 2 ^ 32"
    using rand64_small_ahead by blast
  then have "fst (rand64 ((seed_step ^^ (2 * k)) s)) < randn_bound n"
    using randn_bound_large [OF assms] by (rule less_le_trans)
  from randn_loop_reaches [OF this] obtain r s' where "randn_loop (randn_bound n) s = Some (r, s')"
    by blast
  then show ?thesis
    using assms by (auto simp: t_randn_def word_mod_less_divisor word_neq_0_conv)
qed

text \<open>Every residue is drawn from the same number of accepted outputs.\<close>

lemma card_residues:
  assumes "0 < (N::nat)" and "v < N"
  shows "card {r. r < N * q \<and> r mod N = v} = q"
proof -
  have "{r. r < N * q \<and> r mod N = v} = (\<lambda>i. N * i + v) ` {..<q}" (is "?A = ?B")
  proof (intro equalityI subsetI)
    fix r assume "r \<in> ?A"
    then have "r = N * (r div N) + v" and "r div N < q"
      using assms by (auto simp: less_mult_imp_div_less mult.commute)
    then show "r \<in> ?B" by blast
  next
    fix r assume "r \<in> ?B"
    then obtain i where i: "i < q" "r = N * i + v" by blast
    then have "N * i + N \<le> N * q"
      by (metis Suc_leI mult_Suc_right mult_le_mono2 add.commute)
    with i assms show "r \<in> ?A" by auto
  qed
  moreover have "inj_on (\<lambda>i. N * i + v) {..<q}"
    using assms by (auto intro!: inj_onI)
  ultimately show ?thesis by (simp add: card_image)
qed

lemma randn_accepted_uniform:
  assumes "v < n"
  shows "card {r. r < randn_bound n \<and> r mod n = v} = unat (-1 :: u64) div unat n"
proof -
  define q where "q = unat (-1 :: u64) div unat n"
  from assms have n: "n \<noteq> 0" by auto
  have b: "unat (randn_bound n) = unat n * q"
    unfolding q_def by (rule unat_randn_bound [OF n])
  have "unat ` {r. r < randn_bound n \<and> r mod n = v} =
      {r. r < unat n * q \<and> r mod unat n = unat v}" (is "?A = ?B")
  proof (intro equalityI subsetI)
    fix r assume "r \<in> ?A"
    then show "r \<in> ?B" by (auto simp: word_less_nat_alt b simp flip: unat_mod)
  next
    fix r assume r: "r \<in> ?B"
    then have lt: "r < unat (randn_bound n)" by (simp add: b)
    also have "\<dots> < 2 ^ 64" using unsigned_less [of "randn_bound n"] by simp
    finally have w: "unat (of_nat r :: u64) = r" by (rule unat_of_nat_64)
    have "(of_nat r :: u64) < randn_bound n" using lt by (simp only: word_less_nat_alt w)
    moreover have "(of_nat r :: u64) mod n = v"
      using r by (simp add: word_unat_eq_iff unat_mod w)
    ultimately show "r \<in> ?A" using w by (metis (mono_tags) imageI mem_Collect_eq)
  qed
  moreover have q: "card ?B = q"
    using assms n by (intro card_residues) (simp_all add: unat_gt_0 word_less_nat_alt)
  moreover have "inj_on unat {r. r < randn_bound n \<and> r mod n = v}"
    by (rule inj_onI) (rule word_unat_eq_iff [THEN iffD2])
  then have "card (unat ` {r. r < randn_bound n \<and> r mod n = v}) = card {r. r < randn_bound n \<and> r mod n = v}"
    by (rule card_image)
  ultimately show ?thesis by (simp only: q_def)
qed

lemma t_randint_in_range:
  assumes "a \<le> b"
  shows "\<exists>r s'. t_randint a b s = Some (r, s') \<and> a \<le> r \<and> r \<le> b"
proof (cases "b - a + 1 = 0")
  case True
  then have "b - a = -1" by (simp add: eq_neg_iff_add_eq_0)
  then have "unat b - unat a = unat (-1 :: u64)"
    using assms by (metis unat_sub)
  moreover have "unat b < 2 ^ 64" using unsigned_less [of b] by simp
  ultimately have "unat a = 0" and "unat b = 2 ^ 64 - 1"
    by (simp_all add: unat_minus_1_64)
  then have "a = 0" and "b = -1" by (simp_all add: word_unat_eq_iff unat_minus_1_64)
  then show ?thesis using True
    by (cases "rand64 s") (simp add: t_randint_def)
next
  case False
  then obtain r s' where r: "t_randn (b - a + 1) s = Some (r, s')" "r < b - a + 1"
    using t_randn_returns by blast
  have "r \<le> b - a"
    using r(2) False unatSuc [of "b - a"]
    by (simp add: word_less_nat_alt word_le_nat_alt add.commute)
  then have "a \<le> a + r \<and> a + r \<le> b"
    using assms by unat_arith
  with r(1) False show ?thesis by (simp add: t_randint_def)
qed

subsection \<open>Shuffling\<close>

text \<open>
  \<^verbatim>\<open>shuffle2\<close> fills \<open>p\<close> from the back, each time with a uniform element of the
  \<open>nq + np\<close> that are left. The arrays \<open>p\<close> and \<open>q\<close> do not overlap in any call.
\<close>

fun shuffle2 :: "u64 list \<Rightarrow> u64 list \<Rightarrow> nat \<Rightarrow> nat \<Rightarrow> u64
    \<Rightarrow> (u64 list \<times> u64 list \<times> u64) option" where
  "shuffle2 p q 0 nq s = Some (p, q, s)"
| "shuffle2 p q (Suc np) nq s =
     (case t_randn (of_nat (nq + Suc np)) s of
        None \<Rightarrow> None
      | Some (w, s') \<Rightarrow>
          (let r = unat w; t = p ! np
           in if r < nq
              then shuffle2 (p[np := q ! r]) (q[r := t]) np nq s'
              else shuffle2 (p[np := p ! (r - nq), r - nq := t]) q np nq s'))"

definition t_shuffle :: "u64 list \<Rightarrow> nat \<Rightarrow> u64 \<Rightarrow> (u64 list \<times> u64) option" where
  "t_shuffle p n s = (case shuffle2 p [] n 0 s of None \<Rightarrow> None | Some (p', _, s') \<Rightarrow> Some (p', s'))"

definition t_randrange :: "nat \<Rightarrow> u64 \<Rightarrow> (u64 list \<times> u64) option" where
  "t_randrange n s = t_shuffle (map of_nat [0..<n]) n s"

lemma t_randn_nat:
  assumes "0 < N" and "N < 2 ^ 64"
  shows "\<exists>r s'. t_randn (of_nat N) s = Some (r, s') \<and> unat r < N"
proof -
  have "(of_nat N :: u64) \<noteq> 0" using assms of_nat_64_eq_0_iff by simp
  then obtain r s' where "t_randn (of_nat N) s = Some (r, s')" "r < of_nat N"
    using t_randn_returns by blast
  then show ?thesis using assms(2) by (auto simp: word_less_nat_alt)
qed

lemma shuffle2_permutes:
  assumes "np \<le> length p" and "nq \<le> length q" and "nq + np < 2 ^ 64"
  shows "\<exists>p' q' s'. shuffle2 p q np nq s = Some (p', q', s') \<and>
    length p' = length p \<and> length q' = length q \<and> mset p' + mset q' = mset p + mset q"
  using assms
proof (induction np arbitrary: p q s)
  case 0
  then show ?case by simp
next
  case (Suc np)
  obtain w s' where w: "t_randn (of_nat (nq + Suc np)) s = Some (w, s')" "unat w < nq + Suc np"
    using t_randn_nat [of "nq + Suc np" s] Suc.prems(3) by auto
  show ?case
  proof (cases "unat w < nq")
    case True
    let ?p = "p[np := q ! unat w]" and ?q = "q[unat w := p ! np]"
    have "mset ?p + mset ?q = mset p + mset q"
      using Suc.prems True by (intro mset_swap_two_lists) simp_all
    with Suc.IH [of ?p ?q s'] Suc.prems w True show ?thesis
      by (simp del: of_nat_Suc of_nat_add) metis
  next
    case False
    let ?i = "unat w - nq"
    have "mset (p[np := p ! ?i, ?i := p ! np]) = mset p"
      using Suc.prems w(2) False by (intro mset_swap) auto
    with Suc.IH [of "p[np := p ! ?i, ?i := p ! np]" q s'] Suc.prems w False show ?thesis
      by (simp del: of_nat_Suc of_nat_add) metis
  qed
qed

lemma t_shuffle_permutes:
  assumes "n \<le> length p" and "n < 2 ^ 64"
  shows "\<exists>p' s'. t_shuffle p n s = Some (p', s') \<and> mset p' = mset p"
  using shuffle2_permutes [of n p 0 "[]" s] assms by (auto simp: t_shuffle_def)

lemma t_randrange_permutation:
  assumes "n < 2 ^ 64"
  shows "\<exists>p' s'. t_randrange n s = Some (p', s') \<and> mset (map unat p') = mset [0..<n]"
proof -
  obtain p' s' where p': "t_randrange n s = Some (p', s')" "mset p' = mset (map of_nat [0..<n])"
    using t_shuffle_permutes [of n "map of_nat [0..<n]" s] assms
    by (auto simp: t_randrange_def)
  then have "mset (map unat p') = mset (map (unat \<circ> (of_nat :: nat \<Rightarrow> u64)) [0..<n])"
    by (metis mset_map map_map)
  also have "map (unat \<circ> (of_nat :: nat \<Rightarrow> u64)) [0..<n] = [0..<n]"
    using assms by (intro map_idI) auto
  finally show ?thesis using p'(1) by blast
qed

subsection \<open>Hash table insertion\<close>

text \<open>
  Open addressing with triangular probing in a table whose length is a power of two: the
  \<open>j\<close>-th probe is \<open>j (j + 1) / 2\<close> cells behind the hash. Result 0 is a new element, -1 an
  element already there.
\<close>

partial_function (option) insert_probe ::
    "u64 list \<Rightarrow> nat \<Rightarrow> u64 \<Rightarrow> nat \<Rightarrow> nat \<Rightarrow> (int \<times> u64 list) option" where
  "insert_probe tab len v i j =
     (if tab ! i \<noteq> 0
      then if tab ! i = v then Some (-1, tab)
           else insert_probe tab len v ((i + j) AND (len - 1)) (j + 1)
      else Some (0, tab[i := v]))"

definition insert :: "u64 list \<Rightarrow> nat \<Rightarrow> u64 \<Rightarrow> (int \<times> u64 list) option" where
  "insert tab len v = insert_probe tab len v (unat v AND (len - 1)) 1"

fun probe_at :: "nat \<Rightarrow> nat \<Rightarrow> nat \<Rightarrow> nat" where
  "probe_at len h 0 = h mod len"
| "probe_at len h (Suc j) = (probe_at len h j + Suc j) mod len"

lemma and_pow2_minus_1: "(i::nat) AND (2 ^ e - 1) = i mod 2 ^ e"
  by (metis mask_eq_exp_minus_1 take_bit_eq_mask take_bit_eq_mod)

fun tri :: "nat \<Rightarrow> nat" where
  "tri 0 = 0"
| "tri (Suc j) = tri j + Suc j"

lemma tri_double: "2 * tri j = j * Suc j"
  by (induction j) simp_all

lemma tri_mono: "i \<le> j \<Longrightarrow> tri i \<le> tri j"
  by (rule lift_Suc_mono_le) simp_all

lemma probe_at_closed: "probe_at len h j = (h + tri j) mod len"
  by (induction j) (simp_all only: probe_at.simps tri.simps mod_add_left_eq add_0_right add.assoc)

lemma probe_at_inj:
  assumes "i < j" and "j < 2 ^ e"
  shows "probe_at (2 ^ e) h i \<noteq> probe_at (2 ^ e) h j"
proof
  assume "probe_at (2 ^ e) h i = probe_at (2 ^ e) h j"
  then have "(h + tri j) mod 2 ^ e = (h + tri i) mod 2 ^ e"
    by (simp only: probe_at_closed)
  moreover have le: "tri i \<le> tri j"
    using assms by (intro tri_mono) simp
  ultimately have "2 ^ e dvd tri j - tri i"
    using mod_eq_dvd_iff_nat [of "h + tri i" "h + tri j" "2 ^ e"] by simp
  then have "2 * 2 ^ e dvd 2 * (tri j - tri i)"
    by (intro mult_dvd_mono) simp_all
  also have "2 * (tri j - tri i) = j * Suc j - i * Suc i"
    by (simp only: diff_mult_distrib2 tri_double)
  also have "\<dots> = (j - i) * (j + i + 1)"
  proof -
    obtain d where "j = i + d" using assms(1) less_imp_add_positive by blast
    then show ?thesis by (simp add: algebra_simps)
  qed
  finally have dvd: "2 ^ Suc e dvd (j - i) * (j + i + 1)" by simp
  have "odd (j - i) \<or> odd (j + i + 1)" using assms(1) by presburger
  then show False
  proof
    assume "odd (j - i)"
    then have "coprime (2 ^ Suc e) (j - i)" by (simp add: coprime_power_left_iff)
    from coprime_dvd_mult_right_iff [OF this] dvd have "2 ^ Suc e dvd j + i + 1" by blast
    then have "2 ^ Suc e \<le> j + i + 1" by (rule dvd_imp_le) simp
    then show False using assms by simp
  next
    assume "odd (j + i + 1)"
    then have "coprime (2 ^ Suc e) (j + i + 1)" by (simp add: coprime_power_left_iff)
    from coprime_dvd_mult_left_iff [OF this] dvd have "2 ^ Suc e dvd j - i" by blast
    then have "2 ^ Suc e \<le> j - i" using assms(1) by (intro dvd_imp_le) simp_all
    then show False using assms by simp
  qed
qed

lemma probe_at_covers:
  assumes "i < 2 ^ e"
  shows "\<exists>j < 2 ^ e. probe_at (2 ^ e) h j = i"
proof -
  have inj: "inj_on (probe_at (2 ^ e) h) {..<2 ^ e}"
    by (rule linorder_inj_onI) (auto dest: probe_at_inj)
  have "probe_at (2 ^ e) h ` {..<2 ^ e} \<subseteq> {..<2 ^ e}"
    by (auto simp: probe_at_closed)
  with inj have "probe_at (2 ^ e) h ` {..<2 ^ e} = {..<2 ^ e}"
    by (simp add: endo_inj_surj)
  with assms show ?thesis by (metis imageE lessThan_iff)
qed

lemma insert_probe_step:
  "insert_probe tab (2 ^ e) v (probe_at (2 ^ e) h j) (Suc j) =
     (if tab ! probe_at (2 ^ e) h j \<noteq> 0
      then if tab ! probe_at (2 ^ e) h j = v then Some (-1, tab)
           else insert_probe tab (2 ^ e) v (probe_at (2 ^ e) h (Suc j)) (Suc (Suc j))
      else Some (0, tab[probe_at (2 ^ e) h j := v]))"
  by (subst insert_probe.simps) (simp only: and_pow2_minus_1 probe_at.simps flip: Suc_eq_plus1)

text \<open>The first probe that is empty or holds the element decides the result.\<close>

lemma insert_probe_run:
  assumes "j \<le> k" and "\<And>l. j \<le> l \<Longrightarrow> l < k \<Longrightarrow> tab ! probe_at (2 ^ e) h l \<notin> {0, v}"
    and "tab ! probe_at (2 ^ e) h k \<in> {0, v}" and "v \<noteq> 0"
  shows "insert_probe tab (2 ^ e) v (probe_at (2 ^ e) h j) (Suc j) =
    (if tab ! probe_at (2 ^ e) h k = 0 then Some (0, tab[probe_at (2 ^ e) h k := v])
     else Some (-1, tab))"
  using assms(1,2)
proof (induction rule: inc_induct)
  case base
  then show ?case using assms(3,4) by (auto simp: insert_probe_step)
next
  case (step n)
  from step.prems [of n] step.hyps have "tab ! probe_at (2 ^ e) h n \<notin> {0, v}" by simp
  then have "insert_probe tab (2 ^ e) v (probe_at (2 ^ e) h n) (Suc n) =
      insert_probe tab (2 ^ e) v (probe_at (2 ^ e) h (Suc n)) (Suc (Suc n))"
    by (subst insert_probe_step) (simp del: probe_at.simps)
  with step.IH step.prems show ?case by (metis Suc_leD)
qed

text \<open>
  The table invariant: every element is found by probing from its hash through occupied cells.
\<close>

definition tab_ok :: "nat \<Rightarrow> u64 list \<Rightarrow> bool" where
  "tab_ok e tab \<longleftrightarrow> length tab = 2 ^ e \<and>
     (\<forall>i < 2 ^ e. tab ! i \<noteq> 0 \<longrightarrow>
        (\<exists>k. probe_at (2 ^ e) (unat (tab ! i)) k = i \<and>
           (\<forall>l < k. tab ! probe_at (2 ^ e) (unat (tab ! i)) l \<noteq> 0)))"

lemma insert_spec:
  assumes ok: "tab_ok e tab" and v: "v \<noteq> 0" and free: "0 \<in> set tab"
  shows "if v \<in> set tab then insert tab (2 ^ e) v = Some (-1, tab)
    else \<exists>i < 2 ^ e. tab ! i = 0 \<and> insert tab (2 ^ e) v = Some (0, tab[i := v]) \<and> tab_ok e (tab[i := v])"
proof -
  let ?h = "unat v" and ?p = "probe_at (2 ^ e) (unat v)"
  have len: "length tab = 2 ^ e" using ok by (simp add: tab_ok_def)
  obtain z where "z < 2 ^ e" "tab ! z = 0" using free len by (metis in_set_conv_nth)
  then have ex: "\<exists>k. tab ! ?p k \<in> {0, v}" using probe_at_covers by (metis insertI1)
  define k where "k = (LEAST k. tab ! ?p k \<in> {0, v})"
  have k: "tab ! ?p k \<in> {0, v}" unfolding k_def using ex by (rule LeastI_ex)
  have before: "tab ! ?p l \<notin> {0, v}" if "l < k" for l
    using that unfolding k_def by (rule not_less_Least)
  have pk: "?p k < 2 ^ e" by (simp add: probe_at_closed)
  have ins: "insert tab (2 ^ e) v =
      (if tab ! ?p k = 0 then Some (0, tab[?p k := v]) else Some (-1, tab))"
    unfolding insert_def and_pow2_minus_1
    using insert_probe_run [of 0 k tab e ?h v] before k v by (simp only: probe_at.simps One_nat_def simp_thms)
  show ?thesis
  proof (cases "v \<in> set tab")
    case True
    then obtain i where i: "i < 2 ^ e" "tab ! i = v" using len by (metis in_set_conv_nth)
    with ok v obtain m where m: "?p m = i" "\<forall>l < m. tab ! ?p l \<noteq> 0"
      unfolding tab_ok_def by blast
    have "k \<le> m" unfolding k_def by (rule Least_le) (simp add: m(1) i(2))
    then have "tab ! ?p k \<noteq> 0" using m i v by (cases "k = m") auto
    with ins True show ?thesis by simp
  next
    case False
    then have zero: "tab ! ?p k = 0" using k pk len by (metis insertE nth_mem singletonD)
    have "tab_ok e (tab[?p k := v])"
      unfolding tab_ok_def
    proof (intro conjI allI impI)
      show "length (tab[?p k := v]) = 2 ^ e" by (simp add: len)
    next
      fix i assume i: "i < 2 ^ e" "tab[?p k := v] ! i \<noteq> 0"
      show "\<exists>m. probe_at (2 ^ e) (unat (tab[?p k := v] ! i)) m = i \<and>
          (\<forall>l<m. tab[?p k := v] ! probe_at (2 ^ e) (unat (tab[?p k := v] ! i)) l \<noteq> 0)"
      proof (cases "i = ?p k")
        case True
        then show ?thesis using before pk len v
          by (intro exI [of _ k]) (simp add: nth_list_update)
      next
        case other: False
        then have "tab[?p k := v] ! i = tab ! i" by simp
        with ok i obtain m where "probe_at (2 ^ e) (unat (tab ! i)) m = i"
            "\<forall>l<m. tab ! probe_at (2 ^ e) (unat (tab ! i)) l \<noteq> 0"
          unfolding tab_ok_def by auto
        then show ?thesis using other pk len v
          by (intro exI [of _ m]) (auto simp: nth_list_update)
      qed
    qed
    with ins zero pk False show ?thesis by auto
  qed
qed

subsection \<open>Properties\<close>

lemma t_randn_unbiased:
  assumes "v < n"
  shows "card {r. r < randn_bound n \<and> r mod n = v} = (2 ^ 64 - 1) div unat n"
  using randn_accepted_uniform [OF assms] by (simp only: unat_minus_1_64)

text \<open>C6: The rejection loop of \<^verbatim>\<open>t_randn\<close> terminates from every seed, for every \<open>n\<close> but 0
  (which the contract excludes), and the draw is below \<open>n\<close>; \<^verbatim>\<open>t_randint\<close> returns a number of the closed
  interval, also when the interval is the whole range and its size wraps to 0.  The draw is unbiased: every residue
  \<open>v < n\<close> comes from the same number of accepted 64-bit outputs, \<open>(2 ^ 64 - 1) div n\<close> of them.\<close>

theorem draws_total:
  "(case t_randn n s of None \<Rightarrow> n = 0 | Some (r, s') \<Rightarrow> r < n) \<and>
   (v < n \<longrightarrow> card {r. r < randn_bound n \<and> r mod n = v} = (2 ^ 64 - 1) div unat n) \<and>
   (a \<le> b \<longrightarrow> (\<exists>r s'. t_randint a b s = Some (r, s') \<and> a \<le> r \<and> r \<le> b))"
  using t_randn_returns [of n s] t_randn_unbiased [of v n] t_randint_in_range [of a b s]
  by (cases "n = 0") (auto simp: t_randn_def)

lemma draws_total_witness:
  "card {r. r < randn_bound 6 \<and> r mod 6 = 5} = (2 ^ 64 - 1) div 6 \<and>
   (\<exists>r s'. t_randint 0 (-1) 7 = Some (r, s') \<and> 0 \<le> r \<and> r \<le> (-1 :: u64))"
  using draws_total [of 6 7 5 0 "-1"] by simp

text \<open>\<^verbatim>\<open>t_randrange\<close> returns a permutation of the numbers below \<open>n\<close>.\<close>

theorem t_randrange_permutes:
  assumes "n < 2 ^ 64"
  shows "\<exists>p s'. t_randrange n s = Some (p, s') \<and> distinct p \<and> unat ` set p = {..<n}"
proof -
  obtain p s' where p: "t_randrange n s = Some (p, s')" "mset (map unat p) = mset [0..<n]"
    using t_randrange_permutation [OF assms] by blast
  then have "distinct (map unat p)" and "set (map unat p) = {0..<n}"
    by (metis mset_eq_imp_distinct_iff distinct_upt, metis mset_eq_setD set_upt)
  with p(1) show ?thesis by (auto simp: distinct_map atLeast0LessThan)
qed

lemma t_randrange_permutes_witness:
  "\<exists>p s'. t_randrange 5 3 = Some (p, s') \<and> distinct p \<and> unat ` set p = {..<5}"
  by (rule t_randrange_permutes) simp

end
