(* ===== verification/RandChoose.thy ===== *)
theory RandChoose
  imports Rand
begin

text \<open>
  \<^verbatim>\<open>t_choose\<close> of \<^verbatim>\<open>libc/src/common/rand.c\<close>: \<open>k\<close> distinct numbers below \<open>n\<close>, by one of four
  methods. The allocator is a parameter (\<open>alloc b\<close>: a request of \<open>b\<close> bytes succeeds). The result
  is the return value, the array and the seed; \<open>None\<close> as in \<^verbatim>\<open>Rand\<close>.
\<close>

subsection \<open>The four methods\<close>

lemma t_randn_Some_pos: "t_randn (of_nat n) s = Some x \<Longrightarrow> 0 < n"
  by (cases n) (simp_all add: t_randn_def)

function choose_select :: "nat \<Rightarrow> nat \<Rightarrow> u64 list \<Rightarrow> u64 \<Rightarrow> (u64 list \<times> u64) option" where
  "choose_select n k p s =
     (if k = 0 then Some (p, s)
      else case t_randn (of_nat n) s of
             None \<Rightarrow> None
           | Some (r, s') \<Rightarrow>
               if unat r < k then choose_select (n - 1) (k - 1) (p[k - 1 := of_nat (n - 1)]) s'
               else choose_select (n - 1) k p s')"
  by pat_completeness auto
termination
  by (relation "measure (\<lambda>(n, k, p, s). n)") (auto dest: t_randn_Some_pos)

declare choose_select.simps [simp del]

partial_function (option) choose_few ::
    "u64 \<Rightarrow> nat \<Rightarrow> u64 list \<Rightarrow> nat \<Rightarrow> u64 \<Rightarrow> (u64 list \<times> u64) option" where
  "choose_few n k p i s =
     (if i < k
      then case t_randn n s of
             None \<Rightarrow> None
           | Some (r, s') \<Rightarrow>
               (let p' = p[i := r]; j = length (takeWhile (\<lambda>x. x \<noteq> p' ! i) p')
                in choose_few n k p' (if j = i then Suc i else i) s')
      else Some (p, s))"

definition choose_dense ::
    "(u64 \<Rightarrow> bool) \<Rightarrow> u64 \<Rightarrow> nat \<Rightarrow> u64 list \<Rightarrow> u64 \<Rightarrow> (int \<times> u64 list \<times> u64) option" where
  "choose_dense alloc n k p s =
     (let m = unat n - k
      in if \<not> alloc ((n - of_nat k) * 8) then Some (-1, p, s)
         else if 2 ^ 64 \<le> m * 8 then None \<comment> \<open>the size wrapped: the next loop leaves the block\<close>
         else
           (let p0 = map of_nat [0..<k] @ drop k p;
                tab = map of_nat [k..<unat n]
            in if k < m
               then (case shuffle2 p0 tab k m s of
                       None \<Rightarrow> None | Some (p', _, s') \<Rightarrow> Some (0, p', s'))
               else (case shuffle2 tab p0 m k s of
                       None \<Rightarrow> None | Some (_, p', s') \<Rightarrow> Some (0, p', s'))))"

partial_function (option) hash_len :: "nat \<Rightarrow> nat \<Rightarrow> nat option" where
  "hash_len len k = (if len < 2 * k then hash_len (len * 2) k else Some len)"

partial_function (option) insert_draw ::
    "u64 list \<Rightarrow> nat \<Rightarrow> u64 \<Rightarrow> u64 \<Rightarrow> (u64 list \<times> u64) option" where
  "insert_draw tab len n s =
     (case t_randn n s of
        None \<Rightarrow> None
      | Some (r, s') \<Rightarrow>
          (case insert tab len (r + 1) of
             None \<Rightarrow> None
           | Some (ret, tab') \<Rightarrow> if ret \<noteq> 0 then insert_draw tab' len n s' else Some (tab', s')))"

fun hash_fill :: "u64 list \<Rightarrow> nat \<Rightarrow> u64 \<Rightarrow> nat \<Rightarrow> u64 \<Rightarrow> (u64 list \<times> u64) option" where
  "hash_fill tab len n 0 s = Some (tab, s)"
| "hash_fill tab len n (Suc i) s =
     (case insert_draw tab len n s of
        None \<Rightarrow> None
      | Some (tab', s') \<Rightarrow> hash_fill tab' len n i s')"

definition choose_hash ::
    "(u64 \<Rightarrow> bool) \<Rightarrow> u64 \<Rightarrow> nat \<Rightarrow> u64 list \<Rightarrow> u64 \<Rightarrow> (int \<times> u64 list \<times> u64) option" where
  "choose_hash alloc n k p s =
     (case hash_len 16 k of
        None \<Rightarrow> None
      | Some len \<Rightarrow>
          if \<not> alloc (of_nat len * 8) then Some (-1, p, s)
          else (case hash_fill (replicate len 0) len n k s of
                  None \<Rightarrow> None
                | Some (tab, s') \<Rightarrow>
                    (let out = map (\<lambda>x. x - 1) (filter (\<lambda>x. x \<noteq> 0) tab)
                     in Some (0, out @ drop (length out) p, s'))))"

definition t_choose ::
    "(u64 \<Rightarrow> bool) \<Rightarrow> u64 \<Rightarrow> nat \<Rightarrow> u64 list \<Rightarrow> u64 \<Rightarrow> (int \<times> u64 list \<times> u64) option" where
  "t_choose alloc n k p s =
     (if n < of_nat k then Some (-1, p, s)
      else if n < 16 then
        (case choose_select (unat n) k p s of None \<Rightarrow> None | Some (p', s') \<Rightarrow> Some (0, p', s'))
      else if k < 8 then
        (case choose_few n k p 0 s of None \<Rightarrow> None | Some (p', s') \<Rightarrow> Some (0, p', s'))
      else if n < 5 * of_nat k \<and> (n - of_nat k) * 8 < - 1 then choose_dense alloc n k p s
      else choose_hash alloc n k p s)"

subsection \<open>Correctness of each method\<close>

lemma choose_select_sorted:
  assumes "k \<le> n" and "n < 2 ^ 64" and "k \<le> length p"
  shows "\<exists>p' s'. choose_select n k p s = Some (p', s') \<and> length p' = length p \<and>
    drop k p' = drop k p \<and> sorted_wrt (<) (map unat (take k p')) \<and> (\<forall>x \<in> set (take k p'). unat x < n)"
  using assms
proof (induction n arbitrary: k p s)
  case 0
  then show ?case by (simp add: choose_select.simps)
next
  case (Suc n)
  show ?case
  proof (cases k)
    case 0
    then show ?thesis by (simp add: choose_select.simps)
  next
    case k: (Suc k')
    obtain r s' where r: "t_randn (of_nat (Suc n)) s = Some (r, s')" "unat r < Suc n"
      using t_randn_nat [of "Suc n" s] Suc.prems by auto
    show ?thesis
    proof (cases "unat r < k")
      case True
      let ?p = "p[k' := of_nat n]"
      obtain p' s'' where IH: "choose_select n k' ?p s' = Some (p', s'')" "length p' = length p"
          "drop k' p' = drop k' ?p" "sorted_wrt (<) (map unat (take k' p'))"
          "\<forall>x \<in> set (take k' p'). unat x < n"
        using Suc.IH [of k' ?p s'] Suc.prems k by auto
      have "p' ! k' = of_nat n" and drop: "drop k p' = drop k p"
        using IH(2,3) Suc.prems k
        by (metis hd_drop_conv_nth Suc_le_lessD length_list_update nth_list_update_eq,
            metis drop_Suc drop_update_cancel lessI drop_drop plus_1_eq_Suc)
      then have "take k p' = take k' p' @ [of_nat n]"
        using IH(2) Suc.prems k by (simp add: take_Suc_conv_app_nth)
      moreover have "unat (of_nat n :: u64) = n" using Suc.prems by simp
      ultimately show ?thesis
        using IH r True k drop
        by (subst choose_select.simps) (auto simp: sorted_wrt_append simp del: of_nat_Suc)
    next
      case False
      then have "k \<le> n" using r(2) Suc.prems by simp
      then obtain p' s'' where IH: "choose_select n k p s' = Some (p', s'')" "length p' = length p"
          "drop k p' = drop k p" "sorted_wrt (<) (map unat (take k p'))"
          "\<forall>x \<in> set (take k p'). unat x < n"
        using Suc.IH [of k p s'] Suc.prems by auto
      then show ?thesis
        using r False k
        by (subst choose_select.simps) (auto simp del: of_nat_Suc intro: less_SucI)
    qed
  qed
qed

lemma t_randn_less: "t_randn n s = Some (r, s') \<Longrightarrow> r < n"
  using t_randn_returns [of n s] by (cases "n = 0") (auto simp: t_randn_def)

lemma takeWhile_index_eq:
  assumes "length (takeWhile (\<lambda>x. x \<noteq> p ! i) p) = i" and "i < length p"
  shows "p ! i \<notin> set (take i p)"
proof
  assume "p ! i \<in> set (take i p)"
  then obtain l where l: "l < i" "p ! l = p ! i" using assms(2)
    by (auto simp: in_set_conv_nth)
  then have "p ! l \<in> set (takeWhile (\<lambda>x. x \<noteq> p ! i) p)"
    using assms(1) by (metis nth_mem takeWhile_nth)
  then show False using l(2) by (auto dest: set_takeWhileD)
qed

lemma choose_few_distinct:
  assumes "choose_few n k p i s = Some (p', s')" and "i \<le> k" and "k \<le> length p"
    and "distinct (take i p)" and "\<forall>x \<in> set (take i p). x < n"
  shows "length p' = length p \<and> distinct (take k p') \<and> (\<forall>x \<in> set (take k p'). x < n)"
proof -
  let ?P = "\<lambda>n k p i (s :: u64) res. i \<le> k \<longrightarrow> k \<le> length p \<longrightarrow> distinct (take i p) \<longrightarrow>
      (\<forall>x \<in> set (take i p). x < n) \<longrightarrow>
      length (fst res) = length p \<and> distinct (take k (fst res)) \<and> (\<forall>x \<in> set (take k (fst res)). x < n)"
  have "?P n k p i s (p', s')"
  proof (rule choose_few.raw_induct [where P = ?P, OF _ assms(1)], intro impI)
    fix f n k p i s and res :: "u64 list \<times> u64"
    assume IH: "\<And>n k p i s res. f n k p i s = Some res \<Longrightarrow> ?P n k p i s res"
      and eq: "(if i < k
           then case t_randn n s of None \<Rightarrow> None
                | Some (r, s') \<Rightarrow> let p' = p[i := r]; j = length (takeWhile (\<lambda>x. x \<noteq> p' ! i) p')
                    in f n k p' (if j = i then Suc i else i) s'
           else Some (p, s)) = Some res"
      and pre: "i \<le> k" "k \<le> length p" "distinct (take i p)" "\<forall>x \<in> set (take i p). x < n"
    show "length (fst res) = length p \<and> distinct (take k (fst res)) \<and>
        (\<forall>x \<in> set (take k (fst res)). x < n)"
    proof (cases "i < k")
      case False
      with eq pre show ?thesis by auto
    next
      case True
      with eq obtain r s1 where r: "t_randn n s = Some (r, s1)"
        by (auto split: option.splits)
      define q where "q = p[i := r]"
      define i' where "i' = (if length (takeWhile (\<lambda>x. x \<noteq> q ! i) q) = i then Suc i else i)"
      have f: "f n k q i' s1 = Some res"
        using eq True r by (simp add: q_def i'_def Let_def)
      have take: "take i q = take i p" "length q = length p" "q ! i = r"
        using True pre by (simp_all add: q_def)
      have "distinct (take i' q) \<and> (\<forall>x \<in> set (take i' q). x < n)"
        using pre True take takeWhile_index_eq [of q i] t_randn_less [OF r]
        by (auto simp: i'_def take_Suc_conv_app_nth)
      moreover have "i' \<le> k" using True by (simp add: i'_def)
      ultimately show ?thesis using IH [OF f] pre take by simp
    qed
  qed
  with assms show ?thesis by simp
qed

lemma choose_dense_distinct:
  assumes res: "choose_dense alloc n k p s = Some (0, p', s')"
    and k: "k \<le> unat n" "length p = k"
  shows "length p' = k \<and> distinct p' \<and> (\<forall>x \<in> set p'. x < n)"
proof -
  define N where "N = unat n"
  have N: "N < 2 ^ 64" using unsigned_less [of n] by (simp add: N_def)
  let ?p = "map of_nat [0..<k] :: u64 list" and ?t = "map of_nat [k..<N] :: u64 list"
  have all: "mset ?p + mset ?t = mset (map of_nat [0..<N])"
  proof -
    have "[0..<N] = [0..<k] @ [k..<N]"
      using k(1) upt_add_eq_append [of 0 k "N - k"] by (simp add: N_def)
    then show ?thesis by (simp only: map_append mset_append)
  qed
  have dist: "distinct (map of_nat [0..<N] :: u64 list)"
    using N by (auto simp: distinct_map intro!: inj_onI dest: arg_cong [where f = unat])
  have below: "\<forall>x \<in> set (map of_nat [0..<N] :: u64 list). x < n"
    using N by (auto simp: word_less_nat_alt N_def)
  have part: "distinct a \<and> (\<forall>x \<in> set a. x < n)" if "mset a + mset b = mset ?p + mset ?t" for a b
  proof -
    have "mset (a @ b) = mset (map of_nat [0..<N])" using that all by simp
    then have "distinct (a @ b)" and "set (a @ b) = set (map of_nat [0..<N] :: u64 list)"
      using dist by (metis mset_eq_imp_distinct_iff, metis mset_eq_setD)
    then have "distinct a" and "set a \<subseteq> set (map of_nat [0..<N] :: u64 list)"
      by (simp, metis set_append Un_upper1)
    with below show ?thesis by blast
  qed
  have sum: "k + (N - k) = N" "N - k + k = N" using k(1) by (simp_all add: N_def)
  show ?thesis
  proof (cases "k < N - k")
    case True
    obtain a b s1 where "shuffle2 ?p ?t k (N - k) s = Some (a, b, s1)" "length a = k"
        "mset a + mset b = mset ?p + mset ?t"
      using shuffle2_permutes [of k ?p "N - k" ?t s] N sum by auto
    then show ?thesis
      using res k True part by (auto simp: choose_dense_def Let_def N_def split: if_splits)
  next
    case False
    obtain a b s1 where "shuffle2 ?t ?p (N - k) k s = Some (a, b, s1)" "length b = k"
        "mset b + mset a = mset ?p + mset ?t"
      using shuffle2_permutes [of "N - k" ?t k ?p s] N sum by (auto simp: add.commute)
    then show ?thesis
      using res k False part by (auto simp: choose_dense_def Let_def N_def split: if_splits)
  qed
qed

lemma choose_dense_returns:
  assumes "k \<le> unat n" "length p = k" "(unat n - k) * 8 < 2 ^ 64" "alloc ((n - of_nat k) * 8)"
  shows "\<exists>p' s'. choose_dense alloc n k p s = Some (0, p', s')"
proof -
  have N: "unat n < 2 ^ 64" using unsigned_less [of n] by simp
  let ?p = "map of_nat [0..<k] :: u64 list" and ?t = "map of_nat [k..<unat n] :: u64 list"
  show ?thesis
    using shuffle2_permutes [of k ?p "unat n - k" ?t s] shuffle2_permutes [of "unat n - k" ?t k ?p s]
      assms N by (auto simp: choose_dense_def Let_def)
qed

subsection \<open>The hash method\<close>

lemma hash_len_pow2:
  "\<exists>e. hash_len (2 ^ d) k = Some (2 ^ e) \<and> 2 * k \<le> 2 ^ e"
proof (induction "2 * k - 2 ^ d" arbitrary: d rule: less_induct)
  case less
  show ?case
  proof (cases "2 ^ d < 2 * k")
    case False
    then show ?thesis by (subst hash_len.simps) auto
  next
    case True
    moreover have "(0::nat) < 2 ^ d" by simp
    ultimately have "2 * k - 2 ^ Suc d < 2 * k - 2 ^ d" unfolding power_Suc by linarith
    from less [OF this] True show ?thesis by (subst hash_len.simps) (simp add: mult.commute)
  qed
qed

abbreviation used :: "u64 list \<Rightarrow> u64 list" where
  "used tab \<equiv> filter (\<lambda>x. x \<noteq> 0) tab"

lemma used_update:
  assumes "i < length tab" "tab ! i = 0" "v \<noteq> 0"
  shows "mset (used (tab[i := v])) = add_mset v (mset (used tab))"
  using assms by (simp add: mset_filter mset_update)

lemma free_cell: "length (used tab) < length tab \<Longrightarrow> 0 \<in> set tab"
  using filter_id_conv [of "\<lambda>x. x \<noteq> 0" tab] by (metis less_irrefl)

lemma insert_draw_fresh:
  assumes "insert_draw tab (2 ^ e) n s = Some (tab', s')" and "tab_ok e tab" and "0 \<in> set tab"
  shows "\<exists>v i. i < 2 ^ e \<and> tab ! i = 0 \<and> v \<notin> set tab \<and> v \<noteq> 0 \<and> v - 1 < n \<and>
    tab' = tab[i := v] \<and> tab_ok e tab'"
proof -
  let ?P = "\<lambda>tab (len :: nat) n (s :: u64) res. len = 2 ^ e \<longrightarrow> tab_ok e tab \<longrightarrow> 0 \<in> set tab \<longrightarrow>
      (\<exists>v i. i < 2 ^ e \<and> tab ! i = 0 \<and> v \<notin> set tab \<and> v \<noteq> 0 \<and> v - 1 < n \<and>
        fst res = tab[i := v] \<and> tab_ok e (fst res))"
  have "?P tab (2 ^ e) n s (tab', s')"
  proof (rule insert_draw.raw_induct [where P = ?P, OF _ assms(1)], intro impI)
    fix f tab len n s and res :: "u64 list \<times> u64"
    assume IH: "\<And>tab len n s res. f tab len n s = Some res \<Longrightarrow> ?P tab len n s res"
      and eq: "(case t_randn n s of None \<Rightarrow> None
           | Some (r, s') \<Rightarrow>
               (case insert tab len (r + 1) of None \<Rightarrow> None
                | Some (ret, tab') \<Rightarrow> if ret \<noteq> 0 then f tab' len n s' else Some (tab', s'))) = Some res"
      and pre: "len = 2 ^ e" "tab_ok e tab" "0 \<in> set tab"
    from eq obtain r s1 where r: "t_randn n s = Some (r, s1)"
      by (auto split: option.splits)
    have lt: "r < n" by (rule t_randn_less [OF r])
    then have "r \<noteq> -1" by auto
    then have v: "r + 1 \<noteq> 0" by (simp add: eq_neg_iff_add_eq_0)
    show "\<exists>v i. i < 2 ^ e \<and> tab ! i = 0 \<and> v \<notin> set tab \<and> v \<noteq> 0 \<and> v - 1 < n \<and>
        fst res = tab[i := v] \<and> tab_ok e (fst res)"
    proof (cases "r + 1 \<in> set tab")
      case True
      with insert_spec [OF pre(2) v pre(3)] eq r pre(1) have "f tab (2 ^ e) n s1 = Some res"
        by simp
      from IH [OF this] pre show ?thesis by simp
    next
      case False
      with insert_spec [OF pre(2) v pre(3)] obtain i where "i < 2 ^ e" "tab ! i = 0"
          "insert tab (2 ^ e) (r + 1) = Some (0, tab[i := r + 1])" "tab_ok e (tab[i := r + 1])"
        by auto
      with eq r pre(1) v False lt show ?thesis
        by (intro exI [of _ "r + 1"] exI [of _ i]) auto
    qed
  qed
  with assms show ?thesis by simp
qed

lemma hash_fill_distinct:
  assumes "hash_fill tab (2 ^ e) n i s = Some (tab', s')" and "tab_ok e tab"
    and "length (used tab) + i \<le> 2 ^ e" and "distinct (used tab)"
    and "\<forall>x \<in> set (used tab). x - 1 < n"
  shows "length (used tab') = length (used tab) + i \<and> distinct (used tab') \<and>
    (\<forall>x \<in> set (used tab'). x - 1 < n)"
  using assms
proof (induction i arbitrary: tab s)
  case 0
  then show ?case by simp
next
  case (Suc i)
  have len: "length tab = 2 ^ e" using Suc.prems(2) by (simp add: tab_ok_def)
  from Suc.prems(1) obtain t1 s1 where d: "insert_draw tab (2 ^ e) n s = Some (t1, s1)"
      and f: "hash_fill t1 (2 ^ e) n i s1 = Some (tab', s')"
    by (auto split: option.splits)
  have "0 \<in> set tab" using Suc.prems(3) len by (intro free_cell) simp
  from insert_draw_fresh [OF d Suc.prems(2) this]
  obtain v j where v: "j < 2 ^ e" "tab ! j = 0" "v \<notin> set tab" "v \<noteq> 0" "v - 1 < n"
      "t1 = tab[j := v]" "tab_ok e t1"
    by blast
  then have m: "mset (used t1) = mset (v # used tab)"
    using used_update [of j tab v] len by simp
  have "length (used t1) = Suc (length (used tab))" "distinct (used t1)"
      "\<forall>x \<in> set (used t1). x - 1 < n"
    using m Suc.prems(4,5) v mset_eq_length [OF m] mset_eq_imp_distinct_iff [OF m] mset_eq_setD [OF m]
    by auto
  with Suc.IH [OF f v(7)] Suc.prems(3) show ?case by simp
qed

lemma choose_hash_distinct:
  assumes res: "choose_hash alloc n k p s = Some (0, p', s')" and p: "length p = k"
  shows "length p' = k \<and> distinct p' \<and> (\<forall>x \<in> set p'. x < n)"
proof -
  obtain e where e: "hash_len 16 k = Some (2 ^ e)" "2 * k \<le> 2 ^ e"
    using hash_len_pow2 [of 4 k] by auto
  from res obtain tab where f: "hash_fill (replicate (2 ^ e) 0) (2 ^ e) n k s = Some (tab, s')"
      and p': "p' = map (\<lambda>x. x - 1) (used tab) @ drop (length (used tab)) p"
    by (auto simp: choose_hash_def e Let_def split: if_splits option.splits)
  have u: "used (replicate (2 ^ e) 0) = []" by simp
  have "tab_ok e (replicate (2 ^ e) 0)" by (simp add: tab_ok_def)
  from hash_fill_distinct [OF f this] e(2) u
  have tab: "length (used tab) = k" "distinct (used tab)" "\<forall>x \<in> set (used tab). x - 1 < n"
    by (simp_all only: list.size add_0 distinct.simps set_simps) auto
  have "inj_on (\<lambda>x :: u64. x - 1) (set (used tab))" by (auto intro: inj_onI)
  with tab p show ?thesis by (auto simp: p' distinct_map)
qed

subsection \<open>The whole operation\<close>

lemma t_choose_distinct:
  assumes res: "t_choose alloc n k p s = Some (0, p', s')" and p: "length p = k" "k < 2 ^ 64"
  shows "length p' = k \<and> distinct p' \<and> (\<forall>x \<in> set p'. x < n)"
proof -
  have k: "k \<le> unat n"
    using res p by (auto simp: t_choose_def word_less_nat_alt split: if_splits)
  have N: "unat n < 2 ^ 64" using unsigned_less [of n] by simp
  consider
      (select) "choose_select (unat n) k p s = Some (p', s')"
    | (few) "choose_few n k p 0 s = Some (p', s')"
    | (dense) "choose_dense alloc n k p s = Some (0, p', s')"
    | (hash) "choose_hash alloc n k p s = Some (0, p', s')"
    using res by (auto simp: t_choose_def split: if_splits option.splits)
  then show ?thesis
  proof cases
    case select
    with choose_select_sorted [OF k N, of p s] p
    have "length p' = k" "sorted_wrt (<) (map unat p')" "\<forall>x \<in> set p'. unat x < unat n"
      by auto
    then show ?thesis
      by (auto simp: word_less_nat_alt strict_sorted_iff distinct_map)
  next
    case few
    have "0 \<le> k" "k \<le> length p" "distinct (take 0 p)" "\<forall>x \<in> set (take 0 p). x < n"
      using p by simp_all
    note choose_few_distinct [OF few this]
    with p have "length p' = k" "distinct (take k p') \<and> (\<forall>x \<in> set (take k p'). x < n)" by auto
    then show ?thesis by (metis order_refl take_all)
  next
    case dense
    from choose_dense_distinct [OF this k p(1)] show ?thesis .
  next
    case hash
    from choose_hash_distinct [OF this p(1)] show ?thesis .
  qed
qed

subsection \<open>Properties\<close>

text \<open>\<^verbatim>\<open>t_choose\<close> returns 0 on the two methods that draw without repetition (\<open>n < 16\<close>, and
  the dense method when its allocation succeeds), and -1 when \<open>n < k\<close>.\<close>

lemma t_choose_returns:
  assumes "length p = k" and "k < 2 ^ 61"
  shows "if unat n < k then t_choose alloc n k p s = Some (-1, p, s)
    else n < 16 \<or> (8 \<le> k \<and> unat n < 5 * k \<and> (unat n - k) * 8 < 2 ^ 64 \<and> alloc ((n - of_nat k) * 8)) \<longrightarrow>
      (\<exists>p' s'. t_choose alloc n k p s = Some (0, p', s'))"
proof (cases "unat n < k")
  case True
  with assms show ?thesis by (simp add: t_choose_def word_less_nat_alt)
next
  case False
  have N: "unat n < 2 ^ 64" using unsigned_less [of n] by simp
  have k5: "unat (5 * of_nat k :: u64) = 5 * k"
    using assms(2) by (simp add: unat_word_ariths)
  have not_max: "(n - of_nat k) * 8 < -1"
  proof -
    have "even ((n - of_nat k) * 8)" and "odd (-1 :: u64)" by simp_all
    then have "(n - of_nat k) * 8 \<noteq> -1" by metis
    then show ?thesis by (simp add: word_order.not_eq_extremum)
  qed
  have "\<exists>p' s'. choose_select (unat n) k p s = Some (p', s')"
    using choose_select_sorted [of k "unat n" p s] False N assms(1) by auto
  moreover have "\<exists>p' s'. choose_dense alloc n k p s = Some (0, p', s')"
    if "(unat n - k) * 8 < 2 ^ 64" "alloc ((n - of_nat k) * 8)"
    using choose_dense_returns [of k n p alloc s] False assms(1) that by simp
  ultimately show ?thesis
    using False assms not_max k5 by (auto simp: t_choose_def word_less_nat_alt)
qed

text \<open>C5: \<^verbatim>\<open>t_choose\<close> refuses to choose more numbers than there are; it returns 0 on the two methods that
  draw without repetition (\<open>n < 16\<close>, and the dense method when its allocation succeeds); and whatever the
  method, when it returns 0 the array holds \<open>k\<close> distinct numbers below \<open>n\<close>.\<close>

theorem t_choose_correct:
  assumes "length p = k" and "k < 2 ^ 61"
  shows "(unat n < k \<longrightarrow> t_choose alloc n k p s = Some (-1, p, s)) \<and>
    (k \<le> unat n \<and> (n < 16 \<or> 8 \<le> k \<and> unat n < 5 * k \<and> (unat n - k) * 8 < 2 ^ 64 \<and> alloc ((n - of_nat k) * 8)) \<longrightarrow>
      (\<exists>p' s'. t_choose alloc n k p s = Some (0, p', s'))) \<and>
    (\<forall>p' s'. t_choose alloc n k p s = Some (0, p', s') \<longrightarrow>
      length p' = k \<and> distinct p' \<and> (\<forall>x \<in> set p'. x < n))"
proof (intro conjI impI allI)
  fix p' s'
  assume r: "t_choose alloc n k p s = Some (0, p', s')"
  have k: "k < 2 ^ 64" using assms(2) by simp
  from t_choose_distinct [OF r assms(1) k]
  show "length p' = k" and "distinct p'" and "\<forall>x \<in> set p'. x < n" by blast+
qed (use t_choose_returns [OF assms, of n alloc s] in \<open>simp_all split: if_splits\<close>)

lemma t_choose_correct_witness:
  "\<exists>p' s'. t_choose (\<lambda>_. True) 20 10 (replicate 10 0) 5 = Some (0, p', s') \<and>
    length p' = 10 \<and> distinct p' \<and> (\<forall>x \<in> set p'. x < 20)"
  using t_choose_correct [of "replicate 10 0" 10 20 "\<lambda>_. True" 5] by auto

text \<open>The guard of the dense method against an overflowing allocation size never fires: the
  wrapped product is a multiple of 8 and the bound it is compared with is odd.\<close>

theorem choose_dense_guard_vacuous:
  "t_choose alloc n k p s =
     (if n < of_nat k then Some (-1, p, s)
      else if n < 16 then
        (case choose_select (unat n) k p s of None \<Rightarrow> None | Some (p', s') \<Rightarrow> Some (0, p', s'))
      else if k < 8 then
        (case choose_few n k p 0 s of None \<Rightarrow> None | Some (p', s') \<Rightarrow> Some (0, p', s'))
      else if n < 5 * of_nat k then choose_dense alloc n k p s
      else choose_hash alloc n k p s)"
proof -
  have "even ((n - of_nat k) * 8)" and "odd (-1 :: u64)" by simp_all
  then have "(n - of_nat k) * 8 \<noteq> -1" by metis
  then have "(n - of_nat k) * 8 < -1" by (simp add: word_order.not_eq_extremum)
  then show ?thesis by (simp add: t_choose_def)
qed

end
