(* ===== verification/TestLog.thy ===== *)
theory TestLog
  imports CPrelude "HOL-Library.State_Monad"
begin

text \<open>
  How a test program is modelled (libc/src/common/test.h).  Every check of a test calls
  \<open>t_error\<close>, which prints its own source line and sets the global \<open>t_status\<close> that \<open>main\<close>
  returns.  The model keeps the log: the list of the source lines of the checks that fired, in
  order.  A test that only calls pure functions is a concatenation of \<open>check\<close>s; a test that
  drives a stateful service is a program of the state monad over the service's state and the
  log, with the service's operations as arguments.
\<close>

type_synonym log = "nat list"

definition check :: "nat \<Rightarrow> bool \<Rightarrow> log" where
  "check l ok = (if ok then [] else [l])"

definition t_status :: "log \<Rightarrow> int" where
  "t_status ls = (if ls = [] then 0 else 1)"

lemma check_simps [simp]:
  "check l True = []" "check l False = [l]" "check l ok = [] \<longleftrightarrow> ok"
  by (simp_all add: check_def)

lemma t_status_0 [simp]: "t_status ls = 0 \<longleftrightarrow> ls = []"
  by (simp add: t_status_def)

text \<open>A test that is a table of uses of a macro passes when each use does.\<close>

lemma concat_map_Nil: "concat (map g xs) = [] \<longleftrightarrow> list_all (\<lambda>x. g x = []) xs"
  by (induction xs) auto

lemma list_all_iff_cong:
  "list_all (\<lambda>x. P x \<longleftrightarrow> Q x) xs \<Longrightarrow> list_all P xs \<longleftrightarrow> list_all Q xs"
  by (induction xs) auto

lemma list_all_mono_imp: "list_all P xs \<Longrightarrow> (\<And>x. P x \<Longrightarrow> Q x) \<Longrightarrow> list_all Q xs"
  by (induction xs) auto

subsection \<open>Programs over a service\<close>

type_synonym ('w, 'a) prog = "('w \<times> log, 'a) state"

definition call :: "('w \<Rightarrow> 'a \<times> 'w) \<Rightarrow> ('w \<times> 'l, 'a) state" where
  "call f = State (\<lambda>(w, ls). case f w of (r, w') \<Rightarrow> (r, (w', ls)))"

definition t_error :: "nat \<Rightarrow> ('w, unit) prog" where
  "t_error l = State (\<lambda>(w, ls). ((), (w, ls @ [l])))"

definition ensure :: "nat \<Rightarrow> bool \<Rightarrow> ('w, unit) prog" where
  "ensure l ok = State (\<lambda>(w, ls). ((), (w, ls @ check l ok)))"

definition skip :: "('w, unit) prog" where
  "skip = State_Monad.return ()"

definition run_test :: "('w, 'a) prog \<Rightarrow> 'w \<Rightarrow> log" where
  "run_test p w = snd (snd (run_state p (w, [])))"

definition final_world :: "('w, 'a) prog \<Rightarrow> 'w \<Rightarrow> 'w" where
  "final_world p w = fst (snd (run_state p (w, [])))"

lemma run_call [simp]: "run_state (call f) (w, ls) = (case f w of (r, w') \<Rightarrow> (r, (w', ls)))"
  by (simp add: call_def)

lemma run_t_error [simp]: "run_state (t_error l) (w, ls) = ((), (w, ls @ [l]))"
  by (simp add: t_error_def)

lemma run_ensure [simp]: "run_state (ensure l ok) (w, ls) = ((), (w, ls @ check l ok))"
  by (simp add: ensure_def)

lemma run_skip [simp]: "run_state skip s = ((), s)"
  by (simp add: skip_def)

lemma run_test_ensure: "run_test (ensure l ok) w = check l ok"
  by (simp add: run_test_def)

subsection \<open>Silent runs\<close>

text \<open>The weakest precondition of a run that reports nothing: \<open>silent p Q w\<close> says that \<open>p\<close>, started in
  \<open>w\<close> with an empty log, ends with an empty log and a result and a world that satisfy \<open>Q\<close>.\<close>

definition silent :: "('w, 'a) prog \<Rightarrow> ('a \<Rightarrow> 'w \<Rightarrow> bool) \<Rightarrow> 'w \<Rightarrow> bool" where
  "silent p Q w \<longleftrightarrow> (case run_state p (w, []) of (r, w', ls) \<Rightarrow> ls = [] \<and> Q r w')"

lemma silent_bind: "silent p (\<lambda>r. silent (g r) Q) w \<Longrightarrow> silent (State_Monad.bind p g) Q w"
  by (auto simp: silent_def split: prod.splits)

lemma silent_call: "(case op w of (r, w') \<Rightarrow> Q r w') \<Longrightarrow> silent (call op) Q w"
  by (auto simp: silent_def split: prod.splits)

lemma silent_ensure: "ok \<Longrightarrow> Q () w \<Longrightarrow> silent (ensure l ok) Q w"
  by (simp add: silent_def)

lemma silent_return: "Q x w \<Longrightarrow> silent (State_Monad.return x) Q w"
  by (simp add: silent_def)

lemma silent_skip: "Q () w \<Longrightarrow> silent skip Q w"
  by (simp add: silent_def)

lemma silent_mono: "silent p Q w \<Longrightarrow> (\<And>r w. Q r w \<Longrightarrow> R r w) \<Longrightarrow> silent p R w"
  by (auto simp: silent_def split: prod.splits)

lemma silent_run_test: "silent p Q w \<Longrightarrow> run_test p w = []"
  by (auto simp: silent_def run_test_def split: prod.splits)

lemmas silent_rules = silent_ensure silent_return silent_skip

end
