(* ===== verification/CString.thy ===== *)
theory CString
  imports CPrelude
begin

text \<open>
  The part of the C string library that the sources call, on byte strings.  A C string is the
  list of its bytes before the terminating zero; a byte array is the list of its bytes.
\<close>

type_synonym cstr = "char list"

definition NUL :: char where
  "NUL = CHR 0x00"

definition INT_MAX :: nat where
  "INT_MAX = 2 ^ 31 - 1"

definition c_int :: "int \<Rightarrow> int" where
  "c_int x = sint (word_of_int x :: 32 word)"

definition size_t :: "int \<Rightarrow> nat" where
  "size_t x = unat (word_of_int x :: u64)"

fun strchr :: "cstr \<Rightarrow> char \<Rightarrow> nat option" where
  "strchr [] c = (if c = NUL then Some 0 else None)"
| "strchr (a # s) c = (if a = c then Some 0 else map_option Suc (strchr s c))"

fun strrchr :: "cstr \<Rightarrow> char \<Rightarrow> nat option" where
  "strrchr [] c = (if c = NUL then Some 0 else None)"
| "strrchr (a # s) c =
     (case strrchr s c of Some i \<Rightarrow> Some (Suc i) | None \<Rightarrow> if a = c then Some 0 else None)"

text \<open>The text that \<open>%.*s\<close> prints: a negative precision counts as none.\<close>

definition prec_str :: "int \<Rightarrow> cstr \<Rightarrow> cstr" where
  "prec_str k s = (if k < 0 then s else take (nat k) s)"

text \<open>
  \<open>snprintf\<close> on a buffer of \<open>n\<close> bytes, given the whole formatted text: the value returned, and
  what it stores, \<open>None\<close> where it stores nothing.
\<close>

definition snprintf :: "nat \<Rightarrow> cstr \<Rightarrow> int \<times> cstr option" where
  "snprintf n txt =
     (if INT_MAX < length txt then (-1, None)
      else (int (length txt), if n = 0 then None else Some (take (n - 1) txt)))"

text \<open>\<open>atoi\<close>: leading white space, a sign, the longest run of digits; no value past \<open>int\<close>.\<close>

definition is_space :: "char \<Rightarrow> bool" where
  "is_space c \<longleftrightarrow> c = CHR '' '' \<or> (9 \<le> (of_char c :: nat) \<and> (of_char c :: nat) \<le> 13)"

definition is_digit :: "char \<Rightarrow> bool" where
  "is_digit c \<longleftrightarrow> 48 \<le> (of_char c :: nat) \<and> (of_char c :: nat) \<le> 57"

lemma is_digit_code [code]: "is_digit c \<longleftrightarrow> (let v = of_char c :: int in 48 \<le> v \<and> v \<le> 57)"
proof -
  have "(of_char c :: int) = int (of_char c)" by (simp add: of_nat_of_char)
  then show ?thesis by (simp add: is_digit_def)
qed

definition digits_value :: "cstr \<Rightarrow> int" where
  "digits_value s = foldl (\<lambda>n c. 10 * n + (of_char c - 48)) 0 (takeWhile is_digit s)"

definition atoi :: "cstr \<Rightarrow> int" where
  "atoi s =
     (case dropWhile is_space s of
        [] \<Rightarrow> 0
      | c # s' \<Rightarrow>
          if c = CHR ''-'' then - digits_value s'
          else if c = CHR ''+'' then digits_value s'
          else digits_value (c # s'))"

text \<open>\<open>%u\<close> and \<open>%d\<close>.\<close>

fun dec_digits :: "nat \<Rightarrow> cstr" where
  "dec_digits n =
     (if n < 10 then [char_of (48 + n)] else dec_digits (n div 10) @ [char_of (48 + n mod 10)])"

declare dec_digits.simps [simp del]

definition dec_int :: "int \<Rightarrow> cstr" where
  "dec_int i = (if i < 0 then ''-'' @ dec_digits (nat (- i)) else dec_digits (nat i))"

lemma strrchr_None_iff: "strrchr s c = None \<longleftrightarrow> c \<noteq> NUL \<and> c \<notin> set s"
  by (induction s) (auto split: option.splits)

lemma strrchr_append:
  assumes "c \<noteq> NUL" and "c \<notin> set f"
  shows "strrchr (d @ c # f) c = Some (length d)"
proof (induction d)
  case Nil
  from assms have "strrchr f c = None" by (simp add: strrchr_None_iff)
  then show ?case by simp
next
  case (Cons a d)
  then show ?case by simp
qed

lemma c_int_id: "- (2 ^ 31) \<le> x \<Longrightarrow> x < 2 ^ 31 \<Longrightarrow> c_int x = x"
proof -
  assume "- (2 ^ 31) \<le> x" and "x < 2 ^ 31"
  then have "signed_take_bit 31 x = x" by (rule signed_take_bit_int_eq_self)
  then show ?thesis by (simp add: c_int_def sint_sbintrunc')
qed

lemma size_t_nonneg:
  assumes "0 \<le> x" and "x < 2 ^ 64"
  shows "size_t x = nat x"
proof -
  have "uint (word_of_int x :: u64) = x mod 2 ^ 64" by (simp add: uint_word_of_int)
  also have "\<dots> = x" using assms by (rule mod_pos_pos_trivial)
  finally show ?thesis by (simp only: size_t_def unat_eq_nat_uint)
qed

lemma size_t_minus_1: "size_t (-1) = 2 ^ 64 - 1"
  by (simp only: size_t_def word_m1_wi [symmetric] unat_minus_1_64)

subsection \<open>Comparing strings\<close>

fun strcmp :: "cstr \<Rightarrow> cstr \<Rightarrow> int" where
  "strcmp [] [] = 0"
| "strcmp [] (b # t) = - of_char b"
| "strcmp (a # s) [] = of_char a"
| "strcmp (a # s) (b # t) = (if a = b then strcmp s t else of_char a - of_char b)"

lemma of_char_pos:
  assumes "c \<noteq> NUL"
  shows "(0::int) < of_char c"
proof -
  have "(of_char NUL :: nat) = 0" by (simp add: NUL_def)
  then have "(of_char c :: nat) \<noteq> 0" using assms by (metis of_char_eq_iff)
  then have "0 < int (of_char c)" by simp
  then show ?thesis by (simp add: of_nat_of_char)
qed

lemma of_char_nonneg [simp]: "(0::int) \<le> of_char c"
  by (metis of_nat_0_le_iff of_nat_of_char)

lemma strcmp_flip: "strcmp t s = - strcmp s t"
  by (induction s t rule: strcmp.induct) auto

lemma strcmp_refl [simp]: "strcmp s s = 0"
  by (induction s) auto

lemma strcmp_0_iff: "NUL \<notin> set s \<Longrightarrow> NUL \<notin> set t \<Longrightarrow> strcmp s t = 0 \<longleftrightarrow> s = t"
proof (induction s t rule: strcmp.induct)
  case (2 b t)
  then show ?case using of_char_pos [of b] by auto
next
  case (3 a s)
  then show ?case using of_char_pos [of a] by auto
qed auto

lemma strcmp_trans:
  "NUL \<notin> set s \<Longrightarrow> NUL \<notin> set t \<Longrightarrow> NUL \<notin> set u \<Longrightarrow> strcmp s t \<le> 0 \<Longrightarrow> strcmp t u \<le> 0 \<Longrightarrow> strcmp s u \<le> 0"
proof (induction s t arbitrary: u rule: strcmp.induct)
  case 1
  then show ?case by simp
next
  case (2 b t)
  then show ?case by (cases u) auto
next
  case (3 a s)
  then show ?case using of_char_pos [of a] by auto
next
  case (4 a s b t)
  then show ?case
    using of_char_pos [of a] of_char_pos [of b] by (cases u) (force split: if_splits)+
qed

end
