(* ===== verification/HarnessPrint.thy ===== *)
theory HarnessPrint
  imports CString TestLog
begin

text \<open>
  The reporting half of the harness: \<open>t_printf\<close> (libc/src/common/print.c), \<open>t_pathrel\<close>
  (path.c) and \<open>t_setutf8\<close> (utf8.c).  The file descriptor 1 belongs to the kernel, so
  \<open>write\<close> is an argument: it maps the bytes handed to it and a kernel state to the value
  returned and the next state.
\<close>

record 'k harness =
  status :: int
  os :: 'k

text \<open>
  \<open>vsnprintf\<close> into the 512 bytes of the local buffer: \<open>txt\<close> is the whole formatted text, \<open>None\<close>
  a conversion that fails, and \<open>buf0\<close> the indeterminate contents of the buffer.
\<close>

definition vsnprintf512 :: "cstr option \<Rightarrow> char list \<Rightarrow> int \<times> char list" where
  "vsnprintf512 txt buf0 =
     (case txt of
        None \<Rightarrow> (-1, buf0)
      | Some t \<Rightarrow>
          if INT_MAX < length t then (-1, buf0)
          else (int (length t), take 511 t @ [NUL] @ drop (Suc (length (take 511 t))) buf0))"

definition t_printf ::
    "(char list \<Rightarrow> 'k \<Rightarrow> int \<times> 'k) \<Rightarrow> char list \<Rightarrow> cstr option \<Rightarrow> 'k harness \<Rightarrow> int \<times> 'k harness" where
  "t_printf write buf0 txt h =
     (let h = h\<lparr>status := 1\<rparr>;
          (n, buf) = vsnprintf512 txt buf0;
          (n, buf) =
            (if n < 0 then (0, buf)
             else if 512 \<le> n then
               (let n = (512 :: nat);
                    buf = buf[n - 1 := CHR 0x0A];
                    buf = buf[n - 2 := CHR ''.''];
                    buf = buf[n - 3 := CHR ''.''];
                    buf = buf[n - 4 := CHR ''.'']
                in (int n, buf))
             else (n, buf));
          (r, k) = write (take (nat n) buf) (os h)
      in (r, h\<lparr>os := k\<rparr>))"

definition printed :: "cstr option \<Rightarrow> cstr" where
  "printed txt =
     (case txt of
        None \<Rightarrow> []
      | Some t \<Rightarrow> if INT_MAX < length t then []
                 else if length t < 512 then t
                 else take 508 t @ ''...'' @ [CHR 0x0A])"

lemma length_printed: "length (printed txt) \<le> 512"
  by (simp add: printed_def split: option.split)

lemma patch_tail:
  assumes "length p = 508"
  shows "(p @ [a, b, c, d])[511 := w, 510 := x, 509 := y, 508 := z] = p @ [z, y, x, w]"
proof -
  have "(p @ [a, b, c, d])[511 := w] = p @ [a, b, c, w]" for a b c d
    using list_update_append_add [of p "[a, b, c, d]" 3 w] assms by simp
  moreover have "(p @ [a, b, c, d])[510 := x] = p @ [a, b, x, d]" for a b c d
    using list_update_append_add [of p "[a, b, c, d]" 2 x] assms by simp
  moreover have "(p @ [a, b, c, d])[509 := y] = p @ [a, y, c, d]" for a b c d
    using list_update_append_add [of p "[a, b, c, d]" 1 y] assms by simp
  moreover have "(p @ [a, b, c, d])[508 := z] = p @ [z, b, c, d]" for a b c d
    using list_update_append_add [of p "[a, b, c, d]" 0 z] assms by simp
  ultimately show ?thesis by (simp only:)
qed

lemma length_3_ex: "length xs = 3 \<Longrightarrow> \<exists>a b c. xs = [a, b, c]"
  by (auto simp: numeral_3_eq_3 length_Suc_conv)

lemma take_511_split:
  assumes "512 \<le> length t"
  shows "\<exists>a b c. take 511 t = take 508 t @ [a, b, c]"
proof -
  have "take 511 t = take 508 t @ take 3 (drop 508 t)"
    using take_add [of 508 3 t] by simp
  moreover have "length (take 3 (drop 508 t)) = 3" using assms by simp
  then have "\<exists>a b c. take 3 (drop 508 t) = [a, b, c]" by (rule length_3_ex)
  ultimately show ?thesis by auto
qed

text \<open>C18: \<open>t_printf\<close> always marks the test as failed and hands \<open>write\<close> at most the 512 bytes of
  its buffer, one call only: the formatted text itself when it is shorter than the buffer, its
  first 508 bytes followed by three dots and a newline otherwise, and nothing when the
  conversion fails, whatever the buffer held before.\<close>

theorem t_printf_output:
  assumes "length buf0 = 512"
  shows "t_printf write buf0 txt h =
           (case write (printed txt) (os h) of (r, k) \<Rightarrow> (r, h\<lparr>status := 1, os := k\<rparr>))
         \<and> length (printed txt) \<le> 512"
proof (intro conjI length_printed)
  show "t_printf write buf0 txt h =
          (case write (printed txt) (os h) of (r, k) \<Rightarrow> (r, h\<lparr>status := 1, os := k\<rparr>))"
  proof (cases "\<exists>t. txt = Some t \<and> length t \<le> INT_MAX")
    case False
    then show ?thesis
      by (auto simp: t_printf_def vsnprintf512_def printed_def split: option.splits prod.splits)
  next
    case True
    then obtain t where t: "txt = Some t" "length t \<le> INT_MAX" by blast
    show ?thesis
    proof (cases "length t < 512")
      case True
      with t show ?thesis
        by (auto simp: t_printf_def vsnprintf512_def printed_def split: prod.splits)
    next
      case False
      then obtain a b c where abc: "take 511 t = take 508 t @ [a, b, c]"
        using take_511_split [of t] by auto
      from False have "length (take 508 t) = 508" by simp
      with abc t False assms show ?thesis
        using patch_tail [of "take 508 t" a b c NUL "CHR 0x0A" "CHR ''.''" "CHR ''.''" "CHR ''.''"]
        by (simp add: t_printf_def vsnprintf512_def printed_def split: prod.splits)
    qed
  qed
qed

theorem t_printf_output_witness:
  "t_printf (\<lambda>b k. (int (length b), k @ b)) (replicate 512 NUL) (Some ''ok'') \<lparr>status = 0, os = ''> ''\<rparr>
   = (2, \<lparr>status = 1, os = ''> ok''\<rparr>)"
  using t_printf_output [of "replicate 512 NUL" "\<lambda>b k. (int (length b), k @ b)" "Some ''ok''"
      "\<lparr>status = 0, os = ''> ''\<rparr>"]
  by (simp add: printed_def INT_MAX_def)

subsection \<open>Paths relative to the program\<close>

definition t_pathrel :: "nat \<Rightarrow> cstr \<Rightarrow> cstr \<Rightarrow> cstr option" where
  "t_pathrel n argv0 p =
     (let (k, buf) =
            (case strrchr argv0 (CHR ''/'') of
               Some s \<Rightarrow> snprintf n (prec_str (c_int (int s)) argv0 @ ''/'' @ p)
             | None \<Rightarrow> snprintf n (''./'' @ p))
      in if n \<le> size_t k then None else buf)"

definition sibling_path :: "cstr \<Rightarrow> cstr \<Rightarrow> cstr" where
  "sibling_path argv0 p =
     (if CHR ''/'' \<in> set argv0
      then rev (dropWhile (\<lambda>c. c \<noteq> CHR ''/'') (rev argv0)) @ p
      else ''./'' @ p)"

lemma snprintf_pathrel:
  assumes "n < 2 ^ 64" and "length txt \<le> INT_MAX"
  shows "(let (k, buf) = snprintf n txt in if n \<le> size_t k then None else buf)
         = (if length txt < n then Some txt else None)"
  using assms by (simp add: snprintf_def size_t_nonneg INT_MAX_def)

lemma snprintf_pathrel_long:
  assumes "n < 2 ^ 64" and "INT_MAX < length txt"
  shows "(let (k, buf) = snprintf n txt in if n \<le> size_t k then None else buf) = None"
  using assms by (simp add: snprintf_def size_t_minus_1 INT_MAX_def)

text \<open>\<open>t_pathrel\<close> returns the path of \<open>p\<close> in the directory of \<open>argv0\<close> (everything up to its
  last slash, or the current directory) exactly when that path and its terminator fit the
  buffer, and 0 otherwise, also when the length overflows an \<open>int\<close>; it never truncates.\<close>

theorem t_pathrel_sibling:
  assumes "n < 2 ^ 64" and "length argv0 \<le> INT_MAX"
  shows "t_pathrel n argv0 p =
    (if length (sibling_path argv0 p) < n \<and> length (sibling_path argv0 p) \<le> INT_MAX
     then Some (sibling_path argv0 p) else None)"
proof -
  have *: "t_pathrel n argv0 p =
     (let (k, buf) = snprintf n (sibling_path argv0 p) in if n \<le> size_t k then None else buf)"
  proof (cases "CHR ''/'' \<in> set argv0")
    case False
    then have "strrchr argv0 (CHR ''/'') = None" by (simp add: strrchr_None_iff NUL_def)
    with False show ?thesis by (simp add: t_pathrel_def sibling_path_def)
  next
    case True
    then obtain d f where df: "argv0 = d @ CHR ''/'' # f" "CHR ''/'' \<notin> set f"
      by (meson split_list_last)
    then have "strrchr argv0 (CHR ''/'') = Some (length d)"
      by (simp add: strrchr_append NUL_def)
    moreover have "c_int (int (length d)) = int (length d)"
      using assms(2) df by (intro c_int_id) (simp_all add: INT_MAX_def)
    moreover have "dropWhile (\<lambda>c. c \<noteq> CHR ''/'') (rev argv0) = CHR ''/'' # rev d"
      using df(2) dropWhile_append2 [of "rev f" "\<lambda>c. c \<noteq> CHR ''/''" "CHR ''/'' # rev d"]
      by (auto simp: df(1))
    ultimately show ?thesis
      using df by (simp add: t_pathrel_def sibling_path_def prec_str_def)
  qed
  show ?thesis
  proof (cases "length (sibling_path argv0 p) \<le> INT_MAX")
    case True
    with * assms(1) show ?thesis by (simp only: snprintf_pathrel) simp
  next
    case False
    with * assms(1) show ?thesis by (simp only: snprintf_pathrel_long not_le) simp
  qed
qed

theorem t_pathrel_sibling_witness:
  "t_pathrel 32 ''/libc/entry.exe'' ''dso.so'' = Some ''/libc/dso.so''"
  using t_pathrel_sibling [of 32 "''/libc/entry.exe''" "''dso.so''"]
  by (simp add: sibling_path_def INT_MAX_def)

subsection \<open>Choosing a UTF-8 locale\<close>

definition utf8_locales :: "cstr list" where
  "utf8_locales = [''C.UTF-8'', ''POSIX.UTF-8'', ''en_US.UTF-8'', ''en_GB.UTF-8'', ''en.UTF-8'', ''UTF-8'', '''']"

fun setlocale_any :: "(cstr \<Rightarrow> 'w \<Rightarrow> bool \<times> 'w) \<Rightarrow> cstr list \<Rightarrow> 'w \<Rightarrow> 'w" where
  "setlocale_any setlocale [] w = w"
| "setlocale_any setlocale (l # ls) w =
     (case setlocale l w of (ok, w') \<Rightarrow> if ok then w' else setlocale_any setlocale ls w')"

definition t_setutf8 :: "(cstr \<Rightarrow> 'w \<Rightarrow> bool \<times> 'w) \<Rightarrow> ('w \<Rightarrow> cstr) \<Rightarrow> ('w \<Rightarrow> int) \<Rightarrow> 'w \<Rightarrow> int \<times> 'w" where
  "t_setutf8 setlocale codeset report w =
     (let w' = setlocale_any setlocale utf8_locales w
      in if codeset w' \<noteq> ''UTF-8'' then (report w', w') else (0, w'))"

end
