(* ===== verification/HarnessLimits.thy ===== *)
theory HarnessLimits
  imports TestLog
begin

text \<open>
  The half of the harness that exhausts a resource before a test: \<open>t_fdfill\<close>
  (libc/src/common/fdfill.c) over the descriptor table, \<open>t_setrlim\<close> (setrlim.c) over the
  resource limits, \<open>t_memfill\<close> (memfill.c) over all of them.  The system calls are arguments;
  the locale \<open>fd_table\<close> states what \<open>t_fdfill\<close> relies on, and the kernel's descriptor manager
  provides it in theory KernelFd.  A system call returns \<open>Inl errno\<close> or \<open>Inr value\<close>.
\<close>

type_synonym 'a sysret = "int + 'a"

definition EMFILE :: int where
  "EMFILE = 24"

subsection \<open>Filling the descriptor table\<close>

partial_function (option) dup_all ::
    "(int \<Rightarrow> 'w \<Rightarrow> int sysret \<times> 'w) \<Rightarrow> int \<Rightarrow> 'w \<Rightarrow> 'w option" where
  "dup_all dup fd w =
     (case dup fd w of
        (Inl e, w') \<Rightarrow> Some w'
      | (Inr n, w') \<Rightarrow> dup_all dup fd w')"

definition t_fdfill ::
    "(int \<Rightarrow> 'w \<Rightarrow> int sysret \<times> 'w) \<Rightarrow> ('w \<Rightarrow> int sysret \<times> 'w) \<Rightarrow> 'w \<Rightarrow> 'w option" where
  "t_fdfill dup open_null w =
     (let fd = 1
      in case dup fd w of
           (Inl e, w1) \<Rightarrow>
             if e = EMFILE then Some w1
             else (case open_null w1 of
                     (Inl _, w2) \<Rightarrow> dup_all dup (-1) w2
                   | (Inr fd, w2) \<Rightarrow> dup_all dup fd w2)
         | (Inr _, w1) \<Rightarrow> dup_all dup fd w1)"

text \<open>What a descriptor table promises to its users.\<close>

locale fd_table =
  fixes dup :: "int \<Rightarrow> 'w \<Rightarrow> int sysret \<times> 'w"
    and ok :: "'w \<Rightarrow> bool"
    and opened :: "'w \<Rightarrow> int set"
    and free_slots :: "'w \<Rightarrow> nat"
  assumes dup_full: "ok w \<Longrightarrow> fd \<in> opened w \<Longrightarrow> free_slots w = 0 \<Longrightarrow> dup fd w = (Inl EMFILE, w)"
    and dup_free: "ok w \<Longrightarrow> fd \<in> opened w \<Longrightarrow> 0 < free_slots w \<Longrightarrow>
          \<exists>n w'. dup fd w = (Inr n, w') \<and> ok w' \<and> n \<notin> opened w \<and>
                 opened w' = Set.insert n (opened w) \<and> free_slots w = Suc (free_slots w')"
begin

lemma dup_all_fills:
  assumes "ok w" and "fd \<in> opened w"
  shows "\<exists>w'. dup_all dup fd w = Some w' \<and> ok w' \<and> free_slots w' = 0 \<and> opened w \<subseteq> opened w'"
  using assms
proof (induction "free_slots w" arbitrary: w)
  case 0
  then show ?case
    using dup_full [of w fd] by (subst dup_all.simps) simp
next
  case (Suc k)
  then obtain n w1 where d: "dup fd w = (Inr n, w1)" "ok w1"
      "opened w1 = Set.insert n (opened w)" "free_slots w = Suc (free_slots w1)"
    using dup_free [of w fd] by auto
  then obtain w' where "dup_all dup fd w1 = Some w'" "ok w'" "free_slots w' = 0"
      "opened w1 \<subseteq> opened w'"
    using Suc.hyps(1) [of w1] Suc.hyps(2) Suc.prems(2) by auto
  with d show ?case by (subst dup_all.simps) auto
qed

lemma t_fdfill_fills:
  assumes "ok w" and "1 \<in> opened w"
  shows "\<exists>w'. t_fdfill dup open_null w = Some w' \<and> ok w' \<and> free_slots w' = 0 \<and> opened w \<subseteq> opened w'"
proof (cases "free_slots w")
  case 0
  with assms show ?thesis by (simp add: t_fdfill_def dup_full)
next
  case (Suc k)
  then obtain n w1 where d: "dup 1 w = (Inr n, w1)" "ok w1" "opened w1 = Set.insert n (opened w)"
    using dup_free [of w 1] assms by auto
  then show ?thesis
    using dup_all_fills [of w1 1] assms(2) by (auto simp: t_fdfill_def)
qed

end

subsection \<open>Setting a resource limit\<close>

record rlimit =
  rlim_cur :: u64
  rlim_max :: u64

definition t_setrlim ::
    "(int \<Rightarrow> rlimit \<Rightarrow> 'w \<Rightarrow> (int \<times> rlimit) \<times> 'w) \<Rightarrow> (int \<Rightarrow> rlimit \<Rightarrow> 'w \<Rightarrow> int \<times> 'w)
     \<Rightarrow> rlimit \<Rightarrow> int \<Rightarrow> int \<Rightarrow> ('w, int) prog" where
  "t_setrlim getrlimit setrlimit rl0 r lim =
     do {
       (failed, rl) \<leftarrow> call (getrlimit r rl0);
       if failed \<noteq> 0 then do { t_error 11; State_Monad.return (-1) }
       else if rlim_max rl < word_of_int lim then State_Monad.return (-1)
       else if word_of_int lim = rlim_max rl \<and> word_of_int lim = rlim_cur rl
       then State_Monad.return 0
       else do {
         let rl = rl\<lparr>rlim_max := word_of_int lim\<rparr>;
         let rl = rl\<lparr>rlim_cur := word_of_int lim\<rparr>;
         failed \<leftarrow> call (setrlimit r rl);
         if failed \<noteq> 0 then do { t_error 21; State_Monad.return (-1) }
         else State_Monad.return 0
       }
     }"

subsection \<open>Filling the memory\<close>

definition RLIMIT_DATA :: int where
  "RLIMIT_DATA = 2"

partial_function (option) malloc_all :: "('w \<Rightarrow> bool \<times> 'w) \<Rightarrow> 'w \<Rightarrow> 'w option" where
  "malloc_all malloc1 w =
     (case malloc1 w of (p, w') \<Rightarrow> if p then malloc_all malloc1 w' else Some w')"

text \<open>\<open>vmfill\<close> stands for \<open>t_vmfill(0,0,0)\<close>, \<open>setrlim\<close> for \<open>t_setrlim\<close>, \<open>malloc1\<close> for \<open>malloc(1)\<close>.
  The result is \<open>None\<close> when the last loop does not end.\<close>

definition t_memfill ::
    "('w \<Rightarrow> int \<times> 'w) \<Rightarrow> (int \<Rightarrow> int \<Rightarrow> ('w, int) prog) \<Rightarrow> ('w \<Rightarrow> bool \<times> 'w) \<Rightarrow> 'w \<times> log
     \<Rightarrow> (int \<times> ('w \<times> log)) option" where
  "t_memfill vmfill setrlim malloc1 s =
     (let r = 0;
          (v, s) = run_state (call vmfill) s;
          (r, s) = (if v < 0 then (-1, snd (run_state (t_error 12) s)) else (r, s));
          (d, s) = run_state (setrlim RLIMIT_DATA 0) s;
          r = (if d < 0 then -1 else r)
      in if r = 0
         then (case malloc_all malloc1 (fst s) of None \<Rightarrow> None | Some w \<Rightarrow> Some (r, (w, snd s)))
         else Some (r, s))"

end
