(* ===== verification/HarnessVm.thy ===== *)
theory HarnessVm
  imports TestLog
begin

text \<open>
  \<open>mmax\<close> and \<open>t_vmfill\<close> of libc/src/common/vmfill.c: a binary search for the longest mapping the
  address space still accepts, and a loop that maps it until nothing is left.  \<open>mmap\<close> and
  \<open>munmap\<close> are arguments; the locale \<open>vm_space\<close> states what the search relies on, and the
  kernel's memory set provides it in theory KernelVmm.
\<close>

definition PAGE_SIZE :: u64 where
  "PAGE_SIZE = 4096"

lemma half_less: "PAGE_SIZE \<le> i \<Longrightarrow> unat (i div 2) < unat i"
  by (simp add: PAGE_SIZE_def unat_div word_le_nat_alt)

function mmax_loop ::
    "(u64 \<Rightarrow> 'w \<Rightarrow> 'p option \<times> 'w) \<Rightarrow> ('p \<Rightarrow> u64 \<Rightarrow> 'w \<Rightarrow> 'w) \<Rightarrow> u64 \<Rightarrow> u64 \<Rightarrow> u64 \<Rightarrow> 'w
     \<Rightarrow> u64 \<times> u64 \<times> 'w" where
  "mmax_loop mmap munmap i n start w =
     (if PAGE_SIZE \<le> i
      then case mmap n w of
             (None, w1) \<Rightarrow> mmax_loop mmap munmap (i div 2) (n - i div 2) start w1
           | (Some p, w1) \<Rightarrow>
               let w2 = munmap p n w1;
                   start = (if n = i then n else start)
               in mmax_loop mmap munmap (i div 2) (n + i div 2) start w2
      else (n, start, w))"
  by pat_completeness auto

termination
  by (relation "measure (\<lambda>(_, _, i, _, _, _). unat i)") (auto simp: half_less)

declare mmax_loop.simps [simp del]

lemma mmax_loop_stop: "\<not> PAGE_SIZE \<le> i \<Longrightarrow> mmax_loop mmap munmap i n start w = (n, start, w)"
  by (subst mmax_loop.simps) simp

lemma mmax_loop_fail:
  "PAGE_SIZE \<le> i \<Longrightarrow> mmap n w = (None, w1) \<Longrightarrow>
   mmax_loop mmap munmap i n start w = mmax_loop mmap munmap (i div 2) (n - i div 2) start w1"
  by (subst mmax_loop.simps) simp

lemma mmax_loop_succeed:
  "PAGE_SIZE \<le> i \<Longrightarrow> mmap n w = (Some p, w1) \<Longrightarrow>
   mmax_loop mmap munmap i n start w =
   mmax_loop mmap munmap (i div 2) (n + i div 2) (if n = i then n else start) (munmap p n w1)"
  by (subst mmax_loop.simps) (simp add: Let_def)

definition mmax ::
    "(u64 \<Rightarrow> 'w \<Rightarrow> 'p option \<times> 'w) \<Rightarrow> ('p \<Rightarrow> u64 \<Rightarrow> 'w \<Rightarrow> 'w) \<Rightarrow> u64 \<Rightarrow> 'w \<Rightarrow> u64 \<times> u64 \<times> 'w" where
  "mmax mmap munmap start w =
     (case mmax_loop mmap munmap start start start w of
        (n, start', w') \<Rightarrow> (n AND - PAGE_SIZE, start', w'))"

text \<open>The loop of \<open>t_vmfill\<close>: \<open>i\<close> mappings so far, the arrays \<open>ps\<close> and \<open>ns\<close> of \<open>len\<close> cells.\<close>

partial_function (option) vmfill_loop ::
    "(u64 \<Rightarrow> 'w \<Rightarrow> 'p option \<times> 'w) \<Rightarrow> ('p \<Rightarrow> u64 \<Rightarrow> 'w \<Rightarrow> 'w) \<Rightarrow> nat \<Rightarrow> u64 \<Rightarrow> nat
     \<Rightarrow> 'p list \<Rightarrow> u64 list \<Rightarrow> 'w \<Rightarrow> (int \<times> 'p list \<times> u64 list \<times> 'w) option" where
  "vmfill_loop mmap munmap len start i ps ns w =
     (case mmax mmap munmap start w of
        (m, start', w1) \<Rightarrow>
          if m = 0 then Some (int i, ps, ns, w1)
          else (case mmap m w1 of
                  (None, w2) \<Rightarrow> Some (-1, ps, ns, w2)
                | (Some q, w2) \<Rightarrow>
                    vmfill_loop mmap munmap len start' (i + 1)
                      (if i < len then ps[i := q] else ps) (if i < len then ns[i := m] else ns) w2))"

definition t_vmfill ::
    "(u64 \<Rightarrow> 'w \<Rightarrow> 'p option \<times> 'w) \<Rightarrow> ('p \<Rightarrow> u64 \<Rightarrow> 'w \<Rightarrow> 'w)
     \<Rightarrow> 'p list \<Rightarrow> u64 list \<Rightarrow> nat \<Rightarrow> 'w \<Rightarrow> (int \<times> 'p list \<times> u64 list \<times> 'w) option" where
  "t_vmfill mmap munmap ps ns len w =
     vmfill_loop mmap munmap len ((-1) div 2 + 1) 0 ps ns w"

lemma start_value: "(-1 :: u64) div 2 + 1 = 2 ^ 63"
  by (rule word_unat_eq_iff [THEN iffD2]) (simp add: unat_div unat_word_ariths)

text \<open>The arrays after \<open>xs\<close> has been stored from index \<open>i\<close> on, and sizes in decreasing order.\<close>

fun store :: "nat \<Rightarrow> nat \<Rightarrow> 'a list \<Rightarrow> 'a list \<Rightarrow> 'a list" where
  "store len i [] a = a"
| "store len i (x # xs) a = store len (i + 1) xs (if i < len then a[i := x] else a)"

fun sizes_down :: "nat \<Rightarrow> u64 list \<Rightarrow> bool" where
  "sizes_down r [] = True"
| "sizes_down r (m # ms) = (0 < unat m \<and> unat m \<le> r \<and> sizes_down (unat m) ms)"

lemma sizes_down_mono: "r \<le> r' \<Longrightarrow> sizes_down r ms \<Longrightarrow> sizes_down r' ms"
  by (cases ms) auto

lemma nth_store:
  assumes "length a = len"
  shows "length (store len i xs a) = len \<and>
         (\<forall>j < len. store len i xs a ! j = (if i \<le> j \<and> j < i + length xs then xs ! (j - i) else a ! j))"
  using assms
proof (induction xs arbitrary: i a)
  case Nil
  then show ?case by auto
next
  case (Cons x xs)
  let ?a = "if i < len then a[i := x] else a"
  have "length ?a = len" using Cons.prems by simp
  note IH = Cons.IH [OF this, of "i + 1"]
  show ?case
  proof (intro conjI allI impI)
    show "length (store len i (x # xs) a) = len" using IH by simp
    fix j assume j: "j < len"
    with IH show "store len i (x # xs) a ! j =
        (if i \<le> j \<and> j < i + length (x # xs) then (x # xs) ! (j - i) else a ! j)"
      using Cons.prems by (cases "i = j") (auto simp: nth_list_update Suc_le_eq nth_Cons' not_less)
  qed
qed

text \<open>
  What an address space promises: the requests it accepts are those of at most \<open>room\<close> bytes,
  a mapping that is removed at once leaves no trace, and a mapping uses up room.
\<close>

locale vm_space =
  fixes mmap :: "u64 \<Rightarrow> 'w \<Rightarrow> 'p option \<times> 'w"
    and munmap :: "'p \<Rightarrow> u64 \<Rightarrow> 'w \<Rightarrow> 'w"
    and ok :: "'w \<Rightarrow> bool"
    and room :: "'w \<Rightarrow> nat"
    and total :: "'w \<Rightarrow> nat"
  assumes room_less: "ok w \<Longrightarrow> room w < 2 ^ 63"
    and room_pages: "ok w \<Longrightarrow> 4096 dvd room w"
    and mmap_fails: "ok w \<Longrightarrow> room w < unat n \<Longrightarrow> unat n < 2 ^ 63 + 2 ^ 62 \<Longrightarrow> mmap n w = (None, w)"
    and mmap_maps: "ok w \<Longrightarrow> 0 < unat n \<Longrightarrow> 4096 dvd unat n \<Longrightarrow> unat n \<le> room w \<Longrightarrow>
          \<exists>p w'. mmap n w = (Some p, w') \<and> munmap p n w' = w"
    and mmap_uses: "ok w \<Longrightarrow> 4096 dvd unat n \<Longrightarrow> mmap n w = (Some p, w') \<Longrightarrow>
          ok w' \<and> room w' \<le> room w \<and> total w' < total w"
begin

lemma mmax_loop_room:
  assumes "ok w" and "unat i = 2 ^ e" and "11 \<le> e" and "unat n = c + 2 ^ e"
    and "c \<le> room w" and "room w < c + 2 ^ Suc e" and "2 ^ Suc e dvd c" and "c + 2 ^ e \<le> 2 ^ 63"
  shows "\<exists>n' start'. mmax_loop mmap munmap i n start w = (n', start', w)
           \<and> unat n' = room w + 2 ^ 11
           \<and> (c \<noteq> 0 \<longrightarrow> start' = start)
           \<and> (c = 0 \<and> room w \<noteq> 0 \<longrightarrow> (\<exists>k. 12 \<le> k \<and> k \<le> e \<and> unat start' = 2 ^ k \<and> room w < 2 ^ Suc k))"
  using assms
proof (induction e arbitrary: i n c start)
  case 0
  then show ?case by simp
next
  case (Suc e)
  note prems = Suc.prems
  show ?case
  proof (cases "e < 11")
    case True
    then have e: "e = 10" using prems(3) by simp
    then have "\<not> PAGE_SIZE \<le> i" using prems(2) by (simp add: PAGE_SIZE_def word_le_nat_alt)
    moreover have "room w = c"
    proof -
      obtain a where a: "room w = 4096 * a" using room_pages [OF prems(1)] by (elim dvdE)
      obtain b where b: "c = 4096 * b" using prems(7) e by (auto elim: dvdE)
      from a b prems(5,6) e show ?thesis by simp
    qed
    ultimately show ?thesis
      using prems e by (subst mmax_loop.simps) auto
  next
    case False
    have page: "PAGE_SIZE \<le> i"
    proof -
      have "(2::nat) ^ 12 \<le> 2 ^ Suc e" using False by (intro power_increasing) simp_all
      then show ?thesis using prems(2) by (simp add: PAGE_SIZE_def word_le_nat_alt)
    qed
    have half: "unat (i div 2) = 2 ^ e"
      using prems(2) by (simp add: unat_div)
    show ?thesis
    proof (cases "c + 2 ^ Suc e \<le> room w")
      case False
      have "unat n < 2 ^ 63 + 2 ^ 62" using prems(4,8) by simp
      moreover have "room w < unat n" using False prems(4) by simp
      ultimately have "mmap n w = (None, w)" using mmap_fails prems(1) by blast
      moreover have "unat (n - i div 2) = c + 2 ^ e"
        using half prems(4) by (simp add: unat_sub word_le_nat_alt)
      moreover have "2 ^ Suc e dvd c" using prems(7) by (rule power_le_dvd) simp
      moreover have "e \<ge> 11" "room w < c + 2 ^ Suc e" "c + 2 ^ e \<le> 2 ^ 63"
        using \<open>\<not> e < 11\<close> False prems(8) by simp_all
      ultimately obtain n' start' where
        IH: "mmax_loop mmap munmap (i div 2) (n - i div 2) start w = (n', start', w)"
            "unat n' = room w + 2 ^ 11" "c \<noteq> 0 \<longrightarrow> start' = start"
            "c = 0 \<and> room w \<noteq> 0 \<longrightarrow>
             (\<exists>k. 12 \<le> k \<and> k \<le> e \<and> unat start' = 2 ^ k \<and> room w < 2 ^ Suc k)"
        using Suc.IH [of "i div 2" "n - i div 2" c start] prems(1,5) half by blast
      from IH(4) have "c = 0 \<and> room w \<noteq> 0 \<longrightarrow>
             (\<exists>k. 12 \<le> k \<and> k \<le> Suc e \<and> unat start' = 2 ^ k \<and> room w < 2 ^ Suc k)"
        using le_SucI by blast
      with IH(1-3) show ?thesis
        by (simp only: mmax_loop_fail [of i mmap n w w, OF page \<open>mmap n w = (None, w)\<close>]) blast
    next
      case True
      let ?c = "c + 2 ^ Suc e"
      have "0 < unat n" using prems(4) by simp
      moreover have "unat n \<le> room w" using True prems(4) by simp
      moreover have "4096 dvd unat n"
      proof -
        have "(2::nat) ^ 12 dvd 2 ^ Suc e" using \<open>\<not> e < 11\<close> by (intro le_imp_power_dvd) simp
        moreover have "2 ^ Suc e dvd c" using prems(7) by (rule power_le_dvd) simp
        ultimately have "2 ^ 12 dvd c + 2 ^ Suc e" by (metis dvd_add dvd_trans)
        then show ?thesis using prems(4) by simp
      qed
      ultimately obtain p w' where m: "mmap n w = (Some p, w')" "munmap p n w' = w"
        using mmap_maps prems(1) by blast
      have small: "?c < 2 ^ 63" using True room_less [OF prems(1)] by simp
      have "2 ^ Suc e dvd c" using prems(7) by (rule power_le_dvd) simp
      then have d: "2 ^ Suc e dvd ?c" by (rule dvd_add) (rule dvd_refl)
      have "(2::nat) ^ Suc e < 2 ^ 63" using small by (rule le_less_trans [rotated]) simp
      then have "e < 63" using power_less_imp_less_exp [of "2::nat" "Suc e" 63] by simp
      then have d63: "(2::nat) ^ Suc e dvd 2 ^ 63" by (intro le_imp_power_dvd) simp
      have le: "?c + 2 ^ Suc e \<le> 2 ^ 63"
        using d d63 small by (rule dvd_less_add_le)
      have half_le: "?c + 2 ^ e \<le> 2 ^ 63" using le by simp
      have n': "unat (n + i div 2) = ?c + 2 ^ e"
        using half_le half prems(4) by (simp add: unat_plus_nat_64)
      have ne: "?c \<noteq> 0" by simp
      obtain n' start' where
        IH: "mmax_loop mmap munmap (i div 2) (n + i div 2) (if n = i then n else start) w = (n', start', w)"
            "unat n' = room w + 2 ^ 11" "start' = (if n = i then n else start)"
        using Suc.IH [of "i div 2" "n + i div 2" ?c "if n = i then n else start"]
          prems(1) half n' d half_le True prems(6) \<open>\<not> e < 11\<close> ne by auto
      have iff: "n = i \<longleftrightarrow> c = 0" using prems(2,4) by (auto simp: word_unat_eq_iff)
      have "c = 0 \<longrightarrow> 12 \<le> Suc e \<and> Suc e \<le> Suc e \<and> unat start' = 2 ^ Suc e \<and> room w < 2 ^ Suc (Suc e)"
        using IH(3) iff prems(2,6) \<open>\<not> e < 11\<close> by auto
      then have "c = 0 \<and> room w \<noteq> 0 \<longrightarrow>
          (\<exists>k. 12 \<le> k \<and> k \<le> Suc e \<and> unat start' = 2 ^ k \<and> room w < 2 ^ Suc k)" by blast
      moreover have "c \<noteq> 0 \<longrightarrow> start' = start" using IH(3) iff by simp
      ultimately show ?thesis
        using IH(1,2) by (simp only: mmax_loop_succeed [of i mmap n w p w', OF page m(1)] m(2)) blast
    qed
  qed
qed

lemma mmax_room:
  assumes "ok w" and "unat start = 2 ^ e" and "12 \<le> e" and "e \<le> 63" and "room w < 2 ^ Suc e"
  shows "\<exists>start'. mmax mmap munmap start w = (of_nat (room w), start', w)
           \<and> (room w \<noteq> 0 \<longrightarrow> (\<exists>k. 12 \<le> k \<and> k \<le> 63 \<and> unat start' = 2 ^ k \<and> room w < 2 ^ Suc k))"
proof -
  have "(2::nat) ^ e \<le> 2 ^ 63" using assms(4) by (intro power_increasing) simp_all
  then obtain n' start' where
    l: "mmax_loop mmap munmap start start start w = (n', start', w)" "unat n' = room w + 2 ^ 11"
       "room w \<noteq> 0 \<longrightarrow> (\<exists>k. 12 \<le> k \<and> k \<le> e \<and> unat start' = 2 ^ k \<and> room w < 2 ^ Suc k)"
    using mmax_loop_room [of w start e start 0 start] assms by auto
  obtain a where a: "room w = 4096 * a" using room_pages [OF assms(1)] by (elim dvdE)
  have "unat (n' AND - PAGE_SIZE) = room w"
    using l(2) a by (simp add: PAGE_SIZE_def minus_4096 unat_and_not_mask)
  moreover have "room w < 2 ^ 64" using room_less [OF assms(1)] by simp
  ultimately have "n' AND - PAGE_SIZE = of_nat (room w)"
    by (simp only: word_unat_eq_iff unat_of_nat_64)
  moreover have "room w \<noteq> 0 \<longrightarrow>
      (\<exists>k. 12 \<le> k \<and> k \<le> 63 \<and> unat start' = 2 ^ k \<and> room w < 2 ^ Suc k)"
    using l(3) assms(4) le_trans by blast
  ultimately show ?thesis using l(1) by (simp add: mmax_def)
qed

lemma vmfill_loop_fills:
  assumes "ok w" and "unat start = 2 ^ e" and "12 \<le> e" and "e \<le> 63" and "room w < 2 ^ Suc e"
  shows "\<exists>ms w'. vmfill_loop mmap munmap len start i ps ns w =
             Some (int (i + length ms), store len i (map fst ms) ps, store len i (map snd ms) ns, w')
           \<and> ok w' \<and> room w' = 0 \<and> sizes_down (room w) (map snd ms)"
  using assms
proof (induction "total w" arbitrary: w start e i ps ns rule: less_induct)
  case less
  obtain start' where m: "mmax mmap munmap start w = (of_nat (room w), start', w)"
      "room w \<noteq> 0 \<longrightarrow> (\<exists>k. 12 \<le> k \<and> k \<le> 63 \<and> unat start' = 2 ^ k \<and> room w < 2 ^ Suc k)"
    using mmax_room [OF less.prems] by blast
  have small: "room w < 2 ^ 64" using room_less [OF less.prems(1)] by simp
  show ?case
  proof (cases "room w = 0")
    case True
    have "vmfill_loop mmap munmap len start i ps ns w = Some (int i, ps, ns, w)"
      using m(1) True by (subst vmfill_loop.simps) simp
    with less.prems(1) True show ?thesis
      by (intro exI [of _ "[]"] exI [of _ w]) simp
  next
    case False
    let ?m = "of_nat (room w) :: u64"
    have um: "unat ?m = room w" using small by (rule unat_of_nat_64)
    have nz: "?m \<noteq> 0" using small False by (simp only: of_nat_64_eq_0_iff) simp
    obtain k where k: "12 \<le> k" "k \<le> 63" "unat start' = 2 ^ k" "room w < 2 ^ Suc k"
      using m(2) False by blast
    obtain p w1 where q: "mmap ?m w = (Some p, w1)"
      using mmap_maps [of w ?m] less.prems(1) um False room_pages [OF less.prems(1)] by auto
    have w1: "ok w1" "room w1 \<le> room w" "total w1 < total w"
      using mmap_uses [OF less.prems(1) _ q] um room_pages [OF less.prems(1)] by auto
    let ?ps = "if i < len then ps[i := p] else ps"
    let ?ns = "if i < len then ns[i := ?m] else ns"
    obtain ms w' where r: "vmfill_loop mmap munmap len start' (i + 1) ?ps ?ns w1 =
             Some (int (i + 1 + length ms), store len (i + 1) (map fst ms) ?ps,
                   store len (i + 1) (map snd ms) ?ns, w')"
        "ok w'" "room w' = 0" "sizes_down (room w1) (map snd ms)"
      using less.hyps [OF w1(3,1) k(3,1,2) le_less_trans [OF w1(2) k(4)]] by blast
    have "vmfill_loop mmap munmap len start i ps ns w = vmfill_loop mmap munmap len start' (i + 1) ?ps ?ns w1"
      using m(1) q nz by (subst vmfill_loop.simps) simp
    with r show ?thesis
      using sizes_down_mono [OF w1(2) r(4)] um False
      by (intro exI [of _ "(p, ?m) # ms"] exI [of _ w']) simp
  qed
qed

lemma t_vmfill_fills:
  assumes "ok w"
  shows "\<exists>ms w'. t_vmfill mmap munmap ps ns len w =
             Some (int (length ms), store len 0 (map fst ms) ps, store len 0 (map snd ms) ns, w')
           \<and> ok w' \<and> room w' = 0 \<and> sizes_down (room w) (map snd ms)"
proof -
  have "unat ((2::u64) ^ 63) = 2 ^ 63" by simp
  moreover have "room w < 2 ^ Suc 63" using room_less [OF assms] by simp
  ultimately show ?thesis
    using vmfill_loop_fills [OF assms, of "2 ^ 63" 63 len 0 ps ns] by (simp add: t_vmfill_def start_value)
qed

end

end
