(* ===== verification/BitAlloc.thy ===== *)
theory BitAlloc
  imports CPrelude
begin

text \<open>
  \<open>BitAlloc256\<close> of dependencies/bitmap-allocator/src/lib.rs, the allocator behind the kernel's
  descriptor table (kernel/src/memory/allocator/fd.rs): 16 leaves of 16 bits, a set bit meaning
  free, and a summary word whose bit \<open>i\<close> says that leaf \<open>i\<close> has a free bit.  A panic of the Rust
  code (a failed assertion, an index out of range) is \<open>None\<close>.  The lemmas show that the two
  levels implement a set of free numbers, of which \<open>alloc\<close> takes the least.
\<close>

subsection \<open>The leaf\<close>

definition trailing_zeros :: "u16 \<Rightarrow> nat" where
  "trailing_zeros w = length (takeWhile (\<lambda>i. \<not> bit w i) [0..<16])"

definition set_bit_to :: "nat \<Rightarrow> bool \<Rightarrow> u16 \<Rightarrow> u16" where
  "set_bit_to i b w = (if b then set_bit i w else unset_bit i w)"

definition leaf_alloc :: "u16 \<Rightarrow> nat option \<times> u16" where
  "leaf_alloc w =
     (let i = trailing_zeros w
      in if i < 16 then (Some i, set_bit_to i False w) else (None, w))"

definition leaf_dealloc :: "nat \<Rightarrow> u16 \<Rightarrow> u16 option" where
  "leaf_dealloc key w = (if bit w key then None else Some (set_bit_to key True w))"

definition leaf_range_ok :: "nat \<Rightarrow> nat \<Rightarrow> bool" where
  "leaf_range_ok b e \<longleftrightarrow> b < 16 \<and> e \<le> 16 \<and> b < e"

definition leaf_insert :: "nat \<Rightarrow> nat \<Rightarrow> u16 \<Rightarrow> u16 option" where
  "leaf_insert b e w = (if leaf_range_ok b e then Some (fold set_bit [b..<e] w) else None)"

definition leaf_remove :: "nat \<Rightarrow> nat \<Rightarrow> u16 \<Rightarrow> u16 option" where
  "leaf_remove b e w = (if leaf_range_ok b e then Some (fold unset_bit [b..<e] w) else None)"

lemma bit_set_bit_to: "i < 16 \<Longrightarrow> bit (set_bit_to i b w) k \<longleftrightarrow> (if k = i then b else bit w k)"
  by (auto simp: set_bit_to_def bit_set_bit_iff bit_unset_bit_iff)

lemma bit_fold_set: "e \<le> 16 \<Longrightarrow> bit (fold set_bit [b..<e] (w :: u16)) k \<longleftrightarrow> bit w k \<or> b \<le> k \<and> k < e"
proof (induction e)
  case (Suc e)
  then show ?case
    by (cases "b \<le> e") (auto simp: bit_set_bit_iff le_less_Suc_eq)
qed simp

lemma bit_fold_unset: "bit (fold unset_bit [b..<e] (w :: u16)) k \<longleftrightarrow> bit w k \<and> \<not> (b \<le> k \<and> k < e)"
proof (induction e)
  case (Suc e)
  then show ?case
    by (cases "b \<le> e") (auto simp: bit_unset_bit_iff le_less_Suc_eq)
qed simp

lemma trailing_zeros_bit:
  assumes "w \<noteq> 0"
  shows "trailing_zeros w < 16 \<and> bit w (trailing_zeros w) \<and> (\<forall>k < trailing_zeros w. \<not> bit w k)"
proof -
  let ?P = "\<lambda>i. \<not> bit w i"
  obtain n where n: "bit w n" using assms by (auto simp: bit_eq_iff)
  then have n16: "n < 16" using bit_imp_le_length by force
  let ?t = "takeWhile ?P [0..<16]"
  have lt: "length ?t < 16"
  proof (rule ccontr)
    assume "\<not> length ?t < 16"
    then have "?t = [0..<16]"
      by (metis length_upt diff_zero length_takeWhile_le le_antisym not_less takeWhile_eq_all_conv
          takeWhile_eq_take take_all)
    then have "\<forall>i \<in> set [0..<16]. ?P i" by (simp only: takeWhile_eq_all_conv)
    with n n16 show False by simp
  qed
  have "\<not> ?P ([0..<16] ! length ?t)" using lt by (intro nth_length_takeWhile) simp
  then have "bit w (length ?t)" using lt by simp
  moreover have "\<not> bit w k" if "k < length ?t" for k
  proof -
    have "?t ! k \<in> set ?t" using that by simp
    then have "?P (?t ! k)" by (rule set_takeWhileD [THEN conjunct2])
    moreover have "?t ! k = k" using that lt by (simp add: takeWhile_nth)
    ultimately show ?thesis by simp
  qed
  ultimately show ?thesis using lt by (simp add: trailing_zeros_def)
qed

lemma trailing_zeros_0: "trailing_zeros 0 = 16"
proof -
  have "takeWhile (\<lambda>i. \<not> bit (0 :: u16) i) [0..<16] = [0..<16]"
    by (simp only: takeWhile_eq_all_conv) simp
  then show ?thesis by (simp only: trailing_zeros_def) simp
qed

lemma leaf_alloc_spec:
  "leaf_alloc w =
     (if w = 0 then (None, w)
      else (Some (trailing_zeros w), set_bit_to (trailing_zeros w) False w))"
  using trailing_zeros_bit [of w] by (auto simp: leaf_alloc_def trailing_zeros_0 Let_def)

subsection \<open>The cascade\<close>

record bitalloc =
  bitset :: u16
  sub :: "u16 list"

definition bitalloc_default :: bitalloc where
  "bitalloc_default = \<lparr>bitset = 0, sub = replicate 16 0\<rparr>"

definition bitalloc_alloc :: "bitalloc \<Rightarrow> (nat option \<times> bitalloc) option" where
  "bitalloc_alloc c =
     (if bitset c \<noteq> 0 then
        (let i = trailing_zeros (bitset c)
         in case leaf_alloc (sub c ! i) of
              (None, _) \<Rightarrow> None
            | (Some r, leaf) \<Rightarrow>
                Some (Some (r + i * 16),
                      c\<lparr>sub := (sub c)[i := leaf], bitset := set_bit_to i (leaf \<noteq> 0) (bitset c)\<rparr>))
      else Some (None, c))"

definition bitalloc_dealloc :: "nat \<Rightarrow> bitalloc \<Rightarrow> bitalloc option" where
  "bitalloc_dealloc key c =
     (let i = key div 16
      in if 16 \<le> i then None
         else case leaf_dealloc (key mod 16) (sub c ! i) of
                None \<Rightarrow> None
              | Some leaf \<Rightarrow> Some (c\<lparr>sub := (sub c)[i := leaf], bitset := set_bit_to i True (bitset c)\<rparr>))"

definition bitalloc_test :: "nat \<Rightarrow> bitalloc \<Rightarrow> bool option" where
  "bitalloc_test key c =
     (if 16 \<le> key div 16 then None else Some (bit (sub c ! (key div 16)) (key mod 16)))"

definition range_step ::
    "(nat \<Rightarrow> nat \<Rightarrow> u16 \<Rightarrow> u16 option) \<Rightarrow> nat \<Rightarrow> nat \<Rightarrow> nat \<Rightarrow> bitalloc \<Rightarrow> bitalloc option" where
  "range_step f start end i c =
     (let b = (if start div 16 = i then start mod 16 else 0);
          e = (if end div 16 = i then end mod 16 else 16)
      in case f b e (sub c ! i) of
           None \<Rightarrow> None
         | Some leaf \<Rightarrow>
             Some (c\<lparr>sub := (sub c)[i := leaf], bitset := set_bit_to i (leaf \<noteq> 0) (bitset c)\<rparr>))"

fun range_steps ::
    "(nat \<Rightarrow> nat \<Rightarrow> u16 \<Rightarrow> u16 option) \<Rightarrow> nat \<Rightarrow> nat \<Rightarrow> nat list \<Rightarrow> bitalloc \<Rightarrow> bitalloc option" where
  "range_steps f start end [] c = Some c"
| "range_steps f start end (i # is) c =
     (case range_step f start end i c of None \<Rightarrow> None | Some c' \<Rightarrow> range_steps f start end is c')"

definition for_range ::
    "(nat \<Rightarrow> nat \<Rightarrow> u16 \<Rightarrow> u16 option) \<Rightarrow> nat \<Rightarrow> nat \<Rightarrow> bitalloc \<Rightarrow> bitalloc option" where
  "for_range f start end c =
     (if \<not> start \<le> end \<or> \<not> end \<le> 256 then None
      else if end = 0 then None \<comment> \<open>\<open>end - 1\<close> underflows\<close>
      else range_steps f start end [start div 16..<Suc ((end - 1) div 16)] c)"

definition bitalloc_insert :: "nat \<Rightarrow> nat \<Rightarrow> bitalloc \<Rightarrow> bitalloc option" where
  "bitalloc_insert start end c = for_range leaf_insert start end c"

definition bitalloc_remove :: "nat \<Rightarrow> nat \<Rightarrow> bitalloc \<Rightarrow> bitalloc option" where
  "bitalloc_remove start end c = for_range leaf_remove start end c"

text \<open>The invariant and the abstraction: the set of free numbers.\<close>

definition bitalloc_ok :: "bitalloc \<Rightarrow> bool" where
  "bitalloc_ok c \<longleftrightarrow> length (sub c) = 16 \<and> (\<forall>i < 16. bit (bitset c) i \<longleftrightarrow> sub c ! i \<noteq> 0)"

definition free_at :: "bitalloc \<Rightarrow> nat \<Rightarrow> bool" where
  "free_at c k \<longleftrightarrow> k < 256 \<and> bit (sub c ! (k div 16)) (k mod 16)"

lemma bitalloc_test_free: "k < 256 \<Longrightarrow> bitalloc_test k c = Some (free_at c k)"
  by (simp add: bitalloc_test_def free_at_def)

lemma bitalloc_test_panics: "256 \<le> k \<Longrightarrow> bitalloc_test k c = None"
  by (simp add: bitalloc_test_def)

lemma bitalloc_default_ok: "bitalloc_ok bitalloc_default" "\<not> free_at bitalloc_default k"
  by (auto simp: bitalloc_ok_def bitalloc_default_def free_at_def nth_replicate)

lemma free_at_update:
  assumes "length (sub c) = 16"
  shows "free_at (c\<lparr>sub := (sub c)[i := leaf], bitset := b\<rparr>) k \<longleftrightarrow>
         (if k div 16 = i then k < 256 \<and> bit leaf (k mod 16) else free_at c k)"
  using assms by (auto simp: free_at_def nth_list_update)

lemma bitalloc_ok_update:
  assumes "bitalloc_ok c" and "i < 16"
  shows "bitalloc_ok (c\<lparr>sub := (sub c)[i := leaf], bitset := set_bit_to i (leaf \<noteq> 0) (bitset c)\<rparr>)"
  using assms by (auto simp: bitalloc_ok_def nth_list_update bit_set_bit_to)

lemma leaf_free_iff: "(w :: u16) \<noteq> 0 \<longleftrightarrow> (\<exists>k < 16. bit w k)"
proof
  assume "w \<noteq> 0"
  then show "\<exists>k < 16. bit w k" using trailing_zeros_bit by blast
qed auto

lemma some_free_iff:
  assumes "bitalloc_ok c"
  shows "bitset c \<noteq> 0 \<longleftrightarrow> (\<exists>k. free_at c k)"
proof
  assume "bitset c \<noteq> 0"
  then obtain i where "i < 16" "bit (bitset c) i" by (auto simp: leaf_free_iff)
  with assms have "sub c ! i \<noteq> 0" by (simp add: bitalloc_ok_def)
  then obtain k where "k < 16" "bit (sub c ! i) k" by (auto simp: leaf_free_iff)
  with \<open>i < 16\<close> have "free_at c (16 * i + k)" by (simp add: free_at_def)
  then show "\<exists>k. free_at c k" ..
next
  assume "\<exists>k. free_at c k"
  then obtain k where k: "k < 256" "bit (sub c ! (k div 16)) (k mod 16)" by (auto simp: free_at_def)
  then have "sub c ! (k div 16) \<noteq> 0" by auto
  with assms k(1) have "bit (bitset c) (k div 16)" by (simp add: bitalloc_ok_def less_mult_imp_div_less)
  then show "bitset c \<noteq> 0" by auto
qed

lemma bitalloc_alloc_full:
  "bitalloc_ok c \<Longrightarrow> (\<forall>k. \<not> free_at c k) \<Longrightarrow> bitalloc_alloc c = Some (None, c)"
  using some_free_iff [of c] by (auto simp: bitalloc_alloc_def)

lemma div_mod_16: "(j :: nat) div 16 = i \<Longrightarrow> j mod 16 = r \<Longrightarrow> j = r + i * 16"
  using div_mult_mod_eq [of j 16] by linarith

lemma bitalloc_alloc_least:
  assumes "bitalloc_ok c" and "free_at c k"
  shows "\<exists>m c'. bitalloc_alloc c = Some (Some m, c') \<and> bitalloc_ok c' \<and> free_at c m
           \<and> (\<forall>j < m. \<not> free_at c j) \<and> (\<forall>j. free_at c' j \<longleftrightarrow> free_at c j \<and> j \<noteq> m)"
proof -
  let ?i = "trailing_zeros (bitset c)"
  have nz: "bitset c \<noteq> 0" using some_free_iff [OF assms(1)] assms(2) by blast
  note i = trailing_zeros_bit [OF nz]
  let ?leaf = "sub c ! ?i"
  have lnz: "?leaf \<noteq> 0" using assms(1) i by (auto simp: bitalloc_ok_def)
  let ?r = "trailing_zeros ?leaf"
  note r = trailing_zeros_bit [OF lnz]
  let ?l = "set_bit_to ?r False ?leaf"
  let ?c = "c\<lparr>sub := (sub c)[?i := ?l], bitset := set_bit_to ?i (?l \<noteq> 0) (bitset c)\<rparr>"
  have len: "length (sub c) = 16" using assms(1) by (simp add: bitalloc_ok_def)
  have "bitalloc_alloc c = Some (Some (?r + ?i * 16), ?c)"
    using nz lnz by (simp add: bitalloc_alloc_def leaf_alloc_spec Let_def)
  moreover have "bitalloc_ok ?c" using assms(1) i by (simp add: bitalloc_ok_update)
  moreover have "free_at c (?r + ?i * 16)" using i r by (simp add: free_at_def)
  moreover have "\<not> free_at c j" if j: "j < ?r + ?i * 16" for j
  proof (cases "j div 16 = ?i")
    case True
    then have "j mod 16 < ?r" using j div_mult_mod_eq [of j 16] by simp
    with r True show ?thesis by (simp add: free_at_def)
  next
    case False
    have "j < 16 * ?i + 16" using j r by simp
    with False have lt: "j div 16 < ?i" by (simp add: div_less_iff_less_mult less_Suc_eq)
    then have "\<not> bit (bitset c) (j div 16)" using i by blast
    moreover have "j div 16 < 16" using lt i by simp
    ultimately have "sub c ! (j div 16) = 0" using assms(1) by (auto simp: bitalloc_ok_def)
    then show ?thesis by (simp add: free_at_def)
  qed
  moreover have "free_at ?c j \<longleftrightarrow> free_at c j \<and> j \<noteq> ?r + ?i * 16" for j
  proof -
    have "j = ?r + ?i * 16 \<longleftrightarrow> j div 16 = ?i \<and> j mod 16 = ?r"
      using r by (auto dest: div_mod_16)
    then show ?thesis
      using r by (simp only: free_at_update [OF len]) (auto simp: bit_set_bit_to free_at_def)
  qed
  ultimately show ?thesis by blast
qed

lemma bitalloc_dealloc_spec:
  assumes "bitalloc_ok c" and "k < 256" and "\<not> free_at c k"
  shows "\<exists>c'. bitalloc_dealloc k c = Some c' \<and> bitalloc_ok c' \<and> (\<forall>j. free_at c' j \<longleftrightarrow> free_at c j \<or> j = k)"
proof -
  let ?i = "k div 16"
  let ?l = "set_bit_to (k mod 16) True (sub c ! ?i)"
  let ?c = "c\<lparr>sub := (sub c)[?i := ?l], bitset := set_bit_to ?i True (bitset c)\<rparr>"
  have i: "?i < 16" using assms(2) by (simp add: less_mult_imp_div_less)
  have len: "length (sub c) = 16" using assms(1) by (simp add: bitalloc_ok_def)
  have "bit ?l (k mod 16)" by (simp add: bit_set_bit_to)
  then have nz: "?l \<noteq> 0" by auto
  have "bitalloc_dealloc k c = Some ?c"
    using assms(2,3) i by (simp add: bitalloc_dealloc_def leaf_dealloc_def free_at_def Let_def)
  moreover have "bitalloc_ok ?c" using bitalloc_ok_update [OF assms(1) i, of ?l] nz by simp
  moreover have "free_at ?c j \<longleftrightarrow> free_at c j \<or> j = k" for j
  proof -
    have "j = k \<longleftrightarrow> j div 16 = ?i \<and> j mod 16 = k mod 16"
      by (metis div_mult_mod_eq)
    then show ?thesis
      using assms(2) by (simp only: free_at_update [OF len]) (auto simp: bit_set_bit_to free_at_def)
  qed
  ultimately show ?thesis by blast
qed

lemma bitalloc_dealloc_panics: "free_at c k \<Longrightarrow> bitalloc_dealloc k c = None"
  by (simp add: bitalloc_dealloc_def leaf_dealloc_def free_at_def Let_def)

subsection \<open>Ranges\<close>

lemma range_steps_append:
  "range_steps f s e (xs @ ys) c =
     (case range_steps f s e xs c of None \<Rightarrow> None | Some c' \<Rightarrow> range_steps f s e ys c')"
  by (induction xs arbitrary: c) (auto split: option.split)

lemma div_eq_mod_le_iff: "(a :: nat) div 16 = b div 16 \<Longrightarrow> a mod 16 \<le> b mod 16 \<longleftrightarrow> a \<le> b"
  using div_mult_mod_eq [of a 16] div_mult_mod_eq [of b 16] by linarith

lemma div_eq_mod_less_iff: "(a :: nat) div 16 = b div 16 \<Longrightarrow> a mod 16 < b mod 16 \<longleftrightarrow> a < b"
  using div_mult_mod_eq [of a 16] div_mult_mod_eq [of b 16] by linarith

lemma less_div_imp_less: "(a :: nat) div 16 < b div 16 \<Longrightarrow> a < b"
  using div_mult_mod_eq [of a 16] div_mult_mod_eq [of b 16] mod_less_divisor [of 16 a] by linarith

lemma div_pred_le: "(e - 1) div 16 \<le> (e :: nat) div 16"
  by (rule div_le_mono) simp

lemma range_step_spec:
  assumes leaf: "\<And>b e w. leaf_range_ok b e \<Longrightarrow>
      \<exists>w'. f b e w = Some w' \<and> (\<forall>k < 16. bit w' k = (if b \<le> k \<and> k < e then v else bit w k))"
    and ok: "bitalloc_ok c" and range: "start < end" "end \<le> 256"
    and i: "start div 16 \<le> i" "i \<le> (end - 1) div 16"
  shows "\<exists>c'. range_step f start end i c = Some c' \<and> bitalloc_ok c' \<and>
     (\<forall>k. free_at c' k \<longleftrightarrow> (if k div 16 = i \<and> start \<le> k \<and> k < end then v else free_at c k))"
proof -
  let ?b = "if start div 16 = i then start mod 16 else 0"
  let ?e = "if end div 16 = i then end mod 16 else 16"
  have i16: "i < 16" using i(2) range(2) by linarith
  have "?b < ?e"
  proof (cases "end div 16 = i")
    case True
    have "0 < end mod 16"
    proof (rule ccontr)
      assume "\<not> 0 < end mod 16"
      then have "end = 16 * i" using True div_mult_mod_eq [of "end" 16] by simp
      with i(2) range show False by auto
    qed
    moreover have "start mod 16 < end mod 16" if "start div 16 = i"
      using True that range(1) div_mult_mod_eq [of "end" 16] div_mult_mod_eq [of start 16] by simp
    ultimately show ?thesis using True by simp
  qed simp
  then have "leaf_range_ok ?b ?e" by (auto simp: leaf_range_ok_def)
  from leaf [OF this, of "sub c ! i"] obtain w' where w':
    "f ?b ?e (sub c ! i) = Some w'"
    "\<forall>k < 16. bit w' k = (if ?b \<le> k \<and> k < ?e then v else bit (sub c ! i) k)" by blast
  let ?c = "c\<lparr>sub := (sub c)[i := w'], bitset := set_bit_to i (w' \<noteq> 0) (bitset c)\<rparr>"
  have len: "length (sub c) = 16" using ok by (simp add: bitalloc_ok_def)
  have step: "range_step f start end i c = Some ?c"
    using w'(1) by (simp add: range_step_def Let_def)
  have "free_at ?c k \<longleftrightarrow> (if k div 16 = i \<and> start \<le> k \<and> k < end then v else free_at c k)" for k
  proof (cases "k div 16 = i")
    case False
    then show ?thesis by (simp add: free_at_update [OF len])
  next
    case True
    have k: "k < 256" using True i16 by linarith
    have b: "?b \<le> k mod 16 \<longleftrightarrow> start \<le> k"
      using True i(1) div_eq_mod_le_iff [of start k] less_div_imp_less [of start k] by auto
    have e: "k mod 16 < ?e \<longleftrightarrow> k < end"
      using True i(2) range(1) div_eq_mod_less_iff [of k "end"] less_div_imp_less [of k "end"]
        div_pred_le [of "end"] by auto
    have "bit w' (k mod 16) = (if start \<le> k \<and> k < end then v else bit (sub c ! i) (k mod 16))"
      using w'(2) b e by simp
    with True k show ?thesis by (simp add: free_at_update [OF len]) (simp add: free_at_def)
  qed
  with step bitalloc_ok_update [OF ok i16, of w'] show ?thesis by blast
qed

lemma range_steps_spec:
  assumes leaf: "\<And>b e w. leaf_range_ok b e \<Longrightarrow>
      \<exists>w'. f b e w = Some w' \<and> (\<forall>k < 16. bit w' k = (if b \<le> k \<and> k < e then v else bit w k))"
    and ok: "bitalloc_ok c" and range: "start < end" "end \<le> 256"
    and n: "start div 16 \<le> n" "n \<le> Suc ((end - 1) div 16)"
  shows "\<exists>c'. range_steps f start end [start div 16..<n] c = Some c' \<and> bitalloc_ok c' \<and>
     (\<forall>k. free_at c' k \<longleftrightarrow> (if k div 16 < n \<and> start \<le> k \<and> k < end then v else free_at c k))"
  using n
proof (induction n)
  case 0
  then show ?case using ok by simp
next
  case (Suc n)
  show ?case
  proof (cases "start div 16 \<le> n")
    case False
    then have "start div 16 = Suc n" using Suc.prems by simp
    moreover have "\<not> (k div 16 < start div 16 \<and> start \<le> k)" for k
      using less_div_imp_less [of k start] by auto
    ultimately show ?thesis using ok by auto
  next
    case True
    then obtain c1 where c1: "range_steps f start end [start div 16..<n] c = Some c1" "bitalloc_ok c1"
      "\<forall>k. free_at c1 k \<longleftrightarrow> (if k div 16 < n \<and> start \<le> k \<and> k < end then v else free_at c k)"
      using Suc by auto
    have n': "n \<le> (end - 1) div 16" using Suc.prems(2) by simp
    obtain c2 where c2: "range_step f start end n c1 = Some c2" "bitalloc_ok c2"
      "\<forall>k. free_at c2 k \<longleftrightarrow> (if k div 16 = n \<and> start \<le> k \<and> k < end then v else free_at c1 k)"
      using range_step_spec [where f = f and v = v, OF leaf c1(2) range True n'] by blast
    have "range_steps f start end [start div 16..<Suc n] c = Some c2"
      using c1(1) c2(1) True by (simp add: range_steps_append)
    moreover have "free_at c2 k \<longleftrightarrow> (if k div 16 < Suc n \<and> start \<le> k \<and> k < end then v else free_at c k)" for k
      using c1(3) c2(3) by (auto simp: less_Suc_eq)
    ultimately show ?thesis using c2(2) by blast
  qed
qed

lemma for_range_spec:
  assumes leaf: "\<And>b e w. leaf_range_ok b e \<Longrightarrow>
      \<exists>w'. f b e w = Some w' \<and> (\<forall>k < 16. bit w' k = (if b \<le> k \<and> k < e then v else bit w k))"
    and ok: "bitalloc_ok c" and range: "start < end" "end \<le> 256"
  shows "\<exists>c'. for_range f start end c = Some c' \<and> bitalloc_ok c' \<and>
     (\<forall>k. free_at c' k \<longleftrightarrow> (if start \<le> k \<and> k < end then v else free_at c k))"
proof -
  let ?n = "Suc ((end - 1) div 16)"
  have n: "start div 16 \<le> ?n" using range(1) by (intro le_SucI div_le_mono) simp
  have "k div 16 < ?n" if "k < end" for k
    using that by (intro le_imp_less_Suc div_le_mono) simp
  then show ?thesis
    using range_steps_spec [where f = f and v = v, OF leaf ok range n le_refl] range
    by (auto simp: for_range_def)
qed

lemma leaf_insert_spec:
  "leaf_range_ok b e \<Longrightarrow>
   \<exists>w'. leaf_insert b e w = Some w' \<and> (\<forall>k < 16. bit w' k = (if b \<le> k \<and> k < e then True else bit w k))"
  by (auto simp: leaf_insert_def leaf_range_ok_def bit_fold_set)

lemma leaf_remove_spec:
  "leaf_range_ok b e \<Longrightarrow>
   \<exists>w'. leaf_remove b e w = Some w' \<and> (\<forall>k < 16. bit w' k = (if b \<le> k \<and> k < e then False else bit w k))"
  by (auto simp: leaf_remove_def leaf_range_ok_def bit_fold_unset)

lemma bitalloc_insert_spec:
  assumes "bitalloc_ok c" and "start < end" and "end \<le> 256"
  shows "\<exists>c'. bitalloc_insert start end c = Some c' \<and> bitalloc_ok c' \<and>
     (\<forall>k. free_at c' k \<longleftrightarrow> start \<le> k \<and> k < end \<or> free_at c k)"
  using for_range_spec [OF leaf_insert_spec assms] by (simp add: bitalloc_insert_def) metis

lemma bitalloc_remove_spec:
  assumes "bitalloc_ok c" and "start < end" and "end \<le> 256"
  shows "\<exists>c'. bitalloc_remove start end c = Some c' \<and> bitalloc_ok c' \<and>
     (\<forall>k. free_at c' k \<longleftrightarrow> free_at c k \<and> \<not> (start \<le> k \<and> k < end))"
  using for_range_spec [OF leaf_remove_spec assms] by (simp add: bitalloc_remove_def) metis

lemma bitalloc_remove_one:
  assumes "bitalloc_ok c" and "k < 256"
  shows "\<exists>c'. bitalloc_remove k (k + 1) c = Some c' \<and> bitalloc_ok c' \<and>
     (\<forall>j. free_at c' j \<longleftrightarrow> free_at c j \<and> j \<noteq> k)"
proof -
  have "k \<le> j \<and> j < k + 1 \<longleftrightarrow> j = k" for j by auto
  then show ?thesis using bitalloc_remove_spec [of c k "k + 1"] assms by simp
qed

lemma bitalloc_range_0_panics: "bitalloc_insert 0 0 c = None"
  by (simp add: bitalloc_insert_def for_range_def)

end
