(* ===== verification/KernelCall.thy ===== *)
theory KernelCall
  imports HarnessLimits CPrelude
begin

text \<open>
  What the system calls of the kernel share: the numbers of its errors (\<open>ErrorNo\<close> of kernel/src/syscall/flags.rs, whose
  values are these numbers negated) and what a pointer of a user leads to.
\<close>

definition ENOENT :: int where "ENOENT = 2"
definition ESRCH :: int where "ESRCH = 3"
definition EBADF :: int where "EBADF = 9"
definition EFAULT :: int where "EFAULT = 14"
definition EEXIST :: int where "EEXIST = 17"
definition EISDIR :: int where "EISDIR = 21"
definition EINVAL :: int where "EINVAL = 22"
definition ESPIPE :: int where "ESPIPE = 29"
definition ERANGE :: int where "ERANGE = 34"

text \<open>Whether the page of a pointer can be mapped is decided by the memory of the task.\<close>

datatype 'a user = Null | Unmapped | Mapped 'a

text \<open>How a call ends where it can wait for a lock that is never released.\<close>

datatype 'a outcome = Returns 'a | Panics | Hangs

end
