(* ===== verification/KernelFd.thy ===== *)
theory KernelFd
  imports BitAlloc KernelCall CString
begin

text \<open>
  The kernel's descriptor table: \<open>FdManager\<close> of kernel/src/file/fd_manager.rs over the
  allocator of kernel/src/memory/allocator/fd.rs, and the system calls \<open>sys_dup\<close>, \<open>sys_dup3\<close>
  and \<open>sys_prlimt64\<close> (for \<open>RLIMIT_NOFILE\<close>) that drive it.  A file is a value of type \<open>'f\<close>.
  An operation returns \<open>None\<close> when the Rust code panics, otherwise its result with the next
  table; a result of type \<open>OSResult\<close> is \<open>Inl\<close> an error or \<open>Inr\<close> a value.
\<close>

datatype os_error = NoAvailableFd | FdNotFound

definition FD_LIMIT_ORIGIN :: nat where
  "FD_LIMIT_ORIGIN = 256"

definition FD_LIMIT_HARD :: nat where
  "FD_LIMIT_HARD = 256"

record 'f fd_manager =
  files :: "'f option list"
  fd_allocator :: bitalloc
  fd_limit :: nat
  umask :: int

definition resize :: "nat \<Rightarrow> 'f option list \<Rightarrow> 'f option list" where
  "resize n xs = take n xs @ replicate (n - length xs) None"

definition fd_alloc_new :: "nat \<Rightarrow> bitalloc option" where
  "fd_alloc_new limit = bitalloc_insert 0 limit bitalloc_default"

definition is_allocated :: "nat \<Rightarrow> bitalloc \<Rightarrow> bool option" where
  "is_allocated fd a = map_option Not (bitalloc_test fd a)"

definition alloc_exact :: "nat \<Rightarrow> bitalloc \<Rightarrow> bitalloc option" where
  "alloc_exact fd a = bitalloc_remove fd (fd + 1) a"

definition alloc_exact_if_possible :: "nat \<Rightarrow> bitalloc \<Rightarrow> (bool \<times> bitalloc) option" where
  "alloc_exact_if_possible fd a =
     (case is_allocated fd a of
        None \<Rightarrow> None
      | Some b \<Rightarrow>
          if \<not> b then (case alloc_exact fd a of None \<Rightarrow> None | Some a' \<Rightarrow> Some (True, a'))
          else Some (False, a))"

definition push :: "'f \<Rightarrow> 'f fd_manager \<Rightarrow> ((os_error + nat) \<times> 'f fd_manager) option" where
  "push file m =
     (case bitalloc_alloc (fd_allocator m) of
        None \<Rightarrow> None
      | Some (Some fd, a) \<Rightarrow>
          let fs = (if length (files m) \<le> fd then resize (fd + 1) (files m) else files m)
          in Some (Inr fd, m\<lparr>files := fs[fd := Some file], fd_allocator := a\<rparr>)
      | Some (None, a) \<Rightarrow> Some (Inl NoAvailableFd, m\<lparr>fd_allocator := a\<rparr>))"

definition get_file :: "nat \<Rightarrow> 'f fd_manager \<Rightarrow> os_error + 'f" where
  "get_file fd m =
     (if length (files m) \<le> fd then Inl FdNotFound
      else case files m ! fd of None \<Rightarrow> Inl FdNotFound | Some f \<Rightarrow> Inr f)"

fun get_files_if_all_exists :: "nat list \<Rightarrow> 'f fd_manager \<Rightarrow> 'f list option" where
  "get_files_if_all_exists [] m = Some []"
| "get_files_if_all_exists (fd # fds) m =
     (case get_file fd m of
        Inl _ \<Rightarrow> None
      | Inr f \<Rightarrow> map_option (\<lambda>fs. f # fs) (get_files_if_all_exists fds m))"

definition fd_manager_new :: "int \<Rightarrow> 'f \<Rightarrow> 'f \<Rightarrow> 'f \<Rightarrow> 'f fd_manager option" where
  "fd_manager_new umask0 stdin stdout stderr =
     do {
       a \<leftarrow> fd_alloc_new FD_LIMIT_ORIGIN;
       let m = \<lparr>files = [], fd_allocator = a, fd_limit = FD_LIMIT_ORIGIN, umask = umask0\<rparr>;
       (r, m) \<leftarrow> push stdin m;
       (r, m) \<leftarrow> (if isl r then None else push stdout m);
       (r, m) \<leftarrow> (if isl r then None else push stderr m);
       if isl r then None else Some m
     }"

fun copy_fds :: "nat list \<Rightarrow> 'f fd_manager \<Rightarrow> 'f fd_manager \<Rightarrow> 'f fd_manager option" where
  "copy_fds [] m n = Some n"
| "copy_fds (fd # fds) m n =
     (case files m ! fd of
        None \<Rightarrow> copy_fds fds m n
      | Some file \<Rightarrow>
          (case alloc_exact fd (fd_allocator n) of
             None \<Rightarrow> None
           | Some a \<Rightarrow> copy_fds fds m (n\<lparr>fd_allocator := a, files := (files n)[fd := Some file]\<rparr>)))"

definition copy_all :: "'f fd_manager \<Rightarrow> 'f fd_manager option" where
  "copy_all m =
     (case fd_alloc_new (fd_limit m) of
        None \<Rightarrow> None
      | Some a \<Rightarrow>
          copy_fds [0..<length (files m)] m
            \<lparr>files = resize (length (files m)) [], fd_allocator = a, fd_limit = fd_limit m,
              umask = umask m\<rparr>)"

definition copy_fd_anywhere :: "nat \<Rightarrow> 'f fd_manager \<Rightarrow> ((os_error + nat) \<times> 'f fd_manager) option" where
  "copy_fd_anywhere old_fd m =
     (case get_file old_fd m of Inl e \<Rightarrow> Some (Inl e, m) | Inr f \<Rightarrow> push f m)"

definition copy_fd_to :: "nat \<Rightarrow> nat \<Rightarrow> 'f fd_manager \<Rightarrow> (bool \<times> 'f fd_manager) option" where
  "copy_fd_to old_fd new_fd m =
     (case get_file old_fd m of
        Inl _ \<Rightarrow> Some (False, m)
      | Inr file \<Rightarrow>
          (case alloc_exact_if_possible new_fd (fd_allocator m) of
             None \<Rightarrow> None
           | Some (_, a) \<Rightarrow>
               let fs = (if length (files m) \<le> new_fd then resize (new_fd + 1) (files m) else files m)
               in Some (True, m\<lparr>files := fs[new_fd := Some file], fd_allocator := a\<rparr>)))"

definition remove_file :: "nat \<Rightarrow> 'f fd_manager \<Rightarrow> ((os_error + 'f) \<times> 'f fd_manager) option" where
  "remove_file fd m =
     (case get_file fd m of
        Inl e \<Rightarrow> Some (Inl FdNotFound, m)
      | Inr file \<Rightarrow>
          (case bitalloc_dealloc fd (fd_allocator m) of
             None \<Rightarrow> None
           | Some a \<Rightarrow> Some (Inr file, m\<lparr>files := (files m)[fd := None], fd_allocator := a\<rparr>)))"

definition is_full :: "'f fd_manager \<Rightarrow> (bool \<times> 'f fd_manager) option" where
  "is_full m =
     (case bitalloc_alloc (fd_allocator m) of
        None \<Rightarrow> None
      | Some (Some fd, a) \<Rightarrow>
          (case bitalloc_dealloc fd a of
             None \<Rightarrow> None
           | Some a' \<Rightarrow> Some (False, m\<lparr>fd_allocator := a'\<rparr>))
      | Some (None, a) \<Rightarrow> Some (True, m\<lparr>fd_allocator := a\<rparr>))"

definition modify_limit :: "nat \<Rightarrow> 'f fd_manager \<Rightarrow> 'f fd_manager option" where
  "modify_limit new_limit m =
     (let new_limit = max (min new_limit FD_LIMIT_HARD) 0
      in case (if new_limit < fd_limit m then bitalloc_remove new_limit (fd_limit m) (fd_allocator m)
               else if fd_limit m < new_limit then bitalloc_insert (fd_limit m) new_limit (fd_allocator m)
               else Some (fd_allocator m)) of
           None \<Rightarrow> None
         | Some a \<Rightarrow> Some (m\<lparr>fd_allocator := a, fd_limit := new_limit\<rparr>))"

text \<open>\<open>cloexec f\<close> is \<open>get_status().contains(OpenFlags::CLOEXEC)\<close> of the file.\<close>

definition close_cloexec_files :: "('f \<Rightarrow> bool) \<Rightarrow> 'f fd_manager \<Rightarrow> 'f fd_manager" where
  "close_cloexec_files cloexec m =
     m\<lparr>files := map (\<lambda>f. case f of Some x \<Rightarrow> if cloexec x then None else f | None \<Rightarrow> f) (files m)\<rparr>"

definition set_umask_and_get_old :: "int \<Rightarrow> 'f fd_manager \<Rightarrow> int \<times> 'f fd_manager" where
  "set_umask_and_get_old new_umask m = (umask m, m\<lparr>umask := new_umask\<rparr>)"

subsection \<open>System calls\<close>

definition sys_dup :: "nat \<Rightarrow> 'f fd_manager \<Rightarrow> (nat sysret \<times> 'f fd_manager) option" where
  "sys_dup fd m =
     (case copy_fd_anywhere fd m of
        None \<Rightarrow> None
      | Some (Inr new_fd, m') \<Rightarrow> Some (Inr new_fd, m')
      | Some (Inl _, m') \<Rightarrow> Some (Inl EMFILE, m'))"

definition sys_dup3 :: "nat \<Rightarrow> nat \<Rightarrow> 'f fd_manager \<Rightarrow> (nat sysret \<times> 'f fd_manager) option" where
  "sys_dup3 old_fd new_fd m =
     (case copy_fd_to old_fd new_fd m of
        None \<Rightarrow> None
      | Some (True, m') \<Rightarrow> Some (Inr new_fd, m')
      | Some (False, m') \<Rightarrow> Some (Inl EINVAL, m'))"

definition RLIMIT_STACK :: int where
  "RLIMIT_STACK = 3"

definition RLIMIT_NOFILE :: int where
  "RLIMIT_NOFILE = 7"

definition RLIMIT_AS :: int where
  "RLIMIT_AS = 9"

definition USER_STACK_SIZE :: u64 where
  "USER_STACK_SIZE = 0x200000"

definition USER_VIRT_ADDR_LIMIT :: u64 where
  "USER_VIRT_ADDR_LIMIT = 0xFFFFFFFF"

text \<open>\<open>new\<close> and \<open>old\<close> are what the two pointers lead to, \<open>None\<close> for null pointers.  The call always
  returns 0; the result is what \<open>old\<close> leads to afterwards, and the table.\<close>

definition sys_prlimt64 ::
    "nat \<Rightarrow> int \<Rightarrow> rlimit option \<Rightarrow> rlimit option \<Rightarrow> 'f fd_manager \<Rightarrow> (rlimit option \<times> 'f fd_manager) option" where
  "sys_prlimt64 pid resource new old m =
     (if pid = 0 then
        (if resource = RLIMIT_STACK then
           Some (map_option (\<lambda>_. \<lparr>rlim_cur = USER_STACK_SIZE, rlim_max = USER_STACK_SIZE\<rparr>) old, m)
         else if resource = RLIMIT_NOFILE then
           (let limit = of_nat (fd_limit m);
                old' = map_option (\<lambda>_. \<lparr>rlim_cur = limit, rlim_max = limit\<rparr>) old
            in case new of
                 None \<Rightarrow> Some (old', m)
               | Some rl \<Rightarrow>
                   (case modify_limit (unat (rlim_cur rl)) m of
                      None \<Rightarrow> None
                    | Some m' \<Rightarrow> Some (old', m')))
         else if resource = RLIMIT_AS then
           Some (map_option (\<lambda>_. \<lparr>rlim_cur = USER_VIRT_ADDR_LIMIT, rlim_max = USER_VIRT_ADDR_LIMIT\<rparr>) old, m)
         else Some (old, m))
      else Some (old, m))"

definition getrlimit_call :: "int \<Rightarrow> rlimit \<Rightarrow> 'f fd_manager option \<Rightarrow> (int \<times> rlimit) \<times> 'f fd_manager option" where
  "getrlimit_call r rl0 w =
     (case Option.bind w (sys_prlimt64 0 r None (Some rl0)) of
        Some (Some rl, m) \<Rightarrow> ((0, rl), Some m)
      | _ \<Rightarrow> ((-1, rl0), None))"

definition setrlimit_call :: "int \<Rightarrow> rlimit \<Rightarrow> 'f fd_manager option \<Rightarrow> int \<times> 'f fd_manager option" where
  "setrlimit_call r rl w =
     (case Option.bind w (sys_prlimt64 0 r (Some rl) None) of
        Some (_, m) \<Rightarrow> (0, Some m)
      | None \<Rightarrow> (-1, None))"

text \<open>The system call \<open>dup\<close> as a C program sees it; after a panic nothing answers any more.\<close>

definition dup_call :: "int \<Rightarrow> 'f fd_manager option \<Rightarrow> int sysret \<times> 'f fd_manager option" where
  "dup_call fd w =
     (case Option.bind w (sys_dup (size_t fd)) of
        None \<Rightarrow> (Inl 0, None)
      | Some (Inl e, m) \<Rightarrow> (Inl e, Some m)
      | Some (Inr n, m) \<Rightarrow> (Inr (int n), Some m))"

subsection \<open>The invariant\<close>

definition is_open :: "'f fd_manager \<Rightarrow> nat \<Rightarrow> bool" where
  "is_open m fd \<longleftrightarrow> fd < length (files m) \<and> files m ! fd \<noteq> None"

definition fd_ok :: "'f fd_manager \<Rightarrow> bool" where
  "fd_ok m \<longleftrightarrow>
     bitalloc_ok (fd_allocator m) \<and> fd_limit m \<le> 256 \<and>
     (\<forall>fd. is_open m fd \<longrightarrow> fd < fd_limit m) \<and>
     (\<forall>fd. free_at (fd_allocator m) fd \<longleftrightarrow> fd < fd_limit m \<and> \<not> is_open m fd)"

lemma get_file_open: "is_open m fd \<longleftrightarrow> (\<exists>f. get_file fd m = Inr f)"
  by (auto simp: is_open_def get_file_def split: option.split)

lemma get_file_closed: "\<not> is_open m fd \<Longrightarrow> get_file fd m = Inl FdNotFound"
  by (auto simp: is_open_def get_file_def split: option.split)

lemma nth_resize: "fd < n \<Longrightarrow> resize n xs ! fd = (if fd < length xs then xs ! fd else None)"
  by (simp add: resize_def nth_append)

lemma length_resize [simp]: "length (resize n xs) = n"
  by (simp add: resize_def)

text \<open>The table after a file was put at \<open>fd\<close>, the vector grown when it was too short.\<close>

lemma is_open_stored:
  "is_open (m\<lparr>files := (if length (files m) \<le> fd then resize (fd + 1) (files m) else files m)[fd := Some f],
             fd_allocator := a\<rparr>) k \<longleftrightarrow> is_open m k \<or> k = fd"
  by (auto simp: is_open_def nth_list_update nth_resize split: if_splits)

lemma get_file_stored:
  "get_file k (m\<lparr>files := (if length (files m) \<le> fd then resize (fd + 1) (files m) else files m)[fd := Some f],
             fd_allocator := a\<rparr>) = (if k = fd then Inr f else get_file k m)"
  by (auto simp: get_file_def nth_list_update nth_resize split: option.split)

lemma push_full:
  assumes "fd_ok m" and "\<forall>fd < fd_limit m. is_open m fd"
  shows "push f m = Some (Inl NoAvailableFd, m)"
proof -
  have "bitalloc_alloc (fd_allocator m) = Some (None, fd_allocator m)"
    using assms by (intro bitalloc_alloc_full) (auto simp: fd_ok_def)
  then show ?thesis by (simp add: push_def)
qed

lemma push_least:
  assumes "fd_ok m" and "k < fd_limit m" and "\<not> is_open m k"
  shows "\<exists>fd m'. push f m = Some (Inr fd, m') \<and> fd_ok m' \<and> fd \<le> k \<and> fd < fd_limit m \<and> \<not> is_open m fd
           \<and> (\<forall>j < fd. is_open m j) \<and> fd_limit m' = fd_limit m
           \<and> (\<forall>j. is_open m' j \<longleftrightarrow> is_open m j \<or> j = fd)
           \<and> (\<forall>j. get_file j m' = (if j = fd then Inr f else get_file j m))"
proof -
  have free: "free_at (fd_allocator m) j \<longleftrightarrow> j < fd_limit m \<and> \<not> is_open m j" for j
    using assms(1) by (simp add: fd_ok_def)
  obtain fd a where a: "bitalloc_alloc (fd_allocator m) = Some (Some fd, a)" "bitalloc_ok a"
      "free_at (fd_allocator m) fd" "\<forall>j < fd. \<not> free_at (fd_allocator m) j"
      "\<forall>j. free_at a j \<longleftrightarrow> free_at (fd_allocator m) j \<and> j \<noteq> fd"
    using bitalloc_alloc_least [of "fd_allocator m" k] assms free by (auto simp: fd_ok_def)
  let ?m = "m\<lparr>files := (if length (files m) \<le> fd then resize (fd + 1) (files m) else files m)[fd := Some f],
             fd_allocator := a\<rparr>"
  have p: "push f m = Some (Inr fd, ?m)" using a(1) by (simp add: push_def Let_def)
  have fd: "fd < fd_limit m" "\<not> is_open m fd" using a(3) free by auto
  have le: "fd \<le> k" using a(4) free assms(2,3) not_less by blast
  have below: "\<forall>j < fd. is_open m j" using a(4) free fd(1) by (meson less_trans)
  have opn: "is_open ?m j \<longleftrightarrow> is_open m j \<or> j = fd" for j by (rule is_open_stored)
  have "fd_ok ?m"
    unfolding fd_ok_def opn using assms(1) a(2,5) fd free by (auto simp: fd_ok_def)
  with p le fd below opn get_file_stored [where m = m and fd = fd and f = f and a = a] show ?thesis
    by (intro exI [of _ fd] exI [of _ ?m]) auto
qed

lemma remove_file_open:
  assumes "fd_ok m" and "is_open m fd"
  shows "\<exists>f m'. get_file fd m = Inr f \<and> remove_file fd m = Some (Inr f, m') \<and> fd_ok m'
           \<and> fd_limit m' = fd_limit m \<and> (\<forall>j. is_open m' j \<longleftrightarrow> is_open m j \<and> j \<noteq> fd)
           \<and> (\<forall>j. j \<noteq> fd \<longrightarrow> get_file j m' = get_file j m)"
proof -
  obtain f where f: "get_file fd m = Inr f" using assms(2) by (auto simp: get_file_open)
  have free: "free_at (fd_allocator m) j \<longleftrightarrow> j < fd_limit m \<and> \<not> is_open m j" for j
    using assms(1) by (simp add: fd_ok_def)
  have lim: "fd < fd_limit m" "fd_limit m \<le> 256" using assms by (auto simp: fd_ok_def)
  obtain a where a: "bitalloc_dealloc fd (fd_allocator m) = Some a" "bitalloc_ok a"
      "\<forall>j. free_at a j \<longleftrightarrow> free_at (fd_allocator m) j \<or> j = fd"
    using bitalloc_dealloc_spec [of "fd_allocator m" fd] assms free lim by (auto simp: fd_ok_def)
  let ?m = "m\<lparr>files := (files m)[fd := None], fd_allocator := a\<rparr>"
  have opn: "is_open ?m j \<longleftrightarrow> is_open m j \<and> j \<noteq> fd" for j
    using assms(2) by (auto simp: is_open_def nth_list_update)
  have "fd_ok ?m" unfolding fd_ok_def opn using assms a(2,3) free lim by (auto simp: fd_ok_def)
  moreover have "get_file j ?m = get_file j m" if "j \<noteq> fd" for j
    using that by (simp add: get_file_def)
  ultimately show ?thesis
    using f a(1) opn by (intro exI [of _ f] exI [of _ ?m]) (auto simp: remove_file_def)
qed

lemma fd_alloc_new_spec:
  assumes "0 < limit" and "limit \<le> 256"
  shows "\<exists>a. fd_alloc_new limit = Some a \<and> bitalloc_ok a \<and> (\<forall>k. free_at a k \<longleftrightarrow> k < limit)"
  using bitalloc_insert_spec [of bitalloc_default 0 limit] assms bitalloc_default_ok
  by (auto simp: fd_alloc_new_def)

lemma fd_manager_new_ok:
  "\<exists>m. fd_manager_new u i oo e = Some m \<and> fd_ok m \<and> fd_limit m = 256 \<and>
       (\<forall>k. is_open m k \<longleftrightarrow> k < 3) \<and> get_file 0 m = Inr i \<and> get_file 1 m = Inr oo \<and> get_file 2 m = Inr e"
proof -
  obtain a where a: "fd_alloc_new 256 = Some a" "bitalloc_ok a" "\<forall>k. free_at a k \<longleftrightarrow> k < 256"
    using fd_alloc_new_spec [of 256] by auto
  let ?m0 = "\<lparr>files = [], fd_allocator = a, fd_limit = 256, umask = u\<rparr>"
  have ok0: "fd_ok ?m0" "\<not> is_open ?m0 k" for k using a by (auto simp: fd_ok_def is_open_def)
  obtain f1 m1 where m1: "push i ?m0 = Some (Inr f1, m1)" "fd_ok m1" "f1 \<le> 0" "fd_limit m1 = 256"
     "\<forall>j. is_open m1 j \<longleftrightarrow> j = f1" "\<forall>j. get_file j m1 = (if j = f1 then Inr i else get_file j ?m0)"
    using push_least [OF ok0(1) _ ok0(2), of 0 i] ok0(2) by auto
  obtain f2 m2 where m2: "push oo m1 = Some (Inr f2, m2)" "fd_ok m2" "f2 \<le> 1" "fd_limit m2 = 256"
     "\<not> is_open m1 f2" "\<forall>j. is_open m2 j \<longleftrightarrow> is_open m1 j \<or> j = f2"
     "\<forall>j. get_file j m2 = (if j = f2 then Inr oo else get_file j m1)"
    using push_least [OF m1(2), of 1 oo] m1(3-5) by auto
  have f2: "f1 = 0" "f2 = 1" using m1(3,5) m2(3,5) by auto
  obtain f3 m3 where m3: "push e m2 = Some (Inr f3, m3)" "fd_ok m3" "f3 \<le> 2" "fd_limit m3 = 256"
     "\<not> is_open m2 f3" "\<forall>j. is_open m3 j \<longleftrightarrow> is_open m2 j \<or> j = f3"
     "\<forall>j. get_file j m3 = (if j = f3 then Inr e else get_file j m2)"
    using push_least [OF m2(2), of 2 e] m2(4,6) m1(5) f2 by auto
  have f3: "f3 = 2" using m3(3,5) m2(6) m1(5) f2 by (auto simp: le_Suc_eq numeral_2_eq_2)
  have "fd_manager_new u i oo e = Some m3"
    using a(1) m1(1) m2(1) m3(1) by (simp add: fd_manager_new_def FD_LIMIT_ORIGIN_def)
  moreover have "is_open m3 k \<longleftrightarrow> k < 3" for k
  proof -
    have "is_open m3 k \<longleftrightarrow> (k = 0 \<or> k = 1) \<or> k = 2"
      by (simp only: m3(6) [THEN spec, of k] m2(6) [THEN spec, of k] m1(5) [THEN spec, of k] f2 f3)
    also have "\<dots> \<longleftrightarrow> k < 3" by linarith
    finally show ?thesis .
  qed
  moreover have "get_file 0 m3 = Inr i" "get_file 1 m3 = Inr oo" "get_file 2 m3 = Inr e"
    using m3(7) m2(7) m1(6) f2 f3 by simp_all
  ultimately show ?thesis using m3(2,4) by blast
qed

lemma copy_fd_to_ok:
  assumes "fd_ok m" and "is_open m old_fd" and "new_fd < fd_limit m"
  shows "\<exists>f m'. get_file old_fd m = Inr f \<and> copy_fd_to old_fd new_fd m = Some (True, m') \<and> fd_ok m'
           \<and> fd_limit m' = fd_limit m \<and> (\<forall>j. is_open m' j \<longleftrightarrow> is_open m j \<or> j = new_fd)
           \<and> (\<forall>j. get_file j m' = (if j = new_fd then Inr f else get_file j m))"
proof -
  obtain f where f: "get_file old_fd m = Inr f" using assms(2) by (auto simp: get_file_open)
  have free: "free_at (fd_allocator m) j \<longleftrightarrow> j < fd_limit m \<and> \<not> is_open m j" for j
    using assms(1) by (simp add: fd_ok_def)
  have lim: "new_fd < 256" using assms(1,3) by (auto simp: fd_ok_def)
  obtain b a where a: "alloc_exact_if_possible new_fd (fd_allocator m) = Some (b, a)" "bitalloc_ok a"
      "\<forall>j. free_at a j \<longleftrightarrow> free_at (fd_allocator m) j \<and> j \<noteq> new_fd"
  proof (cases "free_at (fd_allocator m) new_fd")
    case True
    obtain a where a: "bitalloc_remove new_fd (new_fd + 1) (fd_allocator m) = Some a" "bitalloc_ok a"
      "\<forall>j. free_at a j \<longleftrightarrow> free_at (fd_allocator m) j \<and> j \<noteq> new_fd"
      using bitalloc_remove_one [of "fd_allocator m" new_fd] assms(1) lim by (auto simp: fd_ok_def)
    have "alloc_exact_if_possible new_fd (fd_allocator m) = Some (True, a)"
      using True lim a(1)
      by (simp add: alloc_exact_if_possible_def is_allocated_def alloc_exact_def bitalloc_test_free)
    then show ?thesis using a(2,3) by (rule that)
  next
    case False
    then have "alloc_exact_if_possible new_fd (fd_allocator m) = Some (False, fd_allocator m)"
      using lim by (simp add: alloc_exact_if_possible_def is_allocated_def bitalloc_test_free)
    moreover have "bitalloc_ok (fd_allocator m)" using assms(1) by (simp add: fd_ok_def)
    ultimately show ?thesis using False by (intro that) auto
  qed
  let ?m = "m\<lparr>files := (if length (files m) \<le> new_fd then resize (new_fd + 1) (files m) else files m)[new_fd := Some f],
             fd_allocator := a\<rparr>"
  have c: "copy_fd_to old_fd new_fd m = Some (True, ?m)"
    using f a(1) by (simp add: copy_fd_to_def Let_def)
  have opn: "is_open ?m j \<longleftrightarrow> is_open m j \<or> j = new_fd" for j by (rule is_open_stored)
  have "fd_ok ?m"
    unfolding fd_ok_def opn using assms(1,3) a(2,3) free by (auto simp: fd_ok_def)
  with c opn f get_file_stored [where m = m and fd = new_fd and f = f and a = a] show ?thesis
    by (intro exI [of _ f] exI [of _ ?m]) auto
qed

lemma sys_dup3_panics:
  assumes "is_open m old_fd" and "256 \<le> new_fd"
  shows "sys_dup3 old_fd new_fd m = None"
  using assms
  by (auto simp: get_file_open sys_dup3_def copy_fd_to_def alloc_exact_if_possible_def
      is_allocated_def bitalloc_test_panics)

text \<open>\<open>fork\<close> copies the table: the files, the limit and the free descriptors agree.\<close>

lemma copy_fds_spec:
  assumes "set fds \<subseteq> {..<length (files m)}" and "\<forall>fd. is_open m fd \<longrightarrow> fd < 256"
    and "bitalloc_ok (fd_allocator n)" and "length (files n) = length (files m)"
  shows "\<exists>n'. copy_fds fds m n = Some n' \<and> bitalloc_ok (fd_allocator n') \<and> fd_limit n' = fd_limit n
     \<and> length (files n') = length (files m)
     \<and> (\<forall>k. free_at (fd_allocator n') k \<longleftrightarrow> free_at (fd_allocator n) k \<and> \<not> (k \<in> set fds \<and> is_open m k))
     \<and> (\<forall>k < length (files m). files n' ! k = (if k \<in> set fds \<and> is_open m k then files m ! k else files n ! k))"
  using assms
proof (induction fds arbitrary: n)
  case Nil
  then show ?case by simp
next
  case (Cons fd fds)
  have fd: "fd < length (files m)" using Cons.prems(1) by simp
  show ?case
  proof (cases "files m ! fd")
    case None
    then have "\<not> is_open m fd" by (simp add: is_open_def)
    with None Cons.IH [of n] Cons.prems show ?thesis by fastforce
  next
    case (Some f)
    then have o: "is_open m fd" using fd by (simp add: is_open_def)
    then have "fd + 1 \<le> 256" using Cons.prems(2) by (auto simp: Suc_le_eq)
    then obtain a where a: "alloc_exact fd (fd_allocator n) = Some a" "bitalloc_ok a"
      "\<forall>k. free_at a k \<longleftrightarrow> free_at (fd_allocator n) k \<and> k \<noteq> fd"
      using bitalloc_remove_one [of "fd_allocator n" fd] Cons.prems(3) by (auto simp: alloc_exact_def)
    let ?n = "n\<lparr>fd_allocator := a, files := (files n)[fd := Some f]\<rparr>"
    obtain n' where n': "copy_fds fds m ?n = Some n'" "bitalloc_ok (fd_allocator n')"
      "fd_limit n' = fd_limit n" "length (files n') = length (files m)"
      "\<forall>k. free_at (fd_allocator n') k \<longleftrightarrow> free_at a k \<and> \<not> (k \<in> set fds \<and> is_open m k)"
      "\<forall>k < length (files m). files n' ! k =
          (if k \<in> set fds \<and> is_open m k then files m ! k else (files n)[fd := Some f] ! k)"
      using Cons.IH [of ?n] Cons.prems a(2) by auto
    have "copy_fds (fd # fds) m n = Some n'" using Some a(1) n'(1) by simp
    moreover have "files n' ! k = (if k \<in> set (fd # fds) \<and> is_open m k then files m ! k else files n ! k)"
      if "k < length (files m)" for k
      using n'(6) that Some o fd Cons.prems(4) by (auto simp: nth_list_update)
    ultimately show ?thesis using n'(2-5) a(3) o by auto
  qed
qed

lemma copy_all_ok:
  assumes "fd_ok m" and "0 < fd_limit m"
  shows "\<exists>n. copy_all m = Some n \<and> fd_ok n \<and> fd_limit n = fd_limit m \<and>
     (\<forall>k. get_file k n = get_file k m) \<and> (\<forall>k. is_open n k \<longleftrightarrow> is_open m k)"
proof -
  have lim: "fd_limit m \<le> 256" "\<forall>fd. is_open m fd \<longrightarrow> fd < fd_limit m"
    "\<forall>fd. is_open m fd \<longrightarrow> fd < 256" using assms(1) by (auto simp: fd_ok_def)
  obtain a where a: "fd_alloc_new (fd_limit m) = Some a" "bitalloc_ok a"
      "\<forall>k. free_at a k \<longleftrightarrow> k < fd_limit m"
    using fd_alloc_new_spec [OF assms(2) lim(1)] by blast
  let ?n = "\<lparr>files = resize (length (files m)) [], fd_allocator = a, fd_limit = fd_limit m, umask = umask m\<rparr>"
  obtain n where n: "copy_fds [0..<length (files m)] m ?n = Some n" "bitalloc_ok (fd_allocator n)"
      "fd_limit n = fd_limit m" "length (files n) = length (files m)"
      "\<forall>k. free_at (fd_allocator n) k \<longleftrightarrow> k < fd_limit m \<and> \<not> (k < length (files m) \<and> is_open m k)"
      "\<forall>k < length (files m). files n ! k = (if is_open m k then files m ! k else None)"
    using copy_fds_spec [of "[0..<length (files m)]" m ?n] a lim(3)
    by (auto simp: resize_def atLeast0LessThan cong: if_cong)
  have same: "files n ! k = files m ! k" if "k < length (files m)" for k
    using n(6) that by (simp add: is_open_def)
  have opn: "is_open n k \<longleftrightarrow> is_open m k" for k using same n(4) by (auto simp: is_open_def)
  have "get_file k n = get_file k m" for k using same n(4) by (simp add: get_file_def)
  moreover have "fd_ok n"
    unfolding fd_ok_def opn using n lim by (auto simp: is_open_def)
  ultimately show ?thesis using n a(1) opn by (auto simp: copy_all_def)
qed

subsection \<open>The table provides what the harness relies on\<close>

definition ok_call :: "'f fd_manager option \<Rightarrow> bool" where
  "ok_call w \<longleftrightarrow> (case w of None \<Rightarrow> False | Some m \<Rightarrow> fd_ok m)"

definition opened_call :: "'f fd_manager option \<Rightarrow> int set" where
  "opened_call w = (case w of None \<Rightarrow> {} | Some m \<Rightarrow> {int fd | fd. is_open m fd})"

definition free_call :: "'f fd_manager option \<Rightarrow> nat" where
  "free_call w = (case w of None \<Rightarrow> 0 | Some m \<Rightarrow> card {fd. fd < fd_limit m \<and> \<not> is_open m fd})"

lemma size_t_int: "fd < 256 \<Longrightarrow> size_t (int fd) = fd"
  by (simp add: size_t_nonneg)

lemma sys_dup_call:
  assumes "fd_ok m" and "is_open m fd"
  shows "dup_call (int fd) (Some m) =
    (case sys_dup fd m of
        None \<Rightarrow> (Inl 0, None)
      | Some (Inl e, m) \<Rightarrow> (Inl e, Some m)
      | Some (Inr n, m) \<Rightarrow> (Inr (int n), Some m))"
proof -
  have "fd < 256" using assms by (auto simp: fd_ok_def)
  then show ?thesis by (simp add: dup_call_def size_t_int)
qed

lemma dup_call_full:
  assumes "ok_call w" and "fd \<in> opened_call w" and "free_call w = 0"
  shows "dup_call fd w = (Inl EMFILE, w)"
proof -
  obtain m k where m: "w = Some m" "fd_ok m" "fd = int k" "is_open m k"
    using assms(1,2) by (auto simp: ok_call_def opened_call_def split: option.splits)
  have "\<forall>j < fd_limit m. is_open m j" using assms(3) m(1) by (auto simp: free_call_def)
  then have "push f m = Some (Inl NoAvailableFd, m)" for f using push_full [OF m(2)] by simp
  moreover obtain f where "get_file k m = Inr f" using m(4) by (auto simp: get_file_open)
  ultimately have "sys_dup k m = Some (Inl EMFILE, m)" by (simp add: sys_dup_def copy_fd_anywhere_def)
  then show ?thesis using m sys_dup_call [OF m(2,4)] by simp
qed

lemma dup_call_free:
  assumes "ok_call w" and "fd \<in> opened_call w" and "0 < free_call w"
  shows "\<exists>n w'. dup_call fd w = (Inr n, w') \<and> ok_call w' \<and> n \<notin> opened_call w \<and>
                 opened_call w' = Set.insert n (opened_call w) \<and> free_call w = Suc (free_call w')"
proof -
  obtain m k where m: "w = Some m" "fd_ok m" "fd = int k" "is_open m k"
    using assms(1,2) by (auto simp: ok_call_def opened_call_def split: option.splits)
  obtain f where f: "get_file k m = Inr f" using m(4) by (auto simp: get_file_open)
  let ?F = "\<lambda>m. {fd. fd < fd_limit m \<and> \<not> is_open m fd}"
  have "?F m \<noteq> {}" using assms(3) m(1) by (intro notI) (simp add: free_call_def)
  then obtain j where "j < fd_limit m" "\<not> is_open m j" by blast
  from push_least [OF m(2) this, of f] obtain n m' where
    p: "push f m = Some (Inr n, m')" "fd_ok m'" "n < fd_limit m" "\<not> is_open m n"
       "fd_limit m' = fd_limit m" "\<forall>j. is_open m' j \<longleftrightarrow> is_open m j \<or> j = n" by blast
  have "sys_dup k m = Some (Inr n, m')" using f p(1) by (simp add: sys_dup_def copy_fd_anywhere_def)
  then have "dup_call fd w = (Inr (int n), Some m')" using m sys_dup_call [OF m(2,4)] by simp
  moreover have "?F m = Set.insert n (?F m')" "n \<notin> ?F m'" using p by auto
  then have "card (?F m) = Suc (card (?F m'))" by simp
  ultimately show ?thesis
    using m(1) p by (auto simp: ok_call_def opened_call_def free_call_def)
qed

interpretation kfd: fd_table dup_call ok_call opened_call free_call
  by unfold_locales (rule dup_call_full dup_call_free; assumption)+

text \<open>The harness's \<open>t_fdfill\<close> over the kernel's descriptor table: while descriptor 1 is open,
  it terminates without a panic, no descriptor below the limit is left free, nothing that was
  open is closed, and the table's invariant holds.\<close>

lemma t_fdfill_fills_kernel_table:
  assumes "fd_ok m" and "is_open m 1"
  shows "\<exists>m'. t_fdfill dup_call open_null (Some m) = Some (Some m') \<and> fd_ok m'
           \<and> (\<forall>fd < fd_limit m'. is_open m' fd) \<and> (\<forall>fd. is_open m fd \<longrightarrow> is_open m' fd)"
proof -
  have "1 \<in> opened_call (Some m)" using assms(2) by (auto simp: opened_call_def intro: exI [of _ 1])
  then obtain w' where w': "t_fdfill dup_call open_null (Some m) = Some w'" "ok_call w'"
      "free_call w' = 0" "opened_call (Some m) \<subseteq> opened_call w'"
    using kfd.t_fdfill_fills [of "Some m" open_null] assms(1) by (auto simp: ok_call_def)
  then obtain m' where "w' = Some m'" by (auto simp: ok_call_def split: option.splits)
  with w' show ?thesis by (auto simp: ok_call_def free_call_def opened_call_def)
qed

text \<open>\<open>dup\<close> behaves as POSIX asks: on an open descriptor it returns the least unused one below
  the limit, which then holds the same file, every other descriptor unchanged, and fails with
  \<open>EMFILE\<close>, the table unchanged, exactly when all are in use; the invariant is kept.\<close>

lemma sys_dup_least:
  assumes "fd_ok m" and "get_file fd m = Inr f"
  shows "if \<forall>k < fd_limit m. is_open m k then sys_dup fd m = Some (Inl EMFILE, m)
         else \<exists>n m'. sys_dup fd m = Some (Inr n, m') \<and> fd_ok m' \<and> n < fd_limit m \<and> \<not> is_open m n
                \<and> (\<forall>j < n. is_open m j) \<and> get_file n m' = Inr f
                \<and> (\<forall>j. j \<noteq> n \<longrightarrow> get_file j m' = get_file j m)"
proof (cases "\<forall>k < fd_limit m. is_open m k")
  case True
  then show ?thesis
    using assms by (simp add: sys_dup_def copy_fd_anywhere_def push_full)
next
  case False
  then obtain k where "k < fd_limit m" "\<not> is_open m k" by blast
  from push_least [OF assms(1) this, of f] False show ?thesis
    using assms(2) by (auto simp: sys_dup_def copy_fd_anywhere_def)
qed

subsection \<open>Where the table breaks\<close>

lemma modify_limit_lower:
  assumes "fd_ok m" and "a < fd_limit m"
  shows "\<exists>m'. modify_limit a m = Some m' \<and> fd_limit m' = a \<and> files m' = files m \<and>
     bitalloc_ok (fd_allocator m') \<and> (\<forall>k. free_at (fd_allocator m') k \<longleftrightarrow> k < a \<and> \<not> is_open m k)"
proof -
  have m: "bitalloc_ok (fd_allocator m)" "fd_limit m \<le> 256"
    "\<forall>fd. free_at (fd_allocator m) fd \<longleftrightarrow> fd < fd_limit m \<and> \<not> is_open m fd"
    using assms(1) by (auto simp: fd_ok_def)
  obtain c where c: "bitalloc_remove a (fd_limit m) (fd_allocator m) = Some c" "bitalloc_ok c"
    "\<forall>k. free_at c k \<longleftrightarrow> free_at (fd_allocator m) k \<and> \<not> (a \<le> k \<and> k < fd_limit m)"
    using bitalloc_remove_spec [OF m(1) assms(2) m(2)] by blast
  let ?m = "m\<lparr>fd_allocator := c, fd_limit := a\<rparr>"
  have "modify_limit a m = Some ?m"
    using assms(2) m(2) c(1) by (simp add: modify_limit_def FD_LIMIT_HARD_def min_def)
  moreover have "free_at c k \<longleftrightarrow> k < a \<and> \<not> is_open m k" for k
    using c(3) m(3) assms(2) by (metis less_le_trans not_less order.strict_trans)
  ultimately show ?thesis using c(2) by (intro exI [of _ ?m]) simp
qed

lemma modify_limit_raise:
  assumes "bitalloc_ok (fd_allocator m)" and "fd_limit m < b" and "b \<le> 256"
  shows "\<exists>m'. modify_limit b m = Some m' \<and> fd_limit m' = b \<and> files m' = files m \<and>
     (\<forall>k. free_at (fd_allocator m') k \<longleftrightarrow> fd_limit m \<le> k \<and> k < b \<or> free_at (fd_allocator m) k)"
proof -
  obtain c where c: "bitalloc_insert (fd_limit m) b (fd_allocator m) = Some c" "bitalloc_ok c"
    "\<forall>k. free_at c k \<longleftrightarrow> fd_limit m \<le> k \<and> k < b \<or> free_at (fd_allocator m) k"
    using bitalloc_insert_spec [OF assms] by blast
  let ?m = "m\<lparr>fd_allocator := c, fd_limit := b\<rparr>"
  have "modify_limit b m = Some ?m"
    using assms(2,3) c(1) by (simp add: modify_limit_def FD_LIMIT_HARD_def min_def)
  then show ?thesis using c(3) by (intro exI [of _ ?m]) simp
qed

lemma word_of_int_less_iff:
  "0 \<le> lim \<Longrightarrow> lim < 2 ^ 63 \<Longrightarrow> l \<le> 256 \<Longrightarrow> (of_nat l :: u64) < word_of_int lim \<longleftrightarrow> int l < lim"
  by (simp add: word_less_def uint_word_of_int unsigned_of_nat take_bit_nat_eq_self)

lemma word_of_int_eq_iff_small:
  "0 \<le> lim \<Longrightarrow> lim < 2 ^ 63 \<Longrightarrow> l \<le> 256 \<Longrightarrow> (word_of_int lim :: u64) = of_nat l \<longleftrightarrow> lim = int l"
  by (auto simp: word_uint_eq_iff uint_word_of_int unsigned_of_nat take_bit_nat_eq_self)

text \<open>What the harness's \<open>t_setrlim\<close> does on this kernel.  For the number of open files it sets
  exactly the limit asked for and reports success when the limit does not rise, and fails without
  an effect when it would; for the stack size it reports success although nothing changes.\<close>

lemma t_setrlim_on_kernel:
  assumes "fd_ok m" and "0 \<le> lim" and "lim < 2 ^ 63"
  shows "(lim \<le> int (fd_limit m) \<longrightarrow>
            (\<exists>m'. run_state (t_setrlim getrlimit_call setrlimit_call rl0 RLIMIT_NOFILE lim) (Some m, [])
                    = (0, (Some m', [])) \<and> fd_limit m' = nat lim \<and> files m' = files m))
       \<and> (int (fd_limit m) < lim \<longrightarrow>
            run_state (t_setrlim getrlimit_call setrlimit_call rl0 RLIMIT_NOFILE lim) (Some m, [])
              = (-1, (Some m, [])))
       \<and> (lim \<le> 2097152 \<longrightarrow>
            run_state (t_setrlim getrlimit_call setrlimit_call rl0 RLIMIT_STACK lim) (Some m, [])
              = (0, (Some m, [])))"
proof -
  have lim: "fd_limit m \<le> 256" using assms(1) by (simp add: fd_ok_def)
  have A: "\<exists>m'. run_state (t_setrlim getrlimit_call setrlimit_call rl0 RLIMIT_NOFILE lim) (Some m, [])
                    = (0, (Some m', [])) \<and> fd_limit m' = nat lim \<and> files m' = files m"
    if le: "lim \<le> int (fd_limit m)"
  proof (cases "lim = int (fd_limit m)")
    case True
    with lim show ?thesis
      by (simp add: Let_def t_setrlim_def getrlimit_call_def sys_prlimt64_def RLIMIT_NOFILE_def RLIMIT_STACK_def)
  next
    case False
    have u: "unat (word_of_int lim :: u64) = nat lim"
      using size_t_nonneg [of lim] assms(2,3) by (simp add: size_t_def)
    have "nat lim < fd_limit m" using False le assms(2) by simp
    then obtain m' where "modify_limit (nat lim) m = Some m'" "fd_limit m' = nat lim" "files m' = files m"
      using modify_limit_lower [OF assms(1)] by blast
    with False le lim assms(2,3) u show ?thesis
      by (simp add: Let_def t_setrlim_def getrlimit_call_def setrlimit_call_def sys_prlimt64_def
          RLIMIT_NOFILE_def RLIMIT_STACK_def word_of_int_less_iff word_of_int_eq_iff_small)
  qed
  have B: "run_state (t_setrlim getrlimit_call setrlimit_call rl0 RLIMIT_NOFILE lim) (Some m, [])
              = (-1, (Some m, []))" if "int (fd_limit m) < lim"
    using that lim assms(2,3)
    by (simp add: Let_def t_setrlim_def getrlimit_call_def sys_prlimt64_def
        RLIMIT_NOFILE_def RLIMIT_STACK_def word_of_int_less_iff)
  have C: "run_state (t_setrlim getrlimit_call setrlimit_call rl0 RLIMIT_STACK lim) (Some m, [])
              = (0, (Some m, []))" if "lim \<le> 2097152"
  proof -
    have "\<not> USER_STACK_SIZE < word_of_int lim"
      using that assms(2) by (simp add: USER_STACK_SIZE_def word_less_def uint_word_of_int)
    then show ?thesis
      by (simp add: Let_def t_setrlim_def getrlimit_call_def setrlimit_call_def sys_prlimt64_def RLIMIT_STACK_def)
  qed
  from A B C show ?thesis by blast
qed

text \<open>Lowering the descriptor limit below an open descriptor and raising it again corrupts the
  table: the descriptor, still open, is handed to the allocator as free, and closing it then
  panics the kernel.  Any process can do this with two calls of \<open>setrlimit\<close> and one of \<open>close\<close>.\<close>

lemma limit_raise_frees_open_fd:
  assumes "fd_ok m" and "is_open m fd" and "a \<le> fd" and "fd < b" and "b \<le> 256"
  shows "\<exists>m1 m2. modify_limit a m = Some m1 \<and> modify_limit b m1 = Some m2 \<and> is_open m2 fd
           \<and> free_at (fd_allocator m2) fd \<and> remove_file fd m2 = None"
proof -
  have "a < fd_limit m" using assms(1-3) by (auto simp: fd_ok_def)
  then obtain m1 where m1: "modify_limit a m = Some m1" "fd_limit m1 = a" "files m1 = files m"
      "bitalloc_ok (fd_allocator m1)"
    using modify_limit_lower [OF assms(1)] by blast
  have "fd_limit m1 < b" using m1(2) assms(3,4) by simp
  then obtain m2 where m2: "modify_limit b m1 = Some m2" "files m2 = files m1"
      "\<forall>k. free_at (fd_allocator m2) k \<longleftrightarrow> a \<le> k \<and> k < b \<or> free_at (fd_allocator m1) k"
    using modify_limit_raise [OF m1(4) _ assms(5)] m1(2) by auto
  have o: "is_open m2 fd" using m2(2) m1(3) assms(2) by (simp add: is_open_def)
  then obtain f where "get_file fd m2 = Inr f" by (auto simp: get_file_open)
  moreover have free: "free_at (fd_allocator m2) fd" using m2(3) assms(3,4) by simp
  ultimately have "remove_file fd m2 = None"
    by (simp add: remove_file_def bitalloc_dealloc_panics)
  with m1(1) m2(1) o free show ?thesis by blast
qed

text \<open>Closing the \<open>CLOEXEC\<close> files on \<open>exec\<close> leaks their descriptors: the file is gone, yet the
  allocator still counts the descriptor as used, so that a table whose other descriptors are in
  use refuses a new file although a slot is empty.\<close>

lemma cloexec_leaks_fd:
  assumes "fd_ok m" and "get_file fd m = Inr f" and "cloexec f"
    and "m' = close_cloexec_files cloexec m"
  shows "get_file fd m' = Inl FdNotFound \<and> \<not> free_at (fd_allocator m') fd \<and>
         ((\<forall>k < fd_limit m. is_open m k) \<longrightarrow> push g m' = Some (Inl NoAvailableFd, m'))"
proof -
  have o: "is_open m fd" using assms(2) by (auto simp: get_file_open)
  then have "fd < length (files m)" "files m ! fd = Some f"
    using assms(2) by (auto simp: get_file_def is_open_def split: option.splits)
  then have "get_file fd m' = Inl FdNotFound"
    using assms(3,4) by (simp add: close_cloexec_files_def get_file_def)
  moreover have alloc: "fd_allocator m' = fd_allocator m"
    using assms(4) by (simp add: close_cloexec_files_def)
  moreover have "\<not> free_at (fd_allocator m) fd" using assms(1) o by (auto simp: fd_ok_def)
  moreover have "push g m' = Some (Inl NoAvailableFd, m')" if "\<forall>k < fd_limit m. is_open m k"
  proof -
    have "bitalloc_alloc (fd_allocator m) = Some (None, fd_allocator m)"
      using assms(1) that by (intro bitalloc_alloc_full) (auto simp: fd_ok_def)
    with alloc show ?thesis by (simp add: push_def)
  qed
  ultimately show ?thesis by simp
qed

text \<open>C23: two ways for the table to lose a descriptor.  Lowering the limit below an open descriptor and raising it
  again hands the descriptor, still open, to the allocator as free, and closing it then panics the kernel: any process
  can do this with two calls of \<open>setrlimit\<close> and one of \<open>close\<close>.  And closing the \<open>CLOEXEC\<close> files on \<open>exec\<close> takes the
  files out of the table while the allocator still counts their descriptors as used, so that a table whose other
  descriptors are in use refuses a new file although a slot is empty.\<close>

theorem descriptors_lost:
  assumes "fd_ok m" and "get_file fd m = Inr f"
  shows "(a \<le> fd \<and> fd < b \<and> b \<le> 256 \<longrightarrow>
      (\<exists>m1 m2. modify_limit a m = Some m1 \<and> modify_limit b m1 = Some m2 \<and> is_open m2 fd
           \<and> free_at (fd_allocator m2) fd \<and> remove_file fd m2 = None))
    \<and> (cloexec f \<longrightarrow>
         get_file fd (close_cloexec_files cloexec m) = Inl FdNotFound
       \<and> \<not> free_at (fd_allocator (close_cloexec_files cloexec m)) fd
       \<and> ((\<forall>k < fd_limit m. is_open m k) \<longrightarrow>
            push g (close_cloexec_files cloexec m) = Some (Inl NoAvailableFd, close_cloexec_files cloexec m)))"
proof -
  have "is_open m fd" using assms(2) by (auto simp: get_file_open)
  then show ?thesis
    using limit_raise_frees_open_fd [OF assms(1)] cloexec_leaks_fd [OF assms _ refl] by blast
qed

theorem descriptors_lost_witness:
  "\<exists>m m1 m2. fd_manager_new 18 ''in'' ''out'' ''err'' = Some m \<and> modify_limit 1 m = Some m1
     \<and> modify_limit 8 m1 = Some m2 \<and> remove_file 2 m2 = None
     \<and> get_file 2 (close_cloexec_files (\<lambda>f. f = ''err'') m) = Inl FdNotFound
     \<and> \<not> free_at (fd_allocator (close_cloexec_files (\<lambda>f. f = ''err'') m)) 2"
proof -
  obtain m where m: "fd_manager_new 18 ''in'' ''out'' ''err'' = Some m" "fd_ok m" "get_file 2 m = Inr ''err''"
    using fd_manager_new_ok [of 18 "''in''" "''out''" "''err''"] by auto
  from descriptors_lost [OF m(2,3), of 1 8 "\<lambda>f. f = ''err''" "''out''"] obtain m1 m2 where
    "modify_limit 1 m = Some m1" "modify_limit 8 m1 = Some m2" "remove_file 2 m2 = None"
    "get_file 2 (close_cloexec_files (\<lambda>f. f = ''err'') m) = Inl FdNotFound"
    "\<not> free_at (fd_allocator (close_cloexec_files (\<lambda>f. f = ''err'') m)) 2" by auto
  then show ?thesis using m(1) by blast
qed

end
