(* ===== verification/Runtest.thy ===== *)
theory Runtest
  imports CString TestLog
begin

text \<open>
  The test runner, libc/src/common/runtest.c: it starts a test in a child process, waits for it
  up to a number of seconds, kills it when the time is up, and prints the verdict.  The system
  calls are arguments over a world \<open>'w\<close>; what the runner prints is a list of messages.
\<close>

datatype message =
    Started | ForkFailed | FailInternal | SigwaitFailed | KillFailed | WaitFailed
  | FailStatus nat | FailTimedOut | FailSignal nat | FailUnknown | Pass | Ended | Usage

type_synonym ('w, 'a) runner = "('w \<times> message list, 'a) state"

definition say :: "message \<Rightarrow> ('w, unit) runner" where
  "say m = State (\<lambda>(w, ms). ((), (w, ms @ [m])))"

lemma run_say [simp]: "run_state (say m) (w, ms) = ((), (w, ms @ [m]))"
  by (simp add: say_def)

subsection \<open>The command line\<close>

datatype opt = Opt_w cstr "cstr list" | Opt_t cstr "cstr list" | Opt_bad | Opt_end "cstr list"

text \<open>\<open>getopt(argc, argv, "w:t:")\<close> on the arguments not read yet.\<close>

fun getopt_wt :: "cstr list \<Rightarrow> opt" where
  "getopt_wt [] = Opt_end []"
| "getopt_wt (a # as) =
     (if a = ''--'' then Opt_end as
      else if length a < 2 \<or> hd a \<noteq> CHR ''-'' then Opt_end (a # as)
      else if a ! 1 \<noteq> CHR ''w'' \<and> a ! 1 \<noteq> CHR ''t'' then Opt_bad
      else if 2 < length a then
        (if a ! 1 = CHR ''w'' then Opt_w (drop 2 a) as else Opt_t (drop 2 a) as)
      else (case as of
              [] \<Rightarrow> Opt_bad
            | x # as' \<Rightarrow> if a ! 1 = CHR ''w'' then Opt_w x as' else Opt_t x as'))"

lemma getopt_wt_shorter:
  "getopt_wt as = Opt_w x bs \<Longrightarrow> length bs < length as"
  "getopt_wt as = Opt_t x bs \<Longrightarrow> length bs < length as"
  by (cases as; auto split: if_splits list.splits)+

text \<open>The wrapper, the time limit and the command, or \<open>None\<close> for the usage message.\<close>

function parse_args :: "cstr \<Rightarrow> int \<Rightarrow> cstr list \<Rightarrow> (cstr \<times> int \<times> cstr list) option" where
  "parse_args wrap timeoutsec as =
     (case getopt_wt as of
        Opt_w x bs \<Rightarrow> parse_args x timeoutsec bs
      | Opt_t x bs \<Rightarrow> parse_args wrap (atoi x) bs
      | Opt_bad \<Rightarrow> None
      | Opt_end bs \<Rightarrow> if bs = [] then None else Some (wrap, timeoutsec, bs))"
  by pat_completeness auto
termination
  by (relation "measure (\<lambda>(_, _, as). length as)") (auto simp: getopt_wt_shorter)

declare parse_args.simps [simp del]

text \<open>What the child of \<open>start\<close> executes.\<close>

definition child_argv :: "cstr \<Rightarrow> cstr list \<Rightarrow> cstr list" where
  "child_argv wrap argv = (if wrap \<noteq> [] then wrap # argv else argv)"

definition start_child ::
    "(int \<Rightarrow> int \<Rightarrow> 'w \<Rightarrow> 'w) \<Rightarrow> (cstr \<Rightarrow> cstr list \<Rightarrow> 'w \<Rightarrow> bool \<times> 'w) \<Rightarrow> cstr \<Rightarrow> cstr list \<Rightarrow> 'w \<Rightarrow> int option \<times> 'w" where
  "start_child setrlim execv wrap argv w =
     (let w = setrlim 3 (100 * 1024) w;
          argv = child_argv wrap argv
      in case execv (hd argv) argv w of
           (True, w') \<Rightarrow> (None, w')
         | (False, w') \<Rightarrow> (Some 1, w'))"

subsection \<open>Statuses of a child\<close>

definition WIFEXITED :: "u32 \<Rightarrow> bool" where
  "WIFEXITED s \<longleftrightarrow> s AND 0x7f = 0"

definition WEXITSTATUS :: "u32 \<Rightarrow> nat" where
  "WEXITSTATUS s = unat (drop_bit 8 (s AND 0xff00))"

definition WIFSIGNALED :: "u32 \<Rightarrow> bool" where
  "WIFSIGNALED s \<longleftrightarrow> (s AND 0xffff) - 1 < 0xff"

definition WTERMSIG :: "u32 \<Rightarrow> nat" where
  "WTERMSIG s = unat (s AND 0x7f)"

definition SIGKILL :: int where
  "SIGKILL = 9"

definition EAGAIN :: int where
  "EAGAIN = 11"

subsection \<open>The runner\<close>

text \<open>The part of \<open>main\<close> after the command line: \<open>status0\<close> is the indeterminate value of the local
  variable \<open>status\<close>.\<close>

definition await_child ::
    "(int \<Rightarrow> 'w \<Rightarrow> (int + int) \<times> 'w) \<Rightarrow> (int \<Rightarrow> int \<Rightarrow> 'w \<Rightarrow> int \<times> 'w) \<Rightarrow> int \<Rightarrow> int \<Rightarrow> bool
     \<Rightarrow> ('w, bool \<times> bool) runner" where
  "await_child sigtimedwait kill timeoutsec pid err =
     do {
       r \<leftarrow> call (sigtimedwait timeoutsec);
       (case r of
          Inr _ \<Rightarrow> State_Monad.return (False, err)
        | Inl errno \<Rightarrow>
            do {
              (timeout, err) \<leftarrow>
                (if errno = EAGAIN then State_Monad.return (True, err)
                 else do { say SigwaitFailed; State_Monad.return (False, True) });
              k \<leftarrow> call (kill pid SIGKILL);
              if k = -1 then do { say KillFailed; State_Monad.return (timeout, True) }
              else State_Monad.return (timeout, err)
            })
     }"

definition verdict :: "bool \<Rightarrow> u32 \<Rightarrow> bool \<Rightarrow> ('w, bool) runner" where
  "verdict timeout status err =
     (if WIFEXITED status then
        (if WEXITSTATUS status \<noteq> 0
         then do { say (FailStatus (WEXITSTATUS status)); State_Monad.return True }
         else State_Monad.return err)
      else if timeout then do { say FailTimedOut; State_Monad.return True }
      else if WIFSIGNALED status
      then do { say (FailSignal (WTERMSIG status)); State_Monad.return True }
      else do { say FailUnknown; State_Monad.return True })"

definition main_run ::
    "('w \<Rightarrow> int \<times> 'w) \<Rightarrow> (int \<Rightarrow> 'w \<Rightarrow> (int + int) \<times> 'w) \<Rightarrow> (int \<Rightarrow> int \<Rightarrow> 'w \<Rightarrow> int \<times> 'w)
     \<Rightarrow> (int \<Rightarrow> 'w \<Rightarrow> (int \<times> u32 option) \<times> 'w) \<Rightarrow> u32 \<Rightarrow> int \<Rightarrow> ('w, int) runner" where
  "main_run fork sigtimedwait kill waitpid status0 timeoutsec =
     do {
       say Started;
       pid \<leftarrow> call fork;
       err \<leftarrow> (if pid = -1
               then do { say ForkFailed; say FailInternal; State_Monad.return True }
               else State_Monad.return False);
       (timeout, err) \<leftarrow> await_child sigtimedwait kill timeoutsec pid err;
       (w, status) \<leftarrow> call (waitpid pid);
       err \<leftarrow> (if w \<noteq> pid
               then do { say WaitFailed; say FailInternal; State_Monad.return True }
               else State_Monad.return err);
       err \<leftarrow> verdict timeout (case status of None \<Rightarrow> status0 | Some s \<Rightarrow> s) err;
       (if \<not> err then say Pass else State_Monad.return ());
       say Ended;
       State_Monad.return 1
     }"

definition runtest_main ::
    "('w \<Rightarrow> int \<times> 'w) \<Rightarrow> (int \<Rightarrow> 'w \<Rightarrow> (int + int) \<times> 'w) \<Rightarrow> (int \<Rightarrow> int \<Rightarrow> 'w \<Rightarrow> int \<times> 'w)
     \<Rightarrow> (int \<Rightarrow> 'w \<Rightarrow> (int \<times> u32 option) \<times> 'w) \<Rightarrow> u32 \<Rightarrow> cstr list \<Rightarrow> ('w, int) runner" where
  "runtest_main fork sigtimedwait kill waitpid status0 args =
     (case parse_args [] 5 args of
        None \<Rightarrow> do { say Usage; State_Monad.return (-1) }
      | Some (wrap, timeoutsec, argv) \<Rightarrow>
          main_run fork sigtimedwait kill waitpid status0 timeoutsec)"

definition messages :: "('w, 'a) runner \<Rightarrow> 'w \<Rightarrow> message list" where
  "messages p w = snd (snd (run_state p (w, [])))"

lemmas runtest_defs = main_run_def await_child_def verdict_def messages_def

lemma verdict_run:
  "run_state (verdict timeout status err) (w, ms) =
     (if WIFEXITED status \<and> WEXITSTATUS status = 0 then (err, (w, ms))
      else (True, (w, ms @ [if WIFEXITED status then FailStatus (WEXITSTATUS status)
                            else if timeout then FailTimedOut
                            else if WIFSIGNALED status then FailSignal (WTERMSIG status)
                            else FailUnknown])))"
  by (simp add: verdict_def)

text \<open>C19: the runner prints \<open>Pass!\<close> exactly when the fork succeeded, the wait for the child ended
  without an error of its own (the child was collected in time, or the time ran out and the kill
  succeeded), \<open>waitpid\<close> returned the child, and its status says it exited with 0; the report ends
  with the END line.  Its own exit status is 1 in every case, so it says nothing of the verdict.  The calls are made
  in this order whatever \<open>fork\<close> returned: after a failed \<open>fork\<close> the process id is -1, and when the time runs out
  \<open>SIGKILL\<close> goes to process -1, which addresses every process the runner may signal.\<close>

theorem runtest_pass_iff:
  assumes "fork w = (pid, w1)" and "sigtimedwait t w1 = (r, w2)"
    and "(if isl r then kill pid SIGKILL w2 else (0, w2)) = (k, w3)"
    and "waitpid pid w3 = ((c, s), w4)"
  shows "(Pass \<in> set (messages (main_run fork sigtimedwait kill waitpid status0 t) w) \<longleftrightarrow>
            pid \<noteq> -1 \<and> (isl r \<longrightarrow> projl r = EAGAIN \<and> k \<noteq> -1) \<and> c = pid \<and>
            WIFEXITED (case s of None \<Rightarrow> status0 | Some x \<Rightarrow> x) \<and>
            WEXITSTATUS (case s of None \<Rightarrow> status0 | Some x \<Rightarrow> x) = 0)
       \<and> last (messages (main_run fork sigtimedwait kill waitpid status0 t) w) = Ended
       \<and> fst (run_state (main_run fork sigtimedwait kill waitpid status0 t) (w, [])) = 1
       \<and> fst (snd (run_state (main_run fork sigtimedwait kill waitpid status0 t) (w, []))) = w4"
proof (cases r)
  case (Inr x)
  with assms show ?thesis
    by (cases "pid = -1"; cases "c = pid")
       (simp_all add: main_run_def await_child_def messages_def verdict_run)
next
  case (Inl e)
  with assms show ?thesis
    by (cases "e = EAGAIN"; cases "k = -1"; cases "pid = -1"; cases "c = pid")
       (simp_all add: main_run_def await_child_def messages_def verdict_run)
qed

theorem runtest_pass_iff_witness:
  "messages (main_run (\<lambda>w. (7 :: int, w)) (\<lambda>t w. (Inr 17, w)) (\<lambda>p s w. (0, w))
      (\<lambda>p w. ((7, Some (0x100 :: u32)), w)) 0 5) () = [Started, FailStatus 1, Ended]
   \<and> Pass \<notin> set (messages (main_run (\<lambda>w. (7 :: int, w)) (\<lambda>t w. (Inr 17, w)) (\<lambda>p s w. (0, w))
      (\<lambda>p w. ((7, Some (0x100 :: u32)), w)) 0 5) ())
   \<and> fst (snd (run_state (main_run (\<lambda>w. (-1, w)) (\<lambda>t w. (Inl EAGAIN, w)) (\<lambda>p s w. (0, w @ [p]))
      (\<lambda>p w. ((-1, None), w)) 0 5) ([], []))) = [-1]"
  using runtest_pass_iff [of "\<lambda>w. (7, w)" "()" 7 "()" "\<lambda>t w. (Inr 17, w)" 5 "Inr 17" "()"
      "\<lambda>p s w. (0, w)" 0 "()" "\<lambda>p w. ((7, Some 0x100), w)" 7 "Some 0x100" "()" 0]
    runtest_pass_iff [of "\<lambda>w. (-1, w)" "[]" "-1" "[]" "\<lambda>t w. (Inl EAGAIN, w)" 5 "Inl EAGAIN" "[]"
      "\<lambda>p s w. (0, w @ [p])" 0 "[-1]" "\<lambda>p w. ((-1, None), w)" "-1" None "[-1]" 0]
  by (simp add: main_run_def await_child_def messages_def verdict_run WIFEXITED_def WEXITSTATUS_def)

end
