(* ===== verification/Mtest.thy ===== *)
theory Mtest
  imports Complex_Main CString
begin

text \<open>
  The helpers of the floating-point tests, libc/src/common/mtest.c and mtest.h, as far as they
  work on the bits of a number: the exponent of the unit in the last place of a \<open>float\<close>,
  \<open>double\<close> and \<open>long double\<close>, the acceptance of exception flags, and their printing.  The flags
  and rounding modes come from the platform's \<open>fenv.h\<close>, so they are an argument.  The functions
  that compute with floating-point numbers (\<open>ulperr\<close>, \<open>checkulp\<close>) are not modelled.
\<close>

definition eulpf :: "u32 \<Rightarrow> int" where
  "eulpf i =
     (let e = int (unat (drop_bit 23 i AND 0xff));
          e = (if e = 0 then e + 1 else e)
      in e - 0x7f - 23)"

definition eulp :: "u64 \<Rightarrow> int" where
  "eulp i =
     (let e = int (unat (drop_bit 52 i AND 0x7ff));
          e = (if e = 0 then e + 1 else e)
      in e - 0x3ff - 52)"

text \<open>\<open>mant_dig\<close> is \<open>LDBL_MANT_DIG\<close>; the number is given by the fields \<open>m\<close> and \<open>e\<close> of the union, or,
  where a \<open>long double\<close> is a \<open>double\<close>, by its 64 bits \<open>m\<close>.\<close>

definition eulpl :: "nat \<Rightarrow> u64 \<Rightarrow> u16 \<Rightarrow> int" where
  "eulpl mant_dig m e16 =
     (if mant_dig = 53 then eulp m
      else if mant_dig = 64 then
        (let e = int (unat (e16 AND 0x7fff));
             e = (if e = 0 then e + 1 else e)
         in e - 0x3fff - 63)
      else 0)"

record fenv =
  FE_INEXACT :: u32
  FE_INVALID :: u32
  FE_DIVBYZERO :: u32
  FE_UNDERFLOW :: u32
  FE_OVERFLOW :: u32
  RN :: int
  RZ :: int
  RU :: int
  RD :: int

definition eflags :: "fenv \<Rightarrow> (u32 \<times> cstr) list" where
  "eflags F =
     [(FE_INEXACT F, ''INEXACT''), (FE_INVALID F, ''INVALID''), (FE_DIVBYZERO F, ''DIVBYZERO''),
      (FE_UNDERFLOW F, ''UNDERFLOW''), (FE_OVERFLOW F, ''OVERFLOW'')]"

fun estr_flags :: "(u32 \<times> cstr) list \<Rightarrow> u32 \<Rightarrow> u32 \<Rightarrow> cstr \<Rightarrow> u32 \<times> cstr" where
  "estr_flags [] f all p = (all, p)"
| "estr_flags ((flag, s) # fs) f all p =
     (if f AND flag \<noteq> 0
      then estr_flags fs f (all OR flag) (p @ (if all \<noteq> 0 then ''|'' else '''') @ s)
      else estr_flags fs f all p)"

definition estr :: "fenv \<Rightarrow> u32 \<Rightarrow> cstr" where
  "estr F f =
     (let (all, p) = estr_flags (eflags F) f 0 [];
          (all, p) = (if all \<noteq> f
                      then (f, p @ (if all \<noteq> 0 then ''|'' else '''') @ dec_int (sint (f AND NOT all)))
                      else (all, p))
      in p @ (if all \<noteq> 0 then '''' else ''0''))"

definition rstr :: "fenv \<Rightarrow> int \<Rightarrow> cstr" where
  "rstr F r =
     (if r = RN F then ''RN''
      else if r = RZ F then ''RZ''
      else if r = RU F then ''RU''
      else if r = RD F then ''RD''
      else ''R?'')"

definition checkexcept :: "fenv \<Rightarrow> u32 \<Rightarrow> u32 \<Rightarrow> int \<Rightarrow> bool" where
  "checkexcept F got want r =
     (if r = RN F then (got OR FE_INEXACT F) = (want OR FE_INEXACT F)
      else (got OR FE_INEXACT F OR FE_UNDERFLOW F) = (want OR FE_INEXACT F OR FE_UNDERFLOW F))"

definition checkexceptall :: "u32 \<Rightarrow> u32 \<Rightarrow> int \<Rightarrow> bool" where
  "checkexceptall got want r \<longleftrightarrow> got = want"

subsection \<open>The unit in the last place\<close>

text \<open>The value of the number with exponent field \<open>n div 2 ^ p\<close> and fraction \<open>n mod 2 ^ p\<close>, for a
  format with \<open>p\<close> fraction bits and exponent bias \<open>b\<close>, as a multiple of the least subnormal.\<close>

definition ieee_value :: "nat \<Rightarrow> nat \<Rightarrow> nat \<Rightarrow> real" where
  "ieee_value p b n =
     (let e = n div 2 ^ p; m = n mod 2 ^ p
      in if e = 0 then real m * 2 powi (1 - int b - int p)
         else real (2 ^ p + m) * 2 powi (int e - int b - int p))"

lemma ieee_value_step:
  "ieee_value p b (Suc n) - ieee_value p b n = 2 powi (int (max 1 (n div 2 ^ p)) - int b - int p)"
proof (cases "Suc (n mod 2 ^ p) = 2 ^ p")
  case False
  then have "Suc n mod 2 ^ p = Suc (n mod 2 ^ p)" by (simp add: mod_Suc)
  moreover have "Suc n div 2 ^ p = n div 2 ^ p" using False by (simp add: div_Suc mod_Suc)
  ultimately show ?thesis
    by (simp add: ieee_value_def Let_def algebra_simps max_def)
next
  case True
  then have m: "Suc n mod 2 ^ p = 0" by (simp add: mod_Suc)
  have e: "Suc n div 2 ^ p = Suc (n div 2 ^ p)" using m by (simp add: div_Suc)
  have f: "real (n mod 2 ^ p) = 2 ^ p - 1"
  proof -
    have "real (Suc (n mod 2 ^ p)) = real (2 ^ p)" by (simp only: True)
    then have "real (n mod 2 ^ p) + 1 = 2 ^ p" by (simp only: of_nat_Suc of_nat_power of_nat_numeral)
    then show ?thesis by linarith
  qed
  show ?thesis
  proof (cases "n div 2 ^ p = 0")
    case True
    have "ieee_value p b (Suc n) = 2 ^ p * 2 powi (1 - int b - int p)"
      using m e True by (simp add: ieee_value_def Let_def)
    moreover have "ieee_value p b n = (2 ^ p - 1) * 2 powi (1 - int b - int p)"
      using f True by (simp add: ieee_value_def Let_def)
    ultimately show ?thesis using True by (simp add: algebra_simps)
  next
    case False
    have "2 powi (int (Suc (n div 2 ^ p)) - int b - int p) = (2::real) * 2 powi (int (n div 2 ^ p) - int b - int p)"
    proof -
      have "(2::real) powi (1 + k) = 2 * 2 powi k" for k by (simp add: power_int_add)
      moreover have "int (Suc (n div 2 ^ p)) - int b - int p = 1 + (int (n div 2 ^ p) - int b - int p)" by simp
      ultimately show ?thesis by (simp only:)
    qed
    then have "ieee_value p b (Suc n) = 2 ^ p * (2 * 2 powi (int (n div 2 ^ p) - int b - int p))"
      using m e by (simp add: ieee_value_def Let_def)
    moreover have "ieee_value p b n = (2 ^ p + (2 ^ p - 1)) * 2 powi (int (n div 2 ^ p) - int b - int p)"
      using f False by (simp add: ieee_value_def Let_def)
    ultimately show ?thesis using False by (simp add: algebra_simps max_def)
  qed
qed

lemma and_mask_nat: "x AND mask n = take_bit n x" for x :: "'a::len word"
  by (simp add: take_bit_eq_mask)

lemma exponent_field_32: "unat (drop_bit 23 (u :: u32) AND 0xff) = unat u div 2 ^ 23 mod 2 ^ 8"
proof -
  have "(0xff :: u32) = mask 8" by (simp add: mask_eq_exp_minus_1)
  then have "drop_bit 23 u AND 0xff = take_bit 8 (drop_bit 23 u)" by (simp only: and_mask_nat)
  moreover have "unat u < 2 ^ 32" using unsigned_less [of u] by simp
  ultimately show ?thesis
    by (simp only: unsigned_take_bit_eq unsigned_drop_bit_eq) (simp add: take_bit_eq_mod drop_bit_eq_div)
qed

lemma exponent_field_64: "unat (drop_bit 52 (u :: u64) AND 0x7ff) = unat u div 2 ^ 52 mod 2 ^ 11"
proof -
  have "(0x7ff :: u64) = mask 11" by (simp add: mask_eq_exp_minus_1)
  then have "drop_bit 52 u AND 0x7ff = take_bit 11 (drop_bit 52 u)" by (simp only: and_mask_nat)
  moreover have "unat u < 2 ^ 64" using unsigned_less [of u] by simp
  ultimately show ?thesis
    by (simp only: unsigned_take_bit_eq unsigned_drop_bit_eq) (simp add: take_bit_eq_mod drop_bit_eq_div)
qed

text \<open>\<open>eulpf\<close> and \<open>eulp\<close> give the exponent of the unit in the last place: for every
  non-negative finite \<open>float\<close> (\<open>double\<close>), given by its bits, the next one in the order of the bits
  is greater by exactly two to that exponent, subnormal numbers and changes of binade included.\<close>

lemma eulp_is_gap:
  assumes "unat u < 0xff * 2 ^ 23" and "unat v < 0x7ff * 2 ^ 52"
  shows "ieee_value 23 0x7f (unat u + 1) - ieee_value 23 0x7f (unat u) = 2 powi eulpf u
       \<and> ieee_value 52 0x3ff (unat v + 1) - ieee_value 52 0x3ff (unat v) = 2 powi eulp v"
proof -
  have "unat u div 2 ^ 23 < 0xff" using assms(1) by (simp add: less_mult_imp_div_less)
  then have "eulpf u = int (max 1 (unat u div 2 ^ 23)) - int 0x7f - int 23"
    by (simp add: eulpf_def exponent_field_32 Let_def)
  then have f: "ieee_value 23 0x7f (unat u + 1) - ieee_value 23 0x7f (unat u) = 2 powi eulpf u"
    using ieee_value_step [of 23 "0x7f" "unat u"] by simp
  have "unat v div 2 ^ 52 < 0x7ff" using assms(2) by (simp add: less_mult_imp_div_less)
  then have "eulp v = int (max 1 (unat v div 2 ^ 52)) - int 0x3ff - int 52"
    by (simp add: eulp_def exponent_field_64 Let_def)
  then have "ieee_value 52 0x3ff (unat v + 1) - ieee_value 52 0x3ff (unat v) = 2 powi eulp v"
    using ieee_value_step [of 52 "0x3ff" "unat v"] by simp
  with f show ?thesis by blast
qed

lemma eulp_is_gap_witness:
  "ieee_value 52 0x3ff (unat (0x3ff0000000000000 :: u64) + 1) - ieee_value 52 0x3ff (unat (0x3ff0000000000000 :: u64))
     = 2 powi (-52)"
proof -
  have "eulp 0x3ff0000000000000 = -52" by (simp add: eulp_def exponent_field_64)
  then show ?thesis using eulp_is_gap [of 0 "0x3ff0000000000000"] by simp
qed

end
