(* ===== verification/StringSearch.thy ===== *)
theory StringSearch
  imports CString TestLog
begin

text \<open>
  The tests of the searching functions: string_memmem.c, string_strstr.c, wcsstr.c and
  string_strcspn.c of libc/src/functional, and memmem-oob.c, memmem-oob-read.c and
  wcsstr-false-negative.c of libc/src/regression.  Each test is a table of calls, one for each use of
  its macros, with the source line of the use; the function under test is an argument.  A match
  is the offset of the pointer returned, \<open>None\<close> a null pointer.
\<close>

subsection \<open>The reference: the first occurrence\<close>

fun prefix_of :: "'a list \<Rightarrow> 'a list \<Rightarrow> bool" where
  "prefix_of [] s = True"
| "prefix_of (x # xs) [] = False"
| "prefix_of (x # xs) (y # ys) = (x = y \<and> prefix_of xs ys)"

fun find_sub :: "'a list \<Rightarrow> 'a list \<Rightarrow> nat option" where
  "find_sub [] sub = (if sub = [] then Some 0 else None)"
| "find_sub (x # s) sub = (if prefix_of sub (x # s) then Some 0 else map_option Suc (find_sub s sub))"

lemma prefix_of_iff: "prefix_of sub s \<longleftrightarrow> take (length sub) s = sub"
  by (induction sub s rule: prefix_of.induct) auto

definition occurs_at :: "'a list \<Rightarrow> 'a list \<Rightarrow> nat \<Rightarrow> bool" where
  "occurs_at s sub i \<longleftrightarrow> i + length sub \<le> length s \<and> take (length sub) (drop i s) = sub"

lemma occurs_at_0: "occurs_at s sub 0 \<longleftrightarrow> prefix_of sub s"
  by (auto simp: occurs_at_def prefix_of_iff) (metis length_take min.cobounded1)

lemma occurs_at_Suc: "occurs_at (x # s) sub (Suc i) \<longleftrightarrow> occurs_at s sub i"
  by (simp add: occurs_at_def)

lemma find_sub_Some:
  "find_sub s sub = Some i \<longleftrightarrow> occurs_at s sub i \<and> (\<forall>j < i. \<not> occurs_at s sub j)"
proof (induction s arbitrary: i)
  case Nil
  then show ?case by (auto simp: occurs_at_def)
next
  case (Cons x s)
  show ?case
  proof (cases i)
    case 0
    then show ?thesis by (auto simp: occurs_at_0 split: option.splits)
  next
    case (Suc k)
    have "(\<forall>j < Suc k. \<not> occurs_at (x # s) sub j) \<longleftrightarrow>
        \<not> prefix_of sub (x # s) \<and> (\<forall>j < k. \<not> occurs_at s sub j)"
      by (auto simp: All_less_Suc2 occurs_at_0 occurs_at_Suc)
    with Suc Cons.IH [of k] show ?thesis by (auto simp: occurs_at_Suc)
  qed
qed

lemma find_sub_None: "find_sub s sub = None \<longleftrightarrow> (\<forall>i. \<not> occurs_at s sub i)"
proof (induction s)
  case Nil
  then show ?case by (auto simp: occurs_at_def)
next
  case (Cons x s)
  have "(\<forall>i. \<not> occurs_at (x # s) sub i) \<longleftrightarrow>
      \<not> prefix_of sub (x # s) \<and> (\<forall>i. \<not> occurs_at s sub i)"
    by (metis not0_implies_Suc occurs_at_0 occurs_at_Suc)
  with Cons.IH show ?case by auto
qed

text \<open>The contract of a search: it finds the first occurrence, and nothing when there is none.\<close>

definition finds_first :: "'a list \<Rightarrow> 'a list \<Rightarrow> nat option \<Rightarrow> bool" where
  "finds_first s sub r \<longleftrightarrow>
     (case r of
        None \<Rightarrow> \<forall>i. \<not> occurs_at s sub i
      | Some i \<Rightarrow> occurs_at s sub i \<and> (\<forall>j < i. \<not> occurs_at s sub j))"

lemma finds_first_iff: "finds_first s sub r \<longleftrightarrow> r = find_sub s sub"
proof (cases r)
  case None
  then show ?thesis by (simp add: finds_first_def find_sub_None [symmetric] eq_commute)
next
  case (Some i)
  then show ?thesis by (simp add: finds_first_def find_sub_Some [symmetric] eq_commute)
qed

subsection \<open>string_memmem.c\<close>

text \<open>\<open>memmem h n sub m\<close>: the bytes at the first pointer, the length passed, and the same for the
  second.\<close>

type_synonym memmem_fn = "char list \<Rightarrow> nat \<Rightarrow> char list \<Rightarrow> nat \<Rightarrow> nat option"

definition memmem_N :: "memmem_fn \<Rightarrow> nat \<Rightarrow> cstr \<Rightarrow> cstr \<Rightarrow> cstr \<Rightarrow> log" where
  "memmem_N memmem l s tail sub =
     (let p = s @ tail; q = memmem p (length s) sub (length sub) in check l (q = None))"

definition memmem_T :: "memmem_fn \<Rightarrow> nat \<Rightarrow> cstr \<Rightarrow> cstr \<Rightarrow> nat \<Rightarrow> log" where
  "memmem_T memmem l s sub n =
     (let q = memmem s (length s) sub (length sub)
      in if q = None then [l] else if q \<noteq> Some n then [l] else [])"

definition memmem_N_uses :: "(nat \<times> cstr \<times> cstr \<times> cstr) list" where
  "memmem_N_uses =
    [(26, '''', ''a'', ''a''),
     (27, ''a'', ''a'', ''aa''),
     (28, ''a'', ''b'', ''b''),
     (29, ''aa'', ''b'', ''ab''),
     (30, ''aa'', ''a'', ''aaa''),
     (31, ''aba'', ''b'', ''bab''),
     (32, ''abba'', ''b'', ''bab''),
     (33, ''abba'', ''ba'', ''aba''),
     (34, ''abc abc'', ''d'', ''abcd''),
     (35, ''0-1-2-3-4-5-6-7-8-9'', '''', ''-3-4-56-7-8-''),
     (36, ''0-1-2-3-4-5-6-7-8-9'', '''', ''-3-4-5+6-7-8-''),
     (37, ''_ _ _'' @ CHR 0xFF # ''_ _ _'', CHR 0x7F # ''_'', ''_'' @ CHR 0x7F # ''_''),
     (38, ''_ _ _'' @ CHR 0x7F # ''_ _ _'', CHR 0xFF # ''_'', ''_'' @ CHR 0xFF # ''_'')]"

text \<open>The uses of \<open>T\<close> are the same in string_memmem.c (first line 40) and, without the macro's
  differences, in string_strstr.c and wcsstr.c (first line 34).\<close>

definition search_T_uses :: "(nat \<times> cstr \<times> cstr \<times> nat) list" where
  "search_T_uses =
    [(0, '''', '''', 0),
     (1, ''abcd'', '''', 0),
     (2, ''abcd'', ''a'', 0),
     (3, ''abcd'', ''b'', 1),
     (4, ''abcd'', ''c'', 2),
     (5, ''abcd'', ''d'', 3),
     (6, ''abcd'', ''ab'', 0),
     (7, ''abcd'', ''bc'', 1),
     (8, ''abcd'', ''cd'', 2),
     (9, ''ababa'', ''baba'', 1),
     (10, ''ababab'', ''babab'', 1),
     (11, ''abababa'', ''bababa'', 1),
     (12, ''abababab'', ''bababab'', 1),
     (13, ''ababababa'', ''babababa'', 1),
     (14, ''abbababab'', ''bababa'', 2),
     (15, ''abbababab'', ''ababab'', 3),
     (16, ''abacabcabcab'', ''abcabcab'', 4),
     (17, ''nanabanabanana'', ''aba'', 3),
     (18, ''nanabanabanana'', ''ban'', 4),
     (19, ''nanabanabanana'', ''anab'', 1),
     (20, ''nanabanabanana'', ''banana'', 8),
     (21, ''_ _'' @ CHR 0xFF # ''_ _'', ''_'' @ CHR 0xFF # ''_'', 2)]"

definition string_memmem_main :: "memmem_fn \<Rightarrow> log" where
  "string_memmem_main memmem =
     concat (map (\<lambda>(l, s, tail, sub). memmem_N memmem l s tail sub) memmem_N_uses) @
     concat (map (\<lambda>(l, s, sub, n). memmem_T memmem (40 + l) s sub n) search_T_uses)"

definition memmem_oob_main :: "memmem_fn \<Rightarrow> log" where
  "memmem_oob_main memmem =
     (let p = memmem ''abcde'' 4 ''cde'' 3 in check 13 (p = None))"

definition oob_haystack :: "char list" where
  "oob_haystack = map char_of [0::nat, 0, 0, 0, 0, 0, 0, 1, 2]"

definition oob_needle :: "char list" where
  "oob_needle = map char_of [0::nat, 0, 0, 0, 0, 0, 0, 1, 3]"

definition memmem_oob_read_main :: "memmem_fn \<Rightarrow> log" where
  "memmem_oob_read_main memmem =
     (let p = memmem oob_haystack 8 oob_needle 8 in check 15 (p \<noteq> None))"

subsection \<open>string_strstr.c and wcsstr.c\<close>

type_synonym 'c strstr_fn = "'c list \<Rightarrow> 'c list \<Rightarrow> nat option"

definition strstr_N :: "'c strstr_fn \<Rightarrow> nat \<Rightarrow> 'c list \<Rightarrow> 'c list \<Rightarrow> log" where
  "strstr_N strstr l s sub = (let q = strstr s sub in check l (q = None))"

definition strstr_T :: "'c strstr_fn \<Rightarrow> nat \<Rightarrow> 'c list \<Rightarrow> 'c list \<Rightarrow> nat \<Rightarrow> log" where
  "strstr_T strstr l s sub n =
     (let q = strstr s sub in if q = None then [l] else if q \<noteq> Some n then [l] else [])"

definition strstr_N_uses :: "(nat \<times> cstr \<times> cstr) list" where
  "strstr_N_uses =
    [(22, '''', ''a''),
     (23, ''a'', ''aa''),
     (24, ''a'', ''b''),
     (25, ''aa'', ''ab''),
     (26, ''aa'', ''aaa''),
     (27, ''abba'', ''aba''),
     (28, ''abc abc'', ''abcd''),
     (29, ''0-1-2-3-4-5-6-7-8-9'', ''-3-4-56-7-8-''),
     (30, ''0-1-2-3-4-5-6-7-8-9'', ''-3-4-5+6-7-8-''),
     (31, ''_ _ _'' @ CHR 0xFF # ''_ _ _'', ''_'' @ CHR 0x7F # ''_''),
     (32, ''_ _ _'' @ CHR 0x7F # ''_ _ _'', ''_'' @ CHR 0xFF # ''_'')]"

definition string_strstr_main :: "char strstr_fn \<Rightarrow> log" where
  "string_strstr_main strstr =
     concat (map (\<lambda>(l, s, sub). strstr_N strstr l s sub) strstr_N_uses) @
     concat (map (\<lambda>(l, s, sub, n). strstr_T strstr (34 + l) s sub n) search_T_uses)"

text \<open>A wide string literal.\<close>

definition wide :: "cstr \<Rightarrow> u32 list" where
  "wide s = map (\<lambda>c. of_nat (of_char c)) s"

definition wcsstr_main :: "u32 strstr_fn \<Rightarrow> log" where
  "wcsstr_main wcsstr =
     concat (map (\<lambda>(l, s, sub). strstr_N wcsstr l (wide s) (wide sub)) strstr_N_uses) @
     concat (map (\<lambda>(l, s, sub, n). strstr_T wcsstr (34 + l) (wide s) (wide sub) n) search_T_uses)"

definition wcsstr_false_negative_main :: "u32 strstr_fn \<Rightarrow> log" where
  "wcsstr_false_negative_main wcsstr =
     (let haystack = wide ''playing play play play always'';
          needle = wide ''play play play'';
          p = wcsstr haystack needle
      in check 12 (p = Some 8))"

subsection \<open>string_strcspn.c\<close>

definition array_a :: "char list" where
  "array_a = map (\<lambda>i. char_of ((i + 1) AND 127)) [0..<128]"

definition array_s :: "char list" where
  "array_s = map (\<lambda>i. char_of (i + 1)) [0..<256]"

text \<open>The string that a pointer to the start of an array denotes.\<close>

definition c_string :: "char list \<Rightarrow> cstr" where
  "c_string b = takeWhile (\<lambda>c. c \<noteq> NUL) b"

definition strcspn_T :: "(cstr \<Rightarrow> cstr \<Rightarrow> nat) \<Rightarrow> nat \<Rightarrow> cstr \<Rightarrow> cstr \<Rightarrow> nat \<Rightarrow> log" where
  "strcspn_T strcspn l s c n = (let r = strcspn s c in check l (r = n))"

definition strcspn_uses :: "(nat \<times> cstr \<times> cstr \<times> nat) list" where
  "strcspn_uses =
    [(24, '''', '''', 0),
     (25, ''a'', '''', 1),
     (26, '''', ''a'', 0),
     (27, ''abc'', ''cde'', 2),
     (28, ''abc'', ''ccc'', 2),
     (29, ''abc'', c_string array_a, 0),
     (30, CHR 0xFF # CHR 0x80 # '' abc'', c_string array_a, 2),
     (31, c_string array_s, [CHR 0xFF], 254)]"

definition string_strcspn_main :: "(cstr \<Rightarrow> cstr \<Rightarrow> nat) \<Rightarrow> log" where
  "string_strcspn_main strcspn =
     concat (map (\<lambda>(l, s, c, n). strcspn_T strcspn l s c n) strcspn_uses)"

definition strcspn_ref :: "cstr \<Rightarrow> cstr \<Rightarrow> nat" where
  "strcspn_ref s c = length (takeWhile (\<lambda>x. x \<notin> set c) s)"

subsection \<open>The verdicts\<close>

lemma memmem_N_pass: "memmem_N f l s tail sub = [] \<longleftrightarrow> f (s @ tail) (length s) sub (length sub) = None"
  by (simp add: memmem_N_def)

lemma memmem_T_pass: "memmem_T f l s sub n = [] \<longleftrightarrow> f s (length s) sub (length sub) = Some n"
  by (simp add: memmem_T_def Let_def)

lemma strstr_N_pass: "strstr_N f l s sub = [] \<longleftrightarrow> f s sub = None"
  by (simp add: strstr_N_def)

lemma strstr_T_pass: "strstr_T f l s sub n = [] \<longleftrightarrow> f s sub = Some n"
  by (simp add: strstr_T_def Let_def)

lemma N_uses_expected:
  "list_all (\<lambda>(l, s, tail, sub). find_sub s sub = None) memmem_N_uses"
  "list_all (\<lambda>(l, s, sub). find_sub s sub = None) strstr_N_uses"
  by (simp_all add: memmem_N_uses_def strstr_N_uses_def)

lemma T_uses_expected: "list_all (\<lambda>(l, s, sub, n). find_sub s sub = Some n) search_T_uses"
  by (simp add: search_T_uses_def)

lemma inj_wide_char: "inj (\<lambda>c :: char. of_nat (of_char c) :: u32)"
proof (rule injI)
  fix c d :: char
  assume "(of_nat (of_char c) :: u32) = of_nat (of_char d)"
  then have "unat (of_nat (of_char c) :: u32) = unat (of_nat (of_char d) :: u32)" by simp
  moreover have "unat (of_nat (of_char x) :: u32) = of_char x" for x :: char
  proof -
    have "(of_char x :: nat) < 2 ^ 32" by (rule less_le_trans [OF nat_of_char_less_256]) simp
    then show ?thesis by (simp add: unat_of_nat take_bit_nat_eq_self)
  qed
  ultimately show "c = d" by simp
qed

lemma prefix_of_map: "inj g \<Longrightarrow> prefix_of (map g sub) (map g s) \<longleftrightarrow> prefix_of sub s"
  by (induction sub s rule: prefix_of.induct) (auto dest: injD)

lemma find_sub_map: "inj g \<Longrightarrow> find_sub (map g s) (map g sub) = find_sub s sub"
  by (induction s) (auto simp: prefix_of_map prefix_of_map [of g _ "_ # _", simplified])

lemma find_sub_wide: "find_sub (wide s) (wide sub) = find_sub s sub"
  unfolding wide_def by (rule find_sub_map) (rule inj_wide_char)

text \<open>The tests of the searching functions judge an implementation right exactly when it meets
  the contract on every input of their tables: it finds the first occurrence of the second
  string inside the length it was given, and nothing when there is none.  No expected value of
  the tables is wrong, and none of the failures is missed.\<close>

lemma search_tests_verdict:
  "(t_status (string_memmem_main f) = 0 \<longleftrightarrow>
      list_all (\<lambda>(l, s, tail, sub). finds_first s sub (f (s @ tail) (length s) sub (length sub))) memmem_N_uses \<and>
      list_all (\<lambda>(l, s, sub, n). finds_first s sub (f s (length s) sub (length sub))) search_T_uses)
 \<and> (t_status (string_strstr_main g) = 0 \<longleftrightarrow>
      list_all (\<lambda>(l, s, sub). finds_first s sub (g s sub)) strstr_N_uses \<and>
      list_all (\<lambda>(l, s, sub, n). finds_first s sub (g s sub)) search_T_uses)
 \<and> (t_status (wcsstr_main h) = 0 \<longleftrightarrow>
      list_all (\<lambda>(l, s, sub). finds_first (wide s) (wide sub) (h (wide s) (wide sub))) strstr_N_uses \<and>
      list_all (\<lambda>(l, s, sub, n). finds_first (wide s) (wide sub) (h (wide s) (wide sub))) search_T_uses)"
proof -
  note expected = N_uses_expected T_uses_expected
  have "list_all (\<lambda>x. (\<lambda>(l, s, tail, sub). memmem_N f l s tail sub) x = [] \<longleftrightarrow>
          (\<lambda>(l, s, tail, sub). finds_first s sub (f (s @ tail) (length s) sub (length sub))) x) memmem_N_uses"
    by (rule list_all_mono_imp [OF expected(1)]) (auto simp: memmem_N_pass finds_first_iff)
  note 1 = list_all_iff_cong [OF this]
  have "list_all (\<lambda>x. (\<lambda>(l, s, sub, n). memmem_T f (40 + l) s sub n) x = [] \<longleftrightarrow>
          (\<lambda>(l, s, sub, n). finds_first s sub (f s (length s) sub (length sub))) x) search_T_uses"
    by (rule list_all_mono_imp [OF expected(3)]) (auto simp: memmem_T_pass finds_first_iff)
  note 2 = list_all_iff_cong [OF this]
  have "list_all (\<lambda>x. (\<lambda>(l, s, sub). strstr_N g l s sub) x = [] \<longleftrightarrow>
          (\<lambda>(l, s, sub). finds_first s sub (g s sub)) x) strstr_N_uses"
    by (rule list_all_mono_imp [OF expected(2)]) (auto simp: strstr_N_pass finds_first_iff)
  note 3 = list_all_iff_cong [OF this]
  have "list_all (\<lambda>x. (\<lambda>(l, s, sub, n). strstr_T g (34 + l) s sub n) x = [] \<longleftrightarrow>
          (\<lambda>(l, s, sub, n). finds_first s sub (g s sub)) x) search_T_uses"
    by (rule list_all_mono_imp [OF expected(3)]) (auto simp: strstr_T_pass finds_first_iff)
  note 4 = list_all_iff_cong [OF this]
  have "list_all (\<lambda>x. (\<lambda>(l, s, sub). strstr_N h l (wide s) (wide sub)) x = [] \<longleftrightarrow>
          (\<lambda>(l, s, sub). finds_first (wide s) (wide sub) (h (wide s) (wide sub))) x) strstr_N_uses"
    by (rule list_all_mono_imp [OF expected(2)]) (auto simp: strstr_N_pass finds_first_iff find_sub_wide)
  note 5 = list_all_iff_cong [OF this]
  have "list_all (\<lambda>x. (\<lambda>(l, s, sub, n). strstr_T h (34 + l) (wide s) (wide sub) n) x = [] \<longleftrightarrow>
          (\<lambda>(l, s, sub, n). finds_first (wide s) (wide sub) (h (wide s) (wide sub))) x) search_T_uses"
    by (rule list_all_mono_imp [OF expected(3)]) (auto simp: strstr_T_pass finds_first_iff find_sub_wide)
  note 6 = list_all_iff_cong [OF this]
  show ?thesis
    unfolding string_memmem_main_def string_strstr_main_def wcsstr_main_def
    by (simp only: t_status_0 append_is_Nil_conv concat_map_Nil 1 2 3 4 5 6)
qed

end
