(* ===== verification/StringTables.thy ===== *)
theory StringTables
  imports StringSearch
begin

text \<open>
  The remaining tables of string tests: basename.c and dirname.c of libc/src/functional, and
  strverscmp.c, iswspace-null.c and wcsncpy-read-overflow.c of libc/src/regression, with the
  reference functions that the verdicts are measured against, written from POSIX and from the
  description of \<open>strverscmp\<close> in its manual.
\<close>

subsection \<open>basename.c and dirname.c\<close>

text \<open>The functions take \<open>None\<close> for a null pointer.\<close>

definition path_T :: "(cstr option \<Rightarrow> cstr) \<Rightarrow> nat \<Rightarrow> cstr \<Rightarrow> cstr \<Rightarrow> log" where
  "path_T f l path want = (let got = f (Some path) in check l (want = got))"

definition basename_uses :: "(nat \<times> cstr \<times> cstr) list" where
  "basename_uses =
    [(18, '''', ''.''),
     (19, ''/usr/lib'', ''lib''),
     (20, ''/usr/'', ''usr''),
     (21, ''usr/'', ''usr''),
     (22, ''/'', ''/''),
     (23, ''///'', ''/''),
     (24, ''//usr//lib//'', ''lib''),
     (25, ''.'', ''.''),
     (26, ''..'', ''..'')]"

definition basename_main :: "(cstr option \<Rightarrow> cstr) \<Rightarrow> log" where
  "basename_main basename =
     check 17 (basename None = ''.'') @
     concat (map (\<lambda>(l, path, want). path_T basename l path want) basename_uses)"

definition dirname_uses :: "(nat \<times> cstr \<times> cstr) list" where
  "dirname_uses =
    [(18, '''', ''.''),
     (19, ''/usr/lib'', ''/usr''),
     (20, ''/usr/'', ''/''),
     (21, ''usr'', ''.''),
     (22, ''usr/'', ''.''),
     (23, ''/'', ''/''),
     (24, ''///'', ''/''),
     (25, ''.'', ''.''),
     (26, ''..'', ''.'')]"

definition dirname_main :: "(cstr option \<Rightarrow> cstr) \<Rightarrow> log" where
  "dirname_main dirname =
     check 17 (dirname None = ''.'') @
     concat (map (\<lambda>(l, path, want). path_T dirname l path want) dirname_uses)"

text \<open>References: a path is a directory part, a component without slashes, and slashes.\<close>

definition strip_slashes :: "cstr \<Rightarrow> cstr" where
  "strip_slashes s = rev (dropWhile (\<lambda>c. c = CHR ''/'') (rev s))"

definition last_component :: "cstr \<Rightarrow> cstr" where
  "last_component s = rev (takeWhile (\<lambda>c. c \<noteq> CHR ''/'') (rev s))"

definition basename_ref :: "cstr option \<Rightarrow> cstr" where
  "basename_ref p =
     (case p of
        None \<Rightarrow> ''.''
      | Some s \<Rightarrow>
          if s = [] then ''.''
          else if strip_slashes s = [] then ''/''
          else last_component (strip_slashes s))"

definition dirname_ref :: "cstr option \<Rightarrow> cstr" where
  "dirname_ref p =
     (case p of
        None \<Rightarrow> ''.''
      | Some s \<Rightarrow>
          let t = strip_slashes s;
              d = take (length t - length (last_component t)) t
          in if s = [] then ''.''
             else if t = [] then ''/''
             else if d = [] then ''.''
             else if strip_slashes d = [] then ''/''
             else strip_slashes d)"

lemma strip_slashes_component:
  assumes "c \<noteq> []" and "CHR ''/'' \<notin> set c" and "set sl \<subseteq> {CHR ''/''}"
  shows "strip_slashes (d @ c @ sl) = d @ c"
proof -
  have "dropWhile (\<lambda>c. c = CHR ''/'') (rev sl @ rev c @ rev d)
      = dropWhile (\<lambda>c. c = CHR ''/'') (rev c @ rev d)"
    using assms(3) by (subst dropWhile_append2) auto
  also have "\<dots> = rev c @ rev d"
    using assms(1,2) by (cases "rev c") (auto simp: rev_swap)
  finally show ?thesis by (simp add: strip_slashes_def)
qed

lemma last_component_suffix:
  assumes "CHR ''/'' \<notin> set c" and "d = [] \<or> last d = CHR ''/''"
  shows "last_component (d @ c) = c"
proof -
  have "takeWhile (\<lambda>c. c \<noteq> CHR ''/'') (rev c @ rev d) = rev c"
    using assms by (subst takeWhile_append2) (auto simp: last_rev [symmetric] takeWhile_eq_Nil_iff hd_rev)
  then show ?thesis by (simp add: last_component_def)
qed

text \<open>The references split a path at its last component.\<close>

lemma basename_ref_component:
  assumes "c \<noteq> []" and "CHR ''/'' \<notin> set c" and "set sl \<subseteq> {CHR ''/''}"
    and "d = [] \<or> last d = CHR ''/''"
  shows "basename_ref (Some (d @ c @ sl)) = c"
  using assms by (simp add: basename_ref_def strip_slashes_component last_component_suffix)

lemma dirname_ref_component:
  assumes "c \<noteq> []" and "CHR ''/'' \<notin> set c" and "set sl \<subseteq> {CHR ''/''}"
    and "d = [] \<or> last d = CHR ''/''"
  shows "dirname_ref (Some (d @ c @ sl)) =
    (if d = [] then ''.'' else if strip_slashes d = [] then ''/'' else strip_slashes d)"
proof -
  have "last_component (d @ c) = c" using assms(2,4) by (rule last_component_suffix)
  then show ?thesis
    using assms by (simp add: dirname_ref_def Let_def strip_slashes_component)
qed

subsection \<open>strverscmp.c\<close>

definition ASSERT :: "nat \<Rightarrow> bool \<Rightarrow> log" where
  "ASSERT l x = check l x"

definition strverscmp_main :: "(cstr \<Rightarrow> cstr \<Rightarrow> int) \<Rightarrow> log" where
  "strverscmp_main strverscmp =
     ASSERT 10 (strverscmp '''' '''' = 0) @
     ASSERT 11 (strverscmp ''a'' ''a'' = 0) @
     ASSERT 12 (strverscmp ''a'' ''b'' < 0) @
     ASSERT 13 (strverscmp ''b'' ''a'' > 0) @
     ASSERT 14 (strverscmp ''000'' ''00'' < 0) @
     ASSERT 15 (strverscmp ''00'' ''000'' > 0) @
     ASSERT 16 (strverscmp ''a0'' ''a'' > 0) @
     ASSERT 17 (strverscmp ''00'' ''01'' < 0) @
     ASSERT 18 (strverscmp ''01'' ''010'' < 0) @
     ASSERT 19 (strverscmp ''010'' ''09'' < 0) @
     ASSERT 20 (strverscmp ''09'' ''0'' < 0) @
     ASSERT 21 (strverscmp ''9'' ''10'' < 0) @
     ASSERT 22 (strverscmp ''0a'' ''0'' > 0) @
     ASSERT 23 (strverscmp ''foobar-1.1.2'' ''foobar-1.1.3'' < 0) @
     ASSERT 24 (strverscmp ''foobar-1.1.2'' ''foobar-1.01.3'' > 0)"

text \<open>
  The reference: the strings differ first after the common prefix \<open>p\<close>; \<open>d\<close> is the run of digits
  at its end.  A run of digits that starts with 0 (counting the differing position) is a
  fractional part, where a longer run of zeros comes first; other runs compare as numbers, that
  is, by length and then by their first difference; everything else compares by bytes.
\<close>

fun common_prefix :: "cstr \<Rightarrow> cstr \<Rightarrow> cstr" where
  "common_prefix (a # s) (b # t) = (if a = b then a # common_prefix s t else [])"
| "common_prefix _ _ = []"

definition byte_at :: "cstr \<Rightarrow> nat \<Rightarrow> int" where
  "byte_at s i = (if i < length s then of_char (s ! i) else 0)"

definition digits_from :: "cstr \<Rightarrow> nat \<Rightarrow> cstr" where
  "digits_from s i = takeWhile is_digit (drop i s)"

definition strverscmp_ref :: "cstr \<Rightarrow> cstr \<Rightarrow> int" where
  "strverscmp_ref s t =
     (let i = length (common_prefix s t);
          dp = i - length (takeWhile is_digit (rev (take i s)));
          ds = digits_from s dp; dt = digits_from t dp
      in if ds \<noteq> [] \<and> dt \<noteq> [] \<and> hd ds \<noteq> CHR ''0'' \<and> hd dt \<noteq> CHR ''0''
         then (if length ds \<noteq> length dt then sgn (int (length ds) - int (length dt))
               else sgn (byte_at s i - byte_at t i))
         else if dp < i \<and> set (take (i - dp) (drop dp s)) \<subseteq> {CHR ''0''} \<and>
              (i - dp < length ds \<or> i - dp < length dt)
         then sgn ((if i - dp < length ds then byte_at s i - 256 else byte_at s i) -
                   (if i - dp < length dt then byte_at t i - 256 else byte_at t i))
         else sgn (byte_at s i - byte_at t i))"

subsection \<open>iswspace-null.c and wcsncpy-read-overflow.c\<close>

definition iswspace_null_main :: "(u32 \<Rightarrow> int) \<Rightarrow> log" where
  "iswspace_null_main iswspace = check 9 (iswspace 0 = 0)"

text \<open>\<open>wcsncpy dst src n\<close> returns the array \<open>dst\<close> after the call.\<close>

definition wcsncpy_read_overflow_main :: "(u32 list \<Rightarrow> u32 list \<Rightarrow> nat \<Rightarrow> u32 list) \<Rightarrow> log" where
  "wcsncpy_read_overflow_main wcsncpy =
     (let dst = [of_nat (of_char (CHR ''a'')), of_nat (of_char (CHR ''a''))];
          src = [0, of_nat (of_char (CHR ''b''))];
          dst = wcsncpy dst src 1
      in check 12 (dst ! 1 = of_nat (of_char (CHR ''a''))))"

fun wcsncpy_ref :: "u32 list \<Rightarrow> u32 list \<Rightarrow> nat \<Rightarrow> u32 list" where
  "wcsncpy_ref dst src n =
     (let w = takeWhile (\<lambda>c. c \<noteq> 0) src
      in take n (take n w @ replicate n 0) @ drop n dst)"

subsection \<open>The verdicts\<close>

lemma path_T_pass: "path_T f l path want = [] \<longleftrightarrow> f (Some path) = want"
  by (auto simp: path_T_def)

lemma path_uses_expected:
  "list_all (\<lambda>(l, path, want). basename_ref (Some path) = want) basename_uses"
  "list_all (\<lambda>(l, path, want). dirname_ref (Some path) = want) dirname_uses"
  by (simp_all add: basename_uses_def dirname_uses_def basename_ref_def dirname_ref_def
      strip_slashes_def last_component_def Let_def)

lemma basename_main_pass:
  "basename_main f = [] \<longleftrightarrow>
   f None = basename_ref None \<and> list_all (\<lambda>(l, path, want). f (Some path) = basename_ref (Some path)) basename_uses"
proof -
  have "list_all (\<lambda>x. (\<lambda>(l, path, want). path_T f l path want) x = [] \<longleftrightarrow>
          (\<lambda>(l, path, want). f (Some path) = basename_ref (Some path)) x) basename_uses"
    by (rule list_all_mono_imp [OF path_uses_expected(1)]) (auto simp: path_T_pass)
  from list_all_iff_cong [OF this] show ?thesis
    unfolding basename_main_def append_is_Nil_conv concat_map_Nil check_simps
    by (simp add: basename_ref_def)
qed

lemma dirname_main_pass:
  "dirname_main f = [] \<longleftrightarrow>
   f None = dirname_ref None \<and> list_all (\<lambda>(l, path, want). f (Some path) = dirname_ref (Some path)) dirname_uses"
proof -
  have "list_all (\<lambda>x. (\<lambda>(l, path, want). path_T f l path want) x = [] \<longleftrightarrow>
          (\<lambda>(l, path, want). f (Some path) = dirname_ref (Some path)) x) dirname_uses"
    by (rule list_all_mono_imp [OF path_uses_expected(2)]) (auto simp: path_T_pass)
  from list_all_iff_cong [OF this] show ?thesis
    unfolding dirname_main_def append_is_Nil_conv concat_map_Nil check_simps
    by (simp add: dirname_ref_def)
qed

lemma takeWhile_stop: "c \<notin> set s \<Longrightarrow> takeWhile (\<lambda>x. x \<noteq> c) (s @ c # t) = s"
  by (induction s) auto

lemma c_string_append_NUL: "NUL \<notin> set s \<Longrightarrow> c_string (s @ NUL # t) = s"
  unfolding c_string_def by (rule takeWhile_stop)

lemma char_of_nonzero: "0 < n \<Longrightarrow> n < 256 \<Longrightarrow> char_of (n :: nat) \<noteq> NUL"
  by (simp add: NUL_def char_of_eq_iff take_bit_eq_mod)

lemma NUL_notin_upt: "b \<le> 256 \<Longrightarrow> NUL \<notin> set (map char_of [1..<b::nat])"
proof
  assume b: "b \<le> 256" and "NUL \<in> set (map char_of [1..<b::nat])"
  then obtain n :: nat where "1 \<le> n" "n < b" "NUL = char_of n" by auto
  with b char_of_nonzero [of n] show False by simp
qed

lemma array_a_eq: "array_a = map char_of [1..<128::nat] @ [NUL]"
proof -
  have "(127 :: nat) = mask 7" by (simp add: mask_eq_exp_minus_1)
  then have "(i + 1) AND 127 = (i + 1) mod 128" for i :: nat
    by (simp only: take_bit_eq_mask [symmetric]) (simp add: take_bit_eq_mod)
  then have "array_a = map (\<lambda>i. char_of ((i + 1) mod 128)) [0..<128]"
    by (simp add: array_a_def)
  also have "[0..<128] = [0..<127] @ [127]" using upt_Suc_append [of 0 127] by simp
  also have "map (\<lambda>i. char_of ((i + 1) mod 128)) ([0..<127] @ [127]) = map char_of (map Suc [0..<127]) @ [NUL]"
    by (simp add: NUL_def char_of_eq_iff)
  also have "map Suc [0..<127] = [1..<128]" by (simp add: map_Suc_upt)
  finally show ?thesis .
qed

lemma array_a_string: "c_string array_a = map char_of [1..<128::nat]"
  unfolding array_a_eq by (rule c_string_append_NUL) (rule NUL_notin_upt, simp)

lemma array_s_eq: "array_s = map char_of [1..<256::nat] @ [NUL]"
proof -
  have "[0..<256] = [0..<255] @ [255]" using upt_Suc_append [of 0 255] by simp
  then have "array_s = map char_of (map Suc [0..<255]) @ [NUL]"
    by (simp add: array_s_def NUL_def char_of_eq_iff take_bit_eq_mod)
  also have "map Suc [0..<255] = [1..<256]" by (simp add: map_Suc_upt)
  finally show ?thesis .
qed

lemma array_s_string: "c_string array_s = map char_of [1..<256::nat]"
  unfolding array_s_eq by (rule c_string_append_NUL) (rule NUL_notin_upt, simp)

lemma in_array_a: "x \<in> set (c_string array_a) \<longleftrightarrow> 1 \<le> (of_char x :: nat) \<and> (of_char x :: nat) < 128"
proof
  assume "x \<in> set (c_string array_a)"
  then obtain n :: nat where "1 \<le> n" "n < 128" "x = char_of n" by (auto simp: array_a_string)
  then show "1 \<le> (of_char x :: nat) \<and> (of_char x :: nat) < 128" by simp
next
  assume "1 \<le> (of_char x :: nat) \<and> (of_char x :: nat) < 128"
  then have "of_char x \<in> set [1..<128::nat]" by simp
  then have "char_of (of_char x :: nat) \<in> set (map char_of [1..<128::nat])" by (simp only: set_map imageI)
  then show "x \<in> set (c_string array_a)" by (simp add: array_a_string)
qed

lemma strcspn_array_s: "strcspn_ref (c_string array_s) [CHR 0xFF] = 254"
proof -
  have c: "c_string array_s = map char_of [1..<255::nat] @ [CHR 0xFF]"
    unfolding array_s_string using upt_Suc_append [of 1 255]
    by (simp add: char_of_eq_iff take_bit_eq_mod)
  have "CHR 0xFF \<notin> set (map char_of [1..<255::nat])"
  proof
    assume "CHR 0xFF \<in> set (map char_of [1..<255::nat])"
    then obtain n :: nat where "1 \<le> n" "n < 255" "CHR 0xFF = char_of n" by auto
    then have "(of_char (CHR 0xFF) :: nat) = of_char (char_of n :: char)" by simp
    with \<open>n < 255\<close> show False by simp
  qed
  then have "takeWhile (\<lambda>x. x \<noteq> CHR 0xFF) (map char_of [1..<255::nat] @ [CHR 0xFF]) = map char_of [1..<255::nat]"
    by (rule takeWhile_stop)
  then show ?thesis by (simp add: strcspn_ref_def c)
qed

lemma strcspn_uses_expected:
  "list_all (\<lambda>(l, s, c, n). strcspn_ref s c = n) strcspn_uses"
  by (simp add: strcspn_uses_def strcspn_ref_def in_array_a strcspn_array_s [unfolded strcspn_ref_def, simplified])

lemma strcspn_main_pass:
  "string_strcspn_main f = [] \<longleftrightarrow> list_all (\<lambda>(l, s, c, n). f s c = strcspn_ref s c) strcspn_uses"
proof -
  have "list_all (\<lambda>x. (\<lambda>(l, s, c, n). strcspn_T f l s c n) x = [] \<longleftrightarrow>
          (\<lambda>(l, s, c, n). f s c = strcspn_ref s c) x) strcspn_uses"
    by (rule list_all_mono_imp [OF strcspn_uses_expected]) (auto simp: strcspn_T_def)
  from list_all_iff_cong [OF this] show ?thesis
    unfolding string_strcspn_main_def concat_map_Nil .
qed

lemma strverscmp_ref_passes: "strverscmp_main strverscmp_ref = []"
  by code_simp

lemma memmem_oob_pass:
  "memmem_oob_main m = [] \<longleftrightarrow> finds_first (take 4 ''abcde'') ''cde'' (m ''abcde'' 4 ''cde'' 3)"
  by (simp add: memmem_oob_main_def finds_first_iff)

lemma memmem_oob_read_pass: "memmem_oob_read_main m = [] \<longleftrightarrow> m oob_haystack 8 oob_needle 8 \<noteq> None"
  by (simp add: memmem_oob_read_main_def)

lemma oob_read_expected: "finds_first (take 8 oob_haystack) (take 8 oob_needle) (Some 0)"
  by (simp add: finds_first_iff oob_haystack_def oob_needle_def)

lemma wcsstr_false_negative_pass:
  "wcsstr_false_negative_main w = [] \<longleftrightarrow>
     finds_first (wide ''playing play play play always'') (wide ''play play play'')
        (w (wide ''playing play play play always'') (wide ''play play play''))"
  by (simp add: wcsstr_false_negative_main_def finds_first_iff find_sub_wide eval_nat_numeral)

lemma wcsncpy_ref_passes: "wcsncpy_read_overflow_main wcsncpy_ref = []"
  by (simp add: wcsncpy_read_overflow_main_def)


end
