(* ===== verification/StringMemory.thy ===== *)
theory StringMemory
  imports StringSearch
begin

text \<open>
  The tests that run a function over a buffer at every alignment: string_memcpy.c,
  string_memset.c and string_strchr.c of libc/src/functional.  A buffer is the list of its bytes
  and a pointer into it an offset; \<open>base\<close> is the address of the buffer, which decides where the
  aligned positions are.  Loops that store are folds of list updates.
\<close>

definition aligned :: "nat \<Rightarrow> nat \<Rightarrow> nat" where
  "aligned base k = (base + k + 63) div 64 * 64 - base"

lemma aligned_word:
  assumes "base + k + 63 < 2 ^ 64"
  shows "unat ((of_nat (base + k) + 63 :: u64) AND - 64) = base + aligned base k"
proof -
  have "(- 64 :: u64) = NOT (mask 6)" using minus_exp_eq_not_mask [of 6, where 'a=u64] by simp
  moreover have "unat (of_nat (base + k) + 63 :: u64) = base + k + 63"
  proof -
    have "unat (of_nat (base + k) :: u64) = base + k" using assms by (intro unat_of_nat_64) simp
    then show ?thesis using assms unat_plus_nat_64 [of "of_nat (base + k)" 63] by simp
  qed
  moreover have "base \<le> (base + k + 63) div 64 * 64" by linarith
  ultimately show ?thesis by (simp only: unat_and_not_mask) (simp add: aligned_def)
qed

lemma aligned_bounds: "k \<le> aligned base k" "aligned base k \<le> k + 63"
  unfolding aligned_def by linarith+

lemma aligned_mono_64: "aligned base (k + 64 * j) = aligned base k + 64 * j"
proof -
  have "(base + (k + 64 * j) + 63) div 64 = (base + k + 63) div 64 + j"
  proof -
    have "base + (k + 64 * j) + 63 = (base + k + 63) + 64 * j" by simp
    then show ?thesis by (simp only: div_mult_self2 [of 64] zero_neq_numeral not_False_eq_True)
  qed
  moreover have "base \<le> (base + k + 63) div 64 * 64" by linarith
  ultimately show ?thesis by (simp add: aligned_def add_mult_distrib)
qed

subsection \<open>Stores in a loop\<close>

lemma length_fold_update: "length (fold (\<lambda>i m. m[a + i := g i]) xs m) = length m"
  by (induction xs arbitrary: m) simp_all

lemma nth_fold_update:
  "k < length m \<Longrightarrow> fold (\<lambda>i m. m[a + i := g i]) [0..<n] m ! k = (if a \<le> k \<and> k < a + n then g (k - a) else m ! k)"
proof (induction n)
  case 0
  then show ?case by auto
next
  case (Suc n)
  then show ?case
    using length_fold_update [of a g "[0..<n]" m] by (auto simp: nth_list_update less_Suc_eq)
qed

lemma length_fold_update2: "length (fold (\<lambda>i m. m[a + i := f i, b + i := g i]) xs m) = length m"
  by (induction xs arbitrary: m) simp_all

lemma nth_fold_update2:
  assumes "k < length m" and "a + n \<le> b \<or> b + n \<le> a"
  shows "fold (\<lambda>i m. m[a + i := f i, b + i := g i]) [0..<n] m ! k =
    (if a \<le> k \<and> k < a + n then f (k - a) else if b \<le> k \<and> k < b + n then g (k - b) else m ! k)"
  using assms
proof (induction n)
  case 0
  then show ?case by auto
next
  case (Suc n)
  then show ?case
    using length_fold_update2 [of a f b g "[0..<n]" m] by (auto simp: nth_list_update less_Suc_eq)
qed

lemma length_fold_update3:
  "length (fold (\<lambda>i m. m[a + i := f i, b + i := g i, c + i := h i]) xs m) = length m"
  by (induction xs arbitrary: m) simp_all

lemma nth_fold_update3:
  assumes "k < length m" and "a + n \<le> b" and "b + n \<le> c"
  shows "fold (\<lambda>i m. m[a + i := f i, c + i := h i, b + i := g i]) [0..<n] m ! k =
    (if a \<le> k \<and> k < a + n then f (k - a) else if b \<le> k \<and> k < b + n then g (k - b)
     else if c \<le> k \<and> k < c + n then h (k - c) else m ! k)"
  using assms
proof (induction n)
  case 0
  then show ?case by auto
next
  case (Suc n)
  then show ?case
    using length_fold_update3 [of a f c h b g "[0..<n]" m] by (auto simp: nth_list_update less_Suc_eq)
qed

text \<open>The block \<open>xs\<close> stored at an offset.\<close>

definition put :: "'a list \<Rightarrow> nat \<Rightarrow> 'a list \<Rightarrow> 'a list" where
  "put m d xs = take d m @ xs @ drop (d + length xs) m"

lemma length_put: "d + length xs \<le> length m \<Longrightarrow> length (put m d xs) = length m"
  by (simp add: put_def)

lemma nth_put:
  "d + length xs \<le> length m \<Longrightarrow> k < length m \<Longrightarrow>
   put m d xs ! k = (if d \<le> k \<and> k < d + length xs then xs ! (k - d) else m ! k)"
  by (auto simp: put_def nth_append min_def)

subsection \<open>string_memcpy.c\<close>

type_synonym mem = "char list"

text \<open>\<open>memcpy m d s n\<close>: the pointer returned and the memory after the call.\<close>

type_synonym memcpy_fn = "mem \<Rightarrow> nat \<Rightarrow> nat \<Rightarrow> nat \<Rightarrow> nat \<times> mem"

definition memcpy_N :: nat where
  "memcpy_N = 80"

text \<open>\<open>None\<close> is the call of \<open>abort\<close>.\<close>

definition memcpy_test_align ::
    "memcpy_fn \<Rightarrow> nat \<Rightarrow> nat \<Rightarrow> nat \<Rightarrow> nat \<Rightarrow> mem \<Rightarrow> (log \<times> mem) option" where
  "memcpy_test_align memcpy base dalign salign len buf =
     (let src = aligned base 0;
          dst = aligned base 128;
          want = aligned base 256
      in if memcpy_N < salign + len \<or> memcpy_N < dalign + len then None
         else
           (let buf = fold (\<lambda>i m. m[src + i := CHR ''#'', want + i := CHR '' '', dst + i := CHR '' ''])
                        [0..<memcpy_N] buf;
                buf = fold (\<lambda>i m. m[want + dalign + i := char_of (48 + i), src + salign + i := char_of (48 + i)])
                        [0..<len] buf;
                (p, buf) = memcpy buf (dst + dalign) (src + salign) len
            in Some (check 33 (p = dst + dalign) @
                     check 36 (\<forall>i \<in> set [0..<memcpy_N]. buf ! (dst + i) = buf ! (want + i)),
                     buf)))"

fun memcpy_tests :: "memcpy_fn \<Rightarrow> nat \<Rightarrow> (nat \<times> nat \<times> nat) list \<Rightarrow> log \<times> mem \<Rightarrow> (log \<times> mem) option" where
  "memcpy_tests memcpy base [] s = Some s"
| "memcpy_tests memcpy base ((i, j, k) # ts) (ls, buf) =
     (case memcpy_test_align memcpy base i j k buf of
        None \<Rightarrow> None
      | Some (ls', buf') \<Rightarrow> memcpy_tests memcpy base ts (ls @ ls', buf'))"

definition string_memcpy_main :: "memcpy_fn \<Rightarrow> nat \<Rightarrow> mem \<Rightarrow> log option" where
  "string_memcpy_main memcpy base buf =
     map_option fst
       (memcpy_tests memcpy base
          [(i, j, k). i \<leftarrow> [0..<16], j \<leftarrow> [0..<16], k \<leftarrow> [0..<64]] ([], buf))"

definition memcpy_ref :: memcpy_fn where
  "memcpy_ref m d s n = (d, put m d (take n (drop s m)))"

text \<open>What \<open>memcpy\<close> promises: for disjoint ranges inside the memory it copies, changes nothing else,
  and returns its first argument.\<close>

locale memcpy_contract =
  fixes memcpy :: memcpy_fn
  assumes memcpy_copies:
    "d + n \<le> length m \<Longrightarrow> s + n \<le> length m \<Longrightarrow> d + n \<le> s \<or> s + n \<le> d \<Longrightarrow>
     memcpy m d s n = (d, put m d (take n (drop s m)))"
begin

lemma test_align_passes:
  assumes "length buf = 512" and "i \<le> 16" and "j \<le> 16" and "k \<le> 64"
  shows "\<exists>buf'. memcpy_test_align memcpy base i j k buf = Some ([], buf') \<and> length buf' = 512"
proof -
  define src where "src = aligned base 0"
  have d: "aligned base 128 = src + 128" "aligned base 256 = src + 256"
    using aligned_mono_64 [of base 0 2] aligned_mono_64 [of base 0 4] by (simp_all add: src_def)
  have src: "src \<le> 63" using aligned_bounds(2) [of base 0] by (simp add: src_def)
  define b1 where
    "b1 = fold (\<lambda>t m. m[src + t := CHR ''#'', src + 256 + t := CHR '' '', src + 128 + t := CHR '' '']) [0..<80] buf"
  define b5 where
    "b5 = fold (\<lambda>t m. m[src + 256 + i + t := char_of (48 + t), src + j + t := char_of (48 + t)]) [0..<k] b1"
  have len: "length b1 = 512" "length b5 = 512"
    using assms(1) by (simp_all add: b1_def b5_def length_fold_update2 length_fold_update3)
  have b1: "b1 ! t = (if src + 128 \<le> t \<and> t < src + 208 then CHR '' ''
       else if src + 256 \<le> t \<and> t < src + 336 then CHR '' '' else CHR ''#'')"
    if "t < 512" "src + 128 \<le> t" "t < src + 208 \<or> src + 256 \<le> t" "t < src + 336" for t
    using that assms(1) nth_fold_update3 [of t buf src 80 "src + 128" "src + 256"
        "\<lambda>_. CHR ''#''" "\<lambda>_. CHR '' ''" "\<lambda>_. CHR '' ''"]
    by (auto simp: b1_def)
  have b5: "b5 ! t = (if src + 256 + i \<le> t \<and> t < src + 256 + i + k then char_of (48 + (t - (src + 256 + i)))
       else if src + j \<le> t \<and> t < src + j + k then char_of (48 + (t - (src + j))) else b1 ! t)"
    if "t < 512" for t
    using that assms len nth_fold_update2 [of t b1 "src + 256 + i" k "src + j"
        "\<lambda>t. char_of (48 + t)" "\<lambda>t. char_of (48 + t)"]
    by (auto simp: b5_def)
  let ?xs = "take k (drop (src + j) b5)"
  have c: "memcpy b5 (src + 128 + i) (src + j) k = (src + 128 + i, put b5 (src + 128 + i) ?xs)"
    using assms src len by (intro memcpy_copies) auto
  have lx: "length ?xs = k" using assms src len by simp
  have in_range: "src + 128 + i + length ?xs \<le> length b5" using assms src len lx by simp
  let ?b = "put b5 (src + 128 + i) ?xs"
  have want: "?b ! (src + 256 + t) = (if i \<le> t \<and> t < i + k then char_of (48 + (t - i)) else CHR '' '')"
    if "t < 80" for t
    using that assms src len lx nth_put [OF in_range, of "src + 256 + t"] b5 [of "src + 256 + t"]
      b1 [of "src + 256 + t"]
    by auto
  have dst: "?b ! (src + 128 + t) = (if i \<le> t \<and> t < i + k then char_of (48 + (t - i)) else CHR '' '')"
    if "t < 80" for t
    using that assms src len lx nth_put [OF in_range, of "src + 128 + t"] b5 [of "src + 128 + t"]
      b5 [of "src + j + (t - i)"] b1 [of "src + 128 + t"]
    by auto
  have "memcpy_test_align memcpy base i j k buf = Some ([], ?b)"
    using assms(2-4) c want dst
    by (simp add: memcpy_test_align_def Let_def memcpy_N_def d src_def [symmetric] b1_def [symmetric] b5_def [symmetric])
  then show ?thesis using length_put [OF in_range] len by simp
qed

lemma tests_pass:
  assumes "length buf = 512" and "\<forall>(i, j, k) \<in> set ts. i \<le> 16 \<and> j \<le> 16 \<and> k \<le> 64"
  shows "\<exists>buf'. memcpy_tests memcpy base ts (ls, buf) = Some (ls, buf')"
  using assms
proof (induction ts arbitrary: buf)
  case Nil
  then show ?case by simp
next
  case (Cons t ts)
  obtain i j k where t: "t = (i, j, k)" by (cases t) auto
  obtain buf1 where "memcpy_test_align memcpy base i j k buf = Some ([], buf1)" "length buf1 = 512"
    using test_align_passes [of buf i j k base] Cons.prems t by auto
  with Cons.IH [of buf1] Cons.prems(2) t show ?case by simp
qed

lemma main_passes:
  assumes "length buf = 512"
  shows "string_memcpy_main memcpy base buf = Some []"
proof -
  let ?ts = "[(i, j, k). i \<leftarrow> [0..<16], j \<leftarrow> [0..<16], k \<leftarrow> [0..<64::nat]]"
  have "\<forall>(i, j, k) \<in> set ?ts. i \<le> 16 \<and> j \<le> 16 \<and> k \<le> 64" by auto
  from tests_pass [OF assms this, of base "[]"] show ?thesis
    unfolding string_memcpy_main_def by (elim exE) (simp only: option.map fst_conv)
qed

end

interpretation memcpy_ref: memcpy_contract memcpy_ref
  by unfold_locales (simp add: memcpy_ref_def)

subsection \<open>string_memset.c\<close>

type_synonym memset_fn = "mem \<Rightarrow> nat \<Rightarrow> int \<Rightarrow> nat \<Rightarrow> nat \<times> mem"

definition memset_N :: nat where
  "memset_N = 500"

text \<open>Two buffers \<open>buf\<close> and \<open>buf2\<close> at the addresses \<open>base\<close> and \<open>base2\<close>.\<close>

definition memset_test_align ::
    "memset_fn \<Rightarrow> nat \<Rightarrow> nat \<Rightarrow> nat \<Rightarrow> nat \<Rightarrow> mem \<times> mem \<Rightarrow> (log \<times> mem \<times> mem) option" where
  "memset_test_align memset base base2 align len bufs =
     (let (buf, buf2) = bufs;
          s = aligned base 64 + align;
          want = aligned base2 64 + align
      in if int (memset_N) - int s < int len + 64 \<or> int memset_N - int want < int len + 64 then None
         else
           (let buf = fold (\<lambda>i m. m[i := CHR '' '']) [0..<memset_N] buf;
                buf2 = fold (\<lambda>i m. m[i := CHR '' '']) [0..<memset_N] buf2;
                buf2 = fold (\<lambda>i m. m[want + i := CHR ''#'']) [0..<len] buf2;
                (p, buf) = memset buf s 35 len
            in Some (check 32 (p = s) @
                     check 35 (\<forall>i \<in> set [0..<64 + len + 64]. buf ! (s - 64 + i) = buf2 ! (want - 64 + i)),
                     (buf, buf2))))"

definition memset_test_value :: "memset_fn \<Rightarrow> int \<Rightarrow> mem \<Rightarrow> log \<times> mem" where
  "memset_test_value memset c buf =
     (let (p, buf) = memset buf 0 c 10
      in (check 49 (\<forall>i \<in> set [0..<10]. (of_char (buf ! i) :: int) = c mod 256), buf))"

fun memset_tests :: "memset_fn \<Rightarrow> nat \<Rightarrow> nat \<Rightarrow> (nat \<times> nat) list \<Rightarrow> log \<times> mem \<times> mem \<Rightarrow> (log \<times> mem \<times> mem) option" where
  "memset_tests memset base base2 [] s = Some s"
| "memset_tests memset base base2 ((i, j) # ts) (ls, bufs) =
     (case memset_test_align memset base base2 i j bufs of
        None \<Rightarrow> None
      | Some (ls', bufs') \<Rightarrow> memset_tests memset base base2 ts (ls @ ls', bufs'))"

fun memset_values :: "memset_fn \<Rightarrow> int list \<Rightarrow> log \<times> mem \<Rightarrow> log \<times> mem" where
  "memset_values memset [] s = s"
| "memset_values memset (c # cs) (ls, buf) =
     (case memset_test_value memset c buf of (ls', buf') \<Rightarrow> memset_values memset cs (ls @ ls', buf'))"

definition string_memset_main :: "memset_fn \<Rightarrow> nat \<Rightarrow> nat \<Rightarrow> mem \<times> mem \<Rightarrow> log option" where
  "string_memset_main memset base base2 bufs =
     (case memset_tests memset base base2 [(i, j). i \<leftarrow> [0..<64], j \<leftarrow> [0..<memset_N - 256]] ([], bufs) of
        None \<Rightarrow> None
      | Some (ls, (buf, buf2)) \<Rightarrow>
          Some (fst (memset_values memset [of_char (CHR ''c''), 0, -1, -5, 0xab] (ls, buf))))"

definition memset_ref :: memset_fn where
  "memset_ref m s c n = (s, put m s (replicate n (char_of (nat (c mod 256)))))"

locale memset_contract =
  fixes memset :: memset_fn
  assumes memset_sets:
    "s + n \<le> length m \<Longrightarrow> memset m s c n = (s, put m s (replicate n (char_of (nat (c mod 256)))))"
begin

lemma test_align_passes:
  assumes "length buf = 500" and "length buf2 = 500" and "i < 64" and "j < 244"
  shows "\<exists>buf' buf2'. memset_test_align memset base base2 i j (buf, buf2) = Some ([], (buf', buf2'))
           \<and> length buf' = 500 \<and> length buf2' = 500"
proof -
  define s where "s = aligned base 64 + i"
  define w where "w = aligned base2 64 + i"
  have s: "64 \<le> s" "s \<le> 190" using aligned_bounds(1) [of 64 base] aligned_bounds(2) [of base 64] assms(3)
    by (auto simp: s_def)
  have w: "64 \<le> w" "w \<le> 190" using aligned_bounds(1) [of 64 base2] aligned_bounds(2) [of base2 64] assms(3)
    by (auto simp: w_def)
  define a1 where "a1 = fold (\<lambda>i m. m[i := CHR '' '']) [0..<500] buf"
  define a2 where "a2 = fold (\<lambda>i m. m[i := CHR '' '']) [0..<500] buf2"
  define a3 where "a3 = fold (\<lambda>i m. m[w + i := CHR ''#'']) [0..<j] a2"
  have len: "length a1 = 500" "length a2 = 500" "length a3 = 500"
    using assms(1,2) length_fold_update [of 0 "\<lambda>_. CHR '' ''"]
    by (simp_all add: a1_def a2_def a3_def length_fold_update)
  have a1: "a1 ! t = CHR '' ''" if "t < 500" for t
    using that assms(1) nth_fold_update [of t buf 0 "\<lambda>_. CHR '' ''" 500] by (simp add: a1_def)
  have a2: "a2 ! t = CHR '' ''" if "t < 500" for t
    using that assms(2) nth_fold_update [of t buf2 0 "\<lambda>_. CHR '' ''" 500] by (simp add: a2_def)
  have a3: "a3 ! t = (if w \<le> t \<and> t < w + j then CHR ''#'' else CHR '' '')" if "t < 500" for t
    using that len a2 nth_fold_update [of t a2 w "\<lambda>_. CHR ''#''" j] by (simp add: a3_def)
  have r: "s + j \<le> length a1" using s assms(4) len by simp
  have hash: "char_of (nat (35 mod 256)) = CHR ''#''" by (simp add: char_of_eq_iff)
  let ?b = "put a1 s (replicate j (CHR ''#''))"
  have m: "memset a1 s 35 j = (s, ?b)" using memset_sets [OF r, of 35] hash by simp
  have b: "?b ! t = (if s \<le> t \<and> t < s + j then CHR ''#'' else CHR '' '')" if "t < 500" for t
    using that r a1 len nth_put [of s "replicate j (CHR ''#'')" a1 t]
    by (auto simp: less_diff_conv2)
  have eq: "?b ! (s - 64 + t) = a3 ! (w - 64 + t)" if "t < 64 + j + 64" for t
    using that s w assms(4) b [of "s - 64 + t"] a3 [of "w - 64 + t"] by auto
  have "memset_test_align memset base base2 i j (buf, buf2) = Some ([], (?b, a3))"
    using s w assms(4) m eq
    by (simp add: memset_test_align_def Let_def memset_N_def s_def [symmetric] w_def [symmetric]
        a1_def [symmetric] a2_def [symmetric] a3_def [symmetric])
  then show ?thesis using len r by (simp add: length_put)
qed

lemma tests_pass:
  assumes "length buf = 500" and "length buf2 = 500" and "\<forall>(i, j) \<in> set ts. i < 64 \<and> j < 244"
  shows "\<exists>buf' buf2'. memset_tests memset base base2 ts (ls, (buf, buf2)) = Some (ls, (buf', buf2')) \<and> length buf' = 500"
  using assms
proof (induction ts arbitrary: buf buf2)
  case Nil
  then show ?case by simp
next
  case (Cons t ts)
  obtain i j where t: "t = (i, j)" by (cases t) auto
  obtain b1 b2 where "memset_test_align memset base base2 i j (buf, buf2) = Some ([], (b1, b2))"
      "length b1 = 500" "length b2 = 500"
    using test_align_passes [of buf buf2 i j base base2] Cons.prems t by auto
  with Cons.IH [of b1 b2] Cons.prems(3) t show ?case by simp
qed

lemma values_pass: "10 \<le> length buf \<Longrightarrow> fst (memset_values memset cs (ls, buf)) = ls"
proof (induction cs arbitrary: buf)
  case Nil
  then show ?case by simp
next
  case (Cons c cs)
  let ?b = "put buf 0 (replicate 10 (char_of (nat (c mod 256)) :: char))"
  have m: "memset buf 0 c 10 = (0, ?b)" using memset_sets [of 0 10 buf c] Cons.prems by simp
  have "(of_char (char_of (nat (c mod 256)) :: char) :: int) = c mod 256"
  proof -
    have "(of_char (char_of (nat (c mod 256)) :: char) :: int)
        = int (of_char (char_of (nat (c mod 256)) :: char))" by (rule of_nat_of_char [symmetric])
    also have "\<dots> = int (nat (c mod 256) mod 256)" by (simp only: of_char_of)
    also have "\<dots> = c mod 256" by simp
    finally show ?thesis .
  qed
  then have "memset_test_value memset c buf = ([], ?b)"
    using m Cons.prems by (simp add: memset_test_value_def nth_put)
  with Cons.IH [of ?b] Cons.prems show ?case by (simp add: length_put)
qed

lemma main_passes:
  assumes "length buf = 500" and "length buf2 = 500"
  shows "string_memset_main memset base base2 (buf, buf2) = Some []"
proof -
  let ?ts = "[(i, j). i \<leftarrow> [0..<64], j \<leftarrow> [0..<memset_N - 256]]"
  have "\<forall>(i, j) \<in> set ?ts. i < 64 \<and> j < 244" by (auto simp: memset_N_def)
  from tests_pass [OF assms this, of base base2 "[]"] obtain b b2 where
    t: "memset_tests memset base base2 ?ts ([], (buf, buf2)) = Some ([], (b, b2))" "length b = 500" by blast
  have "fst (memset_values memset cs ([], b)) = []" for cs using values_pass t(2) by simp
  then show ?thesis
    unfolding string_memset_main_def t(1) by (simp only: option.case prod.case)
qed

end

interpretation memset_ref: memset_contract memset_ref
  by unfold_locales (simp add: memset_ref_def)

end
