(* ===== verification/StringStrchr.thy ===== *)
theory StringStrchr
  imports StringMemory StringTables
begin

text \<open>
  string_strchr.c of libc/src/functional: every use of its macros copies a byte array to the eight
  alignments of a static buffer, over what earlier uses left there, and calls \<open>strchr\<close> on the copy.
\<close>

text \<open>\<open>strchr m p c\<close>: the offset of the byte found from offset \<open>p\<close> of the memory on.\<close>

type_synonym strchr_fn = "mem \<Rightarrow> nat \<Rightarrow> int \<Rightarrow> nat option"

definition aligncpy :: "nat \<Rightarrow> char list \<Rightarrow> nat \<Rightarrow> mem \<Rightarrow> nat \<times> mem" where
  "aligncpy base s a buf = (let d = aligned base 0 + a in (d, put buf d s))"

definition strchr_N_step :: "strchr_fn \<Rightarrow> nat \<Rightarrow> nat \<Rightarrow> char list \<Rightarrow> int \<Rightarrow> nat \<Rightarrow> log \<times> mem \<Rightarrow> log \<times> mem" where
  "strchr_N_step impl base l s c align st =
     (let (ls, buf) = st;
          (p, buf) = aligncpy base s align buf;
          q = impl buf p c
      in (if q \<noteq> None then ls @ [l] else ls, buf))"

definition strchr_N :: "strchr_fn \<Rightarrow> nat \<Rightarrow> nat \<Rightarrow> char list \<Rightarrow> int \<Rightarrow> log \<times> mem \<Rightarrow> log \<times> mem" where
  "strchr_N impl base l s c st = fold (strchr_N_step impl base l s c) [0..<8] st"

definition strchr_T_step ::
    "strchr_fn \<Rightarrow> nat \<Rightarrow> nat \<Rightarrow> char list \<Rightarrow> int \<Rightarrow> nat \<Rightarrow> nat \<Rightarrow> log \<times> mem \<Rightarrow> log \<times> mem" where
  "strchr_T_step impl base l s c n align st =
     (let (ls, buf) = st;
          (p, buf) = aligncpy base s align buf;
          q = impl buf p c
      in (case q of
            None \<Rightarrow> ls @ [l]
          | Some x \<Rightarrow> if int x - int p \<noteq> int n then ls @ [l] else ls, buf))"

definition strchr_T :: "strchr_fn \<Rightarrow> nat \<Rightarrow> nat \<Rightarrow> char list \<Rightarrow> int \<Rightarrow> nat \<Rightarrow> log \<times> mem \<Rightarrow> log \<times> mem" where
  "strchr_T impl base l s c n st = fold (strchr_T_step impl base l s c n) [0..<8] st"

text \<open>A string literal is an array of its bytes and a terminating zero.\<close>

definition lit :: "cstr \<Rightarrow> char list" where
  "lit s = s @ [NUL]"

definition strchr_N_uses :: "(nat \<times> char list \<times> int) list" where
  "strchr_N_uses =
    [(49, lit (NUL # ''aaa''), 97),
     (50, lit (''a'' @ NUL # ''bb''), 98),
     (51, lit (''ab'' @ NUL # ''c''), 99),
     (52, lit (''abc'' @ NUL # ''d''), 100),
     (53, lit (''abc abc'' @ NUL # ''x''), 120),
     (54, array_a, 128),
     (55, array_a, 255)]"

definition strchr_T_uses :: "(nat \<times> char list \<times> int \<times> nat) list" where
  "strchr_T_uses =
    [(57, lit '''', 0, 0),
     (58, lit ''a'', 97, 0),
     (59, lit ''a'', 97 + 256, 0),
     (60, lit ''a'', 0, 1),
     (61, lit ''abb'', 98, 1),
     (62, lit ''aabb'', 98, 2),
     (63, lit ''aaabb'', 98, 3),
     (64, lit ''aaaabb'', 98, 4),
     (65, lit ''aaaaabb'', 98, 5),
     (66, lit ''aaaaaabb'', 98, 6),
     (67, lit ''abc abc'', 99, 2),
     (68, array_s, 1, 0),
     (69, array_s, 2, 1),
     (70, array_s, 10, 9),
     (71, array_s, 11, 10),
     (72, array_s, 127, 126),
     (73, array_s, 128, 127),
     (74, array_s, 255, 254),
     (75, array_s, 0, 255)]"

definition string_strchr_main :: "strchr_fn \<Rightarrow> nat \<Rightarrow> mem \<Rightarrow> log" where
  "string_strchr_main impl base buf =
     (let st = fold (\<lambda>(l, s, c). strchr_N impl base l s c) strchr_N_uses ([], buf);
          st = fold (\<lambda>(l, s, c, n). strchr_T impl base l s c n) strchr_T_uses st
      in fst st)"

text \<open>The contract: the first byte equal to \<open>c\<close> converted to \<open>char\<close> in the string at \<open>p\<close>, its
  terminator included.\<close>

definition strchr_ref :: strchr_fn where
  "strchr_ref m p c =
     map_option (\<lambda>i. p + i) (CString.strchr (c_string (drop p m)) (char_of (nat (c mod 256))))"

lemma c_string_put:
  assumes "d + length s \<le> length buf" and "NUL \<in> set s"
  shows "c_string (drop d (put buf d s)) = c_string s"
proof -
  have "drop d (put buf d s) = s @ drop (d + length s) buf" using assms(1) by (simp add: put_def)
  with assms(2) show ?thesis by (simp add: c_string_def takeWhile_append1 [where x = NUL])
qed

lemma strchr_step_ref:
  assumes "length buf = 512" and "a < 8" and "length s \<le> 256" and "NUL \<in> set s"
  shows "length (put buf (aligned base 0 + a) s) = 512 \<and>
         strchr_ref (put buf (aligned base 0 + a) s) (aligned base 0 + a) c =
         map_option (\<lambda>i. aligned base 0 + a + i) (CString.strchr (c_string s) (char_of (nat (c mod 256))))"
proof -
  have "aligned base 0 + a + length s \<le> length buf"
    using aligned_bounds(2) [of base 0] assms(1-3) by simp
  then show ?thesis using assms(1,4) by (simp add: strchr_ref_def c_string_put length_put)
qed

lemma strchr_N_pass:
  assumes "CString.strchr (c_string s) (char_of (nat (c mod 256))) = None"
    and "length s \<le> 256" and "NUL \<in> set s" and "length buf = 512" and "n \<le> 8"
  shows "\<exists>buf'. fold (strchr_N_step strchr_ref base l s c) [0..<n] (ls, buf) = (ls, buf') \<and> length buf' = 512"
  using assms(5)
proof (induction n)
  case 0
  then show ?case using assms(4) by simp
next
  case (Suc n)
  then obtain b where b: "fold (strchr_N_step strchr_ref base l s c) [0..<n] (ls, buf) = (ls, b)" "length b = 512"
    by auto
  let ?b = "put b (aligned base 0 + n) s"
  have r: "length ?b = 512 \<and> strchr_ref ?b (aligned base 0 + n) c =
       map_option (\<lambda>i. aligned base 0 + n + i) (CString.strchr (c_string s) (char_of (nat (c mod 256))))"
    using strchr_step_ref [OF b(2) _ assms(2,3)] Suc.prems by simp
  then have "strchr_N_step strchr_ref base l s c n (ls, b) = (ls, ?b)"
    using assms(1) by (simp add: strchr_N_step_def aligncpy_def Let_def)
  with b r show ?case by simp
qed

lemma strchr_T_pass:
  assumes "CString.strchr (c_string s) (char_of (nat (c mod 256))) = Some k"
    and "length s \<le> 256" and "NUL \<in> set s" and "length buf = 512" and "n \<le> 8"
  shows "\<exists>buf'. fold (strchr_T_step strchr_ref base l s c k) [0..<n] (ls, buf) = (ls, buf') \<and> length buf' = 512"
  using assms(5)
proof (induction n)
  case 0
  then show ?case using assms(4) by simp
next
  case (Suc n)
  then obtain b where b: "fold (strchr_T_step strchr_ref base l s c k) [0..<n] (ls, buf) = (ls, b)" "length b = 512"
    by auto
  let ?b = "put b (aligned base 0 + n) s"
  have r: "length ?b = 512 \<and> strchr_ref ?b (aligned base 0 + n) c =
       map_option (\<lambda>i. aligned base 0 + n + i) (CString.strchr (c_string s) (char_of (nat (c mod 256))))"
    using strchr_step_ref [OF b(2) _ assms(2,3)] Suc.prems by simp
  then have "strchr_T_step strchr_ref base l s c k n (ls, b) = (ls, ?b)"
    using assms(1) by (simp add: strchr_T_step_def aligncpy_def Let_def)
  with b r show ?case by simp
qed

lemma strchr_map_upt:
  "a \<le> k \<Longrightarrow> k < b \<Longrightarrow> b \<le> 256 \<Longrightarrow> CString.strchr (map char_of [a..<b]) (char_of k) = Some (k - a)"
proof (induction "k - a" arbitrary: a)
  case 0
  then show ?case by (simp add: upt_conv_Cons)
next
  case (Suc d)
  then have "(char_of a :: char) \<noteq> char_of k" by (simp add: char_of_eq_iff take_bit_eq_mod)
  moreover have "CString.strchr (map char_of [Suc a..<b]) (char_of k) = Some (k - Suc a)"
    using Suc.hyps(1) [of "Suc a"] Suc.hyps(2) Suc.prems by simp
  ultimately show ?case using Suc.prems Suc.hyps(2) by (simp add: upt_conv_Cons Suc_diff_Suc)
qed

lemma eq_char_of_iff: "c = char_of (n :: nat) \<longleftrightarrow> of_char c = n mod 256"
  using char_of_eq_iff [of n c] by (auto simp: take_bit_eq_mod)

lemma N_uses_ok:
  "list_all (\<lambda>(l, s, c). CString.strchr (c_string s) (char_of (nat (c mod 256))) = None \<and>
      length s \<le> 256 \<and> NUL \<in> set s) strchr_N_uses"
proof -
  have "CString.strchr (c_string array_a) x = None" if "128 \<le> (of_char x :: nat)" for x
  proof -
    have "strchr s x = None" if "x \<notin> set s" "x \<noteq> NUL" for s
      using that by (induction s) auto
    moreover have "x \<notin> set (c_string array_a)" using that by (simp add: in_array_a)
    moreover have "x \<noteq> NUL" using that by (auto simp: NUL_def)
    ultimately show ?thesis by blast
  qed
  then have "CString.strchr (c_string array_a) (char_of (128::nat)) = None"
    "CString.strchr (c_string array_a) (char_of (255::nat)) = None" by simp_all
  moreover have "length array_a = 128" "NUL \<in> set array_a" by (simp_all add: array_a_eq)
  ultimately show ?thesis
    by (simp add: strchr_N_uses_def lit_def c_string_def NUL_def char_of_eq_iff eq_char_of_iff)
qed

lemma strchr_array_s:
  "1 \<le> k \<Longrightarrow> k < 256 \<Longrightarrow> CString.strchr (c_string array_s) (char_of k) = Some (k - 1)"
  unfolding array_s_string by (rule strchr_map_upt) simp_all

lemma strchr_terminator: "NUL \<notin> set s \<Longrightarrow> CString.strchr s NUL = Some (length s)"
  by (induction s) auto

lemma T_uses_ok:
  "list_all (\<lambda>(l, s, c, n). CString.strchr (c_string s) (char_of (nat (c mod 256))) = Some n \<and>
      length s \<le> 256 \<and> NUL \<in> set s) strchr_T_uses"
proof -
  have "CString.strchr (c_string array_s) NUL = Some 255"
    using strchr_terminator [of "c_string array_s"] NUL_notin_upt [of 256] by (simp add: array_s_string)
  moreover have "char_of (0::nat) = NUL" by (simp add: NUL_def char_of_eq_iff)
  ultimately have "CString.strchr (c_string array_s) (char_of (0::nat)) = Some 255" by simp
  moreover have "length array_s = 256" "NUL \<in> set array_s" by (simp_all add: array_s_eq)
  moreover have "c_string (lit s) = s" if "NUL \<notin> set s" for s
    unfolding lit_def using that by (rule c_string_append_NUL)
  ultimately show ?thesis
    using strchr_array_s [of 1] strchr_array_s [of 2] strchr_array_s [of 10] strchr_array_s [of 11]
      strchr_array_s [of 127] strchr_array_s [of 128] strchr_array_s [of 255]
    by (simp add: strchr_T_uses_def NUL_def char_of_eq_iff eq_char_of_iff) (simp add: lit_def NUL_def eq_char_of_iff)
qed

lemma fold_passes:
  assumes "list_all P xs" and "length buf = 512"
    and "\<And>x buf ls. P x \<Longrightarrow> length buf = 512 \<Longrightarrow> \<exists>buf'. g x (ls, buf) = (ls, buf') \<and> length (buf' :: mem) = 512"
  shows "\<exists>buf'. fold g xs (ls, buf) = (ls, buf') \<and> length buf' = 512"
  using assms(1,2)
proof (induction xs arbitrary: buf)
  case Nil
  then show ?case by simp
next
  case (Cons x xs)
  then obtain b where "g x (ls, buf) = (ls, b)" "length b = 512" using assms(3) [of x buf ls] by auto
  with Cons show ?case by simp
qed

text \<open>The \<open>strchr\<close> of the standard, which finds the first byte equal to its second argument
  converted to \<open>char\<close>, the terminator included, and otherwise nothing, passes every use of the test at all eight
  alignments, wherever the static buffer lies and whatever it held; the expected offsets, also
  those for a value beyond \<open>char\<close>, for bytes above 127 and for the terminator, are right.\<close>

lemma string_strchr_passes:
  assumes "length buf = 512"
  shows "t_status (string_strchr_main strchr_ref base buf) = 0"
proof -
  have N: "\<exists>buf'. (\<lambda>(l, s, c). strchr_N strchr_ref base l s c) x (ls, buf) = (ls, buf') \<and> length buf' = 512"
    if "(\<lambda>(l, s, c). CString.strchr (c_string s) (char_of (nat (c mod 256))) = None \<and> length s \<le> 256 \<and> NUL \<in> set s) x"
      and "length buf = 512" for x buf ls
    using that strchr_N_pass [OF _ _ _ that(2), of "fst (snd x)" "snd (snd x)" 8 base "fst x" ls]
    by (cases x) (simp add: strchr_N_def)
  have T: "\<exists>buf'. (\<lambda>(l, s, c, n). strchr_T strchr_ref base l s c n) x (ls, buf) = (ls, buf') \<and> length buf' = 512"
    if "(\<lambda>(l, s, c, n). CString.strchr (c_string s) (char_of (nat (c mod 256))) = Some n \<and> length s \<le> 256 \<and> NUL \<in> set s) x"
      and "length buf = 512" for x buf ls
    using that strchr_T_pass [OF _ _ _ that(2), of "fst (snd x)" "fst (snd (snd x))" "snd (snd (snd x))" 8 base "fst x" ls]
    by (cases x) (simp add: strchr_T_def)
  obtain b where b: "fold (\<lambda>(l, s, c). strchr_N strchr_ref base l s c) strchr_N_uses ([], buf) = ([], b)" "length b = 512"
    using fold_passes [where g = "\<lambda>(l, s, c). strchr_N strchr_ref base l s c", OF N_uses_ok assms N] by blast
  obtain b' where "fold (\<lambda>(l, s, c, n). strchr_T strchr_ref base l s c n) strchr_T_uses ([], b) = ([], b')"
    using fold_passes [where g = "\<lambda>(l, s, c, n). strchr_T strchr_ref base l s c n", OF T_uses_ok b(2) T] by blast
  with b show ?thesis by (simp add: string_strchr_main_def)
qed

text \<open>Every \<open>memcpy\<close> and \<open>memset\<close> that keep their contract (the bytes of the destination range
  are the source's, or the value converted to a byte, nothing else changes, the destination is
  returned) pass their tests at every alignment and length, wherever the buffers lie in memory
  and whatever they hold: none of the 16384 and 15621 runs aborts or reports an error.  So does the \<open>strchr\<close> of the
  standard on every use of its test, at all eight alignments.\<close>

lemma memory_tests_pass:
  assumes "memcpy_contract memcpy" and "memset_contract memset"
    and "length buf = 512" and "length sbuf = 500" and "length sbuf2 = 500"
  shows "string_memcpy_main memcpy base buf = Some []
       \<and> string_memset_main memset base1 base2 (sbuf, sbuf2) = Some []
       \<and> t_status (string_strchr_main strchr_ref base buf) = 0"
  using memcpy_contract.main_passes [OF assms(1,3)] memset_contract.main_passes [OF assms(2,4,5)]
    string_strchr_passes [OF assms(3)]
  by blast

end
