(* ===== verification/Numbers.thy ===== *)
theory Numbers
  imports StringSearch
begin

text \<open>
  udiv.c, strtol.c and wcstol.c of libc/src/functional.  The tables are those of the sources, with
  the line of each check; the operations under test are arguments.  The division table is
  judged by Euclid's equations, the conversions by a reference written from the C standard.
\<close>

subsection \<open>udiv.c\<close>

definition udiv_t :: "(u64 \<times> u64 \<times> u64 \<times> u64) list" where
  "udiv_t =
    [(0x8ddb1a43e77c4031, 0x5950e8c33d34979e, 0x1, 0x348a3180aa47a893),
     (0x723f4114006c08c7, 0x817de530db2b43fc, 0x0, 0x723f4114006c08c7),
     (0x47811fa5f00f74d, 0x3d98e7d3fcd5d5c5, 0x0, 0x47811fa5f00f74d),
     (0x51ffcc7cdc989d43, 0x36be8bd6746b70e4, 0x1, 0x1b4140a6682d2c5f),
     (0x57bf9128512fe829, 0x197b3858155d498d, 0x3, 0xb4de82011180b82),
     (0x89fc1c5968fa817f, 0xdcea797734c7115, 0x9, 0xdb838065b4a87c2),
     (0x4ed5264cf7092ec5, 0xde40d1e15ef3e74, 0x5, 0x960e4b6895cf681),
     (0xffd86b253d97317b, 0x13f9ff2d24b6d6f4, 0xc, 0x1020750785051e0b),
     (0x8771fa2da656a721, 0x9210fe654c59bfc, 0xe, 0x7a31b9503881f59),
     (0xb5961d12bcd3e937, 0xbdb5a33662f547a, 0xf, 0x3bbd40fc00df611),
     (0x93c79eecdac7ed3d, 0x6f267c57ea2b7b5, 0x15, 0x1e51bb9776edb64),
     (0x6b93ffce49f1a4b3, 0x3583d1f9702ee03, 0x20, 0x8c5bdb6993e453),
     (0x138aefcc98ce5d19, 0x117002fa7600b11, 0x11, 0x103eca27b6da0f8),
     (0xb3da641cef491fef, 0x357615f638334b8, 0x35, 0x2c33b5d551f35d7),
     (0x71c4b06e463912b5, 0x1c286ad9e8f5229, 0x40, 0x1230506a2648875),
     (0x97d4cf7df046d6eb, 0x1e9412f5c77b2b8, 0x4f, 0xd9b1e06756b023),
     (0x1428f04bd490ea11, 0x9d97f29a897c93, 0x20, 0x75f1f8836157b1),
     (0x35256c76832705a7, 0xa962f1a447dcd7, 0x50, 0x3680f32cb20277),
     (0x2969e82bd9347f2d, 0x723d68574d4156, 0x5c, 0x5bd6ac79710445),
     (0x9061a12aae71a823, 0x4186d8a1a66175, 0x234, 0x48be68be2f25f),
     (0x695b8d33ef342e09, 0x3ed1fe1a998fe3, 0x1ad, 0x15a6615bde0ea2),
     (0x46b4dd1e06367a5f, 0xa04e70622e4e8, 0x70e, 0x64750bc0b9daf),
     (0xd68b05ba7eee12a5, 0x72ab3fb682444, 0x1def, 0x3c437fc988329),
     (0x1e59cc2ac508f85b, 0xeb15ae6d4d7f9, 0x210, 0xc00aeae0b86cb),
     (0x296f8d2c76a0901, 0xf65628b31b01, 0x2b0, 0xf14566117651),
     (0x7036f5ad7cbc5e17, 0xa09d3bfcf72cf, 0xb2d, 0x72236db564ab4),
     (0x915d6883c575ad1d, 0x3a38d68d3a38e, 0x27f2, 0x241de6f7a6ee1),
     (0x845ba74f5adfa793, 0x2f6950e58d00b, 0x2caa, 0x249dc90239c45),
     (0xb910d16c54805af9, 0x1fc2ca5c99a7a, 0x5d3a, 0x1771487b50955),
     (0x27a2e280bcf990cf, 0x389aa0c0b0cc0, 0xb34, 0x9d71d12eb9cf),
     (0x1e032f04a5372e95, 0x63c2a1d58710, 0x4d04, 0x154ce4414255),
     (0x3a1a5659908495cb, 0x279dcd85418a, 0x17775, 0x132c6f9c7bb9),
     (0xd769a376e5e103f1, 0xadacb670e0c7, 0x13d85, 0x8ad256e5d18e),
     (0x269f4f4baaaf287, 0x1aed2ad9daf0, 0x16f3, 0x426550f80b7),
     (0x6700daeeb87a770d, 0xeca7ab1aa93, 0x6f6c5, 0x70d9466f1ee),
     (0xd0201f3783c2a303, 0x3a0c01aa3e6a, 0x395e1, 0x18b33b9015d9),
     (0xca3f2e00d291e3e9, 0xbe0e048cd94, 0x1106c2, 0x37f7fc0a1c1),
     (0xec4d240dc289633f, 0x4f8aadb7483, 0x2f8855, 0x46e0db91bc0),
     (0xd7967b29e2e36685, 0xe61d902db27, 0xefd69, 0x36811fff886),
     (0xe3ecd4374320af3b, 0x4edd0edd0a0, 0x2e3def, 0x4ad0da4c9db),
     (0x7a08fe1d98b4dae1, 0x6bced9c0c15, 0x121c89, 0x40c856617a4),
     (0x34435992a5c9c2f7, 0x4f4a94c109f, 0xa8bc9, 0x94c5d46120),
     (0x6fd0027468f1dcfd, 0x597186b0153, 0x140060, 0x16f26555ddd),
     (0x4fe37c1db1619a73, 0x47a0c30bd15, 0x11d861, 0x5964fb3d7e),
     (0x77aa77f86d07c8d9, 0x3a39cf03d65, 0x20e21c, 0x37f7fede7cd),
     (0xc072e76ad59cf1af, 0x3a786701d, 0x34a98c59, 0x22b6b1b9a),
     (0xfb8e8f1f7781ba75, 0xe8ca427d3e, 0x114a34d, 0xa344eb94cf),
     (0x160e34cf590444ab, 0xe2388f12fe, 0x18f574, 0xc303329393),
     (0x2509ddea3a648dd1, 0xec762d81bc, 0x281955, 0xc0463d1e65),
     (0xc9ba10cd6eafcf67, 0x96a51d06f7, 0x156ce72, 0x133e2df369),
     (0x1dd4fe261b4adeed, 0x2736e25406, 0xc2bfef, 0x1354c1f353),
     (0x480258f92fc38de3, 0x2599b52bb0, 0x1ea450c, 0x2879f11a3),
     (0x5a3257b1114109c9, 0x2978f9f1aa, 0x22cc30a, 0x1317311b25),
     (0xf4eeda8f34ab3c1f, 0x1aa70450d9, 0x9309d64, 0x1187b6925b),
     (0x3c2c319ca8612a65, 0x73fc01ece, 0x84d0088, 0x3165accf5),
     (0x4f6034e74a16561b, 0x1f29d53707, 0x28c0daa, 0xd88e07075),
     (0x206665a7072f1cc1, 0xda87e7cea, 0x25f48c1, 0xd3ddb2057),
     (0x100c559d7db417d7, 0xb907ebbc2, 0x1634188, 0xa2eae16c7),
     (0x64c5f83691b47cdd, 0x5aced6ebb, 0x11c17fb7, 0x344109030),
     (0x32a812777eaf7d53, 0x1cb63fe4f, 0x1c3a9675, 0xb113f938),
     (0x67478d96865ca6b9, 0x142fa03a, 0x51dcb463d, 0x11359ce7),
     (0x71024e740deb428f, 0x142d3885, 0x599d9edd5, 0x13b1ae6),
     (0x52c78160b090b655, 0xd02101c6, 0x65d1b205, 0x1c0a0177),
     (0x16917d5f9fde38b, 0xfb1566c7, 0x17029e0, 0x1bbe166b),
     (0xa6ee688a0d1387b1, 0x22c4d384, 0x4cd19afcf, 0x77143f5),
     (0x74babc1be2ed9c47, 0x22eda9a6, 0x3578b1967, 0x189b247d),
     (0x7c5cbf2dfc1db6cd, 0x5f09c060, 0x14efd44d4, 0x5210e74d),
     (0x7c046071c1ac68c3, 0x3696c8e6, 0x24596d86b, 0x26060a1),
     (0x84728ab55d399fa9, 0x267d7771, 0x370ea7405, 0x255d1674),
     (0x99f57100ef5404ff, 0x10c0df86, 0x9308fef0d, 0x9009131),
     (0x3f4c0514b0df5e45, 0xf2c3810, 0x42bf84d39, 0x3aa12b5),
     (0xd01edb572821ecfb, 0x2a443ae, 0x4ec8b88639, 0x111c73d),
     (0xeecb08561bd0cea1, 0xbeca231, 0x140692508b, 0x9b36e06),
     (0x8c856facc6335cb7, 0x398eab4, 0x271008c7a5, 0x922ab3),
     (0x23fb9839e8358cbd, 0x24deb54, 0xf9d714151, 0xb9c329),
     (0x2005d5de30015033, 0x47c06db, 0x7240bccba, 0x104d115),
     (0x67d59c29e076f499, 0x179f009, 0x465554ac22, 0x10b0767),
     (0x32d2dd34369c836f, 0x13d3fbf, 0x2902f2fb54, 0x7553c3),
     (0x3960c3c99fdc2235, 0x1b808ba, 0x21618743cd, 0x11e7743),
     (0x343bad5adfa9726b, 0xeef444, 0x37f58c51a6, 0x3d8a53),
     (0x7a4aadd7b4e5f191, 0x129c9, 0x6921bb5a2a53, 0x6b66),
     (0x9eb7dae5d71c5927, 0x31d7f5, 0x32f2ff2c6d5, 0x22c4e),
     (0x1b285999316afead, 0x115477, 0x1912cf6611e, 0x801bb),
     (0x917aee3d84b533a3, 0x71d26f, 0x1473408589a, 0x6e74dd),
     (0x18e6a86b0473a589, 0x50a12, 0x4f0fabc67d4, 0x210a1),
     (0xf22c9887813bbddf, 0x5b17a, 0x2a897505c07b, 0x1f841),
     (0xef7a551239d60225, 0x7fb5a, 0x1e00b98e188b, 0x41847),
     (0xffd2ad0e77b73db, 0x146f14, 0xc8500600a3, 0xba1f),
     (0x76743abdfb91f081, 0xd5888, 0x8e0303c479c, 0x245a1),
     (0xc2eeb030bcff9197, 0x7a4e8, 0x198034e02c37, 0x343bf),
     (0x63cc9c23f0ed0c9d, 0x6c1e5, 0xec4d5841041, 0x38178),
     (0x7ad70f846e8f1313, 0x7fdf5, 0xf5ecec69bc9, 0x756b6),
     (0x60de3d71574eb279, 0x6ea3, 0xe02421997a61, 0x18b6),
     (0xd27054901c68b44f, 0x2dd0f, 0x497d639c8f46, 0xe135),
     (0xbcf297b8f0dbfe15, 0xcf17, 0xe992af0ca1ab, 0x32b8),
     (0x96c3ae70323ef14b, 0xbbdc, 0xcd7329b68d81, 0x1b6f),
     (0xdc1a13cfa4d3cb71, 0xdb16, 0x1012fe5ed296f, 0x46e7),
     (0xa1d40a2986f40607, 0x8067, 0x142a473fdb7be, 0x1895),
     (0x227f92ef6daab68d, 0x15ec, 0x192dda5d5ed25, 0xf71),
     (0xc0a4a7810015ee83, 0x6064, 0x1ffa220762fc8, 0x4463),
     (0xd38b6eb9f0e71b69, 0x1909, 0x8732ce2cc77f4, 0xfd5),
     (0x2e588bdb751a66bf, 0x229c, 0x156d025c70d97, 0x10bb),
     (0xd90f7e11dcbd1605, 0x760, 0x1d6e934381ba2e, 0x2c5),
     (0x60ab67a4e5aeabb, 0x1bf7, 0x374f26f3e3ed, 0x210),
     (0x224f627be76a8261, 0x4f4, 0x6ed4d3882b567, 0x35),
     (0x300d1ab91bd0b677, 0xe9c, 0x34a002fb76e63, 0x823),
     (0x2a63d80e0c52fc7d, 0x32, 0xd90970ebc4383f, 0x2f),
     (0xb0e94bbc1f90c5f3, 0x3b3, 0x2fd2ef70381c52, 0x29d),
     (0x2b5dc22562dbe059, 0x30a, 0xe45055015fff5, 0x1c7),
     (0x4a7fd1078807d52f, 0x18d, 0x300a32f60677d4, 0x16b),
     (0x41a01ee8ab0849f5, 0x13c, 0x352a3971f57e9d, 0x29),
     (0x95a7287ad5f6602b, 0x1d0, 0x529130d1034a23, 0xbb),
     (0x723bacc76bd51551, 0x16, 0x53142091089af83, 0xf),
     (0x81c49febaa2ca2e7, 0xcd, 0xa20d44956f5bf4, 0x83),
     (0x11593d6b3f54de6d, 0x63, 0x2cdc6b1a7f9078, 0x5),
     (0x756c82d6f7069963, 0x5c, 0x146bea3ba565525, 0x17),
     (0xda882ab2a88c0149, 0x1b, 0x8180194d6d5c728, 0x11),
     (0xbb03671751a7ff9f, 0x20, 0x5d81b38ba8d3ffc, 0x1f),
     (0x6884fa0a8f0c99e5, 0x12, 0x5ce7fab40d6088c, 0xd),
     (0x5052a2953c528441, 0x7, 0xb7984f0bf79809b, 0x4),
     (0x58dd1583185ecb57, 0x9, 0x9dfad0e90ee1697, 0x8),
     (0xaa6870c376df5c5d, 0x3, 0x38cd7aebd24a741f, 0x0),
     (0x4b21d01617167e39, 0x2, 0x2590e80b0b8b3f1c, 0x1)]"

definition udiv_main :: "(u64 \<Rightarrow> u64 \<Rightarrow> u64) \<Rightarrow> (u64 \<Rightarrow> u64 \<Rightarrow> u64) \<Rightarrow> log" where
  "udiv_main udiv umod =
     concat (map (\<lambda>(x, y, d, m).
       let div' = udiv x y; mod' = umod x y
       in check 163 (div' = d) @ check 165 (mod' = m)) udiv_t)"

text \<open>Quotient and remainder by Euclid's equations.\<close>

definition divides_into :: "u64 \<Rightarrow> u64 \<Rightarrow> u64 \<Rightarrow> u64 \<Rightarrow> bool" where
  "divides_into x y q r \<longleftrightarrow> unat x = unat q * unat y + unat r \<and> unat r < unat y"

lemma divides_into_unique:
  "divides_into x y q r \<Longrightarrow> divides_into x y q' r' \<longleftrightarrow> q' = q \<and> r' = r"
proof
  assume a: "divides_into x y q r" and b: "divides_into x y q' r'"
  have "unat q = unat x div unat y" "unat r = unat x mod unat y"
    using a by (simp_all add: divides_into_def)
  moreover have "unat q' = unat x div unat y" "unat r' = unat x mod unat y"
    using b by (simp_all add: divides_into_def)
  ultimately show "q' = q \<and> r' = r" by (simp add: word_unat_eq_iff)
qed auto

lemma udiv_t_right: "list_all (\<lambda>(x, y, d, m). divides_into x y d m) udiv_t"
  by (simp add: udiv_t_def divides_into_def)

text \<open>The division test judges a pair of functions right exactly when, on each of its 123
  pairs, they give the quotient and the remainder of the unsigned 64-bit numbers in the sense of
  Euclid's equations: all 123 expected results are right, and each wrong result is reported.\<close>

lemma udiv_verdict:
  "t_status (udiv_main f g) = 0 \<longleftrightarrow> list_all (\<lambda>(x, y, d, m). divides_into x y (f x y) (g x y)) udiv_t"
proof -
  have "list_all (\<lambda>z. (\<lambda>(x, y, d, m). let div' = f x y; mod' = g x y
          in check 163 (div' = d) @ check 165 (mod' = m)) z = [] \<longleftrightarrow>
        (\<lambda>(x, y, d, m). divides_into x y (f x y) (g x y)) z) udiv_t"
    by (rule list_all_mono_imp [OF udiv_t_right]) (auto simp: divides_into_unique)
  from list_all_iff_cong [OF this] show ?thesis
    unfolding udiv_main_def t_status_0 concat_map_Nil .
qed

subsection \<open>strtol.c and wcstol.c\<close>

text \<open>
  The outcome of a conversion: the value, the offset of \<open>*endptr\<close> from the string (\<open>None\<close> when
  nothing was stored there), and \<open>errno\<close>, which the test clears before each call.
\<close>

record conv =
  val :: int
  endp :: "nat option"
  errno :: int

datatype conv_fn = Atol | Strtol | Strtoul | Strtoll | Strtoull

text \<open>The checks of the two macros: \<open>TEST\<close> makes the call and compares the value, the uses of
  \<open>TEST2\<close> after it compare the end position (\<open>Pos\<close>) and \<open>errno\<close> (\<open>Errno\<close>), each with its line.\<close>

datatype after = Pos nat nat | Errno nat int

type_synonym conv_block = "nat \<times> conv_fn \<times> cstr \<times> int \<times> int \<times> after list"

fun after_check :: "conv \<Rightarrow> after \<Rightarrow> log" where
  "after_check r (Pos l n) = check l (endp r = Some n)"
| "after_check r (Errno l e) = check l (errno r = e)"

definition conv_test :: "(conv_fn \<Rightarrow> cstr \<Rightarrow> int \<Rightarrow> conv) \<Rightarrow> conv_block \<Rightarrow> log" where
  "conv_test f b =
     (case b of (l, fn, s, base, x, es) \<Rightarrow>
        let r = f fn s base in check l (val r = x) @ concat (map (after_check r) es))"

definition strtol_head :: "conv_block list" where
  "strtol_head =
    [(31, Atol, ''2147483647'', 10, 2147483647, []),
     (32, Strtol, ''2147483647'', 0, 2147483647, []),
     (33, Strtoul, ''4294967295'', 0, 4294967295, [])]"

definition strtol_long4 :: "conv_block list" where
  "strtol_long4 =
    [(36, Strtol, ''2147483648'', 0, 2147483647, [Pos 37 10, Errno 38 34]),
     (39, Strtol, ''-2147483649'', 0, - 2147483648, [Pos 40 11, Errno 41 34]),
     (42, Strtoul, ''4294967296'', 0, 4294967295, [Pos 43 10, Errno 44 34]),
     (45, Strtoul, ''-1'', 0, 4294967295, [Pos 46 2, Errno 47 0]),
     (48, Strtoul, ''-2'', 0, 4294967294, [Pos 49 2, Errno 50 0]),
     (51, Strtoul, ''-2147483648'', 0, 2147483648, [Pos 52 11, Errno 53 0]),
     (54, Strtoul, ''-2147483649'', 0, 2147483647, [Pos 55 11, Errno 56 0]),
     (57, Strtoul, ''-4294967296'', 0, 4294967295, [Pos 58 11, Errno 59 34])]"

definition strtol_long8 :: "conv_block list" where
  "strtol_long8 =
    [(61, Strtol, ''9223372036854775808'', 0, 9223372036854775807, [Pos 62 19, Errno 63 34]),
     (64, Strtol, ''-9223372036854775809'', 0, - 9223372036854775808, [Pos 65 20, Errno 66 34]),
     (67, Strtoul, ''18446744073709551616'', 0, 18446744073709551615, [Pos 68 20, Errno 69 34]),
     (70, Strtoul, ''-1'', 0, 18446744073709551615, [Pos 71 2, Errno 72 0]),
     (73, Strtoul, ''-2'', 0, 18446744073709551614, [Pos 74 2, Errno 75 0]),
     (76, Strtoul, ''-9223372036854775808'', 0, 9223372036854775808, [Pos 77 20, Errno 78 0]),
     (79, Strtoul, ''-9223372036854775809'', 0, 9223372036854775807, [Pos 80 20, Errno 81 0]),
     (82, Strtoul, ''-18446744073709551616'', 0, 18446744073709551615, [Pos 83 21, Errno 84 34])]"

definition strtol_llong8 :: "conv_block list" where
  "strtol_llong8 =
    [(90, Strtoll, ''9223372036854775808'', 0, 9223372036854775807, [Pos 91 19, Errno 92 34]),
     (93, Strtoll, ''-9223372036854775809'', 0, - 9223372036854775808, [Pos 94 20, Errno 95 34]),
     (96, Strtoull, ''18446744073709551616'', 0, 18446744073709551615, [Pos 97 20, Errno 98 34]),
     (99, Strtoull, ''-1'', 0, 18446744073709551615, [Pos 100 2, Errno 101 0]),
     (102, Strtoull, ''-2'', 0, 18446744073709551614, [Pos 103 2, Errno 104 0]),
     (105, Strtoull, ''-9223372036854775808'', 0, 9223372036854775808, [Pos 106 20, Errno 107 0]),
     (108, Strtoull, ''-9223372036854775809'', 0, 9223372036854775807, [Pos 109 20, Errno 110 0]),
     (111, Strtoull, ''-18446744073709551616'', 0, 18446744073709551615, [Pos 112 21, Errno 113 34])]"

definition strtol_tail :: "conv_block list" where
  "strtol_tail =
    [(118, Strtol, ''z'', 36, 35, []),
     (119, Strtol, ''00010010001101000101011001111000'', 2, 305419896, []),
     (120, Strtol, ''0F5F'', 16, 3935, []),
     (122, Strtol, ''0xz'', 16, 0, [Pos 123 1]),
     (125, Strtol, ''0x1234'', 16, 4660, [Pos 126 6]),
     (129, Strtol, ''123'', 37, 0, [Pos 130 0, Errno 131 22]),
     (133, Strtol, ''  15437'', 8, 6943, [Pos 134 7]),
     (136, Strtol, ''  1'', 0, 1, [Pos 137 3])]"

definition wcstol_head :: "conv_block list" where
  "wcstol_head =
    [(24, Strtol, ''2147483647'', 0, 2147483647, []),
     (25, Strtoul, ''4294967295'', 0, 4294967295, [])]"

definition wcstol_long4 :: "conv_block list" where
  "wcstol_long4 =
    [(28, Strtol, ''2147483648'', 0, 2147483647, [Pos 29 10, Errno 30 34]),
     (31, Strtol, ''-2147483649'', 0, - 2147483648, [Pos 32 11, Errno 33 34]),
     (34, Strtoul, ''4294967296'', 0, 4294967295, [Pos 35 10, Errno 36 34]),
     (37, Strtoul, ''-1'', 0, 4294967295, [Pos 38 2, Errno 39 0]),
     (40, Strtoul, ''-2'', 0, 4294967294, [Pos 41 2, Errno 42 0]),
     (43, Strtoul, ''-2147483648'', 0, 2147483648, [Pos 44 11, Errno 45 0]),
     (46, Strtoul, ''-2147483649'', 0, 2147483647, [Pos 47 11, Errno 48 0])]"

definition wcstol_long8 :: "conv_block list" where
  "wcstol_long8 =
    [(50, Strtol, ''9223372036854775808'', 0, 9223372036854775807, [Pos 51 19, Errno 52 34]),
     (53, Strtol, ''-9223372036854775809'', 0, - 9223372036854775808, [Pos 54 20, Errno 55 34]),
     (56, Strtoul, ''18446744073709551616'', 0, 18446744073709551615, [Pos 57 20, Errno 58 34]),
     (59, Strtoul, ''-1'', 0, 18446744073709551615, [Pos 60 2, Errno 61 0]),
     (62, Strtoul, ''-2'', 0, 18446744073709551614, [Pos 63 2, Errno 64 0]),
     (65, Strtoul, ''-9223372036854775808'', 0, 9223372036854775808, [Pos 66 20, Errno 67 0]),
     (68, Strtoul, ''-9223372036854775809'', 0, 9223372036854775807, [Pos 69 20, Errno 70 0])]"

definition wcstol_tail :: "conv_block list" where
  "wcstol_tail =
    [(75, Strtol, ''z'', 36, 35, []),
     (76, Strtol, ''00010010001101000101011001111000'', 2, 305419896, []),
     (78, Strtol, ''0xz'', 16, 0, [Pos 79 1]),
     (81, Strtol, ''0x1234'', 16, 4660, [Pos 82 6]),
     (85, Strtol, ''123'', 37, 0, [Pos 86 0, Errno 87 22])]"

definition strtol_blocks :: "nat \<Rightarrow> nat \<Rightarrow> conv_block list" where
  "strtol_blocks sizeof_long sizeof_llong =
     strtol_head @
     (if sizeof_long = 4 then strtol_long4 else if sizeof_long = 8 then strtol_long8 else []) @
     (if sizeof_llong = 8 then strtol_llong8 else []) @
     strtol_tail"

definition strtol_main :: "nat \<Rightarrow> nat \<Rightarrow> (conv_fn \<Rightarrow> cstr \<Rightarrow> int \<Rightarrow> conv) \<Rightarrow> log" where
  "strtol_main sizeof_long sizeof_llong f =
     concat (map (conv_test f) strtol_head) @
     (if sizeof_long = 4 then concat (map (conv_test f) strtol_long4)
      else if sizeof_long = 8 then concat (map (conv_test f) strtol_long8)
      else [86]) @
     (if sizeof_llong = 8 then concat (map (conv_test f) strtol_llong8) else [115]) @
     concat (map (conv_test f) strtol_tail)"

text \<open>\<open>f fn s base\<close> is the call on the wide string of \<open>s\<close>.\<close>

definition wcstol_main :: "nat \<Rightarrow> (conv_fn \<Rightarrow> cstr \<Rightarrow> int \<Rightarrow> conv) \<Rightarrow> log" where
  "wcstol_main sizeof_long f =
     concat (map (conv_test f) wcstol_head) @
     (if sizeof_long = 4 then concat (map (conv_test f) wcstol_long4)
      else if sizeof_long = 8 then concat (map (conv_test f) wcstol_long8)
      else [72]) @
     concat (map (conv_test f) wcstol_tail)"

subsection \<open>The conversion of the C standard\<close>

definition digit_value :: "char \<Rightarrow> int" where
  "digit_value c =
     (let n = (of_char c :: int)
      in if 48 \<le> n \<and> n \<le> 57 then n - 48
         else if 97 \<le> n \<and> n \<le> 122 then n - 87
         else if 65 \<le> n \<and> n \<le> 90 then n - 55
         else 99)"

definition number_in :: "int \<Rightarrow> cstr \<Rightarrow> int" where
  "number_in b ds = foldl (\<lambda>n c. b * n + digit_value c) 0 ds"

text \<open>The subject sequence: the sign, the base, the digits, and the characters consumed.\<close>

definition hex_prefix :: "int \<Rightarrow> cstr \<Rightarrow> bool" where
  "hex_prefix base t \<longleftrightarrow>
     (base = 0 \<or> base = 16) \<and> 2 < length t \<and> t ! 0 = CHR ''0'' \<and>
     (t ! 1 = CHR ''x'' \<or> t ! 1 = CHR ''X'') \<and> digit_value (t ! 2) < 16"

definition strto_parse :: "cstr \<Rightarrow> int \<Rightarrow> bool \<times> int \<times> cstr \<times> nat" where
  "strto_parse s base =
     (let w = length (takeWhile is_space s);
          t = drop w s;
          sg = (if t \<noteq> [] \<and> (hd t = CHR ''-'' \<or> hd t = CHR ''+'') then 1 else 0);
          neg = (t \<noteq> [] \<and> hd t = CHR ''-'');
          t = drop sg t;
          hex = hex_prefix base t;
          b = (if hex then 16
               else if base = 0 then (if t \<noteq> [] \<and> hd t = CHR ''0'' then 8 else 10)
               else base);
          pre = (if hex then 2 else 0);
          ds = takeWhile (\<lambda>c. digit_value c < b) (drop pre t)
      in (neg, b, ds, w + sg + pre + length ds))"

definition strto_ref :: "bool \<Rightarrow> nat \<Rightarrow> cstr \<Rightarrow> int \<Rightarrow> conv" where
  "strto_ref sgd w s base =
     (if base \<noteq> 0 \<and> (base < 2 \<or> 36 < base) then \<lparr>val = 0, endp = Some 0, errno = 22\<rparr>
      else case strto_parse s base of (neg, b, ds, n) \<Rightarrow>
        if ds = [] then \<lparr>val = 0, endp = Some 0, errno = 0\<rparr>
        else
          (let m = number_in b ds; v = (if neg then - m else m)
           in if sgd then
                (if v < - (2 ^ (w - 1)) then \<lparr>val = - (2 ^ (w - 1)), endp = Some n, errno = 34\<rparr>
                 else if 2 ^ (w - 1) \<le> v then \<lparr>val = 2 ^ (w - 1) - 1, endp = Some n, errno = 34\<rparr>
                 else \<lparr>val = v, endp = Some n, errno = 0\<rparr>)
              else
                (if 2 ^ w \<le> m then \<lparr>val = 2 ^ w - 1, endp = Some n, errno = 34\<rparr>
                 else \<lparr>val = v mod 2 ^ w, endp = Some n, errno = 0\<rparr>)))"

definition conv_ref :: "nat \<Rightarrow> nat \<Rightarrow> conv_fn \<Rightarrow> cstr \<Rightarrow> int \<Rightarrow> conv" where
  "conv_ref sizeof_long sizeof_llong fn s base =
     (case fn of
        Atol \<Rightarrow> strto_ref True (8 * sizeof_long) s 10
      | Strtol \<Rightarrow> strto_ref True (8 * sizeof_long) s base
      | Strtoul \<Rightarrow> strto_ref False (8 * sizeof_long) s base
      | Strtoll \<Rightarrow> strto_ref True (8 * sizeof_llong) s base
      | Strtoull \<Rightarrow> strto_ref False (8 * sizeof_llong) s base)"

text \<open>Two outcomes agree in what the checks of a block look at.\<close>

fun after_agrees :: "conv \<Rightarrow> conv \<Rightarrow> after \<Rightarrow> bool" where
  "after_agrees r r' (Pos l n) = (endp r = endp r')"
| "after_agrees r r' (Errno l e) = (errno r = errno r')"

definition conv_agrees :: "(conv_fn \<Rightarrow> cstr \<Rightarrow> int \<Rightarrow> conv) \<Rightarrow> (conv_fn \<Rightarrow> cstr \<Rightarrow> int \<Rightarrow> conv) \<Rightarrow> conv_block \<Rightarrow> bool" where
  "conv_agrees f g b =
     (case b of (l, fn, s, base, x, es) \<Rightarrow>
        val (f fn s base) = val (g fn s base) \<and> list_all (after_agrees (f fn s base) (g fn s base)) es)"

lemma after_check_agrees:
  "after_check r' a = [] \<Longrightarrow> after_check r a = [] \<longleftrightarrow> after_agrees r r' a"
  by (cases a) auto

lemma conv_test_agrees:
  assumes "conv_test g b = []"
  shows "conv_test f b = [] \<longleftrightarrow> conv_agrees f g b"
proof -
  obtain l fn s base x es where b: "b = (l, fn, s, base, x, es)" by (cases b) auto
  have "list_all (\<lambda>a. after_check (g fn s base) a = []) es"
    using assms by (simp add: b conv_test_def Let_def list_all_iff)
  then have "list_all (\<lambda>a. after_check (f fn s base) a = [] \<longleftrightarrow> after_agrees (f fn s base) (g fn s base) a) es"
    by (rule list_all_mono_imp) (rule after_check_agrees)
  from list_all_iff_cong [OF this] have "list_all (\<lambda>a. after_check (f fn s base) a = []) es \<longleftrightarrow>
      list_all (after_agrees (f fn s base) (g fn s base)) es" .
  moreover have "val (g fn s base) = x"
    using assms by (simp add: b conv_test_def Let_def)
  moreover have "conv_test f b = [] \<longleftrightarrow>
      val (f fn s base) = x \<and> list_all (\<lambda>a. after_check (f fn s base) a = []) es"
    by (simp add: b conv_test_def Let_def list_all_iff)
  ultimately show ?thesis by (simp add: b conv_agrees_def)
qed

lemma strtol_ref_passes:
  "list_all (\<lambda>b. conv_test (conv_ref 8 8) b = []) strtol_head"
  "list_all (\<lambda>b. conv_test (conv_ref 8 8) b = []) strtol_long8"
  "list_all (\<lambda>b. conv_test (conv_ref 8 8) b = []) strtol_llong8"
  "list_all (\<lambda>b. conv_test (conv_ref 8 8) b = []) strtol_tail"
  "list_all (\<lambda>b. conv_test (conv_ref 4 8) b = []) strtol_head"
  "list_all (\<lambda>b. conv_test (conv_ref 4 8) b = []) strtol_long4"
  "list_all (\<lambda>b. conv_test (conv_ref 4 8) b = []) strtol_llong8"
  "list_all (\<lambda>b. conv_test (conv_ref 4 8) b = []) strtol_tail"
  by code_simp+

lemma wcstol_ref_passes:
  "list_all (\<lambda>b. conv_test (conv_ref 8 8) b = []) wcstol_head"
  "list_all (\<lambda>b. conv_test (conv_ref 8 8) b = []) wcstol_long8"
  "list_all (\<lambda>b. conv_test (conv_ref 8 8) b = []) wcstol_tail"
  "list_all (\<lambda>b. conv_test (conv_ref 4 8) b = []) wcstol_head"
  "list_all (\<lambda>b. conv_test (conv_ref 4 8) b = []) wcstol_long4"
  "list_all (\<lambda>b. conv_test (conv_ref 4 8) b = []) wcstol_tail"
  by code_simp+

lemma conv_tests_agree:
  assumes "list_all (\<lambda>b. conv_test g b = []) bs"
  shows "concat (map (conv_test f) bs) = [] \<longleftrightarrow> list_all (conv_agrees f g) bs"
proof -
  have "list_all (\<lambda>b. conv_test f b = [] \<longleftrightarrow> conv_agrees f g b) bs"
    using assms by (rule list_all_mono_imp) (rule conv_test_agrees)
  from list_all_iff_cong [OF this] show ?thesis by (simp only: concat_map_Nil)
qed

text \<open>The tests of \<open>strtol\<close> and its relatives judge an implementation right exactly when, on
  every call they make, it agrees with the conversion of the C standard in what they check: the
  value always (saturated on overflow, negated modulo the width for the unsigned ones), the end
  position and \<open>errno\<close> where a check of them follows, for \<open>long\<close> of 8 and of 4 bytes.\<close>

lemma strtol_verdict:
  "(t_status (strtol_main 8 8 f) = 0 \<longleftrightarrow> list_all (conv_agrees f (conv_ref 8 8)) (strtol_blocks 8 8))
 \<and> (t_status (strtol_main 4 8 f) = 0 \<longleftrightarrow> list_all (conv_agrees f (conv_ref 4 8)) (strtol_blocks 4 8))
 \<and> (t_status (wcstol_main 8 f) = 0 \<longleftrightarrow>
      list_all (conv_agrees f (conv_ref 8 8)) (wcstol_head @ wcstol_long8 @ wcstol_tail))
 \<and> (t_status (wcstol_main 4 f) = 0 \<longleftrightarrow>
      list_all (conv_agrees f (conv_ref 4 8)) (wcstol_head @ wcstol_long4 @ wcstol_tail))"
proof (intro conjI)
  show "t_status (strtol_main 8 8 f) = 0 \<longleftrightarrow> list_all (conv_agrees f (conv_ref 8 8)) (strtol_blocks 8 8)"
    by (simp add: strtol_main_def strtol_blocks_def strtol_ref_passes(1-4) [THEN conv_tests_agree]
        del: concat_eq_Nil_conv)
  show "t_status (strtol_main 4 8 f) = 0 \<longleftrightarrow> list_all (conv_agrees f (conv_ref 4 8)) (strtol_blocks 4 8)"
    by (simp add: strtol_main_def strtol_blocks_def strtol_ref_passes(5-8) [THEN conv_tests_agree]
        del: concat_eq_Nil_conv)
  show "t_status (wcstol_main 8 f) = 0 \<longleftrightarrow>
      list_all (conv_agrees f (conv_ref 8 8)) (wcstol_head @ wcstol_long8 @ wcstol_tail)"
    by (simp add: wcstol_main_def wcstol_ref_passes(1-3) [THEN conv_tests_agree] del: concat_eq_Nil_conv)
  show "t_status (wcstol_main 4 f) = 0 \<longleftrightarrow>
      list_all (conv_agrees f (conv_ref 4 8)) (wcstol_head @ wcstol_long4 @ wcstol_tail)"
    by (simp add: wcstol_main_def wcstol_ref_passes(4-6) [THEN conv_tests_agree] del: concat_eq_Nil_conv)
qed

subsection \<open>Printing and reading back\<close>

lemma of_char_of_small: "k < 256 \<Longrightarrow> (of_char (char_of (k :: nat)) :: int) = int k"
proof -
  assume k: "k < 256"
  have "(of_char (char_of k) :: int) = int (of_char (char_of k))" by (rule of_nat_of_char [symmetric])
  also have "\<dots> = int (k mod 256)" by (simp only: of_char_of)
  finally show ?thesis using k by simp
qed

lemma digit_value_digit: "k < 10 \<Longrightarrow> digit_value (char_of (48 + k)) = int k"
  by (simp add: digit_value_def of_char_of_small Let_def)

lemma dec_digits_decimal:
  "dec_digits n \<noteq> [] \<and> number_in 10 (dec_digits n) = int n \<and>
   (\<forall>c \<in> set (dec_digits n). 0 \<le> digit_value c \<and> digit_value c < 10)"
proof (induction n rule: dec_digits.induct)
  case (1 n)
  show ?case
  proof (cases "n < 10")
    case True
    then show ?thesis
      by (subst (1 2 3) dec_digits.simps) (simp add: number_in_def digit_value_digit)
  next
    case False
    then have IH: "dec_digits (n div 10) \<noteq> []" "number_in 10 (dec_digits (n div 10)) = int (n div 10)"
      "\<forall>c \<in> set (dec_digits (n div 10)). 0 \<le> digit_value c \<and> digit_value c < 10"
      using 1 by auto
    have d: "digit_value (char_of (48 + n mod 10)) = int (n mod 10)" by (rule digit_value_digit) simp
    have e: "dec_digits n = dec_digits (n div 10) @ [char_of (48 + n mod 10)]"
      using False by (subst dec_digits.simps) simp
    have "number_in 10 (dec_digits n) = 10 * int (n div 10) + int (n mod 10)"
      using IH(2) d by (simp add: e number_in_def)
    also have "\<dots> = int n" by (simp add: of_nat_div of_nat_mod)
    finally show ?thesis using IH(3) d by (simp add: e)
  qed
qed

lemma digit_value_space:
  assumes "0 \<le> digit_value c" and "digit_value c < 10"
  shows "\<not> is_space c" "c \<noteq> CHR ''-''" "c \<noteq> CHR ''+''"
proof -
  let ?n = "of_char c :: nat"
  have int: "(of_char c :: int) = int ?n" by (rule of_nat_of_char [symmetric])
  have n: "48 \<le> ?n" "?n \<le> 57"
    using assms unfolding digit_value_def Let_def int by (auto split: if_splits)
  show "\<not> is_space c" using n by (auto simp: is_space_def)
  show "c \<noteq> CHR ''-''" "c \<noteq> CHR ''+''" using n by auto
qed

lemma takeWhile_not_hd: "xs = [] \<or> \<not> P (hd xs) \<Longrightarrow> takeWhile P xs = []"
  by (cases xs) auto

lemma strto_parse_digits:
  assumes "ds \<noteq> []" and "\<forall>c \<in> set ds. 0 \<le> digit_value c \<and> digit_value c < 10"
  shows "strto_parse ds 10 = (False, 10, ds, length ds)"
    and "strto_parse (CHR ''-'' # ds) 10 = (True, 10, ds, Suc (length ds))"
proof -
  have hd: "\<not> is_space (hd ds)" "hd ds \<noteq> CHR ''-''" "hd ds \<noteq> CHR ''+''"
    using assms digit_value_space [of "hd ds"] by simp_all
  have tw: "takeWhile (\<lambda>c. digit_value c < 10) ds = ds"
    using assms(2) by (simp add: takeWhile_eq_all_conv)
  have sp: "takeWhile is_space ds = []" using hd by (simp add: takeWhile_not_hd)
  have nsp: "\<not> is_space (CHR ''-'')" by (simp add: is_space_def)
  show "strto_parse ds 10 = (False, 10, ds, length ds)"
    unfolding strto_parse_def Let_def sp using assms(1) hd by (simp add: hex_prefix_def tw)
  show "strto_parse (CHR ''-'' # ds) 10 = (True, 10, ds, Suc (length ds))"
    unfolding strto_parse_def Let_def by (simp add: nsp hex_prefix_def tw)
qed

lemma strto_parse_dec:
  "strto_parse (dec_int n) 10 = (n < 0, 10, dec_digits (nat \<bar>n\<bar>), length (dec_int n))"
proof (cases "n < 0")
  case True
  then show ?thesis
    using strto_parse_digits(2) [of "dec_digits (nat (- n))"] dec_digits_decimal [of "nat (- n)"]
    by (simp add: dec_int_def)
next
  case False
  then show ?thesis
    using strto_parse_digits(1) [of "dec_digits (nat n)"] dec_digits_decimal [of "nat n"]
    by (simp add: dec_int_def)
qed

text \<open>The conversion reads back what \<open>%ld\<close> prints: on the decimal representation of a number in
  the range of the type it returns that number, consumes the whole text and leaves \<open>errno\<close> at 0;
  beyond the range it saturates at the nearer end and sets \<open>ERANGE\<close>.\<close>

lemma strto_ref_roundtrip:
  "strto_ref True w (dec_int n) 10 =
     (if n < - (2 ^ (w - 1)) then \<lparr>val = - (2 ^ (w - 1)), endp = Some (length (dec_int n)), errno = 34\<rparr>
      else if 2 ^ (w - 1) \<le> n then \<lparr>val = 2 ^ (w - 1) - 1, endp = Some (length (dec_int n)), errno = 34\<rparr>
      else \<lparr>val = n, endp = Some (length (dec_int n)), errno = 0\<rparr>)"
proof -
  have "dec_digits (nat \<bar>n\<bar>) \<noteq> []" "number_in 10 (dec_digits (nat \<bar>n\<bar>)) = \<bar>n\<bar>"
    using dec_digits_decimal [of "nat \<bar>n\<bar>"] by simp_all
  then show ?thesis by (simp add: strto_ref_def strto_parse_dec Let_def)
qed

text \<open>C24: the division test judges a pair of functions right exactly when, on each of its 123 pairs, they give the
  quotient and the remainder of the unsigned 64-bit numbers in the sense of Euclid's equations.  The tests of \<open>strtol\<close>
  and its relatives judge an implementation right exactly when, on every call they make, it agrees with the conversion
  of the C standard in what they check: the value always (saturated on overflow, negated modulo the width for the
  unsigned ones), the end position and \<open>errno\<close> where a check of them follows, for \<open>long\<close> of 8 and of 4 bytes.  That
  conversion reads back what \<open>%ld\<close> prints, consumes the whole text and saturates with \<open>ERANGE\<close> beyond the range.\<close>

theorem number_tests_verdict:
  "(t_status (udiv_main q r) = 0 \<longleftrightarrow> list_all (\<lambda>(x, y, d, m). divides_into x y (q x y) (r x y)) udiv_t)
 \<and> (t_status (strtol_main 8 8 f) = 0 \<longleftrightarrow> list_all (conv_agrees f (conv_ref 8 8)) (strtol_blocks 8 8))
 \<and> (t_status (strtol_main 4 8 f) = 0 \<longleftrightarrow> list_all (conv_agrees f (conv_ref 4 8)) (strtol_blocks 4 8))
 \<and> (t_status (wcstol_main 8 f) = 0 \<longleftrightarrow>
      list_all (conv_agrees f (conv_ref 8 8)) (wcstol_head @ wcstol_long8 @ wcstol_tail))
 \<and> (t_status (wcstol_main 4 f) = 0 \<longleftrightarrow>
      list_all (conv_agrees f (conv_ref 4 8)) (wcstol_head @ wcstol_long4 @ wcstol_tail))
 \<and> strto_ref True w (dec_int n) 10 =
     (if n < - (2 ^ (w - 1)) then \<lparr>val = - (2 ^ (w - 1)), endp = Some (length (dec_int n)), errno = 34\<rparr>
      else if 2 ^ (w - 1) \<le> n then \<lparr>val = 2 ^ (w - 1) - 1, endp = Some (length (dec_int n)), errno = 34\<rparr>
      else \<lparr>val = n, endp = Some (length (dec_int n)), errno = 0\<rparr>)"
  using udiv_verdict [of q r] strtol_verdict [of f] strto_ref_roundtrip by blast

end
