(* ===== verification/QsortTest.thy ===== *)
theory QsortTest
  imports Rand CString TestLog
begin

text \<open>
  qsort.c of libc/src/functional: four sorts with four comparison functions, the last one over
  arrays that the harness's generator builds and shuffles.  \<open>qsort\<close> is an argument, once for each
  type of element it is used at; an array is the list of its elements.
\<close>

type_synonym 'a qsort_fn = "('a \<Rightarrow> 'a \<Rightarrow> int) \<Rightarrow> 'a list \<Rightarrow> 'a list"

definition scmp :: "cstr \<Rightarrow> cstr \<Rightarrow> int" where
  "scmp a b = strcmp a b"

definition icmp :: "int \<Rightarrow> int \<Rightarrow> int" where
  "icmp a b = c_int (a - b)"

definition ccmp :: "char \<Rightarrow> char \<Rightarrow> int" where
  "ccmp a b = of_char a - of_char b"

definition cmp64 :: "u64 \<Rightarrow> u64 \<Rightarrow> int" where
  "cmp64 ua ub = (if ua < ub then -1 else if ua \<noteq> ub then 1 else 0)"

definition qsort_s :: "cstr list" where
  "qsort_s =
    [''Bob'', ''Alice'', ''John'', ''Ceres'',
     ''Helga'', ''Drepper'', ''Emeralda'', ''Zoran'',
     ''Momo'', ''Frank'', ''Pema'', ''Xavier'',
     ''Yeva'', ''Gedun'', ''Irina'', ''Nono'',
     ''Wiener'', ''Vincent'', ''Tsering'', ''Karnica'',
     ''Lulu'', ''Quincy'', ''Osama'', ''Riley'',
     ''Ursula'', ''Sam'']"

definition qsort_s_sorted :: "cstr list" where
  "qsort_s_sorted =
    [''Alice'', ''Bob'', ''Ceres'', ''Drepper'',
     ''Emeralda'', ''Frank'', ''Gedun'', ''Helga'',
     ''Irina'', ''John'', ''Karnica'', ''Lulu'',
     ''Momo'', ''Nono'', ''Osama'', ''Pema'',
     ''Quincy'', ''Riley'', ''Sam'', ''Tsering'',
     ''Ursula'', ''Vincent'', ''Wiener'', ''Xavier'',
     ''Yeva'', ''Zoran'']"

definition qsort_n :: "int list" where
  "qsort_n =
    [879045, 394, 99405644, 33434, 232323, 4334, 5454,
     343, 45545, 454, 324, 22, 34344, 233, 45345, 343,
     848405, 3434, 3434344, 3535, 93994, 2230404, 4334]"

definition qsort_n_sorted :: "int list" where
  "qsort_n_sorted =
    [22, 233, 324, 343, 343, 394, 454, 3434,
     3535, 4334, 4334, 5454, 33434, 34344, 45345, 45545,
     93994, 232323, 848405, 879045, 2230404, 3434344, 99405644]"

definition str_test :: "cstr qsort_fn \<Rightarrow> cstr list \<Rightarrow> cstr list \<Rightarrow> log" where
  "str_test qsort a a_sorted =
     (let a = qsort scmp a
      in check 66 (list_all (\<lambda>i. strcmp (a ! i) (a_sorted ! i) = 0) [0..<length a_sorted]))"

definition int_test :: "int qsort_fn \<Rightarrow> int list \<Rightarrow> int list \<Rightarrow> log" where
  "int_test qsort a a_sorted =
     (let a = qsort icmp a
      in check 81 (list_all (\<lambda>i. a ! i = a_sorted ! i) [0..<length a_sorted]))"

fun gen_sums :: "nat \<Rightarrow> u64 \<Rightarrow> u64 \<Rightarrow> (u64 list \<times> u64) option" where
  "gen_sums 0 r s = Some ([], s)"
| "gen_sums (Suc n) r s =
     (case t_randn 20 s of
        None \<Rightarrow> None
      | Some (x, s') \<Rightarrow>
          (case gen_sums n (r + x) s' of
             None \<Rightarrow> None
           | Some (ps, s'') \<Rightarrow> Some ((r + x) # ps, s'')))"

text \<open>The arrays \<open>p\<close> and \<open>p_sorted\<close>; the generator starts from the seed \<open>n\<close>.\<close>

definition uint64_gen :: "nat \<Rightarrow> (u64 list \<times> u64 list) option" where
  "uint64_gen n =
     (let s = t_randseed (of_nat n)
      in case gen_sums n 0 s of
           None \<Rightarrow> None
         | Some (p, s') \<Rightarrow>
             (let p_sorted = p
              in case t_shuffle p n s' of
                   None \<Rightarrow> None
                 | Some (p', s'') \<Rightarrow> Some (p', p_sorted)))"

definition uint64_test :: "u64 qsort_fn \<Rightarrow> u64 list \<Rightarrow> u64 list \<Rightarrow> log" where
  "uint64_test qsort a a_sorted =
     (let a = qsort cmp64 a
      in check 109 (list_all (\<lambda>i. a ! i = a_sorted ! i) [0..<length a_sorted]))"

definition char_T :: "char qsort_fn \<Rightarrow> nat \<Rightarrow> cstr \<Rightarrow> cstr \<Rightarrow> log" where
  "char_T qsort l a a_sorted = (let p = qsort ccmp a in check l (p = a_sorted))"

definition char_uses :: "(nat \<times> cstr \<times> cstr) list" where
  "char_uses =
    [(130, '''', ''''),
     (131, ''1'', ''1''),
     (132, ''11'', ''11''),
     (133, ''12'', ''12''),
     (134, ''21'', ''12''),
     (135, ''111'', ''111''),
     (136, ''211'', ''112''),
     (137, ''121'', ''112''),
     (138, ''112'', ''112''),
     (139, ''221'', ''122''),
     (140, ''212'', ''122''),
     (141, ''122'', ''122''),
     (142, ''123'', ''123''),
     (143, ''132'', ''123''),
     (144, ''213'', ''123''),
     (145, ''231'', ''123''),
     (146, ''321'', ''123''),
     (147, ''312'', ''123''),
     (148, ''1423'', ''1234''),
     (149, ''51342'', ''12345''),
     (150, ''261435'', ''123456''),
     (151, ''4517263'', ''1234567''),
     (152, ''37245618'', ''12345678''),
     (153, ''812436597'', ''123456789''),
     (154, ''987654321'', ''123456789''),
     (155, ''321321321'', ''111222333''),
     (156, ''49735862185236174'', ''11223344556677889'')]"

definition char_test :: "char qsort_fn \<Rightarrow> log" where
  "char_test qsort = concat (map (\<lambda>(l, a, b). char_T qsort l a b) char_uses)"

fun uint64_tests :: "u64 qsort_fn \<Rightarrow> nat list \<Rightarrow> log option" where
  "uint64_tests qsort [] = Some []"
| "uint64_tests qsort (i # is) =
     (case uint64_gen i of
        None \<Rightarrow> None
      | Some (p, p_sorted) \<Rightarrow>
          map_option (\<lambda>ls. uint64_test qsort p p_sorted @ ls) (uint64_tests qsort is))"

text \<open>\<open>None\<close> when the generator does not return.\<close>

definition qsort_main :: "cstr qsort_fn \<Rightarrow> int qsort_fn \<Rightarrow> char qsort_fn \<Rightarrow> u64 qsort_fn \<Rightarrow> log option" where
  "qsort_main qs qi qc qu =
     map_option (\<lambda>ls. str_test qs qsort_s qsort_s_sorted @ int_test qi qsort_n qsort_n_sorted @ char_test qc @ ls)
       (uint64_tests qu [1023, 1024, 1025, 1026])"

subsection \<open>What sorting promises\<close>

definition cmp_ok :: "('a \<Rightarrow> 'a \<Rightarrow> int) \<Rightarrow> 'a set \<Rightarrow> bool" where
  "cmp_ok cmp A \<longleftrightarrow>
     (\<forall>x \<in> A. \<forall>y \<in> A. cmp x y = 0 \<longleftrightarrow> x = y) \<and>
     (\<forall>x \<in> A. \<forall>y \<in> A. cmp x y < 0 \<longleftrightarrow> 0 < cmp y x) \<and>
     (\<forall>x \<in> A. \<forall>y \<in> A. \<forall>z \<in> A. cmp x y \<le> 0 \<and> cmp y z \<le> 0 \<longrightarrow> cmp x z \<le> 0)"

locale qsort_contract =
  fixes qsort :: "('a \<Rightarrow> 'a \<Rightarrow> int) \<Rightarrow> 'a list \<Rightarrow> 'a list"
  assumes qsort_permutes: "cmp_ok cmp (set xs) \<Longrightarrow> mset (qsort cmp xs) = mset xs"
    and qsort_sorts: "cmp_ok cmp (set xs) \<Longrightarrow> sorted_wrt (\<lambda>x y. cmp x y \<le> 0) (qsort cmp xs)"
begin

lemma qsort_is_sorted_table:
  assumes "cmp_ok cmp (set xs)" and "mset ys = mset xs" and "sorted_wrt (\<lambda>x y. cmp x y \<le> 0) ys"
  shows "qsort cmp xs = ys"
proof (rule sorted_wrt_unique [where R = "\<lambda>x y. cmp x y \<le> 0"])
  show "mset (qsort cmp xs) = mset ys" using qsort_permutes [OF assms(1)] assms(2) by simp
  then have "set (qsort cmp xs) = set xs" using assms(2) by (metis set_mset_mset)
  then show "\<forall>x \<in> set (qsort cmp xs). \<forall>y \<in> set (qsort cmp xs). cmp x y \<le> 0 \<and> cmp y x \<le> 0 \<longrightarrow> x = y"
    using assms(1) unfolding cmp_ok_def by (metis less_le_not_le not_less order.order_iff_strict)
qed (use qsort_sorts [OF assms(1)] assms(3) in auto)

end

subsection \<open>The four comparison functions order their elements\<close>

lemma cmp_ok_scmp:
  assumes "\<forall>s \<in> A. NUL \<notin> set s"
  shows "cmp_ok scmp A"
  unfolding cmp_ok_def scmp_def
proof (intro conjI ballI impI)
  fix x y assume "x \<in> A" "y \<in> A"
  then show "strcmp x y = 0 \<longleftrightarrow> x = y" using assms by (simp add: strcmp_0_iff)
  show "strcmp x y < 0 \<longleftrightarrow> 0 < strcmp y x" using strcmp_flip [of x y] by simp
next
  fix x y z assume "x \<in> A" "y \<in> A" "z \<in> A" "strcmp x y \<le> 0 \<and> strcmp y z \<le> 0"
  then show "strcmp x z \<le> 0" using assms strcmp_trans [of x y z] by simp
qed

lemma icmp_diff: "0 \<le> x \<Longrightarrow> x < 2 ^ 31 \<Longrightarrow> 0 \<le> y \<Longrightarrow> y < 2 ^ 31 \<Longrightarrow> icmp x y = x - y"
  unfolding icmp_def by (rule c_int_id) simp_all

lemma cmp_ok_icmp:
  assumes "\<forall>x \<in> A. 0 \<le> x \<and> x < 2 ^ 31"
  shows "cmp_ok icmp A"
proof -
  have "icmp x y = x - y" if "x \<in> A" "y \<in> A" for x y
    using that assms by (intro icmp_diff) auto
  then show ?thesis unfolding cmp_ok_def by simp
qed

lemma cmp_ok_ccmp: "cmp_ok ccmp A"
  unfolding cmp_ok_def ccmp_def by auto

lemma cmp_ok_cmp64: "cmp_ok cmp64 A"
  unfolding cmp_ok_def cmp64_def by (auto split: if_splits)

subsection \<open>The generator\<close>

lemma gen_sums_returns:
  assumes "unat r + 20 * n < 2 ^ 64"
  shows "\<exists>ps s'. gen_sums n r s = Some (ps, s') \<and> length ps = n \<and>
    sorted_wrt (\<lambda>x y. unat x \<le> unat y) (r # ps)"
  using assms
proof (induction n arbitrary: r s)
  case 0
  then show ?case by simp
next
  case (Suc n)
  obtain x s1 where x: "t_randn 20 s = Some (x, s1)" "unat x < 20"
    using t_randn_nat [of 20 s] by auto
  have rx: "unat (r + x) = unat r + unat x"
    using Suc.prems x(2) unfolding mult_Suc_right by (intro unat_plus_nat_64) linarith
  then have "unat (r + x) + 20 * n < 2 ^ 64" using Suc.prems x(2) unfolding mult_Suc_right by linarith
  from Suc.IH [OF this, of s1] obtain ps s2 where
    "gen_sums n (r + x) s1 = Some (ps, s2)" "length ps = n" "sorted_wrt (\<lambda>x y. unat x \<le> unat y) ((r + x) # ps)"
    by blast
  then show ?case using x(1) rx by force
qed

lemma uint64_gen_returns:
  assumes "0 < n" and "n < 2 ^ 32"
  shows "\<exists>p p_sorted. uint64_gen n = Some (p, p_sorted) \<and> mset p = mset p_sorted \<and> length p_sorted = n \<and>
    sorted_wrt (\<lambda>x y. cmp64 x y \<le> 0) p_sorted"
proof -
  have "unat (0::u64) + 20 * n < 2 ^ 64" using assms(2) by simp
  from gen_sums_returns [OF this, of "t_randseed (of_nat n)"] obtain ps s' where
    ps: "gen_sums n 0 (t_randseed (of_nat n)) = Some (ps, s')" "length ps = n"
      "sorted_wrt (\<lambda>x y. unat x \<le> unat y) ps"
    by auto
  obtain p' s'' where "t_shuffle ps n s' = Some (p', s'')" "mset p' = mset ps"
    using t_shuffle_permutes [of n ps s'] ps(2) assms(2) by auto
  moreover have "sorted_wrt (\<lambda>x y. cmp64 x y \<le> 0) ps"
    using ps(3) by (rule sorted_wrt_mono_rel [rotated]) (auto simp: cmp64_def word_less_nat_alt word_unat_eq_iff)
  ultimately show ?thesis using ps by (simp add: uint64_gen_def Let_def)
qed

subsection \<open>Every conforming sort passes\<close>

fun insert_by :: "('a \<Rightarrow> 'a \<Rightarrow> int) \<Rightarrow> 'a \<Rightarrow> 'a list \<Rightarrow> 'a list" where
  "insert_by cmp x [] = [x]"
| "insert_by cmp x (y # ys) = (if cmp x y \<le> 0 then x # y # ys else y # insert_by cmp x ys)"

definition qsort_ref :: "('a \<Rightarrow> 'a \<Rightarrow> int) \<Rightarrow> 'a list \<Rightarrow> 'a list" where
  "qsort_ref cmp xs = foldr (insert_by cmp) xs []"

lemma mset_insert_by [simp]: "mset (insert_by cmp x xs) = add_mset x (mset xs)"
  by (induction xs) auto

lemma set_insert_by [simp]: "set (insert_by cmp x xs) = {x} \<union> set xs"
  by (induction xs) auto

lemma cmp_ok_trans:
  "cmp_ok cmp A \<Longrightarrow> x \<in> A \<Longrightarrow> y \<in> A \<Longrightarrow> z \<in> A \<Longrightarrow> cmp x y \<le> 0 \<Longrightarrow> cmp y z \<le> 0 \<Longrightarrow> cmp x z \<le> 0"
  unfolding cmp_ok_def by blast

lemma cmp_ok_linear:
  assumes "cmp_ok cmp A" and "x \<in> A" and "y \<in> A"
  shows "cmp x y \<le> 0 \<or> cmp y x \<le> 0"
proof -
  have "cmp x y < 0 \<longleftrightarrow> 0 < cmp y x" using assms unfolding cmp_ok_def by blast
  then show ?thesis by linarith
qed

lemma sorted_insert_by:
  assumes "cmp_ok cmp A" and "x \<in> A" and "set xs \<subseteq> A" and "sorted_wrt (\<lambda>x y. cmp x y \<le> 0) xs"
  shows "sorted_wrt (\<lambda>x y. cmp x y \<le> 0) (insert_by cmp x xs)"
  using assms(3,4)
proof (induction xs)
  case Nil
  then show ?case by simp
next
  case (Cons y ys)
  show ?case
  proof (cases "cmp x y \<le> 0")
    case True
    have "cmp x z \<le> 0" if "z \<in> set ys" for z
      using assms(1,2) Cons.prems True that cmp_ok_trans [of cmp A x y z] by auto
    then show ?thesis using True Cons.prems by auto
  next
    case False
    then have "cmp y x \<le> 0"
      using assms(1,2) Cons.prems(1) cmp_ok_linear [of cmp A x y] by auto
    then show ?thesis using False Cons by auto
  qed
qed

lemma mset_qsort_ref [simp]: "mset (qsort_ref cmp xs) = mset xs"
  unfolding qsort_ref_def by (induction xs) auto

lemma sorted_qsort_ref: "cmp_ok cmp A \<Longrightarrow> set xs \<subseteq> A \<Longrightarrow> sorted_wrt (\<lambda>x y. cmp x y \<le> 0) (qsort_ref cmp xs)"
proof (induction xs)
  case Nil
  then show ?case by (simp add: qsort_ref_def)
next
  case (Cons x xs)
  have "set (qsort_ref cmp xs) = set xs" by (metis mset_qsort_ref set_mset_mset)
  then show ?case using Cons sorted_insert_by [of cmp A x "qsort_ref cmp xs"] by (simp add: qsort_ref_def)
qed

interpretation qref: qsort_contract qsort_ref
  by unfold_locales (auto intro: sorted_qsort_ref)

lemma str_test_passes:
  assumes "qsort_contract qs"
  shows "str_test qs qsort_s qsort_s_sorted = []"
proof -
  have "\<forall>s \<in> set qsort_s. NUL \<notin> set s" by (simp add: qsort_s_def NUL_def)
  moreover have "mset qsort_s_sorted = mset qsort_s" by (simp add: qsort_s_def qsort_s_sorted_def)
  moreover have "sorted_wrt (\<lambda>x y. scmp x y \<le> 0) qsort_s_sorted" by code_simp
  ultimately have "qs scmp qsort_s = qsort_s_sorted"
    by (intro qsort_contract.qsort_is_sorted_table [OF assms] cmp_ok_scmp)
  then show ?thesis by (simp add: str_test_def list_all_iff Let_def)
qed

lemma int_test_passes:
  assumes "qsort_contract qi"
  shows "int_test qi qsort_n qsort_n_sorted = []"
proof -
  have "\<forall>x \<in> set qsort_n. 0 \<le> x \<and> x < 2 ^ 31" by (simp add: qsort_n_def)
  moreover have "mset qsort_n_sorted = mset qsort_n" by (simp add: qsort_n_def qsort_n_sorted_def)
  moreover have "sorted_wrt (\<lambda>x y. icmp x y \<le> 0) qsort_n_sorted" by code_simp
  ultimately have "qi icmp qsort_n = qsort_n_sorted"
    by (intro qsort_contract.qsort_is_sorted_table [OF assms] cmp_ok_icmp)
  then show ?thesis by (simp add: int_test_def list_all_iff Let_def)
qed

lemma char_test_passes:
  assumes "qsort_contract qc"
  shows "char_test qc = []"
proof -
  have "list_all (\<lambda>(l, a, b). mset b = mset a \<and> sorted_wrt (\<lambda>x y. ccmp x y \<le> 0) b) char_uses"
    by code_simp
  then show ?thesis
    unfolding char_test_def concat_map_Nil
    by (rule list_all_mono_imp)
      (auto simp: char_T_def Let_def intro!: qsort_contract.qsort_is_sorted_table [OF assms] cmp_ok_ccmp)
qed

lemma uint64_tests_pass:
  assumes "qsort_contract qu" and "\<forall>n \<in> set ns. 0 < n \<and> n < 2 ^ 32"
  shows "uint64_tests qu ns = Some []"
  using assms(2)
proof (induction ns)
  case Nil
  then show ?case by simp
next
  case (Cons n ns)
  obtain p p_sorted where g: "uint64_gen n = Some (p, p_sorted)" "mset p = mset p_sorted"
    "sorted_wrt (\<lambda>x y. cmp64 x y \<le> 0) p_sorted"
    using uint64_gen_returns [of n] Cons.prems by auto
  then have "qu cmp64 p = p_sorted"
    by (intro qsort_contract.qsort_is_sorted_table [OF assms(1)] cmp_ok_cmp64) simp_all
  then show ?case using g(1) Cons by (simp add: uint64_test_def Let_def list_all_iff)
qed

text \<open>The test of \<open>qsort\<close> terminates and reports nothing for every implementation that
  permutes the array and leaves it in nondecreasing order of the comparison function: the names, the
  numbers, the 27 digit strings and the four arrays of 1023 to 1026 shuffled numbers that the
  harness's generator makes.  The comparison functions are total orders on what the test sorts,
  \<open>icmp\<close> because the differences of its numbers fit in an \<open>int\<close>.\<close>

lemma qsort_test_passes:
  assumes "qsort_contract qs" and "qsort_contract qi" and "qsort_contract qc" and "qsort_contract qu"
  shows "qsort_main qs qi qc qu = Some []"
  unfolding qsort_main_def
  using str_test_passes [OF assms(1)] int_test_passes [OF assms(2)] char_test_passes [OF assms(3)]
    uint64_tests_pass [OF assms(4), of "[1023, 1024, 1025, 1026]"]
  by (simp del: uint64_tests.simps)

end
