(* ===== verification/FnmatchTest.thy ===== *)
theory FnmatchTest
  imports CString TestLog
begin

text \<open>
  fnmatch.c of libc/src/functional: its table of patterns, the names it prints for the flags, and the
  loop over the table, with \<open>fnmatch\<close> an argument.  The reference matcher follows the pattern matching
  notation of POSIX: a pattern is read into a list of items, and the items are matched from the left.
\<close>

subsection \<open>The test\<close>

definition FNM_PATHNAME :: u32 where "FNM_PATHNAME = 1"
definition FNM_NOESCAPE :: u32 where "FNM_NOESCAPE = 2"
definition FNM_PERIOD :: u32 where "FNM_PERIOD = 4"
definition FNM_CASEFOLD :: u32 where "FNM_CASEFOLD = 16"
definition FNM_NOMATCH :: int where "FNM_NOMATCH = 1"

lemmas fnm_flags = FNM_PATHNAME_def FNM_NOESCAPE_def FNM_PERIOD_def FNM_CASEFOLD_def

text \<open>The table of flag names ends at the entry with a null name.\<close>

definition fnmatch_flags :: "(u32 \<times> cstr option) list" where
  "fnmatch_flags =
    [(FNM_NOESCAPE, Some ''FNM_NOESCAPE''),
     (FNM_PATHNAME, Some ''FNM_PATHNAME''),
     (FNM_PERIOD, Some ''FNM_PERIOD''),
     (FNM_CASEFOLD, Some ''FNM_CASEFOLD''),
     (0, None)]"

fun flagstr_loop :: "(u32 \<times> cstr option) list \<Rightarrow> cstr \<Rightarrow> cstr \<Rightarrow> u32 \<Rightarrow> cstr \<times> cstr \<times> u32" where
  "flagstr_loop [] buf sep flags = (buf, sep, flags)"
| "flagstr_loop ((val, None) # xs) buf sep flags = (buf, sep, flags)"
| "flagstr_loop ((val, Some str) # xs) buf sep flags =
     (if val \<noteq> 0 \<and> flags AND val = val
      then flagstr_loop xs (buf @ sep @ str) ''|'' (flags AND NOT val)
      else flagstr_loop xs buf sep flags)"

text \<open>\<open>hex\<close> prints the unknown flags as \<open>%#x\<close>.  They are printed at the start of the buffer.\<close>

definition flagstr :: "(u32 \<Rightarrow> cstr) \<Rightarrow> (u32 \<times> cstr option) list \<Rightarrow> u32 \<Rightarrow> cstr" where
  "flagstr hex xs flags =
     (if flags = 0 then ''0''
      else (case flagstr_loop xs [] [] flags of
              (buf, sep, flags) \<Rightarrow> if flags \<noteq> 0 then sep @ ''unknown='' @ hex flags else buf))"

type_synonym fnmatch_row = "cstr \<times> cstr \<times> u32 \<times> int"

definition fnmatch_tests :: "fnmatch_row list" where
  "fnmatch_tests =
    [(''*.c'', ''foo.c'', 0, 0),
     (''*.c'', ''.c'', 0, 0),
     (''*.a'', ''foo.c'', 0, FNM_NOMATCH),
     (''*.c'', ''.foo.c'', 0, 0),
     (''*.c'', ''.foo.c'', FNM_PERIOD, FNM_NOMATCH),
     (''*.c'', ''foo.c'', FNM_PERIOD, 0),
     ([CHR 0x61, CHR 0x5c, CHR 0x2a, CHR 0x2e, CHR 0x63], ''a*.c'', FNM_NOESCAPE, FNM_NOMATCH),
     ([CHR 0x61, CHR 0x5c, CHR 0x2a, CHR 0x2e, CHR 0x63], ''ax.c'', 0, FNM_NOMATCH),
     (''a[xy].c'', ''ax.c'', 0, 0),
     (''a[!y].c'', ''ax.c'', 0, 0),
     (''a[a/z]*.c'', ''a/x.c'', FNM_PATHNAME, FNM_NOMATCH),
     (''a/*.c'', ''a/x.c'', FNM_PATHNAME, 0),
     (''a*.c'', ''a/x.c'', FNM_PATHNAME, FNM_NOMATCH),
     (''*/foo'', ''/foo'', FNM_PATHNAME, 0),
     (''-O[01]'', ''-O1'', 0, 0),
     ([CHR 0x5b, CHR 0x5b, CHR 0x3f, CHR 0x2a, CHR 0x5c, CHR 0x5d], [CHR 0x5c], 0, 0),
     ([CHR 0x5b, CHR 0x5d, CHR 0x3f, CHR 0x2a, CHR 0x5c, CHR 0x5d], '']'', 0, 0),
     (''[!]a-]'', ''b'', 0, 0),
     (''[]-_]'', ''^'', 0, 0),
     (''[!]-_]'', ''X'', 0, 0),
     (''??'', ''-'', 0, FNM_NOMATCH),
     (''*LIB*'', ''lib'', FNM_PERIOD, FNM_NOMATCH),
     (''a[/]b'', ''a/b'', 0, 0),
     (''a[/]b'', ''a/b'', FNM_PATHNAME, FNM_NOMATCH),
     (''[a-z]/[a-z]'', ''a/b'', 0, 0),
     (''*'', ''a/b'', FNM_PATHNAME, FNM_NOMATCH),
     (''*[/]b'', ''a/b'', FNM_PATHNAME, FNM_NOMATCH),
     (''*[b]'', ''a/b'', FNM_PATHNAME, FNM_NOMATCH),
     (''[*]/b'', ''a/b'', 0, FNM_NOMATCH),
     (''[*]/b'', ''*/b'', 0, 0),
     (''[?]/b'', ''a/b'', 0, FNM_NOMATCH),
     (''[?]/b'', ''?/b'', 0, 0),
     (''[[a]/b'', ''a/b'', 0, 0),
     (''[[a]/b'', ''[/b'', 0, 0),
     ([CHR 0x5c, CHR 0x2a, CHR 0x2f, CHR 0x62], ''a/b'', 0, FNM_NOMATCH),
     ([CHR 0x5c, CHR 0x2a, CHR 0x2f, CHR 0x62], ''*/b'', 0, 0),
     ([CHR 0x5c, CHR 0x3f, CHR 0x2f, CHR 0x62], ''a/b'', 0, FNM_NOMATCH),
     ([CHR 0x5c, CHR 0x3f, CHR 0x2f, CHR 0x62], ''?/b'', 0, 0),
     (''[/b'', ''[/b'', 0, 0),
     ([CHR 0x5c, CHR 0x5b, CHR 0x2f, CHR 0x62], ''[/b'', 0, 0),
     (''??/b'', ''aa/b'', 0, 0),
     (''???b'', ''aa/b'', 0, 0),
     (''???b'', ''aa/b'', FNM_PATHNAME, FNM_NOMATCH),
     (''?a/b'', ''.a/b'', FNM_PATHNAME OR FNM_PERIOD, FNM_NOMATCH),
     (''a/?b'', ''a/.b'', FNM_PATHNAME OR FNM_PERIOD, FNM_NOMATCH),
     (''*a/b'', ''.a/b'', FNM_PATHNAME OR FNM_PERIOD, FNM_NOMATCH),
     (''a/*b'', ''a/.b'', FNM_PATHNAME OR FNM_PERIOD, FNM_NOMATCH),
     (''[.]a/b'', ''.a/b'', FNM_PATHNAME OR FNM_PERIOD, FNM_NOMATCH),
     (''a/[.]b'', ''a/.b'', FNM_PATHNAME OR FNM_PERIOD, FNM_NOMATCH),
     (''*/?'', ''a/b'', FNM_PATHNAME OR FNM_PERIOD, 0),
     (''?/*'', ''a/b'', FNM_PATHNAME OR FNM_PERIOD, 0),
     (''.*/?'', ''.a/b'', FNM_PATHNAME OR FNM_PERIOD, 0),
     (''*/.?'', ''a/.b'', FNM_PATHNAME OR FNM_PERIOD, 0),
     (''*/*'', ''a/.b'', FNM_PATHNAME OR FNM_PERIOD, FNM_NOMATCH),
     (''*?*/*'', ''a/.b'', FNM_PERIOD, 0),
     (''*[.]/b'', ''a./b'', FNM_PATHNAME OR FNM_PERIOD, 0),
     (''*[[:alpha:]]/*[[:alnum:]]'', ''a/b'', FNM_PATHNAME, 0),
     (''*[![:digit:]]*/[![:d-d]'', ''a/b'', FNM_PATHNAME, - FNM_NOMATCH),
     (''*[![:digit:]]*/[[:d-d]'', ''a/['', FNM_PATHNAME, - FNM_NOMATCH),
     (''*[![:digit:]]*/[![:d-d]'', ''a/['', FNM_PATHNAME, - FNM_NOMATCH),
     (''a?b'', ''a.b'', FNM_PATHNAME OR FNM_PERIOD, 0),
     (''a*b'', ''a.b'', FNM_PATHNAME OR FNM_PERIOD, 0),
     (''a[.]b'', ''a.b'', FNM_PATHNAME OR FNM_PERIOD, 0),
     ([CHR 0x5c], [CHR 0x5c], 0, 0),
     ([CHR 0x5c], '''', 0, FNM_NOMATCH),
     (''/'', '''', FNM_PATHNAME, FNM_NOMATCH),
     ([CHR 0x5c, CHR 0x2f], ''/'', FNM_PATHNAME, 0),
     (''a'', ''A'', FNM_CASEFOLD, 0),
     (''aaAA'', ''AaAa'', FNM_CASEFOLD, 0),
     (''[a]'', ''A'', FNM_CASEFOLD, 0),
     (''[!a]'', ''A'', FNM_CASEFOLD, FNM_NOMATCH),
     (''[!A-C]'', ''b'', FNM_CASEFOLD, FNM_NOMATCH),
     (''[!a-c]'', ''B'', FNM_CASEFOLD, FNM_NOMATCH),
     (''[!a-c]'', ''d'', FNM_CASEFOLD, 0)]"

definition fnmatch_test :: "(cstr \<Rightarrow> cstr \<Rightarrow> u32 \<Rightarrow> int) \<Rightarrow> fnmatch_row \<Rightarrow> log" where
  "fnmatch_test fnmatch t =
     (case t of (pattern, string, flags, expected) \<Rightarrow>
        let r = fnmatch pattern string flags; x = expected
        in check 155 (\<not> (r \<noteq> x \<and> (r \<noteq> FNM_NOMATCH \<or> x \<noteq> - FNM_NOMATCH))))"

definition fnmatch_main :: "(cstr \<Rightarrow> cstr \<Rightarrow> u32 \<Rightarrow> int) \<Rightarrow> log" where
  "fnmatch_main fnmatch = concat (map (fnmatch_test fnmatch) fnmatch_tests)"

subsection \<open>The reference matcher\<close>

datatype set_item = Single char | Range char char | Class cstr

datatype pat_item = Lit char | Any | Star | Bracket bool "set_item list"

text \<open>The items of a bracket expression up to its closing bracket, and the pattern after it; \<open>None\<close>
  when it is not closed or a character class in it is not.\<close>

function bracket_items :: "bool \<Rightarrow> cstr \<Rightarrow> (set_item list \<times> cstr) option" where
  "bracket_items first [] = None"
| "bracket_items first (c # cs) =
     (if c = CHR '']'' \<and> \<not> first then Some ([], cs)
      else if c = CHR ''['' \<and> cs \<noteq> [] \<and> hd cs = CHR '':''
      then (let name = takeWhile (\<lambda>c. c \<noteq> CHR '':'') (tl cs);
                rest = drop (length name) (tl cs)
            in if take 2 rest = '':]''
               then map_option (\<lambda>(is, p). (Class name # is, p)) (bracket_items False (drop 2 rest))
               else None)
      else if 2 \<le> length cs \<and> hd cs = CHR ''-'' \<and> cs ! 1 \<noteq> CHR '']''
      then map_option (\<lambda>(is, p). (Range c (cs ! 1) # is, p)) (bracket_items False (drop 2 cs))
      else map_option (\<lambda>(is, p). (Single c # is, p)) (bracket_items False cs))"
  by pat_completeness auto
termination by (relation "measure (\<lambda>(first, cs). length cs)") auto

lemma bracket_items_length: "bracket_items first cs = Some (is, p) \<Longrightarrow> length p < length cs"
proof (induction first cs arbitrary: "is" p rule: bracket_items.induct)
  case (2 first c cs)
  show ?case
    using 2 by (fastforce simp: Let_def split: if_splits)
qed simp

definition bracket :: "cstr \<Rightarrow> (bool \<times> set_item list \<times> cstr) option" where
  "bracket cs =
     (let neg = cs \<noteq> [] \<and> hd cs = CHR ''!''
      in map_option (\<lambda>(is, p). (neg, is, p)) (bracket_items True (if neg then tl cs else cs)))"

lemma bracket_length: "bracket cs = Some (neg, is, p) \<Longrightarrow> length p < length cs"
  by (auto simp: bracket_def Let_def split: if_splits dest!: bracket_items_length)

function pat_items :: "bool \<Rightarrow> cstr \<Rightarrow> pat_item list" where
  "pat_items esc [] = []"
| "pat_items esc (c # cs) =
     (if c = CHR ''*'' then Star # pat_items esc cs
      else if c = CHR ''?'' then Any # pat_items esc cs
      else if c = CHR 0x5C \<and> esc \<and> cs \<noteq> [] then Lit (hd cs) # pat_items esc (tl cs)
      else if c = CHR ''['' then
        (case bracket cs of
           None \<Rightarrow> Lit c # pat_items esc cs
         | Some (neg, is, p) \<Rightarrow> Bracket neg is # pat_items esc p)
      else Lit c # pat_items esc cs)"
  by pat_completeness auto
termination
  by (relation "measure (\<lambda>(esc, cs). length cs)") (auto dest: bracket_length)

definition is_upper :: "char \<Rightarrow> bool" where
  "is_upper c \<longleftrightarrow> 65 \<le> (of_char c :: nat) \<and> (of_char c :: nat) \<le> 90"

definition is_lower :: "char \<Rightarrow> bool" where
  "is_lower c \<longleftrightarrow> 97 \<le> (of_char c :: nat) \<and> (of_char c :: nat) \<le> 122"

definition to_lower :: "char \<Rightarrow> char" where
  "to_lower c = (if is_upper c then char_of ((of_char c :: nat) + 32) else c)"

definition to_upper :: "char \<Rightarrow> char" where
  "to_upper c = (if is_lower c then char_of ((of_char c :: nat) - 32) else c)"

fun in_item :: "char \<Rightarrow> set_item \<Rightarrow> bool" where
  "in_item c (Single d) = (c = d)"
| "in_item c (Range a b) = ((of_char a :: nat) \<le> of_char c \<and> (of_char c :: nat) \<le> of_char b)"
| "in_item c (Class n) =
     (if n = ''alpha'' then is_upper c \<or> is_lower c
      else if n = ''digit'' then is_digit c
      else if n = ''alnum'' then is_upper c \<or> is_lower c \<or> is_digit c
      else if n = ''upper'' then is_upper c
      else if n = ''lower'' then is_lower c
      else n = ''space'' \<and> is_space c)"

definition in_bracket :: "bool \<Rightarrow> char \<Rightarrow> bool \<Rightarrow> set_item list \<Rightarrow> bool" where
  "in_bracket icase c neg is \<longleftrightarrow>
     (list_ex (\<lambda>i. in_item c i \<or> icase \<and> (in_item (to_lower c) i \<or> in_item (to_upper c) i)) is) \<noteq> neg"

text \<open>\<open>lead\<close>: a period here is a leading one.  Only a literal matches a leading period, and with
  \<open>FNM_PATHNAME\<close> only a literal matches a slash.\<close>

fun match_items :: "bool \<Rightarrow> bool \<Rightarrow> bool \<Rightarrow> bool \<Rightarrow> pat_item list \<Rightarrow> cstr \<Rightarrow> bool" where
  "match_items path period icase lead [] s = (s = [])"
| "match_items path period icase lead (Star # ps) [] = match_items path period icase lead ps []"
| "match_items path period icase lead (Star # ps) (c # s) =
     (if lead \<and> period \<and> c = CHR ''.'' then False
      else match_items path period icase lead ps (c # s) \<or>
        (\<not> (path \<and> c = CHR ''/'') \<and>
         match_items path period icase False (Star # ps) s))"
| "match_items path period icase lead (Lit d # ps) (c # s) =
     ((c = d \<or> icase \<and> to_lower c = to_lower d) \<and>
      match_items path period icase (path \<and> c = CHR ''/'') ps s)"
| "match_items path period icase lead (Any # ps) (c # s) =
     (\<not> (lead \<and> period \<and> c = CHR ''.'') \<and> \<not> (path \<and> c = CHR ''/'') \<and>
      match_items path period icase False ps s)"
| "match_items path period icase lead (Bracket neg is # ps) (c # s) =
     (\<not> (lead \<and> period \<and> c = CHR ''.'') \<and> \<not> (path \<and> c = CHR ''/'') \<and>
      in_bracket icase c neg is \<and> match_items path period icase False ps s)"
| "match_items path period icase lead (p # ps) [] = False"

definition fnmatch_ref :: "cstr \<Rightarrow> cstr \<Rightarrow> u32 \<Rightarrow> bool" where
  "fnmatch_ref p s flags =
     match_items (flags AND FNM_PATHNAME \<noteq> 0) (flags AND FNM_PERIOD \<noteq> 0) (flags AND FNM_CASEFOLD \<noteq> 0)
       True (pat_items (flags AND FNM_NOESCAPE = 0) p) s"

definition row_agrees :: "(cstr \<Rightarrow> cstr \<Rightarrow> u32 \<Rightarrow> int) \<Rightarrow> fnmatch_row \<Rightarrow> bool" where
  "row_agrees fnmatch t =
     (case t of (p, s, flags, x) \<Rightarrow>
        fnmatch p s flags = (if fnmatch_ref p s flags then 0 else FNM_NOMATCH) \<or>
        (x = - FNM_NOMATCH \<and> fnmatch p s flags = - FNM_NOMATCH))"

lemma fnmatch_ref_rows:
  "list_all (\<lambda>(p, s, flags, x). x = (if fnmatch_ref p s flags then 0 else FNM_NOMATCH) \<or>
     (x = - FNM_NOMATCH \<and> \<not> fnmatch_ref p s flags)) fnmatch_tests"
  by code_simp

subsection \<open>The reference matcher against the notation\<close>

text \<open>A star stands for any string without a slash (with \<open>FNM_PATHNAME\<close>) or any string at all, a
  string of literals for itself.\<close>

lemma match_star:
  "match_items path False icase lead (Star # ps) s \<longleftrightarrow>
     (\<exists>a b. s = a @ b \<and> (path \<longrightarrow> CHR ''/'' \<notin> set a) \<and> match_items path False icase (lead \<and> a = []) ps b)"
proof (induction s arbitrary: lead)
  case Nil
  then show ?case by simp
next
  case (Cons c s)
  show ?case (is "?L \<longleftrightarrow> ?R")
  proof
    assume ?L
    then consider "match_items path False icase lead ps (c # s)"
      | "\<not> (path \<and> c = CHR ''/'')" "match_items path False icase False (Star # ps) s"
      by auto
    then show ?R
    proof cases
      case 1
      then show ?thesis by (intro exI [of _ "[]"] exI [of _ "c # s"]) simp
    next
      case 2
      then obtain a b where "s = a @ b" "path \<longrightarrow> CHR ''/'' \<notin> set a" "match_items path False icase False ps b"
        using Cons by auto
      with 2 show ?thesis by (intro exI [of _ "c # a"] exI [of _ b]) auto
    qed
  next
    assume ?R
    then obtain a b where ab: "c # s = a @ b" "path \<longrightarrow> CHR ''/'' \<notin> set a"
      "match_items path False icase (lead \<and> a = []) ps b" by auto
    show ?L
    proof (cases a)
      case Nil
      then have "match_items path False icase lead ps (c # s)" using ab by simp
      then show ?thesis by simp
    next
      case (Cons d a')
      then have "match_items path False icase False (Star # ps) s" using ab Cons.IH by auto
      then show ?thesis using ab Cons by auto
    qed
  qed
qed

lemma match_literals: "match_items path period False lead (map Lit p) s \<longleftrightarrow> s = p"
proof (induction p arbitrary: lead s)
  case (Cons c p)
  then show ?case by (cases s) auto
qed simp

lemma flagstr_of_known:
  "flagstr hex fnmatch_flags (FNM_PATHNAME OR FNM_PERIOD) = ''FNM_PATHNAME|FNM_PERIOD''"
  "flagstr hex fnmatch_flags FNM_CASEFOLD = ''FNM_CASEFOLD''"
  "flagstr hex fnmatch_flags 0 = ''0''"
  by (simp_all add: flagstr_def fnmatch_flags_def fnm_flags)

text \<open>An unknown flag overwrites the names that were printed before it.\<close>

lemma flagstr_loses_names:
  "flagstr hex fnmatch_flags (FNM_PATHNAME OR 64) = ''|unknown='' @ hex 64"
  by (simp add: flagstr_def fnmatch_flags_def fnm_flags)

text \<open>C21: The test of \<open>fnmatch\<close> accepts a function exactly when, on every row of its table, it answers
  as the reference matcher of the POSIX notation does; on the three rows whose bracket expression is
  not closed it may also report an error, -1.\<close>

theorem fnmatch_verdict:
  "t_status (fnmatch_main fnmatch) = 0 \<longleftrightarrow> list_all (row_agrees fnmatch) fnmatch_tests"
proof -
  have "list_all (\<lambda>t. fnmatch_test fnmatch t = [] \<longleftrightarrow> row_agrees fnmatch t) fnmatch_tests"
    using fnmatch_ref_rows
    by (rule list_all_mono_imp)
      (auto simp: fnmatch_test_def row_agrees_def FNM_NOMATCH_def Let_def split: if_splits)
  from list_all_iff_cong [OF this] show ?thesis
    by (simp add: fnmatch_main_def concat_map_Nil del: concat_eq_Nil_conv)
qed

end
