(* ===== verification/InetTest.thy ===== *)
theory InetTest
  imports CString TestLog
begin

text \<open>
  inet_pton.c of libc/src/functional: textual and binary internet addresses, with round trips; and
  inet_pton-empty-last-field.c and inet_ntop-v4mapped.c of libc/src/regression.  The four functions
  are arguments.  An address in memory is the list of its bytes in network order;
  \<open>inet_pton\<close> gives its result, the address as it leaves it and \<open>errno\<close>, \<open>inet_ntop\<close> the text it
  stored (\<open>None\<close> for a null result) and \<open>errno\<close>.
\<close>

subsection \<open>The test\<close>

definition AF_INET :: int where "AF_INET = 2"
definition AF_INET6 :: int where "AF_INET6 = 10"
definition EAFNOSUPPORT :: int where "EAFNOSUPPORT = 97"
definition ENOSPC :: int where "ENOSPC = 28"

type_synonym bytes = "int list"

record inet =
  inet_addr :: "cstr \<Rightarrow> bytes"
  inet_ntoa :: "bytes \<Rightarrow> cstr"
  inet_pton :: "int \<Rightarrow> cstr \<Rightarrow> bytes \<Rightarrow> int \<times> bytes \<times> int"
  inet_ntop :: "int \<Rightarrow> bytes \<Rightarrow> nat \<Rightarrow> cstr option \<times> int"

definition digit :: "char \<Rightarrow> int" where
  "digit c =
     (let c = of_char c - of_char CHR ''0''
      in if c > 9 then c - (of_char CHR ''a'' - of_char CHR ''0'' - 10) else c)"

text \<open>The bytes that \<open>tobin\<close> writes over the start of \<open>d\<close>.\<close>

fun tobin_bytes :: "cstr \<Rightarrow> bytes" where
  "tobin_bytes (a # b # s) = (digit a * 16 + digit b) mod 256 # tobin_bytes s"
| "tobin_bytes s = []"

definition tobin :: "bytes \<Rightarrow> cstr \<Rightarrow> bytes" where
  "tobin d s = (let p = tobin_bytes s in p @ drop (length p) d)"

definition hex_digit :: "int \<Rightarrow> char" where
  "hex_digit n = (if n < 10 then char_of (48 + n) else char_of (87 + n))"

definition hex02 :: "int \<Rightarrow> cstr" where
  "hex02 b = [hex_digit (b div 16), hex_digit (b mod 16)]"

definition tohex :: "bytes \<Rightarrow> nat \<Rightarrow> cstr" where
  "tohex s n = concat (map hex02 (take n s))"

text \<open>Each use of a macro is one line, which all the checks in it report.\<close>

type_synonym inet_row = "nat \<times> cstr \<times> int \<times> cstr"

definition mapped_prefix :: cstr where
  "mapped_prefix = ''00000000000000000000ffff''"

definition V6 :: "inet \<Rightarrow> inet_row \<Rightarrow> log" where
  "V6 f t =
     (case t of (l, src, ret, hex) \<Rightarrow>
        (case inet_pton f AF_INET6 src (replicate 16 0) of (r, binaddr, _) \<Rightarrow>
           check l (\<not> r \<noteq> ret) @
           (if ret \<noteq> 1 then []
            else
              let hexaddr = tohex binaddr 16
              in check l (\<not> hexaddr \<noteq> hex) @
                 (let binaddr = tobin binaddr hex;
                      p = fst (inet_ntop f AF_INET6 binaddr 60);
                      txtaddr = (case p of None \<Rightarrow> [] | Some s \<Rightarrow> s)
                  in check l (\<not> p = None) @
                     (case inet_pton f AF_INET6 txtaddr binaddr of (r, binaddr, _) \<Rightarrow>
                        check l (\<not> r \<noteq> 1) @
                        (let hexaddr = tohex binaddr 16
                         in check l (\<not> hexaddr \<noteq> hex) @
                            check l (\<not> (take 24 hex = mapped_prefix \<and> strchr txtaddr CHR ''.'' = None))))))))"

definition V4 :: "inet \<Rightarrow> inet_row \<Rightarrow> log" where
  "V4 f t =
     (case t of (l, src, ret, hex) \<Rightarrow>
        let a = inet_addr f src; buf = tohex a 4
        in check l (\<not> buf \<noteq> hex) @
           (case inet_pton f AF_INET src a of (r, a, _) \<Rightarrow>
              check l (\<not> r \<noteq> ret) @
              (if ret \<noteq> 1 then []
               else
                 let buf = tohex a 4
                 in check l (\<not> buf \<noteq> hex) @
                    (let a = tobin a hex;
                         p = fst (inet_ntop f AF_INET a 20);
                         buf = (case p of None \<Rightarrow> buf | Some s \<Rightarrow> s)
                     in check l (\<not> p = None) @
                        check l (\<not> buf \<noteq> src) @
                        check l (\<not> inet_ntoa f a \<noteq> src)))))"

definition V4_uses :: "inet_row list" where
  "V4_uses =
    [(102, ''0.0.0.0'', 1, ''00000000''),
     (103, ''127.0.0.1'', 1, ''7f000001''),
     (104, ''10.0.128.31'', 1, ''0a00801f''),
     (105, ''255.255.255.255'', 1, ''ffffffff''),
     (108, ''1.2.03.4'', 0, ''01020304''),
     (109, ''1.2.0x33.4'', 0, ''01023304''),
     (110, ''1.2.0XAB.4'', 0, ''0102ab04''),
     (111, ''1.2.0xabcd'', 0, ''0102abcd''),
     (112, ''1.0xabcdef'', 0, ''01abcdef''),
     (113, ''00377.0x0ff.65534'', 0, ''fffffffe''),
     (116, ''.1.2.3'', 0, ''ffffffff''),
     (117, ''1..2.3'', 0, ''ffffffff''),
     (118, ''1.2.3.'', 0, ''ffffffff''),
     (119, ''1.2.3.4.5'', 0, ''ffffffff''),
     (120, ''1.2.3.a'', 0, ''ffffffff''),
     (121, ''1.256.2.3'', 0, ''ffffffff''),
     (122, ''1.2.4294967296.3'', 0, ''ffffffff''),
     (123, ''1.2.-4294967295.3'', 0, ''ffffffff''),
     (124, ''1.2. 3.4'', 0, ''ffffffff'')]"

definition V6_uses :: "inet_row list" where
  "V6_uses =
    [(127, '':'', 0, ''''),
     (128, ''::'', 1, ''00000000000000000000000000000000''),
     (129, ''::1'', 1, ''00000000000000000000000000000001''),
     (130, '':::'', 0, ''''),
     (131, ''192.168.1.1'', 0, ''''),
     (132, '':192.168.1.1'', 0, ''''),
     (133, ''::192.168.1.1'', 1, ''000000000000000000000000c0a80101''),
     (134, ''0:0:0:0:0:0:192.168.1.1'', 1, ''000000000000000000000000c0a80101''),
     (135, ''0:0::0:0:0:192.168.1.1'', 1, ''000000000000000000000000c0a80101''),
     (136, ''::012.34.56.78'', 0, ''''),
     (137, '':ffff:192.168.1.1'', 0, ''''),
     (138, ''::ffff:192.168.1.1'', 1, ''00000000000000000000ffffc0a80101''),
     (139, ''.192.168.1.1'', 0, ''''),
     (140, '':.192.168.1.1'', 0, ''''),
     (141, ''a:0b:00c:000d:E:F::'', 1, ''000a000b000c000d000e000f00000000''),
     (142, ''a:0b:00c:000d:0000e:f::'', 0, ''''),
     (143, ''1:2:3:4:5:6::'', 1, ''00010002000300040005000600000000''),
     (144, ''1:2:3:4:5:6:7::'', 1, ''00010002000300040005000600070000''),
     (145, ''1:2:3:4:5:6:7:8::'', 0, ''''),
     (146, ''1:2:3:4:5:6:7::9'', 0, ''''),
     (147, ''::1:2:3:4:5:6'', 1, ''00000000000100020003000400050006''),
     (148, ''::1:2:3:4:5:6:7'', 1, ''00000001000200030004000500060007''),
     (149, ''::1:2:3:4:5:6:7:8'', 0, ''''),
     (150, ''a:b::c:d:e:f'', 1, ''000a000b00000000000c000d000e000f''),
     (151, ''ffff:c0a8:5e4'', 0, ''''),
     (152, '':ffff:c0a8:5e4'', 0, ''''),
     (153, ''0:0:0:0:0:ffff:c0a8:5e4'', 1, ''00000000000000000000ffffc0a805e4''),
     (154, ''0:0:0:0:ffff:c0a8:5e4'', 0, ''''),
     (155, ''0::ffff:c0a8:5e4'', 1, ''00000000000000000000ffffc0a805e4''),
     (156, ''::0::ffff:c0a8:5e4'', 0, ''''),
     (157, ''c0a8'', 0, '''')]"

definition inet_main :: "inet \<Rightarrow> log" where
  "inet_main f =
     (case inet_pton f 12345 [] [] of (r, _, errno) \<Rightarrow> check 94 (\<not> (r \<noteq> -1 \<or> errno \<noteq> EAFNOSUPPORT))) @
     (case inet_ntop f AF_INET [120, 120, 120, 120] 0 of (p, errno) \<Rightarrow>
        check 97 (\<not> (p \<noteq> None \<or> errno \<noteq> ENOSPC))) @
     concat (map (V4 f) V4_uses) @
     concat (map (V6 f) V6_uses)"

subsection \<open>The notations\<close>

fun split_on :: "char \<Rightarrow> cstr \<Rightarrow> cstr list" where
  "split_on c [] = [[]]"
| "split_on c (x # xs) =
     (if x = c then [] # split_on c xs
      else case split_on c xs of [] \<Rightarrow> [[x]] | p # ps \<Rightarrow> (x # p) # ps)"

fun join :: "char \<Rightarrow> cstr list \<Rightarrow> cstr" where
  "join c [] = []"
| "join c [p] = p"
| "join c (p # q # ps) = p @ c # join c (q # ps)"

fun all_some :: "'a option list \<Rightarrow> 'a list option" where
  "all_some [] = Some []"
| "all_some (None # xs) = None"
| "all_some (Some x # xs) = map_option ((#) x) (all_some xs)"

text \<open>The two regression tests, started with any bytes in the address.\<close>

definition empty_last_field_main :: "inet \<Rightarrow> bytes \<Rightarrow> log" where
  "empty_last_field_main f buf =
     (let want = [0, 1, 0, 2, 0, 3, 0, 4, 0, 5, 0, 6, 0, 7, 0, 0]
      in case inet_pton f AF_INET6 ''1:2:3:4:5:6:7::'' buf of (r, buf, _) \<Rightarrow>
           check 28 (\<not> (r \<noteq> 1 \<or> take 16 buf \<noteq> want)) @
           (case inet_pton f AF_INET6 ''1:2:3:4:5:6:7::9:10:11:12:13:14:15:16:17:18:19:20'' buf of (r, buf, _) \<Rightarrow>
              check 35 (\<not> r \<noteq> 0)))"

definition v4mapped_main :: "inet \<Rightarrow> bytes \<Rightarrow> log" where
  "v4mapped_main f addr =
     (case inet_pton f AF_INET6 ''::ffff:192.168.0.1'' addr of (r, addr, _) \<Rightarrow>
        if r = 1
        then (case fst (inet_ntop f AF_INET6 addr 100) of
                None \<Rightarrow> [14]
              | Some buf \<Rightarrow> check 16 (strchr buf CHR ''.'' \<noteq> None))
        else [18])"

text \<open>The value of a digit in bases up to 16, of either case.\<close>

definition xdigit :: "char \<Rightarrow> int" where
  "xdigit c =
     (let n = of_char c
      in if 48 \<le> n \<and> n \<le> 57 then n - 48 else if 97 \<le> n \<and> n \<le> 102 then n - 87
         else if 65 \<le> n \<and> n \<le> 70 then n - 55 else 16)"

definition num_in :: "int \<Rightarrow> cstr \<Rightarrow> int option" where
  "num_in b s =
     (if s \<noteq> [] \<and> list_all (\<lambda>c. xdigit c < b) s then Some (foldl (\<lambda>n c. b * n + xdigit c) 0 s) else None)"

text \<open>Dotted decimal: four numbers below 256 without superfluous zeros.\<close>

definition dec_byte :: "cstr \<Rightarrow> int option" where
  "dec_byte s =
     (case num_in 10 s of
        Some n \<Rightarrow> if n < 256 \<and> (hd s = CHR ''0'' \<longrightarrow> length s = 1) then Some n else None
      | None \<Rightarrow> None)"

definition dotted :: "cstr \<Rightarrow> bytes option" where
  "dotted s =
     (let ps = split_on CHR ''.'' s in if length ps = 4 then all_some (map dec_byte ps) else None)"

text \<open>Numbers and dots: one to four numbers in C's notation, the last one for all the bytes left.\<close>

definition c_num :: "cstr \<Rightarrow> int option" where
  "c_num s =
     (if take 2 s = ''0x'' \<or> take 2 s = ''0X'' then num_in 16 (drop 2 s)
      else if take 1 s = ''0'' then num_in 8 s else num_in 10 s)"

fun be_bytes :: "nat \<Rightarrow> int \<Rightarrow> bytes" where
  "be_bytes 0 n = []"
| "be_bytes (Suc k) n = be_bytes k (n div 256) @ [n mod 256]"

definition numbers_and_dots :: "cstr \<Rightarrow> bytes option" where
  "numbers_and_dots s =
     (case all_some (map c_num (split_on CHR ''.'' s)) of
        None \<Rightarrow> None
      | Some ns \<Rightarrow>
          let k = length ns
          in if k \<le> 4 \<and> list_all (\<lambda>n. n < 256) (butlast ns) \<and> last ns < 256 ^ (5 - k)
             then Some (butlast ns @ be_bytes (5 - k) (last ns)) else None)"

text \<open>The notation of IPv6: groups of at most four hexadecimal digits between colons, the last one
  or two may be dotted decimal, and one gap.\<close>

definition hex_group :: "cstr \<Rightarrow> bytes option" where
  "hex_group s = (if length s \<le> 4 then map_option (be_bytes 2) (num_in 16 s) else None)"

definition groups :: "bool \<Rightarrow> cstr \<Rightarrow> bytes option" where
  "groups v4 s =
     (if s = [] then Some []
      else
        let ps = split_on CHR '':'' s
        in map_option concat
             (all_some (map hex_group (butlast ps) @
                [if v4 \<and> CHR ''.'' \<in> set (last ps) then dotted (last ps) else hex_group (last ps)])))"

fun split_gap :: "cstr \<Rightarrow> (cstr \<times> cstr) option" where
  "split_gap (a # b # s) =
     (if a = CHR '':'' \<and> b = CHR '':'' then Some ([], s)
      else map_option (\<lambda>(p, q). (a # p, q)) (split_gap (b # s)))"
| "split_gap s = None"

definition ipv6 :: "cstr \<Rightarrow> bytes option" where
  "ipv6 s =
     (case split_gap s of
        None \<Rightarrow> (case groups True s of Some bs \<Rightarrow> if length bs = 16 then Some bs else None | None \<Rightarrow> None)
      | Some (p, q) \<Rightarrow>
          (case (groups False p, groups True q) of
             (Some bs, Some cs) \<Rightarrow>
               if length bs + length cs \<le> 14 then Some (bs @ replicate (16 - length bs - length cs) 0 @ cs)
               else None
           | _ \<Rightarrow> None))"

definition mapped_bytes :: bytes where
  "mapped_bytes = [0, 0, 0, 0, 0, 0, 0, 0, 0, 0, 255, 255]"

definition bytes_ok :: "nat \<Rightarrow> bytes \<Rightarrow> bool" where
  "bytes_ok n bs \<longleftrightarrow> length bs = n \<and> list_all (\<lambda>b. 0 \<le> b \<and> b < 256) bs"

definition addr_value :: "cstr \<Rightarrow> bytes" where
  "addr_value s = (case numbers_and_dots s of None \<Rightarrow> replicate 4 255 | Some bs \<Rightarrow> bs)"

definition dotted_text :: "bytes \<Rightarrow> cstr" where
  "dotted_text bs = join CHR ''.'' (map dec_int bs)"

text \<open>What the rows of the two tables say in terms of the notations.\<close>

definition V4_row_ok :: "inet_row \<Rightarrow> bool" where
  "V4_row_ok t \<longleftrightarrow>
     (case t of (l, src, ret, hex) \<Rightarrow>
        tobin_bytes hex = addr_value src \<and> tohex (tobin_bytes hex) 4 = hex \<and>
        (case dotted src of
           None \<Rightarrow> ret = 0
         | Some bs \<Rightarrow> ret = 1 \<and> tobin_bytes hex = bs \<and> bytes_ok 4 bs \<and> dotted_text bs = src \<and> length src < 20))"

definition V6_row_ok :: "inet_row \<Rightarrow> bool" where
  "V6_row_ok t \<longleftrightarrow>
     (case t of (l, src, ret, hex) \<Rightarrow>
        (case ipv6 src of
           None \<Rightarrow> ret = 0
         | Some bs \<Rightarrow> ret = 1 \<and> tobin_bytes hex = bs \<and> bytes_ok 16 bs \<and> tohex bs 16 = hex \<and>
             (take 24 hex = mapped_prefix \<longrightarrow> take 12 bs = mapped_bytes)))"

lemma inet_tables: "list_all V4_row_ok V4_uses" "list_all V6_row_ok V6_uses"
  by code_simp+

lemma strchr_finds: "c \<in> set s \<Longrightarrow> strchr s c \<noteq> None"
  by (induction s) auto

subsection \<open>The contract of the four functions\<close>

locale inet_contract =
  fixes f :: inet
  assumes addr: "inet_addr f s = addr_value s"
    and ntoa: "bytes_ok 4 bs \<Longrightarrow> inet_ntoa f bs = dotted_text bs"
    and pton4: "\<exists>e. inet_pton f AF_INET s d =
      (case dotted s of None \<Rightarrow> (0, d, e) | Some bs \<Rightarrow> (1, bs, e))"
    and pton6: "\<exists>e. inet_pton f AF_INET6 s d =
      (case ipv6 s of None \<Rightarrow> (0, d, e) | Some bs \<Rightarrow> (1, bs, e))"
    and pton_other: "af \<noteq> AF_INET \<Longrightarrow> af \<noteq> AF_INET6 \<Longrightarrow> \<exists>d'. inet_pton f af s d = (-1, d', EAFNOSUPPORT)"
    and ntop4: "bytes_ok 4 bs \<Longrightarrow> length (dotted_text bs) < n \<Longrightarrow>
      fst (inet_ntop f AF_INET bs n) = Some (dotted_text bs)"
    and ntop4_full: "bytes_ok 4 bs \<Longrightarrow> n \<le> length (dotted_text bs) \<Longrightarrow>
      inet_ntop f AF_INET bs n = (None, ENOSPC)"
    and ntop6: "bytes_ok 16 bs \<Longrightarrow> 46 \<le> n \<Longrightarrow>
      \<exists>s. fst (inet_ntop f AF_INET6 bs n) = Some s \<and> ipv6 s = Some bs \<and>
        (take 12 bs = mapped_bytes \<longrightarrow> CHR ''.'' \<in> set s)"
begin

lemma V4_passes:
  assumes "V4_row_ok t"
  shows "V4 f t = []"
proof -
  obtain l src ret hex where t: "t = (l, src, ret, hex)" by (cases t) auto
  obtain e where p: "inet_pton f AF_INET src (inet_addr f src) =
      (case dotted src of None \<Rightarrow> (0, inet_addr f src, e) | Some bs \<Rightarrow> (1, bs, e))"
    using pton4 by blast
  show ?thesis
  proof (cases "dotted src")
    case None
    then show ?thesis using assms p by (auto simp: t V4_def V4_row_ok_def Let_def addr)
  next
    case (Some bs)
    then have ok: "bytes_ok 4 bs" "dotted_text bs = src" "length src < 20" "tobin_bytes hex = bs"
      and ret: "ret = 1" "tohex bs 4 = hex" "addr_value src = bs"
      using assms by (auto simp: t V4_row_ok_def)
    then have "tobin bs hex = bs" by (simp add: tobin_def Let_def)
    then show ?thesis
      using p Some ok ret ntoa [OF ok(1)] ntop4 [OF ok(1), of 20] by (simp add: t V4_def Let_def addr)
  qed
qed

lemma V6_passes:
  assumes "V6_row_ok t"
  shows "V6 f t = []"
proof -
  obtain l src ret hex where t: "t = (l, src, ret, hex)" by (cases t) auto
  obtain e where p: "inet_pton f AF_INET6 src (replicate 16 0) =
      (case ipv6 src of None \<Rightarrow> (0, replicate 16 0, e) | Some bs \<Rightarrow> (1, bs, e))"
    using pton6 by blast
  show ?thesis
  proof (cases "ipv6 src")
    case None
    then show ?thesis using assms p by (simp add: t V6_def V6_row_ok_def Let_def)
  next
    case (Some bs)
    then have ok: "bytes_ok 16 bs" "tobin_bytes hex = bs" and ret: "ret = 1" "tohex bs 16 = hex"
      and mp: "take 24 hex = mapped_prefix \<longrightarrow> take 12 bs = mapped_bytes"
      using assms by (auto simp: t V6_row_ok_def)
    then have tb: "tobin bs hex = bs" by (simp add: tobin_def Let_def)
    obtain s where s: "fst (inet_ntop f AF_INET6 bs 60) = Some s" "ipv6 s = Some bs"
      "take 12 bs = mapped_bytes \<longrightarrow> CHR ''.'' \<in> set s"
      using ntop6 [OF ok(1), of 60] by auto
    obtain e' where p': "inet_pton f AF_INET6 s bs = (1, bs, e')"
      using pton6 [of s bs] s(2) by auto
    have "take 24 hex = mapped_prefix \<longrightarrow> strchr s CHR ''.'' \<noteq> None"
      using s(3) mp strchr_finds [of "CHR ''.''" s] by blast
    then show ?thesis
      using p Some ret s(1) p' tb by (simp add: t V6_def Let_def)
  qed
qed

lemma inet_main_passes: "inet_main f = []"
proof -
  obtain d where "inet_pton f 12345 [] [] = (-1, d, EAFNOSUPPORT)"
    using pton_other [of 12345] by (auto simp: AF_INET_def AF_INET6_def)
  moreover have "inet_ntop f AF_INET [120, 120, 120, 120] 0 = (None, ENOSPC)"
    by (rule ntop4_full) (simp_all add: bytes_ok_def)
  moreover have "list_all (\<lambda>t. V4 f t = []) V4_uses" "list_all (\<lambda>t. V6 f t = []) V6_uses"
    using inet_tables V4_passes V6_passes by (auto elim: list_all_mono_imp)
  ultimately show ?thesis by (simp add: inet_main_def concat_map_Nil del: concat_eq_Nil_conv)
qed

lemma regressions_pass: "empty_last_field_main f buf = []" "v4mapped_main f buf = []"
proof -
  have v: "ipv6 ''1:2:3:4:5:6:7::'' = Some [0, 1, 0, 2, 0, 3, 0, 4, 0, 5, 0, 6, 0, 7, 0, 0]"
    "ipv6 ''1:2:3:4:5:6:7::9:10:11:12:13:14:15:16:17:18:19:20'' = None"
    "ipv6 ''::ffff:192.168.0.1'' = Some (mapped_bytes @ [192, 168, 0, 1])"
    by code_simp+
  let ?a = "mapped_bytes @ [192, 168, 0, 1]"
  show "empty_last_field_main f buf = []"
    using pton6 [of "''1:2:3:4:5:6:7::''" buf]
      pton6 [of "''1:2:3:4:5:6:7::9:10:11:12:13:14:15:16:17:18:19:20''" "[0, 1, 0, 2, 0, 3, 0, 4, 0, 5, 0, 6, 0, 7, 0, 0]"]
    by (auto simp: v empty_last_field_main_def Let_def)
  have a: "bytes_ok 16 ?a" "take 12 ?a = mapped_bytes" by code_simp+
  from ntop6 [OF a(1), of 100] a(2) obtain s where "fst (inet_ntop f AF_INET6 ?a 100) = Some s" "CHR ''.'' \<in> set s"
    by auto
  then show "v4mapped_main f buf = []"
    using pton6 [of "''::ffff:192.168.0.1''" buf] strchr_finds [of "CHR ''.''" s] by (auto simp: v v4mapped_main_def)
qed

end

subsection \<open>Printing and reading back\<close>

lemma split_on_self: "c \<notin> set p \<Longrightarrow> split_on c p = [p]"
  by (induction p) auto

lemma split_on_app: "c \<notin> set p \<Longrightarrow> split_on c (p @ c # s) = p # split_on c s"
  by (induction p) auto

lemma split_on_join:
  "ps \<noteq> [] \<Longrightarrow> \<forall>p \<in> set ps. c \<notin> set p \<Longrightarrow> split_on c (join c ps) = ps"
  by (induction c ps rule: join.induct) (auto simp: split_on_self split_on_app)

lemma split_gap_app:
  assumes "CHR '':'' \<notin> set p" and "p \<noteq> []" and "s \<noteq> []" and "hd s \<noteq> CHR '':''" and "split_gap s = None"
  shows "split_gap (p @ CHR '':'' # s) = None"
  using assms(1,2)
proof (induction p)
  case (Cons a p)
  have "split_gap (CHR '':'' # s) = None" using assms(3-5) by (cases s) auto
  then show ?case using Cons by (cases p) auto
qed simp

lemma split_gap_self: "CHR '':'' \<notin> set p \<Longrightarrow> split_gap p = None"
  by (induction p rule: split_gap.induct) auto

lemma split_gap_join:
  "\<forall>p \<in> set ps. p \<noteq> [] \<and> CHR '':'' \<notin> set p \<Longrightarrow> split_gap (join CHR '':'' ps) = None"
proof (induction "CHR '':''" ps rule: join.induct)
  case (3 p q ps)
  have "hd (join CHR '':'' (q # ps)) = hd q" "join CHR '':'' (q # ps) \<noteq> []"
    using 3 by (cases ps; simp)+
  then show ?case using 3 by (auto intro!: split_gap_app)
qed (simp_all add: split_gap_self)

lemma dec_char:
  assumes "d < 10"
  shows "xdigit (char_of (48 + d :: nat)) = int d" and "char_of (48 + d) \<noteq> CHR ''.''"
    and "char_of (48 + d) \<noteq> CHR '':''" and "char_of (48 + d) = CHR ''0'' \<longleftrightarrow> d = 0"
proof -
  have "d \<in> set [0, 1, 2, 3, 4, 5, 6, 7, 8, 9]" using assms by auto
  moreover have "list_all (\<lambda>d. xdigit (char_of (48 + d :: nat)) = int d \<and> char_of (48 + d) \<noteq> CHR ''.'' \<and>
      char_of (48 + d) \<noteq> CHR '':'' \<and> (char_of (48 + d) = CHR ''0'' \<longleftrightarrow> d = 0)) [0, 1, 2, 3, 4, 5, 6, 7, 8, 9]"
    by code_simp
  ultimately show "xdigit (char_of (48 + d :: nat)) = int d" "char_of (48 + d) \<noteq> CHR ''.''"
    "char_of (48 + d) \<noteq> CHR '':''" "char_of (48 + d) = CHR ''0'' \<longleftrightarrow> d = 0"
    unfolding list_all_iff by blast+
qed

lemma dec_digits_byte:
  assumes "n < 256"
  obtains (1) "n < 10" "dec_digits n = [char_of (48 + n)]"
  | (2) a b where "n = 10 * a + b" "0 < a" "a < 10" "b < 10" "dec_digits n = [char_of (48 + a), char_of (48 + b)]"
  | (3) a b c where "n = 100 * a + 10 * b + c" "0 < a" "a < 10" "b < 10" "c < 10"
      "dec_digits n = [char_of (48 + a), char_of (48 + b), char_of (48 + c)]"
proof -
  consider "n < 10" | "10 \<le> n" "n < 100" | "100 \<le> n" by linarith
  then show thesis
  proof cases
    case 1
    then show thesis by (intro that(1)) (simp_all add: dec_digits.simps)
  next
    case 2
    then have "n div 10 < 10" "0 < n div 10" by auto
    then show thesis
      using 2 by (intro that(2) [of "n div 10" "n mod 10"]) (simp_all add: dec_digits.simps [of n] dec_digits.simps [of "n div 10"])
  next
    case 3
    have h: "n div 100 = n div 10 div 10" by (simp add: div_mult2_eq [symmetric])
    have "n div 10 div 10 < 10" "0 < n div 10 div 10" "10 \<le> n div 10" using 3 assms by auto
    moreover have "n = 100 * (n div 10 div 10) + 10 * (n div 10 mod 10) + n mod 10"
      using mult_div_mod_eq [of 10 n] mult_div_mod_eq [of 10 "n div 10"] by linarith
    ultimately show thesis
      using 3 by (intro that(3) [of "n div 10 div 10" "n div 10 mod 10" "n mod 10"])
        (simp_all only: dec_digits.simps [of n] dec_digits.simps [of "n div 10"] dec_digits.simps [of "n div 10 div 10"],
          simp_all)
  qed
qed

lemma dec_byte_text:
  assumes "0 \<le> b" and "b < 256"
  shows "dec_byte (dec_int b) = Some b" and "CHR ''.'' \<notin> set (dec_int b)" and "CHR '':'' \<notin> set (dec_int b)"
    and "length (dec_int b) \<le> 3"
proof -
  have n: "nat b < 256" and d: "dec_int b = dec_digits (nat b)" using assms by (simp_all add: dec_int_def)
  from n have "dec_byte (dec_int b) = Some b \<and> CHR ''.'' \<notin> set (dec_int b) \<and> CHR '':'' \<notin> set (dec_int b) \<and>
      length (dec_int b) \<le> 3"
  proof (cases rule: dec_digits_byte)
    case 1
    then have t: "dec_int b = [char_of (48 + nat b)]" using d by simp
    show ?thesis unfolding t using 1(1) assms dec_char [of "nat b"] by (simp add: dec_byte_def num_in_def)
  next
    case (2 x y)
    have "b = int (10 * x + y)" using 2(1) assms(1) by linarith
    moreover have t: "dec_int b = [char_of (48 + x), char_of (48 + y)]" using d 2 by simp
    ultimately show ?thesis
      unfolding t using assms 2(2-4) dec_char [of x] dec_char [of y] by (simp add: dec_byte_def num_in_def)
  next
    case (3 x y z)
    have "b = int (100 * x + 10 * y + z)" using 3(1) assms(1) by linarith
    moreover have t: "dec_int b = [char_of (48 + x), char_of (48 + y), char_of (48 + z)]" using d 3 by simp
    ultimately show ?thesis
      unfolding t using assms 3(2-5) dec_char [of x] dec_char [of y] dec_char [of z]
      by (simp add: dec_byte_def num_in_def)
  qed
  then show "dec_byte (dec_int b) = Some b" "CHR ''.'' \<notin> set (dec_int b)" "CHR '':'' \<notin> set (dec_int b)"
    "length (dec_int b) \<le> 3" by blast+
qed

lemma dotted_roundtrip:
  assumes "bytes_ok 4 bs"
  shows "dotted (dotted_text bs) = Some bs" and "CHR '':'' \<notin> set (dotted_text bs)"
    and "CHR ''.'' \<in> set (dotted_text bs)" and "length (dotted_text bs) \<le> 15"
proof -
  obtain a b c d where bs: "bs = [a, b, c, d]" "0 \<le> a" "a < 256" "0 \<le> b" "b < 256" "0 \<le> c" "c < 256"
      "0 \<le> d" "d < 256"
    using assms by (auto simp: bytes_ok_def numeral_eq_Suc length_Suc_conv)
  note t = dec_byte_text [OF bs(2,3)] dec_byte_text [OF bs(4,5)] dec_byte_text [OF bs(6,7)] dec_byte_text [OF bs(8,9)]
  have "split_on CHR ''.'' (dotted_text bs) = map dec_int bs"
    unfolding dotted_text_def using t by (intro split_on_join) (simp_all add: bs)
  then show "dotted (dotted_text bs) = Some bs" using t by (simp add: dotted_def bs)
  show "CHR '':'' \<notin> set (dotted_text bs)" "CHR ''.'' \<in> set (dotted_text bs)" "length (dotted_text bs) \<le> 15"
    using t by (simp_all add: dotted_text_def bs)
qed

lemma xdigit_hex_digit:
  assumes "0 \<le> n" and "n < 16"
  shows "xdigit (hex_digit n) = n" and "hex_digit n \<noteq> CHR '':''" and "hex_digit n \<noteq> CHR ''.''"
proof -
  have "list_all (\<lambda>n. xdigit (hex_digit n) = n \<and> hex_digit n \<noteq> CHR '':'' \<and> hex_digit n \<noteq> CHR ''.'') [0..15]"
    by code_simp
  moreover have "n \<in> set [0..15]" using assms by simp
  ultimately show "xdigit (hex_digit n) = n" "hex_digit n \<noteq> CHR '':''" "hex_digit n \<noteq> CHR ''.''"
    unfolding list_all_iff by blast+
qed

fun hex_texts :: "bytes \<Rightarrow> cstr list" where
  "hex_texts (a # b # bs) = (hex02 a @ hex02 b) # hex_texts bs"
| "hex_texts bs = []"

lemma hex_group_text:
  assumes "0 \<le> a" "a < 256" "0 \<le> b" "b < 256"
  shows "hex_group (hex02 a @ hex02 b) = Some [a, b]"
    and "CHR '':'' \<notin> set (hex02 a @ hex02 b)" and "CHR ''.'' \<notin> set (hex02 a @ hex02 b)"
proof -
  have n: "0 \<le> a div 16" "a div 16 < 16" "0 \<le> b div 16" "b div 16 < 16" using assms by auto
  note x = xdigit_hex_digit [OF n(1,2)] xdigit_hex_digit [OF n(3,4)]
    xdigit_hex_digit [of "a mod 16"] xdigit_hex_digit [of "b mod 16"]
  have "16 * (16 * (16 * (a div 16) + a mod 16) + b div 16) + b mod 16 = a * 256 + b" by simp
  then have "num_in 16 (hex02 a @ hex02 b) = Some (a * 256 + b)"
    using x n by (simp add: num_in_def hex02_def)
  moreover have "be_bytes 2 (a * 256 + b) = [a, b]"
    using assms by (simp add: numeral_2_eq_2)
  ultimately show "hex_group (hex02 a @ hex02 b) = Some [a, b]" by (simp add: hex_group_def hex02_def)
  show "CHR '':'' \<notin> set (hex02 a @ hex02 b)" "CHR ''.'' \<notin> set (hex02 a @ hex02 b)"
    using x by (auto simp: hex02_def)
qed

text \<open>Reference functions: \<open>ntop6_ref\<close> prints eight full groups, or the dotted form of a mapped
  address.\<close>

definition ntop6_ref :: "bytes \<Rightarrow> cstr" where
  "ntop6_ref bs =
     (if take 12 bs = mapped_bytes then ''::ffff:'' @ dotted_text (drop 12 bs) else join CHR '':'' (hex_texts bs))"

lemma groups_mapped:
  assumes "bytes_ok 4 bs"
  shows "groups True (''ffff:'' @ dotted_text bs) = Some (255 # 255 # bs)"
proof -
  note d = dotted_roundtrip [OF assms]
  have "split_on CHR '':'' (''ffff'' @ CHR '':'' # dotted_text bs) = [''ffff'', dotted_text bs]"
    using d(2) by (subst split_on_app) (simp_all add: split_on_self)
  moreover have "hex_group ''ffff'' = Some [255, 255]" by code_simp
  ultimately show ?thesis using d by (simp add: groups_def)
qed

lemma ipv6_mapped:
  assumes "bytes_ok 4 bs"
  shows "ipv6 (''::ffff:'' @ dotted_text bs) = Some (mapped_bytes @ bs)"
proof -
  have "length bs = 4" using assms by (simp add: bytes_ok_def)
  moreover have "groups False [] = Some []" by (simp add: groups_def)
  moreover have "split_gap (''::ffff:'' @ dotted_text bs) = Some ([], ''ffff:'' @ dotted_text bs)" by simp
  ultimately show ?thesis
    using groups_mapped [OF assms] by (simp add: ipv6_def mapped_bytes_def eval_nat_numeral)
qed

lemma hex_groups:
  assumes "list_all (\<lambda>b. 0 \<le> b \<and> b < 256) bs" and "even (length bs)"
  shows "map_option concat (all_some (map hex_group (hex_texts bs))) = Some bs"
    and "\<forall>p \<in> set (hex_texts bs). CHR '':'' \<notin> set p \<and> CHR ''.'' \<notin> set p \<and> p \<noteq> []"
    and "length (join CHR '':'' (hex_texts bs)) \<le> 5 * (length bs div 2)"
proof -
  show "map_option concat (all_some (map hex_group (hex_texts bs))) = Some bs"
    using assms by (induction bs rule: hex_texts.induct) (auto simp: hex_group_text)
  show "\<forall>p \<in> set (hex_texts bs). CHR '':'' \<notin> set p \<and> CHR ''.'' \<notin> set p \<and> p \<noteq> []"
    using assms
  proof (induction bs rule: hex_texts.induct)
    case (1 a b bs)
    then have "0 \<le> a" "a < 256" "0 \<le> b" "b < 256" by simp_all
    note h = hex_group_text(2,3) [OF this]
    show ?case using 1 h by (auto simp: hex02_def)
  qed simp_all
  have len: "length (join CHR '':'' ps) \<le> 5 * length ps" if "\<forall>p \<in> set ps. length p = 4" for ps
    using that by (induction "CHR '':''" ps rule: join.induct) auto
  have "\<forall>p \<in> set (hex_texts bs). length p = 4" "length (hex_texts bs) = length bs div 2"
    by (induction bs rule: hex_texts.induct) (auto simp: hex02_def)
  then show "length (join CHR '':'' (hex_texts bs)) \<le> 5 * (length bs div 2)" using len [of "hex_texts bs"] by simp
qed

lemma ipv6_full:
  assumes "bytes_ok 16 bs"
  shows "ipv6 (join CHR '':'' (hex_texts bs)) = Some bs"
proof -
  define s where "s = join CHR '':'' (hex_texts bs)"
  have bs: "list_all (\<lambda>b. 0 \<le> b \<and> b < 256) bs" "even (length bs)" "length bs = 16"
    using assms by (simp_all add: bytes_ok_def)
  note h = hex_groups [OF bs(1,2)]
  have ne: "hex_texts bs \<noteq> []" using bs(3) by (cases bs rule: hex_texts.cases) auto
  have sp: "split_on CHR '':'' s = hex_texts bs"
    unfolding s_def using h(2) ne by (intro split_on_join) auto
  then have "s \<noteq> []" using h(2) by (metis list.set_intros(1) split_on.simps(1))
  have "last (hex_texts bs) \<in> set (hex_texts bs)" using ne by simp
  then have "CHR ''.'' \<notin> set (last (hex_texts bs))" using h(2) by blast
  then have "groups True s = map_option concat (all_some (map hex_group (butlast (hex_texts bs) @ [last (hex_texts bs)])))"
    using \<open>s \<noteq> []\<close> by (simp add: groups_def sp Let_def)
  then have "groups True s = Some bs" using h(1) ne by simp
  moreover have "split_gap s = None" unfolding s_def using h(2) by (intro split_gap_join) auto
  ultimately show ?thesis using bs(3) unfolding s_def [symmetric] by (simp add: ipv6_def)
qed

lemma ntop6_roundtrip:
  assumes "bytes_ok 16 bs"
  shows "ipv6 (ntop6_ref bs) = Some bs" and "length (ntop6_ref bs) < 46"
    and "take 12 bs = mapped_bytes \<Longrightarrow> CHR ''.'' \<in> set (ntop6_ref bs)"
proof -
  have d: "bytes_ok 4 (drop 12 bs)"
    using assms by (auto simp: bytes_ok_def list_all_iff dest: in_set_dropD)
  have b: "list_all (\<lambda>b. 0 \<le> b \<and> b < 256) bs" "even (length bs)" "length bs = 16"
    using assms by (simp_all add: bytes_ok_def)
  show "ipv6 (ntop6_ref bs) = Some bs"
  proof (cases "take 12 bs = mapped_bytes")
    case True
    then have "mapped_bytes @ drop 12 bs = bs" by (metis append_take_drop_id)
    then show ?thesis unfolding ntop6_ref_def if_P [OF True] using ipv6_mapped [OF d] by simp
  next
    case False
    then show ?thesis using ipv6_full [OF assms] by (simp add: ntop6_ref_def)
  qed
  show "length (ntop6_ref bs) < 46"
    using hex_groups(3) [OF b(1,2)] dotted_roundtrip(4) [OF d] b(3) by (simp add: ntop6_ref_def)
  show "CHR ''.'' \<in> set (ntop6_ref bs)" if "take 12 bs = mapped_bytes"
    using that dotted_roundtrip(3) [OF d] by (simp add: ntop6_ref_def)
qed

definition inet_ref :: inet where
  "inet_ref =
     \<lparr>inet_addr = addr_value, inet_ntoa = dotted_text,
      inet_pton = (\<lambda>af s d.
        if af = AF_INET then (case dotted s of None \<Rightarrow> (0, d, 0) | Some bs \<Rightarrow> (1, bs, 0))
        else if af = AF_INET6 then (case ipv6 s of None \<Rightarrow> (0, d, 0) | Some bs \<Rightarrow> (1, bs, 0))
        else (-1, d, EAFNOSUPPORT)),
      inet_ntop = (\<lambda>af bs n.
        if af = AF_INET \<or> af = AF_INET6
        then let s = (if af = AF_INET then dotted_text bs else ntop6_ref bs)
             in if length s < n then (Some s, 0) else (None, ENOSPC)
        else (None, EAFNOSUPPORT))\<rparr>"

interpretation iref: inet_contract inet_ref
proof
  fix bs :: bytes and n :: nat
  assume "bytes_ok 16 bs" "46 \<le> n"
  then show "\<exists>s. fst (inet_ntop inet_ref AF_INET6 bs n) = Some s \<and> ipv6 s = Some bs \<and>
      (take 12 bs = mapped_bytes \<longrightarrow> CHR ''.'' \<in> set s)"
    using ntop6_roundtrip [of bs] by (intro exI [of _ "ntop6_ref bs"]) (simp add: inet_ref_def AF_INET_def AF_INET6_def Let_def)
qed (auto simp: inet_ref_def AF_INET_def AF_INET6_def Let_def split: option.split)

text \<open>C11: The tests of the address functions report nothing for every implementation of their
  contract: \<open>inet_addr\<close> reads numbers and dots, \<open>inet_pton\<close> dotted decimal and the notation of IPv6 and
  nothing else, and \<open>inet_ntop\<close> writes a text that \<open>inet_pton\<close> reads back, dotted for a mapped
  address.\<close>

theorem inet_test_passes:
  assumes "inet_contract f"
  shows "t_status (inet_main f @ empty_last_field_main f buf @ v4mapped_main f addr) = 0"
  using inet_contract.inet_main_passes [OF assms] inet_contract.regressions_pass [OF assms] by simp

lemma inet_test_passes_witness:
  "t_status (inet_main inet_ref @ empty_last_field_main inet_ref (replicate 16 7) @ v4mapped_main inet_ref []) = 0"
  by (rule inet_test_passes [OF iref.inet_contract_axioms])

end
