(* ===== verification/TimeTest.thy ===== *)
theory TimeTest
  imports CString TestLog
begin

text \<open>
  time.c of libc/src/functional: \<open>gmtime\<close> and \<open>mktime\<close> are inverse to each other on a sample of
  times and on three broken-down times, the last one past the end of a 32-bit \<open>time_t\<close>.  The two
  functions are arguments: \<open>gmtime\<close> gives the broken-down time and \<open>errno\<close>, \<open>mktime\<close> the time,
  \<open>errno\<close> and the structure as it leaves it, each with \<open>errno\<close> cleared before the call.
\<close>

subsection \<open>The test\<close>

record tm =
  tm_sec :: int
  tm_min :: int
  tm_hour :: int
  tm_mday :: int
  tm_mon :: int
  tm_year :: int
  tm_wday :: int
  tm_yday :: int
  tm_isdst :: int

definition tm_cmp :: "tm \<Rightarrow> tm \<Rightarrow> bool" where
  "tm_cmp tm1 tm2 \<longleftrightarrow>
     tm_sec tm1 \<noteq> tm_sec tm2 \<or>
     tm_min tm1 \<noteq> tm_min tm2 \<or>
     tm_hour tm1 \<noteq> tm_hour tm2 \<or>
     tm_mday tm1 \<noteq> tm_mday tm2 \<or>
     tm_mon tm1 \<noteq> tm_mon tm2 \<or>
     tm_year tm1 \<noteq> tm_year tm2 \<or>
     tm_wday tm1 \<noteq> tm_wday tm2 \<or>
     tm_yday tm1 \<noteq> tm_yday tm2 \<or>
     tm_isdst tm1 \<noteq> tm_isdst tm2"

text \<open>\<open>%0kd\<close>.\<close>

definition pad_int :: "nat \<Rightarrow> int \<Rightarrow> cstr" where
  "pad_int k i =
     (if i < 0 then ''-'' @ replicate (k - 1 - length (dec_int (- i))) CHR ''0'' @ dec_int (- i)
      else replicate (k - length (dec_int i)) CHR ''0'' @ dec_int i)"

definition tm_text :: "tm \<Rightarrow> cstr" where
  "tm_text tm =
     ''s='' @ pad_int 2 (tm_sec tm) @ '' m='' @ pad_int 2 (tm_min tm) @ '' h='' @ pad_int 2 (tm_hour tm) @
     '' mday='' @ pad_int 2 (tm_mday tm) @ '' mon='' @ pad_int 2 (tm_mon tm) @
     '' year='' @ pad_int 4 (tm_year tm) @ '' wday='' @ dec_int (tm_wday tm) @
     '' yday='' @ dec_int (tm_yday tm) @ '' isdst='' @ dec_int (tm_isdst tm)"

text \<open>The static variables of \<open>tm_str\<close> are the number of the last buffer used and the four buffers of
  64 bytes; the result is the number of the buffer it returns.\<close>

definition tm_str :: "nat \<times> cstr list \<Rightarrow> tm \<Rightarrow> nat \<times> nat \<times> cstr list" where
  "tm_str st tm =
     (case st of (i, b) \<Rightarrow>
        let i = (i + 1) mod 4
        in (i, i, (case snd (snprintf 64 (tm_text tm)) of None \<Rightarrow> b | Some s \<Rightarrow> b[i := s])))"

definition TM :: "int \<Rightarrow> int \<Rightarrow> int \<Rightarrow> int \<Rightarrow> int \<Rightarrow> int \<Rightarrow> int \<Rightarrow> int \<Rightarrow> int \<Rightarrow> tm" where
  "TM ss mm hh md mo yr wd yd dst =
     \<lparr>tm_sec = ss, tm_min = mm, tm_hour = hh, tm_mday = md, tm_mon = mo, tm_year = yr,
      tm_wday = wd, tm_yday = yd, tm_isdst = dst\<rparr>"

definition TM_EPOCH :: tm where
  "TM_EPOCH = TM 0 0 0 1 0 70 4 0 0"

definition TM_Y2038_1S :: tm where
  "TM_Y2038_1S = TM 7 14 3 19 0 138 2 18 0"

definition TM_Y2038 :: tm where
  "TM_Y2038 = TM 8 14 3 19 0 138 2 18 0"

type_synonym gmtime_fn = "int \<Rightarrow> tm \<times> int"
type_synonym mktime_fn = "tm \<Rightarrow> int \<times> int \<times> tm"

definition EOVERFLOW :: int where
  "EOVERFLOW = 75"

text \<open>A conversion to the type \<open>time_t\<close>, of \<open>W\<close> bits.\<close>

definition time_t :: "nat \<Rightarrow> int \<Rightarrow> int" where
  "time_t W x = signed_take_bit (W - 1) x"

definition LLONG_MAX :: int where
  "LLONG_MAX = 2 ^ 63 - 1"

definition sec2tm :: "gmtime_fn \<Rightarrow> mktime_fn \<Rightarrow> int \<Rightarrow> log" where
  "sec2tm gmtime mktime t =
     (case gmtime t of (tm, errno) \<Rightarrow>
        check 55 (\<not> errno \<noteq> 0) @
        (case mktime tm of (r, errno, tm) \<Rightarrow>
           check 60 (\<not> errno \<noteq> 0) @
           check 63 (\<not> t \<noteq> r)))"

definition tm2sec :: "nat \<Rightarrow> gmtime_fn \<Rightarrow> mktime_fn \<Rightarrow> tm \<Rightarrow> bool \<Rightarrow> log" where
  "tm2sec W gmtime mktime tm big =
     (let overflow = big \<and> time_t W LLONG_MAX \<noteq> LLONG_MAX
      in case mktime tm of (t, errno, tm) \<Rightarrow>
           check 76 (\<not> (overflow \<and> t \<noteq> -1)) @
           check 79 (\<not> (overflow \<and> errno \<noteq> EOVERFLOW)) @
           check 82 (\<not> (\<not> overflow \<and> t = -1)) @
           check 85 (\<not> (\<not> overflow \<and> errno \<noteq> 0)) @
           (case gmtime t of (r, errno) \<Rightarrow> check 89 (\<not> (\<not> overflow \<and> tm_cmp r tm))))"

definition time_main :: "nat \<Rightarrow> gmtime_fn \<Rightarrow> mktime_fn \<Rightarrow> log" where
  "time_main W gmtime mktime =
     tm2sec W gmtime mktime TM_EPOCH False @
     tm2sec W gmtime mktime TM_Y2038_1S False @
     tm2sec W gmtime mktime TM_Y2038 True @
     sec2tm gmtime mktime 0 @
     concat (map (\<lambda>t. sec2tm gmtime mktime (int t * 100003)) [1..<1000])"

subsection \<open>The calendar\<close>

definition leap :: "int \<Rightarrow> bool" where
  "leap y \<longleftrightarrow> 4 dvd y \<and> (\<not> 100 dvd y \<or> 400 dvd y)"

text \<open>The days from 1970 to the start of year \<open>y\<close>, and from the start of a year to each month.\<close>

definition year_days :: "int \<Rightarrow> int" where
  "year_days y = 365 * (y - 1970) + ((y - 1) div 4 - (y - 1) div 100 + (y - 1) div 400) - 477"

definition month_days :: "bool \<Rightarrow> int list" where
  "month_days l =
     (if l then [0, 31, 60, 91, 121, 152, 182, 213, 244, 274, 305, 335, 366]
      else [0, 31, 59, 90, 120, 151, 181, 212, 243, 273, 304, 334, 365])"

text \<open>The formula of POSIX for the seconds since the epoch.\<close>

definition posix_secs :: "tm \<Rightarrow> int" where
  "posix_secs tm =
     tm_sec tm + tm_min tm * 60 + tm_hour tm * 3600 + tm_yday tm * 86400 +
     (tm_year tm - 70) * 31536000 + ((tm_year tm - 69) div 4) * 86400 -
     ((tm_year tm - 1) div 100) * 86400 + ((tm_year tm + 299) div 400) * 86400"

definition tm_valid :: "tm \<Rightarrow> bool" where
  "tm_valid tm \<longleftrightarrow>
     0 \<le> tm_sec tm \<and> tm_sec tm < 60 \<and> 0 \<le> tm_min tm \<and> tm_min tm < 60 \<and>
     0 \<le> tm_hour tm \<and> tm_hour tm < 24 \<and>
     0 \<le> tm_mon tm \<and> tm_mon tm < 12 \<and> 1 \<le> tm_mday tm \<and>
     (let l = leap (tm_year tm + 1900); m = nat (tm_mon tm)
      in tm_yday tm = month_days l ! m + tm_mday tm - 1 \<and> tm_yday tm < month_days l ! Suc m) \<and>
     tm_wday tm = (4 + year_days (tm_year tm + 1900) + tm_yday tm) mod 7 \<and>
     tm_isdst tm = 0"

lemma div_step:
  fixes y k :: int
  assumes "0 < k"
  shows "y div k - (y - 1) div k = (if k dvd y then 1 else 0)"
proof -
  define q r where "q = (y - 1) div k" and "r = (y - 1) mod k"
  have y: "y = (r + 1) + q * k" and r: "0 \<le> r" "r < k"
    using assms div_mult_mod_eq [of "y - 1" k] by (simp_all add: q_def r_def)
  have "y div k = q + (r + 1) div k" using assms by (simp only: y div_mult_self1)
  moreover have "k dvd y \<longleftrightarrow> k dvd r + 1" by (simp only: y) simp
  moreover have "(r + 1) div k = (if k dvd r + 1 then 1 else 0)"
  proof (cases "r + 1 = k")
    case False
    then show ?thesis using r zdvd_not_zless [of "r + 1" k] by simp
  qed (use assms in simp)
  ultimately show ?thesis by (simp add: q_def)
qed

lemma year_days_Suc: "year_days (y + 1) = year_days y + (if leap y then 366 else 365)"
proof -
  define a b c where "a = (y - 1) div 4" and "b = (y - 1) div 100" and "c = (y - 1) div 400"
  have "y div 4 = a + (if 4 dvd y then 1 else 0)" "y div 100 = b + (if 100 dvd y then 1 else 0)"
    "y div 400 = c + (if 400 dvd y then 1 else 0)"
    using div_step [of 4 y] div_step [of 100 y] div_step [of 400 y] by (simp_all only: a_def b_def c_def) simp_all
  then have "year_days (y + 1) = 365 * (y + 1 - 1970) + (a + (if 4 dvd y then 1 else 0)
      - (b + (if 100 dvd y then 1 else 0)) + (c + (if 400 dvd y then 1 else 0))) - 477"
    by (simp only: year_days_def add_diff_cancel)
  moreover have "year_days y = 365 * (y - 1970) + (a - b + c) - 477"
    by (simp only: year_days_def a_def b_def c_def)
  moreover have "100 dvd y" if "400 dvd y" using that by (rule dvd_trans [rotated]) simp
  moreover have "4 dvd y" if "100 dvd y" using that by (rule dvd_trans [rotated]) simp
  ultimately show ?thesis unfolding leap_def
    by (cases "4 dvd y"; cases "100 dvd y"; cases "400 dvd y") simp_all
qed

lemma year_days_mono: "y \<le> z \<Longrightarrow> year_days y \<le> year_days z"
proof (induction "nat (z - y)" arbitrary: z)
  case 0
  then show ?case by simp
next
  case (Suc n)
  then have "year_days y \<le> year_days (z - 1)" by (intro Suc.hyps(1)) auto
  also have "\<dots> \<le> year_days z" using year_days_Suc [of "z - 1"] by (simp split: if_splits)
  finally show ?case .
qed

lemma posix_secs_days:
  "posix_secs tm = tm_sec tm + 60 * tm_min tm + 3600 * tm_hour tm
     + 86400 * (year_days (tm_year tm + 1900) + tm_yday tm)"
proof -
  define y where "y = tm_year tm + 1899"
  have "tm_year tm - 69 = y + (- 492) * 4" "tm_year tm - 1 = y + (- 19) * 100"
    "tm_year tm + 299 = y + (- 4) * 400"
    by (simp_all add: y_def)
  then have "(tm_year tm - 69) div 4 = - 492 + y div 4" "(tm_year tm - 1) div 100 = - 19 + y div 100"
    "(tm_year tm + 299) div 400 = - 4 + y div 400"
    by (simp_all only: div_mult_self1)
  then show ?thesis unfolding posix_secs_def year_days_def by (simp add: y_def algebra_simps)
qed

text \<open>A broken-down time is determined by its seconds.\<close>

lemma year_unique:
  assumes "0 \<le> d" and "d < (if leap y then 366 else 365)"
    and "0 \<le> e" and "e < (if leap z then 366 else 365)"
    and "year_days y + d = year_days z + e"
  shows "y = z"
proof -
  have "\<not> a < b" if "0 \<le> f" "e' < (if leap a then 366 else 365)" "year_days a + e' = year_days b + f" for a b f e'
  proof
    assume "a < b"
    then have "year_days (a + 1) \<le> year_days b" by (intro year_days_mono) simp
    then show False using that year_days_Suc [of a] by simp
  qed
  from this [of e d y z] this [of d e z y] assms show ?thesis by simp
qed

lemma month_days_mono:
  assumes "m \<le> n" and "n \<le> 12"
  shows "month_days l ! m \<le> month_days l ! n"
proof -
  have "sorted (month_days l)" by (simp add: month_days_def)
  then show ?thesis using assms by (intro sorted_nth_mono) (simp_all add: month_days_def)
qed

lemma month_days_12: "month_days l ! 12 = (if l then 366 else 365)"
  by (simp add: month_days_def)

lemma month_days_0: "month_days l ! 0 = 0"
  by (simp add: month_days_def)

lemma valid_yday:
  assumes "tm_valid tm"
  shows "0 \<le> tm_yday tm" and "tm_yday tm < (if leap (tm_year tm + 1900) then 366 else 365)"
proof -
  let ?l = "leap (tm_year tm + 1900)" and ?m = "nat (tm_mon tm)"
  have "?m < 12" using assms by (simp add: tm_valid_def nat_less_iff)
  then have "month_days ?l ! 0 \<le> month_days ?l ! ?m" "month_days ?l ! Suc ?m \<le> month_days ?l ! 12"
    by (intro month_days_mono; simp)+
  then show "0 \<le> tm_yday tm" "tm_yday tm < (if ?l then 366 else 365)"
    using assms month_days_0 month_days_12 by (auto simp: tm_valid_def Let_def simp del: nth_Cons_0)
qed

lemma radix:
  fixes x q k :: int
  assumes "0 \<le> x" and "x < k"
  shows "(x + k * q) div k = q" and "(x + k * q) mod k = x"
  using assms by auto

lemma clock_radix:
  assumes "tm_valid tm"
  shows "posix_secs tm div 86400 = year_days (tm_year tm + 1900) + tm_yday tm"
    and "posix_secs tm mod 86400 div 3600 = tm_hour tm"
    and "posix_secs tm mod 3600 div 60 = tm_min tm"
    and "posix_secs tm mod 60 = tm_sec tm"
proof -
  define D where "D = year_days (tm_year tm + 1900) + tm_yday tm"
  have b: "0 \<le> tm_sec tm" "tm_sec tm < 60" "0 \<le> tm_min tm" "tm_min tm < 60" "0 \<le> tm_hour tm" "tm_hour tm < 24"
    using assms by (simp_all add: tm_valid_def)
  have p: "posix_secs tm = (tm_sec tm + 60 * tm_min tm + 3600 * tm_hour tm) + 86400 * D"
    "posix_secs tm = (tm_sec tm + 60 * tm_min tm) + 3600 * (tm_hour tm + 24 * D)"
    "posix_secs tm = tm_sec tm + 60 * (tm_min tm + 60 * (tm_hour tm + 24 * D))"
    by (simp_all add: posix_secs_days D_def algebra_simps)
  have r: "posix_secs tm div 86400 = D" "posix_secs tm mod 86400 = (tm_sec tm + 60 * tm_min tm) + 3600 * tm_hour tm"
    using b radix [of "tm_sec tm + 60 * tm_min tm + 3600 * tm_hour tm" 86400 D] by (simp_all only: p(1))
  then show "posix_secs tm div 86400 = year_days (tm_year tm + 1900) + tm_yday tm" by (simp add: D_def)
  show "posix_secs tm mod 86400 div 3600 = tm_hour tm"
    unfolding r(2) using b by (intro radix) linarith+
  have m: "posix_secs tm mod 3600 = tm_sec tm + 60 * tm_min tm"
    unfolding p(2) using b by (intro radix) linarith+
  show "posix_secs tm mod 3600 div 60 = tm_min tm"
    unfolding m using b by (intro radix) linarith+
  show "posix_secs tm mod 60 = tm_sec tm"
    unfolding p(3) using b by (intro radix) linarith+
qed

lemma month_unique:
  assumes "month_days l ! m \<le> d" "d < month_days l ! Suc m" "month_days l ! n \<le> d" "d < month_days l ! Suc n"
    and "m < 12" "n < 12"
  shows "m = n"
proof -
  have "\<not> m < n" using month_days_mono [of "Suc m" n l] assms by linarith
  moreover have "\<not> n < m" using month_days_mono [of "Suc n" m l] assms by linarith
  ultimately show ?thesis by simp
qed

lemma tm_valid_unique:
  assumes a: "tm_valid a" and b: "tm_valid b" and eq: "posix_secs a = posix_secs b"
  shows "a = b"
proof -
  note ra = clock_radix [OF a] and rb = clock_radix [OF b]
  have d: "year_days (tm_year a + 1900) + tm_yday a = year_days (tm_year b + 1900) + tm_yday b"
    using ra(1) rb(1) eq by simp
  have y: "tm_year a = tm_year b"
    using year_unique [OF valid_yday [OF a] valid_yday [OF b] d] by simp
  then have yd: "tm_yday a = tm_yday b" using d by simp
  have "nat (tm_mon a) = nat (tm_mon b)"
    using a b y yd month_unique [of "leap (tm_year a + 1900)" "nat (tm_mon a)" "tm_yday a" "nat (tm_mon b)"]
    by (simp add: tm_valid_def Let_def nat_less_iff)
  then have "tm_mon a = tm_mon b" using a b by (simp add: tm_valid_def eq_nat_nat_iff)
  moreover have "tm_mday a = tm_mday b" "tm_wday a = tm_wday b" "tm_isdst a = tm_isdst b"
    using a b y yd calculation by (simp_all add: tm_valid_def Let_def)
  ultimately show ?thesis using y yd ra rb eq by simp
qed

subsection \<open>Reference functions\<close>

text \<open>The year of a day: an estimate from the 146097 days of 400 years, at most one off.\<close>

definition year_of :: "int \<Rightarrow> int" where
  "year_of D =
     (let y = 1970 + 400 * D div 146097
      in if D < year_days y then y - 1 else if year_days (y + 1) \<le> D then y + 1 else y)"

definition gmtime_ref :: "int \<Rightarrow> tm" where
  "gmtime_ref t =
     (let D = t div 86400; y = year_of D; yday = D - year_days y;
          m = length (takeWhile (\<lambda>c. c \<le> yday) (month_days (leap y))) - 1
      in TM (t mod 60) (t mod 3600 div 60) (t mod 86400 div 3600) (yday - month_days (leap y) ! m + 1)
           (int m) (y - 1900) ((4 + D) mod 7) yday 0)"

definition mktime_ref :: "nat \<Rightarrow> mktime_fn" where
  "mktime_ref W tm =
     (let y = tm_year tm + 1900 + tm_mon tm div 12;
          D = year_days y + month_days (leap y) ! nat (tm_mon tm mod 12) + tm_mday tm - 1;
          t = tm_sec tm + 60 * tm_min tm + 3600 * tm_hour tm + 86400 * D
      in if time_t W t = t then (t, 0, gmtime_ref t) else (-1, EOVERFLOW, tm))"

lemma div_bounds:
  fixes n k :: int
  assumes "0 < k"
  shows "k * (n div k) \<le> n" and "n - k + 1 \<le> k * (n div k)"
  using assms mult_div_mod_eq [of k n] pos_mod_bound [of k n] pos_mod_sign [of k n] by linarith+

lemma div_below:
  fixes x a b :: int
  assumes "0 < b" and "x < b * a"
  shows "x div b < a"
proof -
  have "b * (x div b) < b * a" using div_bounds(1) [OF assms(1), of x] assms(2) by (rule le_less_trans)
  then show ?thesis using assms(1) by simp
qed

lemma year_days_bounds:
  "400 * year_days y \<le> 146097 * (y - 1970) + 589" "146097 * (y - 1970) - 506 \<le> 400 * year_days y"
proof -
  define a b c where abc: "a = (y - 1) div 4" "b = (y - 1) div 100" "c = (y - 1) div 400"
  have d: "4 * a \<le> y - 1" "y - 1 - 4 + 1 \<le> 4 * a" "100 * b \<le> y - 1" "y - 1 - 100 + 1 \<le> 100 * b"
    "400 * c \<le> y - 1" "y - 1 - 400 + 1 \<le> 400 * c"
    unfolding abc by (intro div_bounds; simp)+
  have "year_days y = 365 * (y - 1970) + (a - b + c) - 477"
    by (simp only: year_days_def abc)
  note d = d this
  show "400 * year_days y \<le> 146097 * (y - 1970) + 589" using d by simp
  show "146097 * (y - 1970) - 506 \<le> 400 * year_days y" using d by simp
qed

lemma year_of_days: "year_days (year_of D) \<le> D \<and> D < year_days (year_of D + 1)"
proof -
  define q where "q = 400 * D div 146097"
  have q: "146097 * q \<le> 400 * D" "400 * D < 146097 * (q + 1)"
    using mult_div_mod_eq [of 146097 "400 * D"] pos_mod_bound [of 146097 "400 * D"]
      pos_mod_sign [of 146097 "400 * D"] by (simp_all add: q_def)
  have "year_days (1970 + q - 1) \<le> D" using year_days_bounds(1) [of "1970 + q - 1"] q by simp
  moreover have "D < year_days (1970 + q + 2)" using year_days_bounds(2) [of "1970 + q + 2"] q by simp
  ultimately show ?thesis by (auto simp: year_of_def Let_def q_def [symmetric] add.commute add.left_commute)
qed

lemma gmtime_ref_valid: "tm_valid (gmtime_ref t)" and gmtime_ref_secs: "posix_secs (gmtime_ref t) = t"
proof -
  define D y yday where "D = t div 86400" and "y = year_of D" and "yday = D - year_days y"
  define l m where "l = leap y" and "m = length (takeWhile (\<lambda>c. c \<le> yday) (month_days l)) - 1"
  have g: "gmtime_ref t = TM (t mod 60) (t mod 3600 div 60) (t mod 86400 div 3600)
      (yday - month_days l ! m + 1) (int m) (y - 1900) ((4 + D) mod 7) yday 0"
    by (simp only: gmtime_ref_def Let_def D_def y_def yday_def l_def m_def)
  have yd: "0 \<le> yday" "yday < (if l then 366 else 365)"
    using year_of_days [of D] year_days_Suc [of y] by (simp_all add: y_def yday_def l_def)
  have m: "m < 12" "month_days l ! m \<le> yday" "yday < month_days l ! Suc m"
    using yd by (auto simp: m_def month_days_def split: if_splits)
  have sec: "0 \<le> t mod 60" "t mod 60 < 60" "0 \<le> t mod 3600 div 60" "t mod 3600 div 60 < 60"
    "0 \<le> t mod 86400 div 3600" "t mod 86400 div 3600 < 24"
    by (simp_all add: pos_imp_zdiv_nonneg_iff div_below)
  show "tm_valid (gmtime_ref t)"
    using m sec by (simp add: g TM_def tm_valid_def Let_def l_def [symmetric] yday_def algebra_simps)
  have sum: "x = s + 60 * q + 3600 * h + 86400 * d"
    if "x = 86400 * d + m" "m = 3600 * h + n" "n = 60 * q + s" for x d m h n q s :: int
    using that by simp
  have a: "t = 86400 * (t div 86400) + t mod 86400" by simp
  have b: "t mod 86400 = 3600 * (t mod 86400 div 3600) + t mod 3600"
    using mult_div_mod_eq [of 3600 "t mod 86400"] mod_mod_cancel [of 3600 86400 t] by simp
  have c: "t mod 3600 = 60 * (t mod 3600 div 60) + t mod 60"
    using mult_div_mod_eq [of 60 "t mod 3600"] mod_mod_cancel [of 60 3600 t] by simp
  have "t = t mod 60 + 60 * (t mod 3600 div 60) + 3600 * (t mod 86400 div 3600) + 86400 * (t div 86400)"
    by (rule sum [OF a b c])
  then show "posix_secs (gmtime_ref t) = t"
    by (simp add: posix_secs_days g TM_def yday_def D_def)
qed

text \<open>What the standard promises of the two functions, for \<open>time_t\<close> of \<open>W\<close> bits.\<close>

locale calendar =
  fixes W :: nat and gmtime :: gmtime_fn and mktime :: mktime_fn
  assumes W: "W = 32 \<or> W = 64"
    and gmtime_valid: "0 \<le> t \<Longrightarrow> t \<le> 2 ^ 31 \<Longrightarrow> tm_valid (fst (gmtime t)) \<and> posix_secs (fst (gmtime t)) = t"
    and gmtime_errno: "0 \<le> t \<Longrightarrow> t \<le> 2 ^ 31 \<Longrightarrow> snd (gmtime t) = 0"
    and mktime_fits: "tm_valid tm \<Longrightarrow> time_t W (posix_secs tm) = posix_secs tm \<Longrightarrow> mktime tm = (posix_secs tm, 0, tm)"
    and mktime_overflow: "tm_valid tm \<Longrightarrow> time_t W (posix_secs tm) \<noteq> posix_secs tm \<Longrightarrow>
      \<exists>tm'. mktime tm = (-1, EOVERFLOW, tm')"
begin

lemma time_t_small: "0 \<le> t \<Longrightarrow> t < 2 ^ 31 \<Longrightarrow> time_t W t = t"
  using W unfolding time_t_def by (elim disjE) (simp_all add: signed_take_bit_int_eq_self)

lemma sec2tm_passes: "0 \<le> t \<Longrightarrow> t < 2 ^ 31 \<Longrightarrow> sec2tm gmtime mktime t = []"
  using gmtime_valid [of t] gmtime_errno [of t] mktime_fits [of "fst (gmtime t)"] time_t_small [of t]
  by (cases "gmtime t") (simp add: sec2tm_def)

lemma tm2sec_passes:
  assumes "tm_valid tm" and "0 \<le> posix_secs tm" and "posix_secs tm \<le> 2 ^ 31"
    and "big \<longleftrightarrow> posix_secs tm = 2 ^ 31"
  shows "tm2sec W gmtime mktime tm big = []"
proof (cases "time_t W (posix_secs tm) = posix_secs tm")
  case True
  note m = mktime_fits [OF assms(1) True]
  have "fst (gmtime (posix_secs tm)) = tm"
    using gmtime_valid [of "posix_secs tm"] assms tm_valid_unique by blast
  moreover have "\<not> (big \<and> time_t W LLONG_MAX \<noteq> LLONG_MAX)"
    using True W assms(4) by (auto simp: time_t_def LLONG_MAX_def)
  ultimately show ?thesis using m assms(2) by (auto simp: tm2sec_def tm_cmp_def Let_def split: prod.splits)
next
  case False
  then obtain tm' where m: "mktime tm = (-1, EOVERFLOW, tm')" using mktime_overflow [OF assms(1)] by blast
  have big: "posix_secs tm = 2 ^ 31" using False assms(2,3) time_t_small [of "posix_secs tm"] by linarith
  then have "time_t W LLONG_MAX \<noteq> LLONG_MAX"
    using False W by (auto simp: time_t_def LLONG_MAX_def)
  then show ?thesis using m big assms(4) by (simp add: tm2sec_def Let_def split: prod.splits)
qed

end

lemma mktime_ref_secs:
  assumes "tm_valid tm"
  shows "mktime_ref W tm =
    (if time_t W (posix_secs tm) = posix_secs tm then (posix_secs tm, 0, tm) else (-1, EOVERFLOW, tm))"
proof -
  have m: "tm_mon tm div 12 = 0" "tm_mon tm mod 12 = tm_mon tm"
    using assms by (simp_all add: tm_valid_def)
  have "tm_yday tm = month_days (leap (tm_year tm + 1900)) ! nat (tm_mon tm) + tm_mday tm - 1"
    using assms by (simp add: tm_valid_def Let_def)
  then have "tm_sec tm + 60 * tm_min tm + 3600 * tm_hour tm + 86400 * (year_days (tm_year tm + 1900) +
      month_days (leap (tm_year tm + 1900)) ! nat (tm_mon tm) + tm_mday tm - 1) = posix_secs tm"
    by (simp add: posix_secs_days)
  moreover have "gmtime_ref (posix_secs tm) = tm"
    by (rule tm_valid_unique [OF gmtime_ref_valid assms gmtime_ref_secs])
  ultimately show ?thesis by (simp add: mktime_ref_def m)
qed

interpretation ref32: calendar 32 "\<lambda>t. (gmtime_ref t, 0)" "mktime_ref 32"
  by unfold_locales (simp_all add: gmtime_ref_valid gmtime_ref_secs mktime_ref_secs)

interpretation ref64: calendar 64 "\<lambda>t. (gmtime_ref t, 0)" "mktime_ref 64"
  by unfold_locales (simp_all add: gmtime_ref_valid gmtime_ref_secs mktime_ref_secs)

text \<open>Two texts of \<open>tm_str\<close> in one message do not overwrite each other: there are four buffers.\<close>

lemma tm_str_keeps_previous:
  assumes "length b = 4" and "tm_str (i, b) t1 = (p, st)" and "tm_str st t2 = (q, i', b')"
  shows "p \<noteq> q \<and> b' ! p = (snd st) ! p"
proof -
  have "(Suc (Suc i mod 4)) mod 4 \<noteq> Suc i mod 4" by presburger
  then show ?thesis using assms by (auto simp: tm_str_def Let_def mod_Suc_eq split: option.splits)
qed

text \<open>C13: The test of \<open>gmtime\<close> and \<open>mktime\<close> reports nothing for every pair that meets the standard,
  whether \<open>time_t\<close> has 32 or 64 bits: \<open>gmtime\<close> gives a broken-down time whose fields are in their
  ranges and whose seconds since the epoch, by the formula of POSIX, are the given time, \<open>mktime\<close> gives
  those seconds, or -1 and \<open>EOVERFLOW\<close> when they do not fit.  The round trips rest on the uniqueness of
  the broken-down time.\<close>

theorem time_test_passes:
  assumes "calendar W gmtime mktime"
  shows "time_main W gmtime mktime = []"
proof -
  have v: "tm_valid TM_EPOCH" "tm_valid TM_Y2038_1S" "tm_valid TM_Y2038"
    "posix_secs TM_EPOCH = 0" "posix_secs TM_Y2038_1S = 2 ^ 31 - 1" "posix_secs TM_Y2038 = 2 ^ 31"
    by code_simp+
  have "tm2sec W gmtime mktime TM_EPOCH False = []" "tm2sec W gmtime mktime TM_Y2038_1S False = []"
    "tm2sec W gmtime mktime TM_Y2038 True = []"
    using v by (intro calendar.tm2sec_passes [OF assms]; simp)+
  moreover have "sec2tm gmtime mktime 0 = []"
    by (rule calendar.sec2tm_passes [OF assms]) simp_all
  moreover have "list_all (\<lambda>t. sec2tm gmtime mktime (int t * 100003) = []) [1..<1000]"
    unfolding list_all_iff by (intro ballI calendar.sec2tm_passes [OF assms]) simp_all
  ultimately show ?thesis
    unfolding time_main_def concat_map_Nil [symmetric] by simp
qed

lemma time_test_passes_witness:
  "time_main 32 (\<lambda>t. (gmtime_ref t, 0)) (mktime_ref 32) = [] \<and>
   time_main 64 (\<lambda>t. (gmtime_ref t, 0)) (mktime_ref 64) = []"
  using time_test_passes [OF ref32.calendar_axioms] time_test_passes [OF ref64.calendar_axioms] by simp

end
