(* ===== verification/SearchTree.thy ===== *)
theory SearchTree
  imports CString TestLog "HOL-Library.Tree"
begin

text \<open>
  search_tsearch.c of libc/src/functional: a sanity test of the binary search tree of <search.h>.
  The five operations on the tree are arguments (a record over the type of its states).  An element
  is a pointer into the table \<open>tab\<close> and is named by its index; a pointer to a node is a number, 0 for
  the null pointer.  A walk is the list of the calls of its action.
\<close>

subsection \<open>The test\<close>

datatype VISIT = preorder | postorder | endorder | leaf

type_synonym visit = "nat \<times> nat \<times> VISIT \<times> nat"

record 'w tree_ops =
  tfind :: "'w \<Rightarrow> cstr \<Rightarrow> nat option"
  tsearch :: "nat \<Rightarrow> cstr \<Rightarrow> 'w \<Rightarrow> nat option \<times> 'w"
  tdelete :: "cstr \<Rightarrow> 'w \<Rightarrow> nat option \<times> 'w"
  twalk :: "'w \<Rightarrow> visit list"
  root_elem :: "'w \<Rightarrow> nat option"

record 'w tsearch_test =
  world :: 'w
  tab :: "(cstr \<times> int) list"
  cur :: nat
  count :: int
  wantc :: int
  parent :: nat
  errs :: log

definition err_if :: "nat \<Rightarrow> bool \<Rightarrow> ('w, 'z) tsearch_test_scheme \<Rightarrow> ('w, 'z) tsearch_test_scheme" where
  "err_if l bad s = s\<lparr>errs := errs s @ check l (\<not> bad)\<rparr>"

lemma err_if_simps [simp]:
  "world (err_if l bad s) = world s" "tab (err_if l bad s) = tab s" "cur (err_if l bad s) = cur s"
  "count (err_if l bad s) = count s" "wantc (err_if l bad s) = wantc s" "parent (err_if l bad s) = parent s"
  "errs (err_if l bad s) = errs s @ check l (\<not> bad)"
  by (simp_all add: err_if_def)

definition elem_k :: "(cstr \<times> int) list \<Rightarrow> nat \<Rightarrow> cstr" where
  "elem_k tb e = fst (tb ! e)"

definition elem_v :: "(cstr \<times> int) list \<Rightarrow> nat \<Rightarrow> int" where
  "elem_v tb e = snd (tb ! e)"

text \<open>\<open>k[0]\<close>.\<close>

definition first_char :: "cstr \<Rightarrow> int" where
  "first_char k = (case k of [] \<Rightarrow> 0 | c # _ \<Rightarrow> of_char c)"

definition act :: "(cstr \<times> int) list \<Rightarrow> visit \<Rightarrow> int \<times> log \<Rightarrow> int \<times> log" where
  "act tb ev st =
     (case ev of (node, e, v, d) \<Rightarrow>
      case st of (want, ls) \<Rightarrow>
        let k0 = first_char (elem_k tb e);
            ls = ls @ check 30 (\<not> (v = preorder \<and> k0 < want));
            ls = ls @ check 33 (\<not> (v = endorder \<and> k0 > want));
            ls = ls @ check 36 (\<not> (v = postorder \<and> k0 \<noteq> want));
            ls = ls @ check 39 (\<not> (v = leaf \<and> k0 \<noteq> want))
        in (if v = postorder \<or> v = leaf then want + 1 else want, ls))"

text \<open>The static variable \<open>p\<close> and the global \<open>parent\<close>.\<close>

definition getparent :: "(cstr \<times> int) list \<Rightarrow> cstr \<Rightarrow> visit \<Rightarrow> nat \<times> nat \<Rightarrow> nat \<times> nat" where
  "getparent tb searchkey ev st =
     (case ev of (node, e, v, d) \<Rightarrow>
      case st of (p, par) \<Rightarrow>
        let par = (if (v = preorder \<or> v = leaf) \<and> strcmp searchkey (elem_k tb e) = 0 then p else par);
            p = (if v = preorder \<or> v = postorder then node else p)
        in (p, par))"

definition get :: "'w tree_ops \<Rightarrow> cstr \<Rightarrow> 'w tsearch_test \<Rightarrow> nat option" where
  "get f k s = tfind f (world s) k"

definition set_elem :: "'w tree_ops \<Rightarrow> cstr \<Rightarrow> int \<Rightarrow> 'w tsearch_test \<Rightarrow> nat option \<times> 'w tsearch_test" where
  "set_elem f k v s =
     (let s = s\<lparr>tab := (tab s)[cur s := (k, v)]\<rparr>;
          s = (if get f k s = None then s\<lparr>count := count s + 1\<rparr> else s)
      in case tsearch f (cur s) k (world s) of (p, w) \<Rightarrow>
           let s = s\<lparr>cur := cur s + 1, world := w\<rparr>;
               bad = (case p of None \<Rightarrow> True | Some e \<Rightarrow> strcmp (elem_k (tab s) e) k \<noteq> 0);
               s = err_if 74 bad s
           in (p, if p = None then s\<lparr>count := count s - 1\<rparr> else s))"

definition del :: "'w tree_ops \<Rightarrow> cstr \<Rightarrow> 'w tsearch_test \<Rightarrow> nat option \<times> 'w tsearch_test" where
  "del f k s =
     (case tdelete f k (world s) of (p, w) \<Rightarrow>
        let s = s\<lparr>world := w\<rparr> in (p, if p \<noteq> None then s\<lparr>count := count s - 1\<rparr> else s))"

fun set_all :: "'w tree_ops \<Rightarrow> (cstr \<times> int) list \<Rightarrow> 'w tsearch_test \<Rightarrow> 'w tsearch_test" where
  "set_all f [] s = s"
| "set_all f ((k, v) # kvs) s = set_all f kvs (snd (set_elem f k v s))"

text \<open>A lookup or insertion that fails and whose result the test then uses ends it: \<open>None\<close>.\<close>

definition set_check :: "'w tree_ops \<Rightarrow> nat \<Rightarrow> cstr \<Rightarrow> int \<Rightarrow> int \<Rightarrow> 'w tsearch_test \<Rightarrow> 'w tsearch_test" where
  "set_check f l k v want s =
     (case set_elem f k v s of (e, s) \<Rightarrow>
        err_if l (case e of None \<Rightarrow> False | Some e \<Rightarrow> elem_v (tab s) e \<noteq> want) s)"

text \<open>The test up to the end of the first walk.\<close>

definition tsearch_fill :: "'w tree_ops \<Rightarrow> 'w tsearch_test \<Rightarrow> 'w tsearch_test" where
  "tsearch_fill f s =
     (let s = set_all f [(''f'', 6), (''b'', 2), (''c'', 3), (''e'', 5), (''h'', 8), (''g'', 7), (''a'', 1), (''d'', 4)] s;
          s = err_if 105 (case get f ''a'' s of None \<Rightarrow> True | Some e \<Rightarrow> elem_v (tab s) e \<noteq> 1) s;
          s = err_if 107 (get f ''z'' s \<noteq> None) s;
          s = set_check f 110 ''g'' 9 7 s;
          s = set_check f 113 ''g'' 9 7 s;
          s = set_check f 116 ''i'' 9 9 s
      in case del f ''foobar'' s of (p, s) \<Rightarrow> err_if 118 (p \<noteq> None) s)"

definition tsearch_walk :: "'w tree_ops \<Rightarrow> 'w tsearch_test \<Rightarrow> 'w tsearch_test" where
  "tsearch_walk f s =
     (case fold (act (tab s)) (twalk f (world s)) (wantc s, []) of (c, ls) \<Rightarrow>
        err_if 122 (c \<noteq> of_char CHR ''j'') (s\<lparr>wantc := c, errs := errs s @ ls\<rparr>))"

definition tsearch_parent :: "'w tree_ops \<Rightarrow> 'w tsearch_test \<Rightarrow> 'w tsearch_test" where
  "tsearch_parent f s =
     (let s = s\<lparr>parent := snd (fold (getparent (tab s) ''h'') (twalk f (world s)) (0, parent s))\<rparr>;
          s = err_if 126 (parent s = 0) s
      in case del f ''h'' s of (p, s) \<Rightarrow>
           err_if 129 ((case p of None \<Rightarrow> 0 | Some n \<Rightarrow> n) \<noteq> parent s) s)"

text \<open>Taking the root of an empty tree reads through a null pointer: \<open>None\<close>.\<close>

fun destroy :: "'w tree_ops \<Rightarrow> nat \<Rightarrow> 'w tsearch_test \<Rightarrow> 'w tsearch_test option" where
  "destroy f 0 s = Some s"
| "destroy f (Suc n) s =
     (case root_elem f (world s) of
        None \<Rightarrow> None
      | Some e \<Rightarrow>
          (case tdelete f (elem_k (tab s) e) (world s) of (p, w) \<Rightarrow>
             destroy f n (err_if 138 (p = None) (s\<lparr>world := w, count := count s - 1\<rparr>))))"

definition tsearch_destroy :: "'w tree_ops \<Rightarrow> 'w tsearch_test \<Rightarrow> 'w tsearch_test option" where
  "tsearch_destroy f s =
     (case root_elem f (world s) of
        None \<Rightarrow> None
      | Some e \<Rightarrow>
          (case del f (elem_k (tab s) e) s of (p, s) \<Rightarrow>
             let s = err_if 133 (p = None) s
             in if count s < 0 then None
                else (case destroy f (nat (count s)) s of
                        None \<Rightarrow> None
                      | Some s \<Rightarrow> Some (err_if 141 (root_elem f (world s) \<noteq> None) s))))"

definition tsearch_init :: "'w \<Rightarrow> 'w tsearch_test" where
  "tsearch_init w =
     \<lparr>world = w, tab = replicate 100 ([], 0), cur = 0, count = 0, wantc = of_char CHR ''a'', parent = 0, errs = []\<rparr>"

definition tsearch_main :: "'w tree_ops \<Rightarrow> 'w \<Rightarrow> log option" where
  "tsearch_main f w =
     map_option errs (tsearch_destroy f (tsearch_parent f (tsearch_walk f (tsearch_fill f (tsearch_init w)))))"

subsection \<open>What the tree promises\<close>

text \<open>The tree of a state: at each node the pointer to it, its key and its element.\<close>

type_synonym tnode = "nat \<times> cstr \<times> nat"

definition node_key :: "tnode \<Rightarrow> cstr" where
  "node_key n = fst (snd n)"

definition entries :: "tnode tree \<Rightarrow> (cstr \<times> nat) list" where
  "entries t = map snd (inorder t)"

definition search_tree :: "tnode tree \<Rightarrow> bool" where
  "search_tree t \<longleftrightarrow>
     sorted_wrt (\<lambda>a b. strcmp a b < 0) (map fst (entries t)) \<and> (\<forall>k \<in> set (map fst (entries t)). NUL \<notin> set k) \<and>
     0 \<notin> fst ` set_tree t"

fun events :: "nat \<Rightarrow> tnode tree \<Rightarrow> visit list" where
  "events d Leaf = []"
| "events d (Node l (n, k, e) r) =
     (if l = Leaf \<and> r = Leaf then [(n, e, leaf, d)]
      else (n, e, preorder, d) # events (Suc d) l @ (n, e, postorder, d) # events (Suc d) r @ [(n, e, endorder, d)])"

text \<open>The pointer to the parent of the node of key \<open>k\<close>, when that node is not the root.\<close>

fun root_key :: "tnode tree \<Rightarrow> cstr option" where
  "root_key Leaf = None"
| "root_key (Node l a r) = Some (node_key a)"

fun parent_in :: "cstr \<Rightarrow> tnode tree \<Rightarrow> nat option" where
  "parent_in k Leaf = None"
| "parent_in k (Node l a r) =
     (if root_key l = Some k \<or> root_key r = Some k then Some (fst a)
      else case parent_in k l of Some p \<Rightarrow> Some p | None \<Rightarrow> parent_in k r)"

subsection \<open>The two walks\<close>

lemma entries_simps [simp]: "entries Leaf = []" "entries (Node l a r) = entries l @ snd a # entries r"
  by (simp_all add: entries_def)

lemma count_up_split:
  "map (\<lambda>i. c + int i) [0..<a + Suc b] =
     map (\<lambda>i. c + int i) [0..<a] @ (c + int a) # map (\<lambda>i. c + int a + 1 + int i) [0..<b]"
  by (rule nth_equalityI) (auto simp: nth_append nth_Cons split: nat.splits)

lemma act_events:
  assumes "map (\<lambda>(k, e). first_char (elem_k tb e)) (entries t) = map (\<lambda>i. c + int i) [0..<size t]"
  shows "fold (act tb) (events d t) (c, ls) = (c + int (size t), ls)"
  using assms
proof (induction t arbitrary: c d ls)
  case (Node l a r)
  obtain n k e where a: "a = (n, k, e)" by (cases a) auto
  let ?g = "\<lambda>(k, e). first_char (elem_k tb e)"
  have len: "length (entries t) = size t" for t by (simp add: entries_def)
  have sp: "map (\<lambda>i. c + int i) [0..<size (Node l a r)] =
      map (\<lambda>i. c + int i) [0..<size l] @ (c + int (size l)) # map (\<lambda>i. c + int (size l) + 1 + int i) [0..<size r]"
    using count_up_split [of c "size l" "size r"] by (simp add: ac_simps)
  have l: "map ?g (entries l) = map (\<lambda>i. c + int i) [0..<size l]"
    and m: "first_char (elem_k tb e) = c + int (size l)"
    and r: "map ?g (entries r) = map (\<lambda>i. c + int (size l) + 1 + int i) [0..<size r]"
    using Node.prems unfolding sp by (auto simp: a len append_eq_append_conv)
  note IH = Node.IH(1) [OF l, of "Suc d"] Node.IH(2) [OF r, of "Suc d"]
  show ?case
    using IH m by (simp add: a act_def Let_def)
qed simp

lemma root_key_entry: "root_key t = Some x \<Longrightarrow> x \<in> fst ` set (entries t)"
  by (cases t) (auto simp: node_key_def image_iff)

text \<open>A node other than the root has a parent.\<close>

lemma parent_in_iff:
  "distinct (map fst (entries t)) \<Longrightarrow>
     parent_in key t \<noteq> None \<longleftrightarrow> key \<in> fst ` set (entries t) \<and> root_key t \<noteq> Some key"
proof (induction t)
  case (Node l a r)
  obtain n k e where a: "a = (n, k, e)" by (cases a) auto
  have "k \<notin> fst ` set (entries l)" "k \<notin> fst ` set (entries r)"
    using Node.prems by (auto simp: a)
  then show ?case
    using Node root_key_entry [of l key] root_key_entry [of r key]
    by (auto simp: a node_key_def split: option.split)
qed simp

lemma getparent_events:
  assumes "distinct (map fst (entries t))"
    and "\<forall>(k, e) \<in> set (entries t). elem_k tb e = k \<and> NUL \<notin> set k" and "NUL \<notin> set key"
  shows "\<exists>q. fold (getparent tb key) (events d t) (p, par) =
      (q, if key \<notin> fst ` set (entries t) then par
       else if root_key t = Some key then p else the (parent_in key t))"
  using assms(1,2)
proof (induction t arbitrary: d p par)
  case (Node l a r)
  obtain n k e where a: "a = (n, k, e)" by (cases a) auto
  have k: "elem_k tb e = k" "NUL \<notin> set k" using Node.prems by (auto simp: a)
  have cmp: "strcmp key k = 0 \<longleftrightarrow> key = k" using k(2) assms(3) by (rule strcmp_0_iff [rotated])
  have prems: "distinct (map fst (entries l))" "distinct (map fst (entries r))"
    "\<forall>(k, e) \<in> set (entries l). elem_k tb e = k \<and> NUL \<notin> set k"
    "\<forall>(k, e) \<in> set (entries r). elem_k tb e = k \<and> NUL \<notin> set k"
    using Node.prems by auto
  have disj: "k \<notin> fst ` set (entries l)" "k \<notin> fst ` set (entries r)"
    "key \<in> fst ` set (entries l) \<Longrightarrow> key \<notin> fst ` set (entries r)"
    using Node.prems(1) by (auto simp: a)
  define x where "x = (if key = k then p else par)"
  obtain q where q: "fold (getparent tb key) (events (Suc d) l) (n, x) =
      (q, if key \<notin> fst ` set (entries l) then x
       else if root_key l = Some key then n else the (parent_in key l))" (is "_ = (q, ?y)")
    using Node.IH(1) [OF prems(1,3)] by blast
  obtain q' where q': "fold (getparent tb key) (events (Suc d) r) (n, ?y) =
      (q', if key \<notin> fst ` set (entries r) then ?y
       else if root_key r = Some key then n else the (parent_in key r))" (is "_ = (q', ?z)")
    using Node.IH(2) [OF prems(2,4)] by blast
  have z: "?z = (if key \<notin> fst ` set (entries (Node l a r)) then par
      else if root_key (Node l a r) = Some key then p else the (parent_in key (Node l a r)))"
    using disj root_key_entry [of l key] root_key_entry [of r key]
      parent_in_iff [OF prems(1), of key] parent_in_iff [OF prems(2), of key]
    by (cases "key \<in> fst ` set (entries l)"; cases "key \<in> fst ` set (entries r)")
      (auto simp: x_def a node_key_def split: option.split)
  show ?case
  proof (cases "l = Leaf \<and> r = Leaf")
    case True
    then show ?thesis using k cmp by (auto simp: a getparent_def node_key_def Let_def)
  next
    case False
    then have "events d (Node l a r) = (n, e, preorder, d) # events (Suc d) l @ (n, e, postorder, d) #
        events (Suc d) r @ [(n, e, endorder, d)]"
      by (auto simp: a)
    moreover have "getparent tb key (n, e, preorder, d) (p, par) = (n, x)"
      using k cmp by (simp add: getparent_def x_def)
    moreover have "getparent tb key (n, e, postorder, d) (q, y) = (n, y)"
        "getparent tb key (n, e, endorder, d) (q', y) = (q', y)" for y
      by (simp_all add: getparent_def)
    ultimately have "fold (getparent tb key) (events d (Node l a r)) (p, par) = (q', ?z)"
      using q q' by (simp del: events.simps)
    then show ?thesis unfolding z by blast
  qed
qed simp

lemma strcmp_sorted_distinct: "sorted_wrt (\<lambda>a b. strcmp a b < 0) ks \<Longrightarrow> distinct ks"
  by (induction ks) auto

text \<open>The nine elements, in the order of the tree.\<close>

definition letters :: "cstr list" where
  "letters = [''a'', ''b'', ''c'', ''d'', ''e'', ''f'', ''g'', ''h'', ''i'']"

definition letter_values :: "cstr \<Rightarrow> int option" where
  "letter_values = map_of (zip letters [1, 2, 3, 4, 5, 6, 7, 8, 9])"

subsection \<open>The contract\<close>

definition lookup :: "tnode tree \<Rightarrow> cstr \<Rightarrow> nat option" where
  "lookup t = map_of (entries t)"

locale tree_contract =
  fixes f :: "'w tree_ops" and tree_of :: "'w \<Rightarrow> tnode tree"
  assumes find: "search_tree (tree_of w) \<Longrightarrow> NUL \<notin> set k \<Longrightarrow> tfind f w k = lookup (tree_of w) k"
    and search: "search_tree (tree_of w) \<Longrightarrow> NUL \<notin> set k \<Longrightarrow>
      e' = (case lookup (tree_of w) k of Some x \<Rightarrow> x | None \<Rightarrow> e) \<Longrightarrow>
      \<exists>w'. tsearch f e k w = (Some e', w') \<and> search_tree (tree_of w') \<and>
        lookup (tree_of w') = (lookup (tree_of w))(k \<mapsto> e')"
    and delete_none: "search_tree (tree_of w) \<Longrightarrow> NUL \<notin> set k \<Longrightarrow> lookup (tree_of w) k = None \<Longrightarrow>
      \<exists>w'. tdelete f k w = (None, w') \<and> search_tree (tree_of w') \<and> lookup (tree_of w') = lookup (tree_of w)"
    and delete_some: "search_tree (tree_of w) \<Longrightarrow> NUL \<notin> set k \<Longrightarrow> lookup (tree_of w) k \<noteq> None \<Longrightarrow>
      \<exists>p w'. tdelete f k w = (Some p, w') \<and> p \<noteq> 0 \<and> search_tree (tree_of w') \<and>
        lookup (tree_of w') = (lookup (tree_of w))(k := None) \<and>
        (root_key (tree_of w) \<noteq> Some k \<longrightarrow> parent_in k (tree_of w) = Some p)"
    and walk: "search_tree (tree_of w) \<Longrightarrow> twalk f w = events 0 (tree_of w)"
    and root: "root_elem f w = (case tree_of w of Leaf \<Rightarrow> None | Node l a r \<Rightarrow> Some (snd (snd a)))"
begin

text \<open>The invariant of the test: \<open>m\<close> is what has been put into the tree.\<close>

definition holds :: "(cstr \<Rightarrow> int option) \<Rightarrow> 'w tsearch_test \<Rightarrow> bool" where
  "holds m s \<longleftrightarrow>
     search_tree (tree_of (world s)) \<and> length (tab s) = 100 \<and> count s = int (card (dom m)) \<and>
     (\<forall>k. map_option (elem_v (tab s)) (lookup (tree_of (world s)) k) = m k) \<and>
     (\<forall>k e. lookup (tree_of (world s)) k = Some e \<longrightarrow> e < cur s \<and> elem_k (tab s) e = k)"

lemma holds_lookup: "holds m s \<Longrightarrow> lookup (tree_of (world s)) k = None \<longleftrightarrow> m k = None"
  unfolding holds_def by (metis map_option_is_None)

lemma holds_err_if [simp]: "holds m (err_if l bad s) = holds m s"
  by (simp add: holds_def err_if_def)

lemma holds_finite: "holds m s \<Longrightarrow> finite (dom m)"
proof -
  assume "holds m s"
  then have "dom m = dom (lookup (tree_of (world s)))" using holds_lookup by (auto simp: dom_def)
  then show ?thesis by (simp add: lookup_def finite_dom_map_of)
qed

lemma set_elem_holds:
  assumes h: "holds m s" and "cur s < 100" and "NUL \<notin> set k"
    and v': "v' = (case m k of None \<Rightarrow> v | Some x \<Rightarrow> x)"
  shows "\<exists>e s'. set_elem f k v s = (Some e, s') \<and> holds (m(k \<mapsto> v')) s' \<and> elem_v (tab s') e = v' \<and>
    cur s' = cur s + 1 \<and> wantc s' = wantc s \<and> parent s' = parent s \<and> errs s' = errs s"
proof -
  let ?T = "tree_of (world s)" and ?tb = "(tab s)[cur s := (k, v)]"
  define e where "e = (case lookup ?T k of Some x \<Rightarrow> x | None \<Rightarrow> cur s)"
  have T: "search_tree ?T" and len: "length (tab s) = 100" and c: "count s = int (card (dom m))"
    and mk: "map_option (elem_v (tab s)) (lookup ?T k) = m k"
    and old: "lookup ?T x = Some y \<Longrightarrow> y < cur s \<and> elem_k (tab s) y = x" for x y
    using h by (auto simp: holds_def)
  obtain w' where w': "tsearch f (cur s) k (world s) = (Some e, w')" "search_tree (tree_of w')"
      "lookup (tree_of w') = (lookup ?T)(k \<mapsto> e)"
    using search [OF T assms(3) e_def] by blast
  have keep: "elem_k ?tb y = elem_k (tab s) y" "elem_v ?tb y = elem_v (tab s) y" if "y < cur s" for y
    using that by (simp_all add: elem_k_def elem_v_def)
  have e: "elem_k ?tb e = k" "elem_v ?tb e = v'" "e < cur s + 1"
    using old [of k] keep mk assms(2) len v'
    by (auto simp: e_def elem_k_def elem_v_def split: option.splits)
  have cnt: "(if lookup ?T k = None then count s + 1 else count s) = int (card (dom (m(k \<mapsto> v'))))"
    using holds_lookup [OF h, of k] holds_finite [OF h] c
    by (simp add: card_insert_if) (auto simp: domIff)
  have "map_option (elem_v ?tb) (lookup (tree_of w') x) = (m(k \<mapsto> v')) x" for x
  proof (cases "x = k")
    case False
    have "map_option (elem_v (tab s)) (lookup ?T x) = m x" using h by (simp add: holds_def)
    then show ?thesis using False w'(3) old [of x] keep(2) by (cases "lookup ?T x") auto
  qed (simp add: w'(3) e(2))
  moreover have "lookup (tree_of w') x = Some y \<Longrightarrow> y < cur s + 1 \<and> elem_k ?tb y = x" for x y
    using e w'(3) old [of x y] keep(1) [of y] by (auto split: if_splits)
  ultimately have "holds (m(k \<mapsto> v')) (s\<lparr>tab := ?tb, count := (if lookup ?T k = None then count s + 1 else count s),
      cur := cur s + 1, world := w'\<rparr>)"
    using w'(2) len cnt by (simp add: holds_def)
  then show ?thesis
    using w'(1) e find [OF T assms(3)] by (auto simp: set_elem_def get_def Let_def err_if_def strcmp_refl split: if_splits)
qed

lemma get_holds:
  assumes "holds m s" and "NUL \<notin> set k"
  shows "get f k s = None \<longleftrightarrow> m k = None" and "get f k s = Some e \<Longrightarrow> m k = Some (elem_v (tab s) e)"
proof -
  have g: "get f k s = lookup (tree_of (world s)) k"
    using assms find by (simp add: get_def holds_def)
  show "get f k s = None \<longleftrightarrow> m k = None" using holds_lookup [OF assms(1)] g by simp
  show "m k = Some (elem_v (tab s) e)" if "get f k s = Some e"
    using assms(1) that g unfolding holds_def by (metis option.simps(9))
qed

lemma set_check_holds:
  assumes "holds m s" and "cur s < 100" and "NUL \<notin> set k"
    and "want = (case m k of None \<Rightarrow> v | Some x \<Rightarrow> x)"
  shows "holds (m(k \<mapsto> want)) (set_check f l k v want s) \<and> cur (set_check f l k v want s) = cur s + 1 \<and>
    wantc (set_check f l k v want s) = wantc s \<and> parent (set_check f l k v want s) = parent s \<and>
    errs (set_check f l k v want s) = errs s"
  using set_elem_holds [OF assms] by (auto simp: set_check_def)

lemma set_all_holds:
  assumes "holds m s" and "cur s + length kvs \<le> 100" and "list_all (\<lambda>(k, v). NUL \<notin> set k) kvs"
    and "distinct (map fst kvs)" and "fst ` set kvs \<inter> dom m = {}"
  shows "holds (m ++ map_of kvs) (set_all f kvs s) \<and> cur (set_all f kvs s) = cur s + length kvs \<and>
    wantc (set_all f kvs s) = wantc s \<and> parent (set_all f kvs s) = parent s \<and> errs (set_all f kvs s) = errs s"
  using assms
proof (induction kvs arbitrary: m s)
  case (Cons kv kvs)
  obtain k v where kv: "kv = (k, v)" by (cases kv)
  have "m k = None" using Cons.prems(5) by (auto simp: kv domIff)
  then have "v = (case m k of None \<Rightarrow> v | Some x \<Rightarrow> x)" by simp
  from set_elem_holds [OF Cons.prems(1) _ _ this] obtain e s' where
    s': "set_elem f k v s = (Some e, s')" "holds (m(k \<mapsto> v)) s'" "cur s' = cur s + 1" "wantc s' = wantc s"
      "parent s' = parent s" "errs s' = errs s"
    using Cons.prems(2,3) by (auto simp: kv)
  have d: "fst ` set kvs \<inter> dom (m(k \<mapsto> v)) = {}" using Cons.prems(4,5) by (auto simp: kv)
  have l: "cur s' + length kvs \<le> 100" "list_all (\<lambda>(k, v). NUL \<notin> set k) kvs" "distinct (map fst kvs)"
    using Cons.prems(2-4) s'(3) by simp_all
  have m: "m(k \<mapsto> v) ++ map_of kvs = m ++ map_of (kv # kvs)"
    using Cons.prems(4) by (simp add: kv map_add_upd_left dom_map_of_conv_image_fst)
  have "set_all f (kv # kvs) s = set_all f kvs s'" using s'(1) by (simp add: kv)
  then show ?case using Cons.IH [OF s'(2) l d] s'(3-6) unfolding m by (simp del: map_of.simps)
qed simp

lemma del_holds:
  assumes "holds m s" and "NUL \<notin> set k"
  shows "\<exists>p s'. del f k s = (p, s') \<and> holds (m(k := None)) s' \<and> (p = None \<longleftrightarrow> m k = None) \<and> p \<noteq> Some 0 \<and>
    (m k \<noteq> None \<and> root_key (tree_of (world s)) \<noteq> Some k \<longrightarrow> p = parent_in k (tree_of (world s))) \<and>
    wantc s' = wantc s \<and> parent s' = parent s \<and> errs s' = errs s \<and> tab s' = tab s"
proof (cases "m k")
  case None
  then have "lookup (tree_of (world s)) k = None" using holds_lookup [OF assms(1)] by simp
  then obtain w' where "tdelete f k (world s) = (None, w')" "search_tree (tree_of w')"
      "lookup (tree_of w') = lookup (tree_of (world s))"
    using delete_none [of "world s" k] assms by (auto simp: holds_def)
  then show ?thesis using assms(1) None by (auto simp: del_def holds_def Let_def fun_upd_idem)
next
  case (Some x)
  then have "lookup (tree_of (world s)) k \<noteq> None" using holds_lookup [OF assms(1), of k] by simp
  then obtain p w' where w': "tdelete f k (world s) = (Some p, w')" "p \<noteq> 0" "search_tree (tree_of w')"
      "lookup (tree_of w') = (lookup (tree_of (world s)))(k := None)"
      "root_key (tree_of (world s)) \<noteq> Some k \<longrightarrow> parent_in k (tree_of (world s)) = Some p"
    using delete_some [of "world s" k] assms by (auto simp: holds_def)
  have "finite (dom m)" using holds_finite [OF assms(1)] .
  moreover have "k \<in> dom m" using Some by auto
  ultimately have "card (dom (m(k := None))) = card (dom m) - 1" "card (dom m) \<noteq> 0"
    by (simp_all add: card_Diff_singleton) auto
  then have "int (card (dom m)) - 1 = int (card (dom (m(k := None))))" by simp
  then have "holds (m(k := None)) (s\<lparr>world := w', count := count s - 1\<rparr>)"
    using assms(1) w'(3,4) by (auto simp: holds_def)
  then show ?thesis using w' Some by (auto simp: del_def Let_def)
qed

lemma fill_holds:
  assumes "tree_of w = Leaf"
  shows "holds letter_values (tsearch_fill f (tsearch_init w)) \<and> errs (tsearch_fill f (tsearch_init w)) = [] \<and>
    wantc (tsearch_fill f (tsearch_init w)) = 97 \<and> parent (tsearch_fill f (tsearch_init w)) = 0"
proof -
  let ?kvs = "[(''f'', 6), (''b'', 2), (''c'', 3), (''e'', 5), (''h'', 8), (''g'', 7), (''a'', 1), (''d'', 4)] :: (cstr \<times> int) list"
  have "holds Map.empty (tsearch_init w)"
    using assms by (simp add: holds_def tsearch_init_def search_tree_def lookup_def)
  from set_all_holds [OF this, of ?kvs]
  have s1: "holds (map_of ?kvs) (set_all f ?kvs (tsearch_init w))" "cur (set_all f ?kvs (tsearch_init w)) = 8"
      "wantc (set_all f ?kvs (tsearch_init w)) = 97" "parent (set_all f ?kvs (tsearch_init w)) = 0"
      "errs (set_all f ?kvs (tsearch_init w)) = []"
    by (simp_all add: tsearch_init_def NUL_def del: map_of.simps set_all.simps)
  define m where "m = map_of ?kvs"
  define s where "s = set_all f ?kvs (tsearch_init w)"
  have m: "m ''a'' = Some 1" "m ''z'' = None" "m ''g'' = Some 7" "m ''i'' = None" "m ''foobar'' = None"
    by (simp_all add: m_def)
  note s = s1 [folded m_def s_def]
  have a: "\<not> (case get f ''a'' s of None \<Rightarrow> True | Some e \<Rightarrow> elem_v (tab s) e \<noteq> 1)"
    using get_holds [OF s(1), of "''a''"] m(1) by (auto simp: NUL_def split: option.split)
  define s2 where "s2 = err_if 105 (case get f ''a'' s of None \<Rightarrow> True | Some e \<Rightarrow> elem_v (tab s) e \<noteq> 1) s"
  have s2: "holds m s2" "cur s2 = 8" "wantc s2 = 97" "parent s2 = 0" "errs s2 = []"
    using s a by (simp_all add: s2_def)
  define s3 where "s3 = err_if 107 (get f ''z'' s2 \<noteq> None) s2"
  have s3: "holds m s3" "cur s3 = 8" "wantc s3 = 97" "parent s3 = 0" "errs s3 = []"
    using s2 get_holds(1) [OF s2(1), of "''z''"] m(2) by (simp_all add: s3_def NUL_def)
  define s4 where "s4 = set_check f 110 ''g'' 9 7 s3"
  have s4: "holds (m(''g'' \<mapsto> 7)) s4" "cur s4 = 9" "wantc s4 = 97" "parent s4 = 0" "errs s4 = []"
    using set_check_holds [OF s3(1), of "''g''" 7 9 110] s3 m(3) by (simp_all add: s4_def NUL_def)
  define s5 where "s5 = set_check f 113 ''g'' 9 7 s4"
  have s5: "holds (m(''g'' \<mapsto> 7)) s5" "cur s5 = 10" "wantc s5 = 97" "parent s5 = 0" "errs s5 = []"
    using set_check_holds [OF s4(1), of "''g''" 7 9 113] s4 by (simp_all add: s5_def NUL_def)
  define s6 where "s6 = set_check f 116 ''i'' 9 9 s5"
  have s6: "holds (m(''g'' \<mapsto> 7, ''i'' \<mapsto> 9)) s6" "wantc s6 = 97" "parent s6 = 0" "errs s6 = []"
    using set_check_holds [OF s5(1), of "''i''" 9 9 116] s5 m(4) by (simp_all add: s6_def NUL_def)
  obtain p s7 where s7: "del f ''foobar'' s6 = (p, s7)" "holds (m(''g'' \<mapsto> 7, ''i'' \<mapsto> 9, ''foobar'' := None)) s7"
      "p = None" "wantc s7 = 97" "parent s7 = 0" "errs s7 = []"
    using del_holds [OF s6(1), of "''foobar''"] s6 m(5) by (auto simp: NUL_def)
  have v: "m(''g'' \<mapsto> 7, ''i'' \<mapsto> 9, ''foobar'' := None) = letter_values"
    by (rule ext) (simp add: m_def letter_values_def letters_def)
  have "tsearch_fill f (tsearch_init w) = err_if 118 (p \<noteq> None) s7"
    by (simp only: tsearch_fill_def Let_def s_def [symmetric] s2_def [symmetric] s3_def [symmetric]
        s4_def [symmetric] s5_def [symmetric] s6_def [symmetric] s7(1) prod.case)
  then show ?thesis using s7 unfolding v by simp
qed

text \<open>The first walk sees the letters in order.\<close>

lemma letters_in_order:
  assumes "holds letter_values s"
  shows "map fst (entries (tree_of (world s))) = letters"
proof -
  let ?ks = "map fst (entries (tree_of (world s)))"
  have st: "search_tree (tree_of (world s))" using assms by (simp add: holds_def)
  then have so: "sorted_wrt (\<lambda>a b. strcmp a b < 0) ?ks" by (simp add: search_tree_def)
  have "set ?ks = dom (lookup (tree_of (world s)))" by (simp add: lookup_def dom_map_of_conv_image_fst)
  also have "\<dots> = dom letter_values" using holds_lookup [OF assms] by (auto simp: dom_def)
  also have "\<dots> = set letters" by (auto simp: letter_values_def letters_def split: if_splits)
  finally have set: "set ?ks = set letters" .
  have "distinct ?ks" using so by (rule strcmp_sorted_distinct)
  moreover have "distinct letters" by (simp add: letters_def)
  ultimately have "mset ?ks = mset letters" using set set_eq_iff_mset_eq_distinct by blast
  moreover have "sorted_wrt (\<lambda>a b. strcmp a b < 0) letters" by code_simp
  moreover have "x = y" if "strcmp x y < 0 \<and> strcmp y x < 0" for x y
    using that strcmp_flip [of x y] by linarith
  ultimately show ?thesis
    using so by (intro sorted_wrt_unique [where R = "\<lambda>a b. strcmp a b < 0"]) blast+
qed

lemma entries_elem:
  assumes "holds m s" and "(k, e) \<in> set (entries (tree_of (world s)))"
  shows "elem_k (tab s) e = k" and "NUL \<notin> set k" and "m k \<noteq> None"
proof -
  have st: "search_tree (tree_of (world s))" using assms(1) by (simp add: holds_def)
  then have "distinct (map fst (entries (tree_of (world s))))"
    by (intro strcmp_sorted_distinct) (simp add: search_tree_def)
  then have l: "lookup (tree_of (world s)) k = Some e" using assms(2) by (simp add: lookup_def)
  show "elem_k (tab s) e = k" using assms(1) l by (simp add: holds_def)
  show "NUL \<notin> set k" using st assms(2) by (force simp: search_tree_def)
  show "m k \<noteq> None" using l holds_lookup [OF assms(1), of k] by auto
qed

lemma walk_holds:
  assumes "holds letter_values s" and "wantc s = 97" and "errs s = []"
  shows "tsearch_walk f s = s\<lparr>wantc := 106\<rparr>"
proof -
  let ?t = "tree_of (world s)"
  note o = letters_in_order [OF assms(1)]
  have "length (entries ?t) = length letters" by (simp flip: o)
  then have len: "size ?t = 9" by (simp add: entries_def letters_def)
  have "map (\<lambda>(k, e). first_char (elem_k (tab s) e)) (entries ?t) = map first_char (map fst (entries ?t))"
    using entries_elem(1) [OF assms(1)] by auto
  also have "\<dots> = map (\<lambda>i. 97 + int i) [0..<size ?t]"
    unfolding o len by (simp add: letters_def first_char_def upt_rec)
  finally have "fold (act (tab s)) (events 0 ?t) (97, []) = (106, [])"
    using act_events [of "tab s" ?t 97 0 "[]"] len by simp
  moreover have "twalk f (world s) = events 0 ?t" using walk assms(1) by (simp add: holds_def)
  ultimately show ?thesis using assms(2,3) by (simp add: tsearch_walk_def err_if_def)
qed

lemma parent_holds:
  assumes "holds letter_values s" and "errs s = []" and "parent s = 0"
  shows "\<exists>s'. tsearch_parent f s = s' \<and> holds (letter_values(''h'' := None)) s' \<and>
    errs s' = (if root_key (tree_of (world s)) = Some ''h'' then [126, 129] else [])"
proof -
  let ?t = "tree_of (world s)"
  have st: "search_tree ?t" using assms(1) by (simp add: holds_def)
  have d: "distinct (map fst (entries ?t))" using letters_in_order [OF assms(1)] by (simp add: letters_def)
  have "\<forall>(k, e) \<in> set (entries ?t). elem_k (tab s) e = k \<and> NUL \<notin> set k"
    using entries_elem(1,2) [OF assms(1)] by auto
  moreover have h: "''h'' \<in> fst ` set (entries ?t)"
    using letters_in_order [OF assms(1)] by (simp add: letters_def flip: set_map)
  moreover have "NUL \<notin> set ''h''" by (simp add: NUL_def)
  ultimately have gp: "snd (fold (getparent (tab s) ''h'') (events 0 ?t) (0, 0)) =
      (if root_key ?t = Some ''h'' then 0 else the (parent_in ''h'' ?t))"
    using getparent_events [OF d, of "tab s" "''h''" 0 0 0] by auto
  define s1 where "s1 = s\<lparr>parent := (if root_key ?t = Some ''h'' then 0 else the (parent_in ''h'' ?t))\<rparr>"
  define s2 where "s2 = err_if 126 (parent s1 = 0) s1"
  have s2: "holds letter_values s2" "world s2 = world s" "parent s2 = parent s1"
    using assms(1) by (simp_all add: s2_def s1_def holds_def)
  have nz: "parent_in k t \<noteq> None \<Longrightarrow> the (parent_in k t) \<in> fst ` set_tree t" for k t
    by (induction t) (auto split: option.splits)
  have p0: "parent s1 = 0 \<longleftrightarrow> root_key ?t = Some ''h''"
  proof (cases "root_key ?t = Some ''h''")
    case False
    then have "the (parent_in ''h'' ?t) \<in> fst ` set_tree ?t"
      using parent_in_iff [OF d, of "''h''"] h by (intro nz) simp
    then have "the (parent_in ''h'' ?t) \<noteq> 0" using st unfolding search_tree_def by metis
    then show ?thesis using False by (simp add: s1_def)
  qed (simp add: s1_def)
  have "letter_values ''h'' \<noteq> None" by (simp add: letter_values_def letters_def)
  then obtain p s3 where s3: "del f ''h'' s2 = (p, s3)" "holds (letter_values(''h'' := None)) s3" "p \<noteq> None" "p \<noteq> Some 0"
      "root_key ?t \<noteq> Some ''h'' \<longrightarrow> p = parent_in ''h'' ?t" "errs s3 = errs s2" "parent s3 = parent s2"
    using del_holds [OF s2(1), of "''h''"] s2(2) by (auto simp: NUL_def)
  have "tsearch_parent f s = err_if 129 ((case p of None \<Rightarrow> 0 | Some n \<Rightarrow> n) \<noteq> parent s3) s3"
    using s3(1) gp walk [OF st] assms(3)
    by (simp add: tsearch_parent_def Let_def s2_def s1_def)
  moreover have "errs s2 = (if root_key ?t = Some ''h'' then [126] else [])"
    using p0 assms(2) by (simp add: s2_def s1_def)
  moreover have "(case p of None \<Rightarrow> 0 | Some n \<Rightarrow> n) \<noteq> parent s3 \<longleftrightarrow> root_key ?t = Some ''h''"
    using s3 s2(3) p0 by (auto simp: s1_def split: option.split)
  ultimately show ?thesis using s3 by simp
qed

lemma root_holds:
  assumes "holds m s"
  shows "m = Map.empty \<Longrightarrow> root_elem f (world s) = None"
    and "m \<noteq> Map.empty \<Longrightarrow> \<exists>e. root_elem f (world s) = Some e \<and> m (elem_k (tab s) e) \<noteq> None \<and> NUL \<notin> set (elem_k (tab s) e)"
proof -
  have l: "lookup (tree_of (world s)) k = None \<longleftrightarrow> m k = None" for k by (rule holds_lookup [OF assms])
  show "root_elem f (world s) = None" if "m = Map.empty"
  proof (cases "tree_of (world s)")
    case (Node t1 a t2)
    then show ?thesis using l [of "fst (snd a)"] that by (auto simp: lookup_def)
  qed (use root in simp)
  show "\<exists>e. root_elem f (world s) = Some e \<and> m (elem_k (tab s) e) \<noteq> None \<and> NUL \<notin> set (elem_k (tab s) e)"
    if "m \<noteq> Map.empty"
  proof (cases "tree_of (world s)")
    case Leaf
    then show ?thesis using that l by (auto simp: lookup_def)
  next
    case (Node t1 a t2)
    then have "(fst (snd a), snd (snd a)) \<in> set (entries (tree_of (world s)))" by simp
    from entries_elem [OF assms this] show ?thesis using root [of "world s"] Node by simp
  qed
qed

lemma destroy_holds:
  assumes "holds m s" and "card (dom m) = n"
  shows "\<exists>s'. destroy f n s = Some s' \<and> holds Map.empty s' \<and> errs s' = errs s"
  using assms
proof (induction n arbitrary: m s)
  case 0
  then have "m = Map.empty" using holds_finite [OF 0(1)] by simp
  then show ?case using 0 by simp
next
  case (Suc n)
  then have "m \<noteq> Map.empty" by auto
  then obtain e where e: "root_elem f (world s) = Some e" "m (elem_k (tab s) e) \<noteq> None" "NUL \<notin> set (elem_k (tab s) e)"
    using root_holds(2) [OF Suc.prems(1)] by blast
  obtain p s' where s': "del f (elem_k (tab s) e) s = (p, s')" "p \<noteq> None" "holds (m(elem_k (tab s) e := None)) s'"
      "errs s' = errs s"
    using del_holds [OF Suc.prems(1) e(3)] e(2) by auto
  have "card (dom (m(elem_k (tab s) e := None))) = n"
    using Suc.prems(2) holds_finite [OF Suc.prems(1)] e(2) by (auto simp: card_Diff_singleton domIff)
  from Suc.IH [OF s'(3) this] obtain s'' where "destroy f n s' = Some s''" "holds Map.empty s''" "errs s'' = errs s"
    using s'(4) by auto
  moreover have "destroy f (Suc n) s = destroy f n s'"
    using s'(1,2) e(1) by (auto simp: del_def Let_def err_if_def split: prod.splits)
  ultimately show ?case by (simp del: destroy.simps)
qed

lemma tsearch_main_log:
  assumes "tree_of w = Leaf"
  shows "tsearch_main f w =
    Some (if root_key (tree_of (world (tsearch_fill f (tsearch_init w)))) = Some ''h'' then [126, 129] else [])"
proof -
  define s1 where "s1 = tsearch_fill f (tsearch_init w)"
  have s1: "holds letter_values s1" "errs s1 = []" "wantc s1 = 97" "parent s1 = 0"
    using fill_holds [OF assms] by (simp_all add: s1_def)
  define s2 where "s2 = tsearch_walk f s1"
  have s2: "holds letter_values s2" "errs s2 = []" "parent s2 = 0" "world s2 = world s1"
    using s1 walk_holds [OF s1(1,3,2)] by (simp_all add: s2_def holds_def)
  let ?E = "if root_key (tree_of (world s1)) = Some ''h'' then [126, 129] else []"
  obtain s3 where s3: "tsearch_parent f s2 = s3" "holds (letter_values(''h'' := None)) s3" "errs s3 = ?E"
    using parent_holds [OF s2(1-3)] s2(4) by auto
  let ?m = "letter_values(''h'' := None)"
  have "?m ''a'' = Some 1" by (simp add: letter_values_def letters_def)
  then have "?m \<noteq> Map.empty" by (metis option.distinct(1))
  from root_holds(2) [OF s3(2) this] obtain e where
    e: "root_elem f (world s3) = Some e" "?m (elem_k (tab s3) e) \<noteq> None" "NUL \<notin> set (elem_k (tab s3) e)" by blast
  obtain p s4 where s4: "del f (elem_k (tab s3) e) s3 = (p, s4)" "p \<noteq> None"
      "holds (?m(elem_k (tab s3) e := None)) s4" "errs s4 = ?E"
    using del_holds [OF s3(2) e(3)] e(2) s3(3) by auto
  have cnt: "count s4 = int (card (dom (?m(elem_k (tab s3) e := None))))" using s4(3) by (simp add: holds_def)
  obtain s5 where s5: "destroy f (nat (count s4)) s4 = Some s5" "holds Map.empty s5" "errs s5 = ?E"
    using destroy_holds [OF s4(3)] cnt s4(4) by auto
  have "root_elem f (world s5) = None" using root_holds(1) [OF s5(2)] by simp
  then have "tsearch_destroy f s3 = Some (err_if 141 False s5)"
    using e(1) s4 s5(1) cnt by (simp add: tsearch_destroy_def err_if_def)
  then show ?thesis
    unfolding tsearch_main_def s1_def [symmetric] s2_def [symmetric] s3(1) by (simp add: s5(3))
qed

end

subsection \<open>An unbalanced search tree\<close>

fun bst_find :: "cstr \<Rightarrow> tnode tree \<Rightarrow> nat option" where
  "bst_find k Leaf = None"
| "bst_find k (Node l a r) =
     (if strcmp k (node_key a) < 0 then bst_find k l
      else if strcmp k (node_key a) = 0 then Some (snd (snd a)) else bst_find k r)"

fun bst_insert :: "tnode \<Rightarrow> tnode tree \<Rightarrow> tnode tree" where
  "bst_insert x Leaf = Node Leaf x Leaf"
| "bst_insert x (Node l a r) =
     (if strcmp (node_key x) (node_key a) < 0 then Node (bst_insert x l) a r
      else if strcmp (node_key x) (node_key a) = 0 then Node l a r else Node l a (bst_insert x r))"

fun split_min :: "tnode tree \<Rightarrow> tnode \<Rightarrow> tnode tree \<Rightarrow> tnode \<times> tnode tree" where
  "split_min Leaf a r = (a, r)"
| "split_min (Node ll la lr) a r = (case split_min ll la lr of (x, l) \<Rightarrow> (x, Node l a r))"

fun bst_delete :: "cstr \<Rightarrow> tnode tree \<Rightarrow> tnode tree" where
  "bst_delete k Leaf = Leaf"
| "bst_delete k (Node l a r) =
     (if strcmp k (node_key a) < 0 then Node (bst_delete k l) a r
      else if strcmp k (node_key a) = 0
      then (case r of Leaf \<Rightarrow> l | Node rl ra rr \<Rightarrow> (case split_min rl ra rr of (x, r') \<Rightarrow> Node l x r'))
      else Node l a (bst_delete k r))"

fun bst :: "tnode tree \<Rightarrow> bool" where
  "bst Leaf = True"
| "bst (Node l a r) =
     (bst l \<and> bst r \<and> (\<forall>x \<in> set_tree l. strcmp (node_key x) (node_key a) < 0) \<and>
      (\<forall>x \<in> set_tree r. strcmp (node_key a) (node_key x) < 0))"

definition bst_ops :: "tnode tree tree_ops" where
  "bst_ops =
     \<lparr>tfind = (\<lambda>t k. bst_find k t),
      tsearch = (\<lambda>e k t. (Some (case bst_find k t of Some x \<Rightarrow> x | None \<Rightarrow> e), bst_insert (Suc e, k, e) t)),
      tdelete = (\<lambda>k t.
        (if bst_find k t = None then None
         else Some (case parent_in k t of Some p \<Rightarrow> p | None \<Rightarrow> 1), bst_delete k t)),
      twalk = events 0,
      root_elem = (\<lambda>t. case t of Leaf \<Rightarrow> None | Node l a r \<Rightarrow> Some (snd (snd a)))\<rparr>"

lemma sorted_keys_bst: "sorted_wrt (\<lambda>a b. strcmp a b < 0) (map fst (entries t)) \<Longrightarrow> bst t"
  by (induction t) (auto simp: sorted_wrt_append node_key_def entries_def image_iff)

lemma strcmp_less_trans:
  assumes "NUL \<notin> set s" "NUL \<notin> set t" "NUL \<notin> set u" "strcmp s t < 0" "strcmp t u < 0"
  shows "strcmp s u < 0"
proof -
  have "strcmp s u \<le> 0" using strcmp_trans [OF assms(1-3)] assms(4,5) by simp
  moreover have "strcmp s u \<noteq> 0" using strcmp_0_iff [OF assms(1,3)] assms(4,5) strcmp_flip [of s t] by auto
  ultimately show ?thesis by simp
qed

definition keys_ok :: "tnode tree \<Rightarrow> bool" where
  "keys_ok t \<longleftrightarrow> (\<forall>x \<in> set_tree t. NUL \<notin> set (node_key x))"

lemma keys_ok_simps [simp]:
  "keys_ok Leaf" "keys_ok (Node l a r) \<longleftrightarrow> keys_ok l \<and> NUL \<notin> set (node_key a) \<and> keys_ok r"
  by (auto simp: keys_ok_def)

lemma bst_sorted_keys:
  assumes "bst t" and "keys_ok t"
  shows "sorted_wrt (\<lambda>a b. strcmp a b < 0) (map fst (entries t))"
  using assms
proof (induction t)
  case (Node l a r)
  have "strcmp (node_key x) (node_key y) < 0" if "x \<in> set_tree l" "y \<in> set_tree r" for x y
    using that Node.prems by (intro strcmp_less_trans [of "node_key x" "node_key a" "node_key y"]) (auto simp: keys_ok_def)
  then show ?case
    using Node by (auto simp: sorted_wrt_append node_key_def entries_def)
qed simp

lemma search_tree_bst: "search_tree t \<longleftrightarrow> bst t \<and> keys_ok t \<and> 0 \<notin> fst ` set_tree t"
proof -
  have "(\<forall>k \<in> set (map fst (entries t)). NUL \<notin> set k) \<longleftrightarrow> keys_ok t"
    by (auto simp: keys_ok_def entries_def node_key_def)
  then show ?thesis using bst_sorted_keys sorted_keys_bst by (auto simp: search_tree_def)
qed

lemma lookup_iff: "search_tree t \<Longrightarrow> lookup t k = Some e \<longleftrightarrow> (\<exists>p. (p, k, e) \<in> set_tree t)"
proof -
  assume "search_tree t"
  then have "distinct (map fst (entries t))" by (intro strcmp_sorted_distinct) (simp add: search_tree_def)
  then show ?thesis by (force simp: lookup_def entries_def)
qed

lemma strcmp_not_both: "strcmp s t < 0 \<Longrightarrow> \<not> strcmp t s < 0"
  using strcmp_flip [of s t] by linarith

lemma bst_find_iff:
  "bst t \<Longrightarrow> keys_ok t \<Longrightarrow> NUL \<notin> set k \<Longrightarrow> bst_find k t = Some e \<longleftrightarrow> (\<exists>p. (p, k, e) \<in> set_tree t)"
proof (induction t)
  case (Node l a r)
  obtain p k' e' where a: "a = (p, k', e')" by (cases a) auto
  have "strcmp k k' = 0 \<longleftrightarrow> k = k'" using Node.prems by (intro strcmp_0_iff) (simp_all add: a node_key_def)
  moreover have "(q, k, x) \<in> set_tree l \<Longrightarrow> strcmp k k' < 0" "(q, k, x) \<in> set_tree r \<Longrightarrow> strcmp k' k < 0" for q x
    using Node.prems(1) by (auto simp: a node_key_def)
  ultimately show ?case
    using Node strcmp_not_both [of k k'] strcmp_not_both [of k' k] strcmp_flip [of k k']
    by (auto simp: a node_key_def)
qed simp

lemma set_bst_insert:
  "bst t \<Longrightarrow> keys_ok t \<Longrightarrow> NUL \<notin> set (node_key x) \<Longrightarrow> set_tree (bst_insert x t) =
     (if \<exists>y \<in> set_tree t. node_key y = node_key x then set_tree t else {x} \<union> set_tree t)"
proof (induction t)
  case (Node l a r)
  let ?k = "node_key x" and ?a = "node_key a"
  have eq: "strcmp ?k ?a = 0 \<longleftrightarrow> ?k = ?a" using Node.prems by (intro strcmp_0_iff) simp_all
  have l: "y \<in> set_tree l \<Longrightarrow> strcmp (node_key y) ?a < 0" and r: "y \<in> set_tree r \<Longrightarrow> strcmp ?a (node_key y) < 0" for y
    using Node.prems(1) by auto
  consider "strcmp ?k ?a < 0" | "?k = ?a" | "strcmp ?k ?a > 0" using eq by linarith
  then show ?case
  proof cases
    case 1
    then have "\<not> (\<exists>y \<in> set_tree r. node_key y = ?k)" using r strcmp_not_both by metis
    then show ?thesis using 1 Node eq by auto
  next
    case 2
    then show ?thesis using eq by auto
  next
    case 3
    then have "strcmp ?a ?k < 0" using strcmp_flip [of ?a ?k] by linarith
    then have "\<not> (\<exists>y \<in> set_tree l. node_key y = ?k)" using l strcmp_not_both by metis
    then show ?thesis using 3 Node eq by auto
  qed
qed simp

lemma bst_insert_bst:
  assumes "bst t" and "keys_ok t" and "NUL \<notin> set (node_key x)"
  shows "bst (bst_insert x t)"
  using assms
proof (induction t)
  case (Node l a r)
  have "strcmp (node_key a) (node_key x) < 0" if "\<not> strcmp (node_key x) (node_key a) < 0" "strcmp (node_key x) (node_key a) \<noteq> 0"
    using that strcmp_flip [of "node_key a" "node_key x"] by linarith
  then show ?case
    using Node set_bst_insert [of l x] set_bst_insert [of r x] by (auto split: if_splits)
qed simp

lemma split_min_spec:
  assumes "split_min l a r = (x, t)" and "bst (Node l a r)" and "keys_ok (Node l a r)"
  shows "set_tree (Node l a r) = {x} \<union> set_tree t \<and> bst t \<and> (\<forall>y \<in> set_tree t. strcmp (node_key x) (node_key y) < 0)"
  using assms
proof (induction l a r arbitrary: t rule: split_min.induct)
  case (2 ll la lr a r)
  obtain l' where l': "split_min ll la lr = (x, l')" "t = Node l' a r"
    using 2(2) by (auto split: prod.splits)
  have IH: "set_tree (Node ll la lr) = {x} \<union> set_tree l'" "bst l'" "\<forall>y \<in> set_tree l'. strcmp (node_key x) (node_key y) < 0"
    using 2(1) [OF l'(1)] 2(3,4) by auto
  have x: "x \<in> set_tree (Node ll la lr)" using IH(1) by blast
  then have xa: "strcmp (node_key x) (node_key a) < 0" using 2(3) by auto
  have ok: "NUL \<notin> set (node_key x)" "NUL \<notin> set (node_key a)" "y \<in> set_tree r \<Longrightarrow> NUL \<notin> set (node_key y)" for y
    using x 2(4) by (auto simp: keys_ok_def)
  have "strcmp (node_key x) (node_key y) < 0" if "y \<in> set_tree r" for y
    using that 2(3) ok by (intro strcmp_less_trans [OF ok(1,2) ok(3) xa]) auto
  moreover have "\<forall>y \<in> set_tree l'. strcmp (node_key y) (node_key a) < 0" using IH(1) 2(3) by auto
  ultimately show ?case using IH xa 2(3) by (auto simp: l'(2))
qed auto

lemma bst_delete_spec:
  assumes "bst t" and "keys_ok t" and "NUL \<notin> set k"
  shows "bst (bst_delete k t) \<and> set_tree (bst_delete k t) = {x \<in> set_tree t. node_key x \<noteq> k}"
  using assms
proof (induction t)
  case (Node l a r)
  let ?a = "node_key a"
  have eq: "strcmp k ?a = 0 \<longleftrightarrow> k = ?a" using Node.prems by (intro strcmp_0_iff) simp_all
  have l: "y \<in> set_tree l \<Longrightarrow> strcmp (node_key y) ?a < 0" and r: "y \<in> set_tree r \<Longrightarrow> strcmp ?a (node_key y) < 0" for y
    using Node.prems(1) by auto
  consider "strcmp k ?a < 0" | "k = ?a" | "strcmp ?a k < 0" using eq strcmp_flip [of ?a k] by linarith
  then show ?case
  proof cases
    case 1
    then have "\<forall>y \<in> set_tree r. node_key y \<noteq> k" using r strcmp_not_both by metis
    then show ?thesis using 1 Node eq by auto
  next
    case 2
    then have n: "\<forall>y \<in> set_tree l. node_key y \<noteq> k" "\<forall>y \<in> set_tree r. node_key y \<noteq> k" using l r by fastforce+
    show ?thesis
    proof (cases r)
      case Leaf
      then show ?thesis using 2 eq n Node.prems by auto
    next
      case (Node rl ra rr)
      obtain x r' where x: "split_min rl ra rr = (x, r')" by (cases "split_min rl ra rr")
      have s: "set_tree r = {x} \<union> set_tree r'" "bst r'" "\<forall>y \<in> set_tree r'. strcmp (node_key x) (node_key y) < 0"
        using split_min_spec [OF x] Node.prems Node by auto
      have "strcmp (node_key y) (node_key x) < 0" if "y \<in> set_tree l" for y
        using that l r s(1) Node.prems by (intro strcmp_less_trans [of "node_key y" ?a "node_key x"]) (auto simp: keys_ok_def)
      then show ?thesis using 2 eq n s x Node Node.prems by auto
    qed
  next
    case 3
    then have "\<not> strcmp k ?a < 0" "strcmp k ?a \<noteq> 0" using strcmp_flip [of ?a k] by linarith+
    moreover have "\<forall>y \<in> set_tree l. node_key y \<noteq> k" using 3 l strcmp_not_both by metis
    ultimately show ?thesis using Node eq by auto
  qed
qed simp

lemma lookup_eqI:
  assumes "search_tree t" and "search_tree t'" and "\<And>k e. (\<exists>p. (p, k, e) \<in> set_tree t') \<longleftrightarrow> m k = Some e"
  shows "lookup t' = m"
proof
  fix k
  show "lookup t' k = m k" using lookup_iff [OF assms(2), of k] assms(3) [of k] by (metis not_None_eq)
qed

lemma bst_find_lookup: "search_tree t \<Longrightarrow> NUL \<notin> set k \<Longrightarrow> bst_find k t = lookup t k"
proof -
  assume t: "search_tree t" "NUL \<notin> set k"
  then have "bst_find k t = Some e \<longleftrightarrow> lookup t k = Some e" for e
    using bst_find_iff [of t k e] lookup_iff [OF t(1), of k e] search_tree_bst by simp
  then show ?thesis by (metis not_None_eq)
qed

lemma unique_key:
  assumes "search_tree t" and "(p, k, e) \<in> set_tree t" and "(p', k, e') \<in> set_tree t"
  shows "e = e'"
  using lookup_iff [OF assms(1), of k] assms(2,3) by (metis option.inject)

interpretation unbalanced: tree_contract bst_ops "\<lambda>t. t"
proof
  fix t :: "tnode tree" and k :: cstr and e e' :: nat
  assume t: "search_tree t" and k: "NUL \<notin> set k"
  show "tfind bst_ops t k = lookup t k" using bst_find_lookup [OF t k] by (simp add: bst_ops_def)
  have b: "bst t" "keys_ok t" "0 \<notin> fst ` set_tree t" using t search_tree_bst by auto
  show "\<exists>w'. tsearch bst_ops e k t = (Some e', w') \<and> search_tree w' \<and> lookup w' = (lookup t)(k \<mapsto> e')"
    if e': "e' = (case lookup t k of Some x \<Rightarrow> x | None \<Rightarrow> e)"
  proof -
    let ?x = "(Suc e, k, e)" and ?t = "bst_insert (Suc e, k, e) t"
    have x: "node_key ?x = k" by (simp add: node_key_def)
    note s = set_bst_insert [OF b(1,2), of ?x, unfolded x, OF k]
    have t': "search_tree ?t"
      using b s bst_insert_bst [OF b(1,2), of ?x] k x by (auto simp: search_tree_bst keys_ok_def split: if_splits)
    have "lookup ?t = (lookup t)(k \<mapsto> e')"
    proof (rule lookup_eqI [OF t t'])
      fix k1 e1
      have "(\<exists>y \<in> set_tree t. node_key y = k) \<longleftrightarrow> lookup t k \<noteq> None"
        using lookup_iff [OF t, of k] by (force simp: node_key_def)
      then show "(\<exists>p. (p, k1, e1) \<in> set_tree ?t) \<longleftrightarrow> ((lookup t)(k \<mapsto> e')) k1 = Some e1"
        using s lookup_iff [OF t, of k1 e1] e' by (auto split: if_splits option.splits)
    qed
    then show ?thesis using t' e' bst_find_lookup [OF t k] by (auto simp: bst_ops_def)
  qed
  note d = bst_delete_spec [OF b(1,2) k]
  have t': "search_tree (bst_delete k t)" using b d by (auto simp: search_tree_bst keys_ok_def)
  have lk: "lookup (bst_delete k t) = (lookup t)(k := None)"
  proof (rule lookup_eqI [OF t t'])
    fix k1 e1
    show "(\<exists>p. (p, k1, e1) \<in> set_tree (bst_delete k t)) \<longleftrightarrow> ((lookup t)(k := None)) k1 = Some e1"
      using d lookup_iff [OF t, of k1 e1] by (auto simp: node_key_def)
  qed
  show "\<exists>w'. tdelete bst_ops k t = (None, w') \<and> search_tree w' \<and> lookup w' = lookup t" if "lookup t k = None"
    using that t' lk bst_find_lookup [OF t k] by (simp add: bst_ops_def fun_upd_idem)
  show "\<exists>p w'. tdelete bst_ops k t = (Some p, w') \<and> p \<noteq> 0 \<and> search_tree w' \<and> lookup w' = (lookup t)(k := None) \<and>
      (root_key t \<noteq> Some k \<longrightarrow> parent_in k t = Some p)" if l: "lookup t k \<noteq> None"
  proof -
    have "distinct (map fst (entries t))" using t by (intro strcmp_sorted_distinct) (simp add: search_tree_def)
    moreover have "k \<in> fst ` set (entries t)" using l by (force simp: lookup_def dest: map_of_SomeD)
    ultimately have "root_key t \<noteq> Some k \<longrightarrow> parent_in k t \<noteq> None" using parent_in_iff by blast
    moreover have "parent_in k t = Some p \<Longrightarrow> p \<in> fst ` set_tree t" for p
      by (induction t) (auto split: option.splits if_splits)
    then have "parent_in k t \<noteq> Some 0" using b(3) by blast
    ultimately show ?thesis
      using t' lk l bst_find_lookup [OF t k] by (auto simp: bst_ops_def split: option.split)
  qed
qed (simp_all add: bst_ops_def)

text \<open>C4: The test of the search tree never reads through a null pointer, and reports nothing for
  every implementation of the tree's contract, except that it reports the deletion of \<open>h\<close> when \<open>h\<close> is
  then the root: the walk that looks for the parent finds none.  (A tree balanced in some other way
  may be correct and fail the test; an unbalanced one and an AVL tree have \<open>f\<close> at the root.)\<close>

theorem tsearch_test_verdict:
  assumes "tree_contract f tree_of" and "tree_of w = Leaf"
  shows "tsearch_main f w =
    Some (if root_key (tree_of (world (tsearch_fill f (tsearch_init w)))) = Some ''h'' then [126, 129] else [])"
  using assms by (rule tree_contract.tsearch_main_log)

lemma tsearch_test_verdict_witness: "tsearch_main bst_ops Leaf = Some []"
proof -
  have "root_key (world (tsearch_fill bst_ops (tsearch_init Leaf))) = Some ''f''" by code_simp
  then show ?thesis
    using tsearch_test_verdict [OF unbalanced.tree_contract_axioms, of Leaf] by simp
qed

end
