(* ===== verification/KernelVmm.thy ===== *)
theory KernelVmm
  imports HarnessVm
begin

text \<open>
  The kernel's memory set: kernel/src/memory/vmm.rs over the areas of kernel/src/memory/areas and the
  alignment functions of kernel/src/memory/addr.rs, with \<open>sys_mmap\<close> of an
  anonymous mapping and \<open>sys_munmap\<close> of kernel/src/syscall/process.rs.

  The \<open>BTreeMap\<close> from start addresses to areas is the list of the areas in the order of their starts.
  Of the physical area (\<open>PmAreaLazy\<close>) the number of its pages is kept: frames and page-table entries
  are not modelled and their allocation is taken to succeed.  Addresses are natural numbers; the sums
  of the code stay below \<open>2 ^ 64\<close> for requests below \<open>2 ^ 63 + 2 ^ 62\<close>, the longest ones considered.
  An operation returns \<open>None\<close> when the Rust code panics, \<open>Inl\<close> an error, \<open>Inr\<close> a value.
\<close>

definition USER_VIRT_ADDR_LIMIT :: nat where
  "USER_VIRT_ADDR_LIMIT = 0xFFFFFFFF"

definition align_down :: "nat \<Rightarrow> nat" where
  "align_down addr = addr div 4096 * 4096"

definition align_up :: "nat \<Rightarrow> nat" where
  "align_up addr = (addr + 4095) div 4096 * 4096"

definition page_count :: "nat \<Rightarrow> nat" where
  "page_count sz = align_up sz div 4096"

definition addr_to_page_id :: "nat \<Rightarrow> nat" where
  "addr_to_page_id addr = addr div 4096"

datatype vm_error = MemorySet_UserMmapIntersectWithKernel | MemorySet_InvalidRange | VmArea_InvalidRange
  | VmArea_VmSizeNotEqualToPmSize | PmArea_ShrinkFailed | PmArea_SplitFailed | PmArea_InvalidRange | Memory_RunOutOfMemory

subsection \<open>Areas\<close>

record vm_area =
  a_start :: nat
  a_end :: nat
  a_flags :: nat
  a_pages :: nat

definition area_new :: "nat \<Rightarrow> nat \<Rightarrow> nat \<Rightarrow> nat \<Rightarrow> vm_error + vm_area" where
  "area_new st en flags pages =
     (if en \<le> st then Inl VmArea_InvalidRange
      else
        let st = align_down st; en = align_up en
        in if en - st \<noteq> 4096 * pages then Inl VmArea_VmSizeNotEqualToPmSize
           else Inr \<lparr>a_start = st, a_end = en, a_flags = flags, a_pages = pages\<rparr>)"

definition area_contains :: "vm_area \<Rightarrow> nat \<Rightarrow> bool" where
  "area_contains a vaddr \<longleftrightarrow> a_start a \<le> vaddr \<and> vaddr < a_end a"

definition is_overlap_with :: "vm_area \<Rightarrow> nat \<Rightarrow> nat \<Rightarrow> bool" where
  "is_overlap_with a st en \<longleftrightarrow>
     (let p0 = a_start a; p1 = a_end a; p2 = align_down st; p3 = align_up en
      in \<not> (p1 \<le> p2 \<or> p3 \<le> p0))"

text \<open>The operations of \<open>PmAreaLazy\<close> on the number of pages: \<open>pm_split\<close> keeps the left part and
  returns the right one.\<close>

definition pm_shrink_left :: "nat \<Rightarrow> nat \<Rightarrow> vm_error + nat" where
  "pm_shrink_left new_start pages =
     (if new_start < 4096 * pages then Inr (pages - addr_to_page_id new_start) else Inl PmArea_ShrinkFailed)"

definition pm_shrink_right :: "nat \<Rightarrow> nat \<Rightarrow> vm_error + nat" where
  "pm_shrink_right new_end pages =
     (if new_end < 4096 * pages then Inr (addr_to_page_id new_end) else Inl PmArea_ShrinkFailed)"

definition pm_split :: "nat \<Rightarrow> nat \<Rightarrow> nat \<Rightarrow> vm_error + nat \<times> nat" where
  "pm_split left_end right_start pages =
     (if left_end \<le> right_start \<and> right_start < 4096 * pages
      then Inr (addr_to_page_id left_end, pages - addr_to_page_id right_start) else Inl PmArea_SplitFailed)"

definition pm_new :: "nat \<Rightarrow> vm_error + nat" where
  "pm_new n =
     (if n = 0 then Inl PmArea_InvalidRange
      else if page_count USER_VIRT_ADDR_LIMIT < n then Inl Memory_RunOutOfMemory else Inr n)"

datatype diff_set = Unchanged | Shrinked vm_area | Splitted vm_area vm_area | Removed

definition shrink_or_split :: "vm_area \<Rightarrow> nat \<Rightarrow> nat \<Rightarrow> (vm_error + diff_set) option" where
  "shrink_or_split a st en =
     (if en \<le> a_start a \<or> a_end a \<le> st then Some (Inr Unchanged)
      else if st \<le> a_start a \<and> a_end a \<le> en then Some (Inr Removed)
      else if a_start a < st \<and> en < a_end a then
        Some (case pm_split (st - a_start a) (en - a_start a) (a_pages a) of
                Inl err \<Rightarrow> Inl err
              | Inr (left, right) \<Rightarrow>
                  (case area_new (a_start a) st (a_flags a) left of
                     Inl err \<Rightarrow> Inl err
                   | Inr l \<Rightarrow>
                       (case area_new en (a_end a) (a_flags a) right of
                          Inl err \<Rightarrow> Inl err | Inr r \<Rightarrow> Inr (Splitted l r))))
      else if en < a_end a then
        Some (case pm_shrink_left (en - a_start a) (a_pages a) of
                Inl err \<Rightarrow> Inl err
              | Inr n \<Rightarrow> Inr (Shrinked (a\<lparr>a_start := en, a_pages := n\<rparr>)))
      else if \<not> a_start a < st then None
      else
        Some (case pm_shrink_right (st - a_start a) (a_pages a) of
                Inl err \<Rightarrow> Inl err
              | Inr n \<Rightarrow> Inr (Shrinked (a\<lparr>a_end := st, a_pages := n\<rparr>))))"

subsection \<open>The memory set\<close>

type_synonym areas = "vm_area list"

text \<open>\<open>BTreeMap::insert\<close>, which replaces the value at a key already present.\<close>

fun btree_insert :: "vm_area \<Rightarrow> areas \<Rightarrow> areas" where
  "btree_insert a [] = [a]"
| "btree_insert a (b # bs) =
     (if a_start a < a_start b then a # b # bs
      else if a_start a = a_start b then a # bs else b # btree_insert a bs)"

definition test_free_area :: "areas \<Rightarrow> nat \<Rightarrow> nat \<Rightarrow> bool" where
  "test_free_area as st en \<longleftrightarrow>
     (let before = takeWhile (\<lambda>a. a_start a < st) as; after = dropWhile (\<lambda>a. a_start a < st) as
      in \<not> (before \<noteq> [] \<and> is_overlap_with (last before) st en) \<and>
         \<not> (after \<noteq> [] \<and> is_overlap_with (hd after) st en))"

definition find_free_area :: "areas \<Rightarrow> nat \<Rightarrow> nat \<Rightarrow> (vm_error + nat) option" where
  "find_free_area as hint len =
     (let test_addr = (if hint = 0 then 4096 else align_up hint)
      in case List.find (\<lambda>addr. test_free_area as addr (addr + len)) (test_addr # map a_end as) of
           None \<Rightarrow> None
         | Some addr \<Rightarrow>
             Some (if USER_VIRT_ADDR_LIMIT \<le> addr + len then Inl MemorySet_UserMmapIntersectWithKernel else Inr addr))"

fun reinsert :: "nat \<Rightarrow> nat \<Rightarrow> areas \<Rightarrow> areas \<Rightarrow> (vm_error option \<times> areas) option" where
  "reinsert st en [] as = Some (None, as)"
| "reinsert st en (a # ds) as =
     (case shrink_or_split a st en of
        None \<Rightarrow> None
      | Some (Inl err) \<Rightarrow> Some (Some err, as)
      | Some (Inr (Shrinked b)) \<Rightarrow> reinsert st en ds (btree_insert b as)
      | Some (Inr (Splitted l r)) \<Rightarrow> reinsert st en ds (btree_insert r (btree_insert l as))
      | Some (Inr _) \<Rightarrow> reinsert st en ds as)"

definition modify_overlap_areas :: "nat \<Rightarrow> nat \<Rightarrow> areas \<Rightarrow> (vm_error option \<times> areas) option" where
  "modify_overlap_areas st en as =
     reinsert st en (filter (\<lambda>a. is_overlap_with a st en) as) (filter (\<lambda>a. \<not> is_overlap_with a st en) as)"

definition push_area :: "vm_area \<Rightarrow> areas \<Rightarrow> vm_error option \<times> areas" where
  "push_area a as =
     (if \<not> test_free_area as (a_start a) (a_end a) then (Some MemorySet_InvalidRange, as)
      else (None, btree_insert a as))"

text \<open>The place of the new area, with the set after what was in its way has been removed.\<close>

definition make_place :: "nat \<Rightarrow> nat \<Rightarrow> bool \<Rightarrow> areas \<Rightarrow> ((vm_error + nat \<times> nat) \<times> areas) option" where
  "make_place st en anywhere as =
     (if anywhere then
        (case find_free_area as st (en - st) of
           None \<Rightarrow> None
         | Some (Inl err) \<Rightarrow> Some (Inl err, as)
         | Some (Inr st') \<Rightarrow> Some (Inr (st', st' + (en - st)), as))
      else if USER_VIRT_ADDR_LIMIT \<le> en then Some (Inl MemorySet_UserMmapIntersectWithKernel, as)
      else (case modify_overlap_areas st en as of
              Some (None, as') \<Rightarrow> Some (Inr (st, en), as')
            | _ \<Rightarrow> None))"

definition push_with_backend :: "nat \<Rightarrow> nat \<Rightarrow> nat \<Rightarrow> bool \<Rightarrow> areas \<Rightarrow> ((vm_error + nat) \<times> areas) option" where
  "push_with_backend st en flags anywhere as =
     (case make_place st en anywhere as of
        None \<Rightarrow> None
      | Some (Inl err, as) \<Rightarrow> Some (Inl err, as)
      | Some (Inr (st, en), as) \<Rightarrow>
          (case pm_new (page_count (en - st)) of
             Inl err \<Rightarrow> Some (Inl err, as)
           | Inr pages \<Rightarrow>
               let st = align_down st; en = align_up en
               in case area_new st en flags pages of
                    Inl _ \<Rightarrow> None
                  | Inr a \<Rightarrow>
                      (case push_area a as of
                         (Some err, as) \<Rightarrow> Some (Inl err, as)
                       | (None, as) \<Rightarrow> Some (Inr st, as))))"

subsection \<open>The system calls\<close>

text \<open>The page flags of a protection: user, executable, writable, readable.\<close>

definition prot_flags :: "nat \<Rightarrow> nat" where
  "prot_flags prot =
     16 + (if odd prot then 2 else 0) + (if odd (prot div 2) then 4 else 0) + (if odd (prot div 4) then 8 else 0)"

text \<open>\<open>sys_mmap\<close> of an anonymous mapping; an error is \<open>EINVAL\<close>.\<close>

definition sys_mmap_anon ::
    "nat \<Rightarrow> nat \<Rightarrow> nat \<Rightarrow> bool \<Rightarrow> int \<Rightarrow> nat \<Rightarrow> areas \<Rightarrow> (nat option \<times> areas) option" where
  "sys_mmap_anon st len prot map_fixed fd offset as =
     (let len = align_up (st + len) - align_down st; st = align_down st
      in if st = 0 \<and> map_fixed then Some (None, as)
         else
           let anywhere = st = 0 \<or> \<not> map_fixed
           in if fd = -1 \<and> offset = 0
              then (case push_with_backend st (st + len) (prot_flags prot) anywhere as of
                      None \<Rightarrow> None
                    | Some (Inl _, as) \<Rightarrow> Some (None, as)
                    | Some (Inr st, as) \<Rightarrow> Some (Some st, as))
              else Some (None, as))"

definition sys_munmap :: "nat \<Rightarrow> nat \<Rightarrow> areas \<Rightarrow> (bool \<times> areas) option" where
  "sys_munmap st len as =
     map_option (\<lambda>(err, as). (err = None, as)) (modify_overlap_areas st (st + len) as)"

subsection \<open>The invariant\<close>

definition area_ok :: "vm_area \<Rightarrow> bool" where
  "area_ok a \<longleftrightarrow>
     4096 dvd a_start a \<and> 4096 dvd a_end a \<and> a_start a < a_end a \<and> a_end a < USER_VIRT_ADDR_LIMIT \<and>
     4096 \<le> a_start a \<and> a_end a - a_start a = 4096 * a_pages a"

definition apart :: "vm_area \<Rightarrow> vm_area \<Rightarrow> bool" where
  "apart a b \<longleftrightarrow> a_end a \<le> a_start b \<or> a_end b \<le> a_start a"

definition areas_ok :: "areas \<Rightarrow> bool" where
  "areas_ok as \<longleftrightarrow> (\<forall>a \<in> set as. area_ok a) \<and> sorted_wrt (\<lambda>a b. a_end a \<le> a_start b) as"

text \<open>What the set maps: the flags of each page.\<close>

definition page_map :: "areas \<Rightarrow> nat \<Rightarrow> nat option" where
  "page_map as pg = map_option a_flags (List.find (\<lambda>a. area_contains a (pg * 4096)) as)"

lemma align_dvd [simp]: "4096 dvd a \<Longrightarrow> align_down a = a" "4096 dvd a \<Longrightarrow> align_up a = a"
  by (auto simp: align_down_def align_up_def elim!: dvdE)

lemma dvd_align [simp]: "4096 dvd align_down a" "4096 dvd align_up a"
  by (simp_all add: align_down_def align_up_def)

lemma align_up_bounds: "a \<le> align_up a" "align_up a < a + 4096"
  unfolding align_up_def using mult_div_mod_eq [of 4096 "a + 4095"] mod_less_divisor [of 4096 "a + 4095"]
  by (simp_all add: mult.commute)

lemma align_up_least: "4096 dvd b \<Longrightarrow> align_up a \<le> b \<longleftrightarrow> a \<le> b"
  using align_up_bounds [of a] dvd_align(2) [of a] dvd_less_add_le [of 4096 b "align_up a"]
  by (cases "align_up a \<le> b") auto

lemma page_id_less: "4096 dvd a \<Longrightarrow> pg * 4096 < a \<longleftrightarrow> pg < a div 4096" "4096 dvd a \<Longrightarrow> a \<le> pg * 4096 \<longleftrightarrow> a div 4096 \<le> (pg :: nat)"
  by (auto elim!: dvdE)

lemma areas_ok_simps [simp]:
  "areas_ok []"
  "areas_ok (a # as) \<longleftrightarrow> area_ok a \<and> (\<forall>b \<in> set as. a_end a \<le> a_start b) \<and> areas_ok as"
  by (auto simp: areas_ok_def)

lemma area_ok_less: "area_ok a \<Longrightarrow> a_start a < a_end a"
  by (simp add: area_ok_def)

lemma overlap_aligned:
  "4096 dvd st \<Longrightarrow> 4096 dvd en \<Longrightarrow> is_overlap_with a st en \<longleftrightarrow> st < a_end a \<and> a_start a < en"
  by (auto simp: is_overlap_with_def Let_def)

lemma btree_insert_ok:
  assumes "areas_ok as" and "area_ok a" and "\<forall>b \<in> set as. apart a b"
  shows "areas_ok (btree_insert a as)" and "set (btree_insert a as) = {a} \<union> set as"
proof -
  have "areas_ok (btree_insert a as) \<and> set (btree_insert a as) = {a} \<union> set as"
    using assms
  proof (induction as)
    case (Cons b bs)
    have lt: "a_start a < a_end a" "a_start b < a_end b" and bs: "\<forall>c \<in> set bs. a_end b \<le> a_start c"
      using Cons.prems by (auto dest: area_ok_less)
    have "apart a b" using Cons.prems(3) by simp
    then consider "a_end a \<le> a_start b" | "a_end b \<le> a_start a" by (auto simp: apart_def)
    then show ?case
    proof cases
      case 1
      then have "\<forall>c \<in> set bs. a_end a \<le> a_start c" using bs lt by (meson le_trans less_imp_le)
      then show ?thesis using 1 lt Cons.prems by auto
    next
      case 2
      then show ?thesis using lt bs Cons by auto
    qed
  qed simp
  then show "areas_ok (btree_insert a as)" "set (btree_insert a as) = {a} \<union> set as" by auto
qed

text \<open>What is left of an area when \<open>[st, en)\<close> is taken out of it.\<close>

definition pieces :: "nat \<Rightarrow> nat \<Rightarrow> vm_area \<Rightarrow> areas" where
  "pieces st en a =
     (if a_start a < st then [a\<lparr>a_end := st, a_pages := (st - a_start a) div 4096\<rparr>] else []) @
     (if en < a_end a then [a\<lparr>a_start := en, a_pages := (a_end a - en) div 4096\<rparr>] else [])"

lemma pieces_ok:
  assumes "area_ok a" and "4096 dvd st" and "4096 dvd en" and "st < en" and "st < a_end a" and "a_start a < en"
  shows "areas_ok (pieces st en a)"
    and "p \<in> set (pieces st en a) \<Longrightarrow> a_start a \<le> a_start p \<and> a_end p \<le> a_end a"
    and "(\<exists>p \<in> set (pieces st en a). area_contains p x \<and> a_flags p = f) \<longleftrightarrow>
      area_contains a x \<and> \<not> (st \<le> x \<and> x < en) \<and> a_flags a = f"
proof -
  have "area_ok (a\<lparr>a_end := st, a_pages := (st - a_start a) div 4096\<rparr>)" if "a_start a < st"
    using assms that by (auto simp: area_ok_def dvd_diff_nat)
  moreover have "area_ok (a\<lparr>a_start := en, a_pages := (a_end a - en) div 4096\<rparr>)" if "en < a_end a"
    using assms that by (auto simp: area_ok_def dvd_diff_nat)
  ultimately show "areas_ok (pieces st en a)"
    using assms by (auto simp: pieces_def)
  show "p \<in> set (pieces st en a) \<Longrightarrow> a_start a \<le> a_start p \<and> a_end p \<le> a_end a"
    using assms by (auto simp: pieces_def split: if_splits)
  show "(\<exists>p \<in> set (pieces st en a). area_contains p x \<and> a_flags p = f) \<longleftrightarrow>
      area_contains a x \<and> \<not> (st \<le> x \<and> x < en) \<and> a_flags a = f"
    using assms by (auto simp: pieces_def area_contains_def)
qed

lemma area_new_ok:
  "4096 dvd st \<Longrightarrow> 4096 dvd en \<Longrightarrow> st < en \<Longrightarrow>
     area_new st en fl ((en - st) div 4096) = Inr \<lparr>a_start = st, a_end = en, a_flags = fl, a_pages = (en - st) div 4096\<rparr>"
  by (simp add: area_new_def Let_def dvd_diff_nat)

lemma shrink_or_split_pieces:
  assumes "area_ok a" and "4096 dvd st" and "4096 dvd en" and "st < en" and "st < a_end a" and "a_start a < en"
  shows "\<exists>d. shrink_or_split a st en = Some (Inr d) \<and>
    (case d of Shrinked b \<Rightarrow> pieces st en a = [b] | Splitted l r \<Rightarrow> pieces st en a = [l, r]
     | Removed \<Rightarrow> pieces st en a = [] | Unchanged \<Rightarrow> False)"
proof -
  have a: "4096 dvd a_start a" "4096 dvd a_end a" "a_start a < a_end a" "a_end a - a_start a = 4096 * a_pages a"
    using assms(1) by (simp_all add: area_ok_def)
  have pages: "a_pages a - (en - a_start a) div 4096 = (a_end a - en) div 4096" if "a_start a < en" "en < a_end a"
  proof -
    have "a_end a - a_start a = (a_end a - en) + (en - a_start a)" using that by simp
    moreover have "4096 dvd a_end a - en" "4096 dvd en - a_start a" using a assms by (auto intro: dvd_diff_nat)
    ultimately show ?thesis using a(4) by (metis add_diff_cancel_right' div_add nonzero_mult_div_cancel_left zero_neq_numeral)
  qed
  consider (removed) "st \<le> a_start a" "a_end a \<le> en" | (split) "a_start a < st" "en < a_end a"
    | (left) "st \<le> a_start a" "en < a_end a" | (right) "a_start a < st" "a_end a \<le> en"
    by linarith
  then show ?thesis
  proof cases
    case removed
    then show ?thesis using assms by (auto simp: shrink_or_split_def pieces_def)
  next
    case split
    have "pm_split (st - a_start a) (en - a_start a) (a_pages a) =
        Inr ((st - a_start a) div 4096, (a_end a - en) div 4096)"
      using split assms(4) a pages by (auto simp: pm_split_def addr_to_page_id_def)
    then show ?thesis
      using split assms a area_new_ok [of "a_start a" st] area_new_ok [of en "a_end a"]
      by (auto simp: shrink_or_split_def pieces_def)
  next
    case left
    have "pm_shrink_left (en - a_start a) (a_pages a) = Inr ((a_end a - en) div 4096)"
      using left assms a pages by (auto simp: pm_shrink_left_def addr_to_page_id_def)
    then show ?thesis using left assms by (auto simp: shrink_or_split_def pieces_def)
  next
    case right
    have "pm_shrink_right (st - a_start a) (a_pages a) = Inr ((st - a_start a) div 4096)"
      using right assms a by (auto simp: pm_shrink_right_def addr_to_page_id_def)
    then show ?thesis using right assms by (auto simp: shrink_or_split_def pieces_def)
  qed
qed

subsection \<open>Removing a range\<close>

lemma apart_sym: "apart a b \<longleftrightarrow> apart b a"
  by (auto simp: apart_def)

lemma apart_inside: "apart a b \<Longrightarrow> a_start a \<le> a_start p \<Longrightarrow> a_end p \<le> a_end a \<Longrightarrow> apart p b"
  by (auto simp: apart_def)

lemma insert_pieces:
  assumes "areas_ok as" and "areas_ok ps" and "\<forall>p \<in> set ps. \<forall>b \<in> set as. apart p b"
  shows "areas_ok (fold btree_insert ps as) \<and> set (fold btree_insert ps as) = set ps \<union> set as"
  using assms
proof (induction ps arbitrary: as)
  case (Cons p ps)
  have p: "areas_ok (btree_insert p as)" "set (btree_insert p as) = {p} \<union> set as"
    using btree_insert_ok [of as p] Cons.prems by auto
  have "\<forall>q \<in> set ps. \<forall>b \<in> set (btree_insert p as). apart q b"
    using p(2) Cons.prems by (auto simp: apart_def)
  then show ?case using Cons.IH [OF p(1)] p(2) Cons.prems(2) by auto
qed simp

lemma reinsert_step:
  assumes "area_ok a" and "4096 dvd st" and "4096 dvd en" and "st < en" and "st < a_end a" and "a_start a < en"
  shows "reinsert st en (a # ds) as = reinsert st en ds (fold btree_insert (pieces st en a) as)"
proof -
  obtain d where "shrink_or_split a st en = Some (Inr d)"
    "case d of Shrinked b \<Rightarrow> pieces st en a = [b] | Splitted l r \<Rightarrow> pieces st en a = [l, r]
       | Removed \<Rightarrow> pieces st en a = [] | Unchanged \<Rightarrow> False"
    using shrink_or_split_pieces [OF assms] by blast
  then show ?thesis by (cases d) simp_all
qed

lemma reinsert_ok:
  assumes "4096 dvd st" and "4096 dvd en" and "st < en"
    and "areas_ok ds" and "\<forall>d \<in> set ds. st < a_end d \<and> a_start d < en"
    and "areas_ok as" and "\<forall>d \<in> set ds. \<forall>a \<in> set as. apart d a"
  shows "\<exists>as'. reinsert st en ds as = Some (None, as') \<and> areas_ok as' \<and>
    set as' = (\<Union>d \<in> set ds. set (pieces st en d)) \<union> set as"
  using assms(4-7)
proof (induction ds arbitrary: as)
  case (Cons d ds)
  have d: "area_ok d" "st < a_end d" "a_start d < en" using Cons.prems by auto
  note pc = pieces_ok [OF d(1) assms(1-3) d(2,3)]
  let ?as = "fold btree_insert (pieces st en d) as"
  have "\<forall>p \<in> set (pieces st en d). \<forall>b \<in> set as. apart p b"
    using pc(2) Cons.prems(4) apart_inside by (metis list.set_intros(1))
  from insert_pieces [OF Cons.prems(3) pc(1) this]
  have as: "areas_ok ?as" "set ?as = set (pieces st en d) \<union> set as" by auto
  have "\<forall>e \<in> set ds. \<forall>a \<in> set ?as. apart e a"
    using as(2) pc(2) Cons.prems(1,4) by (auto simp: apart_def) (meson le_trans)+
  with Cons.IH [OF _ _ as(1)] Cons.prems(1,2) obtain as' where
    "reinsert st en ds ?as = Some (None, as')" "areas_ok as'"
    "set as' = (\<Union>d \<in> set ds. set (pieces st en d)) \<union> set ?as" by auto
  then show ?case
    using as(2) reinsert_step [OF d(1) assms(1-3) d(2,3)] by (auto simp del: reinsert.simps)
qed simp

lemma areas_ok_filter: "areas_ok as \<Longrightarrow> areas_ok (filter P as)"
  by (induction as) auto

lemma areas_ok_apart: "areas_ok as \<Longrightarrow> a \<in> set as \<Longrightarrow> b \<in> set as \<Longrightarrow> a \<noteq> b \<Longrightarrow> apart a b"
  by (induction as) (auto simp: apart_def)

lemma modify_overlap_areas_ok:
  assumes "areas_ok as" and "4096 dvd st" and "4096 dvd en" and "st < en"
  shows "\<exists>as'. modify_overlap_areas st en as = Some (None, as') \<and> areas_ok as' \<and>
    set as' = (\<Union>d \<in> {a \<in> set as. is_overlap_with a st en}. set (pieces st en d)) \<union>
      {a \<in> set as. \<not> is_overlap_with a st en}"
proof -
  have "\<forall>d \<in> set (filter (\<lambda>a. is_overlap_with a st en) as).
      \<forall>a \<in> set (filter (\<lambda>a. \<not> is_overlap_with a st en) as). apart d a"
    using areas_ok_apart [OF assms(1)] by auto
  moreover have "\<forall>d \<in> set (filter (\<lambda>a. is_overlap_with a st en) as). st < a_end d \<and> a_start d < en"
    using overlap_aligned [OF assms(2,3)] by simp
  ultimately show ?thesis
    using reinsert_ok [OF assms(2-4) areas_ok_filter [OF assms(1)] _ areas_ok_filter [OF assms(1)]]
    unfolding modify_overlap_areas_def by (auto simp: Bex_def)
qed

lemma page_map_iff:
  assumes "areas_ok as"
  shows "page_map as pg = Some f \<longleftrightarrow> (\<exists>a \<in> set as. area_contains a (pg * 4096) \<and> a_flags a = f)"
proof
  assume "page_map as pg = Some f"
  then show "\<exists>a \<in> set as. area_contains a (pg * 4096) \<and> a_flags a = f"
    by (auto simp: page_map_def find_Some_iff)
next
  assume "\<exists>a \<in> set as. area_contains a (pg * 4096) \<and> a_flags a = f"
  then obtain a where a: "a \<in> set as" "area_contains a (pg * 4096)" "a_flags a = f" by blast
  have "List.find (\<lambda>a. area_contains a (pg * 4096)) as = Some a"
    using a areas_ok_apart [OF assms, of _ a] by (intro find_unique) (force simp: apart_def area_contains_def)+
  then show "page_map as pg = Some f" using a(3) by (simp add: page_map_def)
qed

lemma page_map_eqI:
  assumes "areas_ok as" and "\<And>pg f. (\<exists>a \<in> set as. area_contains a (pg * 4096) \<and> a_flags a = f) \<longleftrightarrow> m pg = Some f"
  shows "page_map as = m"
proof
  fix pg
  show "page_map as pg = m pg" using page_map_iff [OF assms(1)] assms(2) by (metis not_None_eq)
qed

lemma munmap_page_map:
  assumes "areas_ok as" and "4096 dvd st" and "4096 dvd en" and "st < en"
  shows "\<exists>as'. modify_overlap_areas st en as = Some (None, as') \<and> areas_ok as' \<and>
    page_map as' = (\<lambda>pg. if st \<le> pg * 4096 \<and> pg * 4096 < en then None else page_map as pg)"
proof -
  obtain as' where as': "modify_overlap_areas st en as = Some (None, as')" "areas_ok as'"
    "set as' = (\<Union>d \<in> {a \<in> set as. is_overlap_with a st en}. set (pieces st en d)) \<union>
      {a \<in> set as. \<not> is_overlap_with a st en}"
    using modify_overlap_areas_ok [OF assms] by blast
  have "page_map as' = (\<lambda>pg. if st \<le> pg * 4096 \<and> pg * 4096 < en then None else page_map as pg)"
  proof (rule page_map_eqI [OF as'(2)])
    fix pg f :: nat
    let ?x = "pg * 4096"
    have pc: "(\<exists>p \<in> set (pieces st en a). area_contains p ?x \<and> a_flags p = f) \<longleftrightarrow>
        area_contains a ?x \<and> \<not> (st \<le> ?x \<and> ?x < en) \<and> a_flags a = f"
      if "a \<in> set as" "is_overlap_with a st en" for a
      using that assms overlap_aligned [OF assms(2,3)] by (intro pieces_ok(3)) (auto simp: areas_ok_def)
    have out: "area_contains a ?x \<Longrightarrow> \<not> (st \<le> ?x \<and> ?x < en)" if "\<not> is_overlap_with a st en" for a
      using that overlap_aligned [OF assms(2,3), of a] by (auto simp: area_contains_def)
    have "(\<exists>a \<in> set as'. area_contains a ?x \<and> a_flags a = f) \<longleftrightarrow>
        (\<exists>a \<in> set as. area_contains a ?x \<and> a_flags a = f) \<and> \<not> (st \<le> ?x \<and> ?x < en)"
      using pc out unfolding as'(3) by blast
    then show "(\<exists>a \<in> set as'. area_contains a ?x \<and> a_flags a = f) \<longleftrightarrow>
        (if st \<le> ?x \<and> ?x < en then None else page_map as pg) = Some f"
      using page_map_iff [OF assms(1), of pg f] by auto
  qed
  then show ?thesis using as' by blast
qed

subsection \<open>Finding room\<close>

lemma areas_end_le_last: "areas_ok as \<Longrightarrow> a \<in> set as \<Longrightarrow> a_end a \<le> a_end (last as)"
proof (induction as)
  case (Cons b as)
  show ?case
  proof (cases "as = []")
    case False
    then have l: "last as \<in> set as" by simp
    then have "a_end b \<le> a_end (last as)"
      using Cons.prems(1) area_ok_less [of "last as"] by (auto simp: areas_ok_def)
    then show ?thesis using Cons False by auto
  qed (use Cons.prems in simp)
qed simp

lemma areas_hd_le_start: "areas_ok as \<Longrightarrow> a \<in> set as \<Longrightarrow> a_start (hd as) \<le> a_start a"
proof (cases as)
  case (Cons b bs)
  assume "areas_ok as" "a \<in> set as"
  then show ?thesis using Cons area_ok_less [of b] by (auto dest: bspec)
qed simp

lemma areas_ok_takeWhile: "areas_ok as \<Longrightarrow> areas_ok (takeWhile P as)"
  by (induction as) (auto dest: set_takeWhileD)

lemma areas_ok_dropWhile: "areas_ok as \<Longrightarrow> areas_ok (dropWhile P as)"
  by (induction as) auto

lemma dropWhile_start: "areas_ok as \<Longrightarrow> a \<in> set (dropWhile (\<lambda>a. a_start a < st) as) \<Longrightarrow> st \<le> a_start a"
proof (induction as)
  case (Cons b as)
  then show ?case using area_ok_less [of b] by (fastforce split: if_splits)
qed simp

lemma align_le: "align_down a \<le> a" "a \<le> align_up a"
  using align_up_bounds by (simp_all add: align_down_def)

lemma test_free_iff:
  assumes "areas_ok as" and "st \<le> en"
  shows "test_free_area as st en \<longleftrightarrow> (\<forall>a \<in> set as. \<not> is_overlap_with a st en)"
proof
  let ?before = "takeWhile (\<lambda>a. a_start a < st) as" and ?after = "dropWhile (\<lambda>a. a_start a < st) as"
  have split: "set as = set ?before \<union> set ?after" by (metis set_append takeWhile_dropWhile_id)
  assume free: "test_free_area as st en"
  show "\<forall>a \<in> set as. \<not> is_overlap_with a st en"
  proof
    fix a assume "a \<in> set as"
    then consider "a \<in> set ?before" | "a \<in> set ?after" using split by blast
    then show "\<not> is_overlap_with a st en"
    proof cases
      case 1
      then have "?before \<noteq> []" by auto
      then have "\<not> is_overlap_with (last ?before) st en" "a_start (last ?before) < st"
        using free last_in_set [of ?before] set_takeWhileD [of "last ?before" "\<lambda>a. a_start a < st" as]
        by (simp_all add: test_free_area_def Let_def)
      then have "a_end (last ?before) \<le> align_down st"
        using assms(2) align_le [of en] by (auto simp: is_overlap_with_def Let_def)
      moreover have "a_end a \<le> a_end (last ?before)"
        by (rule areas_end_le_last [OF areas_ok_takeWhile [OF assms(1)] 1])
      ultimately show ?thesis by (simp add: is_overlap_with_def Let_def)
    next
      case 2
      then have ne: "?after \<noteq> []" by (metis empty_iff list.set(1))
      have h: "\<not> is_overlap_with (hd ?after) st en" "hd ?after \<in> set ?after"
        using free ne unfolding test_free_area_def Let_def by (blast, blast intro: hd_in_set)
      moreover have "st \<le> a_start (hd ?after)" by (rule dropWhile_start [OF assms(1) h(2)])
      moreover have "a_start (hd ?after) < a_end (hd ?after)"
        using areas_ok_dropWhile [OF assms(1)] h(2) by (auto simp: areas_ok_def dest: area_ok_less)
      ultimately have "align_up en \<le> a_start (hd ?after)"
        using align_le(1) [of st] by (auto simp: is_overlap_with_def Let_def)
      moreover have "a_start (hd ?after) \<le> a_start a"
        by (rule areas_hd_le_start [OF areas_ok_dropWhile [OF assms(1)] 2])
      ultimately show ?thesis by (simp add: is_overlap_with_def Let_def)
    qed
  qed
next
  let ?before = "takeWhile (\<lambda>a. a_start a < st) as" and ?after = "dropWhile (\<lambda>a. a_start a < st) as"
  assume all: "\<forall>a \<in> set as. \<not> is_overlap_with a st en"
  then have "?before \<noteq> [] \<Longrightarrow> \<not> is_overlap_with (last ?before) st en"
    using last_in_set [of ?before] set_takeWhileD [of "last ?before" _ as] by blast
  moreover have "?after \<noteq> [] \<Longrightarrow> \<not> is_overlap_with (hd ?after) st en"
    using all hd_in_set [of ?after] set_dropWhileD [of "hd ?after" _ as] by blast
  ultimately show "test_free_area as st en" unfolding test_free_area_def Let_def by blast
qed

text \<open>The candidates of an anonymous request, in ascending order, and the sizes they have room for.\<close>

definition candidates :: "areas \<Rightarrow> nat list" where
  "candidates as = 4096 # map a_end as"

definition fits :: "areas \<Rightarrow> nat \<Rightarrow> nat \<Rightarrow> bool" where
  "fits as c m \<longleftrightarrow> c \<in> set (candidates as) \<and> (\<forall>a \<in> set as. a_end a \<le> c \<or> c + m \<le> a_start a)"

definition room :: "areas \<Rightarrow> nat" where
  "room as = Max {m. 4096 dvd m \<and> (\<exists>c. fits as c m \<and> c + m < USER_VIRT_ADDR_LIMIT)}"

lemma candidates_sorted: "areas_ok as \<Longrightarrow> sorted (candidates as)"
proof -
  assume ok: "areas_ok as"
  have "sorted (map a_end as)"
    using ok by (induction as) (auto simp: area_ok_def, meson area_ok_less areas_ok_def le_trans less_imp_le)
  then show ?thesis using ok by (auto simp: candidates_def areas_ok_def area_ok_def)
qed

lemma candidates_dvd: "areas_ok as \<Longrightarrow> c \<in> set (candidates as) \<Longrightarrow> 4096 dvd c \<and> 4096 \<le> c"
  by (auto simp: candidates_def areas_ok_def area_ok_def)

lemma candidates_less: "areas_ok as \<Longrightarrow> c \<in> set (candidates as) \<Longrightarrow> c < USER_VIRT_ADDR_LIMIT"
  by (auto simp: candidates_def areas_ok_def area_ok_def USER_VIRT_ADDR_LIMIT_def)

lemma free_fits:
  assumes "areas_ok as" and "c \<in> set (candidates as)" and "4096 dvd m"
  shows "test_free_area as c (c + m) \<longleftrightarrow> fits as c m"
  using candidates_dvd [OF assms(1,2)] assms
  by (auto simp: test_free_iff fits_def is_overlap_with_def Let_def)

lemma fits_mono: "fits as c m \<Longrightarrow> k \<le> m \<Longrightarrow> fits as c k"
  by (fastforce simp: fits_def)

lemma fits_last: "areas_ok as \<Longrightarrow> fits as (last (candidates as)) m"
proof (cases as rule: rev_cases)
  case (snoc bs b)
  assume ok: "areas_ok as"
  then have "\<forall>a \<in> set as. a_end a \<le> a_end b" using areas_end_le_last [OF ok] by (simp add: snoc)
  then show ?thesis by (simp add: fits_def candidates_def snoc)
qed (simp add: fits_def candidates_def)

lemma room_set:
  assumes "areas_ok as"
  shows "finite {m. 4096 dvd m \<and> (\<exists>c. fits as c m \<and> c + m < USER_VIRT_ADDR_LIMIT)}"
    and "0 \<in> {m. 4096 dvd m \<and> (\<exists>c. fits as c m \<and> c + m < USER_VIRT_ADDR_LIMIT)}"
proof -
  show "finite {m. 4096 dvd m \<and> (\<exists>c. fits as c m \<and> c + m < USER_VIRT_ADDR_LIMIT)}"
    by (rule finite_subset [of _ "{..USER_VIRT_ADDR_LIMIT}"]) auto
  have "last (candidates as) < USER_VIRT_ADDR_LIMIT"
    by (rule candidates_less [OF assms]) (rule last_in_set, simp add: candidates_def)
  then show "0 \<in> {m. 4096 dvd m \<and> (\<exists>c. fits as c m \<and> c + m < USER_VIRT_ADDR_LIMIT)}"
    using fits_last [OF assms, of 0] by auto
qed

lemma room_in:
  assumes "areas_ok as"
  shows "4096 dvd room as" and "\<exists>c. fits as c (room as) \<and> c + room as < USER_VIRT_ADDR_LIMIT"
  using Max_in [OF room_set(1) [OF assms]] room_set(2) [OF assms] unfolding room_def by blast+

lemma room_ge: "areas_ok as \<Longrightarrow> 4096 dvd m \<Longrightarrow> fits as c m \<Longrightarrow> c + m < USER_VIRT_ADDR_LIMIT \<Longrightarrow> m \<le> room as"
  unfolding room_def using room_set(1) by (intro Max_ge) auto

subsection \<open>Mapping anywhere\<close>

lemma sorted_find_le:
  assumes "List.find P xs = Some x" and "sorted xs" and "y \<in> set xs" and "P y"
  shows "x \<le> (y :: nat)"
  using assms by (induction xs) (auto split: if_splits)

text \<open>First fit: the lowest candidate with room for \<open>m\<close> bytes, an error when that is past the limit.\<close>

lemma find_free_first_fit:
  assumes "areas_ok as" and "4096 dvd m"
  shows "\<exists>c. fits as c m \<and> (\<forall>c'. fits as c' m \<longrightarrow> c \<le> c') \<and>
    find_free_area as 0 m =
      Some (if USER_VIRT_ADDR_LIMIT \<le> c + m then Inl MemorySet_UserMmapIntersectWithKernel else Inr c)"
proof -
  let ?P = "\<lambda>addr. test_free_area as addr (addr + m)"
  have iff: "c \<in> set (candidates as) \<Longrightarrow> ?P c \<longleftrightarrow> fits as c m" for c
    by (rule free_fits [OF assms(1) _ assms(2)])
  have "last (candidates as) \<in> set (candidates as)" by (rule last_in_set) (simp add: candidates_def)
  then have "List.find ?P (candidates as) \<noteq> None"
    using fits_last [OF assms(1)] iff by (auto simp: find_None_iff)
  then obtain c where c: "List.find ?P (candidates as) = Some c" by blast
  then have "c \<in> set (candidates as)" "?P c" by (auto simp: find_Some_iff)
  then have "fits as c m" using iff by blast
  moreover have "c \<le> c'" if "fits as c' m" for c'
    using that iff by (intro sorted_find_le [OF c candidates_sorted [OF assms(1)]]) (auto simp: fits_def)
  ultimately show ?thesis using c by (auto simp: find_free_area_def candidates_def)
qed

definition new_area :: "nat \<Rightarrow> nat \<Rightarrow> nat \<Rightarrow> vm_area" where
  "new_area c m flags = \<lparr>a_start = c, a_end = c + m, a_flags = flags, a_pages = m div 4096\<rparr>"

lemma new_area_ok:
  assumes "areas_ok as" and "fits as c m" and "4096 dvd m" and "0 < m" and "c + m < USER_VIRT_ADDR_LIMIT"
  shows "area_ok (new_area c m fl)" and "\<forall>b \<in> set as. apart (new_area c m fl) b"
    and "areas_ok (btree_insert (new_area c m fl) as)"
    and "set (btree_insert (new_area c m fl) as) = {new_area c m fl} \<union> set as"
proof -
  have "c \<in> set (candidates as)" using assms(2) by (simp add: fits_def)
  then show a: "area_ok (new_area c m fl)"
    using candidates_dvd [OF assms(1)] assms(3-5) by (auto simp: area_ok_def new_area_def)
  show b: "\<forall>b \<in> set as. apart (new_area c m fl) b"
    using assms(2) by (auto simp: apart_def new_area_def fits_def)
  show "areas_ok (btree_insert (new_area c m fl) as)"
    "set (btree_insert (new_area c m fl) as) = {new_area c m fl} \<union> set as"
    using btree_insert_ok [OF assms(1) a b] by auto
qed

lemma page_count_dvd: "4096 dvd m \<Longrightarrow> page_count m = m div 4096"
  by (simp add: page_count_def)

lemma pm_new_ok: "4096 dvd m \<Longrightarrow> 0 < m \<Longrightarrow> m < USER_VIRT_ADDR_LIMIT \<Longrightarrow> pm_new (page_count m) = Inr (m div 4096)"
  by (auto simp: pm_new_def page_count_def align_up_def USER_VIRT_ADDR_LIMIT_def elim!: dvdE)

lemma push_anywhere:
  assumes "areas_ok as" and "4096 dvd m" and "0 < m"
  shows "if m \<le> room as
    then \<exists>c. fits as c m \<and> c + m < USER_VIRT_ADDR_LIMIT \<and>
      push_with_backend 0 m fl True as = Some (Inr c, btree_insert (new_area c m fl) as)
    else push_with_backend 0 m fl True as = Some (Inl MemorySet_UserMmapIntersectWithKernel, as)"
proof -
  obtain c where c: "fits as c m" "\<forall>c'. fits as c' m \<longrightarrow> c \<le> c'"
    "find_free_area as 0 m = Some (if USER_VIRT_ADDR_LIMIT \<le> c + m then Inl MemorySet_UserMmapIntersectWithKernel else Inr c)"
    using find_free_first_fit [OF assms(1,2)] by blast
  show ?thesis
  proof (cases "m \<le> room as")
    case True
    obtain c' where "fits as c' (room as)" "c' + room as < USER_VIRT_ADDR_LIMIT"
      using room_in(2) [OF assms(1)] by blast
    then have "c \<le> c'" "c' + m < USER_VIRT_ADDR_LIMIT" using True c(2) fits_mono by auto
    then have lt: "c + m < USER_VIRT_ADDR_LIMIT" by simp
    have cd: "4096 dvd c" using candidates_dvd [OF assms(1)] c(1) by (simp add: fits_def)
    have new: "area_new c (c + m) fl (m div 4096) = Inr (new_area c m fl)"
      using area_new_ok [of c "c + m" fl] cd assms(2,3) by (simp add: new_area_def)
    have "test_free_area as c (c + m)"
      using free_fits [OF assms(1) _ assms(2), of c] c(1) by (simp add: fits_def)
    then have "push_with_backend 0 m fl True as = Some (Inr c, btree_insert (new_area c m fl) as)"
      using c(3) lt cd assms(2,3) new pm_new_ok [of m]
      by (simp add: push_with_backend_def make_place_def push_area_def Let_def) (simp add: new_area_def)
    then show ?thesis using True c(1) lt by auto
  next
    case False
    then have "\<not> c + m < USER_VIRT_ADDR_LIMIT" using room_ge [OF assms(1,2) c(1)] by blast
    then show ?thesis using False c(3) by (simp add: push_with_backend_def make_place_def)
  qed
qed

subsection \<open>The address space of the harness\<close>

definition PROT_NONE :: nat where
  "PROT_NONE = 0"

text \<open>The calls \<open>mmap(0, n, PROT_NONE, MAP_PRIVATE | MAP_ANONYMOUS, -1, 0)\<close> and \<open>munmap(p, n)\<close>; a
  panic would leave the set alone here, but none happens.\<close>

definition mmap_call :: "u64 \<Rightarrow> areas \<Rightarrow> nat option \<times> areas" where
  "mmap_call n as = (case sys_mmap_anon 0 (unat n) PROT_NONE False (-1) 0 as of Some r \<Rightarrow> r | None \<Rightarrow> (None, as))"

definition munmap_call :: "nat \<Rightarrow> u64 \<Rightarrow> areas \<Rightarrow> areas" where
  "munmap_call p n as = (case sys_munmap p (unat n) as of Some (_, as) \<Rightarrow> as | None \<Rightarrow> as)"

definition unmapped :: "areas \<Rightarrow> nat" where
  "unmapped as = USER_VIRT_ADDR_LIMIT - (\<Sum>a\<leftarrow>as. a_end a - a_start a)"

lemma mmap_call_eq:
  assumes "areas_ok as" and "0 < unat n"
  shows "mmap_call n as =
    (case push_with_backend 0 (align_up (unat n)) (prot_flags PROT_NONE) True as of
       None \<Rightarrow> (None, as) | Some (Inl _, as) \<Rightarrow> (None, as) | Some (Inr st, as) \<Rightarrow> (Some st, as))"
  by (auto simp: mmap_call_def sys_mmap_anon_def Let_def align_down_def split: option.split sum.split)

lemma sizes_le:
  "areas_ok as \<Longrightarrow> \<forall>a \<in> set as. b \<le> a_start a \<Longrightarrow> b \<le> USER_VIRT_ADDR_LIMIT \<Longrightarrow>
    (\<Sum>a\<leftarrow>as. a_end a - a_start a) + b \<le> USER_VIRT_ADDR_LIMIT"
proof (induction as arbitrary: b)
  case (Cons a as)
  have "a_start a < a_end a" "a_end a < USER_VIRT_ADDR_LIMIT" "b \<le> a_start a"
    using Cons.prems by (auto simp: area_ok_def)
  moreover have "(\<Sum>a\<leftarrow>as. a_end a - a_start a) + a_end a \<le> USER_VIRT_ADDR_LIMIT"
    using Cons.prems by (intro Cons.IH) (auto simp: area_ok_def)
  ultimately show ?case by simp
qed simp

lemma sum_btree_insert:
  "\<forall>b \<in> set as. a_start a \<noteq> a_start b \<Longrightarrow>
    (\<Sum>a\<leftarrow>btree_insert a as. a_end a - a_start a) = (a_end a - a_start a) + (\<Sum>a\<leftarrow>as. a_end a - a_start a)"
  by (induction as) auto

lemma filter_btree_insert:
  "\<forall>b \<in> set as. P b \<and> a_start a \<noteq> a_start b \<Longrightarrow> \<not> P a \<Longrightarrow> filter P (btree_insert a as) = as"
  "\<forall>b \<in> set as. P b \<and> a_start a \<noteq> a_start b \<Longrightarrow> \<not> P a \<Longrightarrow> filter (\<lambda>x. \<not> P x) (btree_insert a as) = [a]"
  by (induction as) (auto simp: filter_id_conv)

lemma room_insert:
  assumes "areas_ok as" and "fits as c m" and "4096 dvd m" and "0 < m" and "c + m < USER_VIRT_ADDR_LIMIT"
  shows "room (btree_insert (new_area c m fl) as) \<le> room as"
proof -
  note n = new_area_ok [OF assms, of fl]
  let ?as = "btree_insert (new_area c m fl) as"
  obtain c' where c': "fits ?as c' (room ?as)" "c' + room ?as < USER_VIRT_ADDR_LIMIT"
    using room_in(2) [OF n(3)] by blast
  have free: "a \<in> set as \<Longrightarrow> a_end a \<le> c' \<or> c' + room ?as \<le> a_start a" for a
    using c'(1) n(4) by (auto simp: fits_def)
  have "\<exists>c. fits as c (room ?as) \<and> c + room ?as < USER_VIRT_ADDR_LIMIT"
  proof (cases "c' \<in> set (candidates as)")
    case True
    then show ?thesis using free c'(2) by (auto simp: fits_def)
  next
    case False
    then have "c' = c + m"
      using c'(1) n(4) by (auto simp: fits_def candidates_def new_area_def)
    have "a_end a \<le> c \<or> c + room ?as \<le> a_start a" if "a \<in> set as" for a
    proof -
      have "a_start a < a_end a" using that assms(1) by (auto simp: areas_ok_def dest: area_ok_less)
      moreover have "a_end a \<le> c \<or> c + m \<le> a_start a" using assms(2) that by (simp add: fits_def)
      ultimately show ?thesis using free [OF that] \<open>c' = c + m\<close> by linarith
    qed
    then have "fits as c (room ?as)" using assms(2) by (simp add: fits_def)
    then show ?thesis using \<open>c' = c + m\<close> c'(2) by (intro exI [of _ c]) simp
  qed
  then show ?thesis using room_ge [OF assms(1) room_in(1) [OF n(3)]] by blast
qed

text \<open>An empty request ends in \<open>PmArea_InvalidRange\<close>.\<close>

lemma mmap_call_0:
  assumes "areas_ok as" and "unat n = 0"
  shows "mmap_call n as = (None, as)"
proof -
  have 0: "align_up 0 = 0" "align_down 0 = 0" by simp_all
  obtain r where "find_free_area as 0 0 = Some r" using find_free_first_fit [OF assms(1), of 0] by auto
  then have "\<exists>err. push_with_backend 0 0 (prot_flags PROT_NONE) True as = Some (Inl err, as)"
    by (cases r) (simp_all add: push_with_backend_def make_place_def pm_new_def page_count_def 0)
  then show ?thesis using assms(2) by (auto simp: mmap_call_def sys_mmap_anon_def Let_def 0)
qed

interpretation kvm: vm_space mmap_call munmap_call areas_ok room unmapped
proof
  fix as :: areas and n :: u64
  assume ok: "areas_ok as"
  let ?m = "align_up (unat n)"
  have lt: "room as < USER_VIRT_ADDR_LIMIT" using room_in(2) [OF ok] by auto
  then show "room as < 2 ^ 63" by (simp add: USER_VIRT_ADDR_LIMIT_def)
  show dvd: "4096 dvd room as" by (rule room_in(1) [OF ok])
  have call: "0 < unat n \<Longrightarrow> if unat n \<le> room as
    then \<exists>c. fits as c ?m \<and> c + ?m < USER_VIRT_ADDR_LIMIT \<and>
      mmap_call n as = (Some c, btree_insert (new_area c ?m (prot_flags PROT_NONE)) as)
    else mmap_call n as = (None, as)"
    using push_anywhere [OF ok, of ?m "prot_flags PROT_NONE"] mmap_call_eq [OF ok, of n] align_up_least [OF dvd, of "unat n"]
      align_le(2) [of "unat n"] by (auto split: if_splits)
  show "mmap_call n as = (None, as)" if "room as < unat n"
    using call that by simp
  show "\<exists>p as'. mmap_call n as = (Some p, as') \<and> munmap_call p n as' = as"
    if n: "0 < unat n" "4096 dvd unat n" "unat n \<le> room as"
  proof -
    obtain c where c: "fits as c (unat n)" "c + unat n < USER_VIRT_ADDR_LIMIT"
      "mmap_call n as = (Some c, btree_insert (new_area c (unat n) (prot_flags PROT_NONE)) as)" (is "_ = (_, ?as)")
      using call n by auto
    have cd: "4096 dvd c" using candidates_dvd [OF ok] c(1) by (simp add: fits_def)
    let ?a = "new_area c (unat n) (prot_flags PROT_NONE)"
    have ov: "is_overlap_with x c (c + unat n) \<longleftrightarrow> c < a_end x \<and> a_start x < c + unat n" for x
      using cd n(2) by (intro overlap_aligned) simp_all
    have "\<forall>b \<in> set as. \<not> is_overlap_with b c (c + unat n) \<and> a_start ?a \<noteq> a_start b"
      using c(1) ok ov n(1) by (fastforce simp: fits_def new_area_def areas_ok_def dest: area_ok_less)
    moreover have "is_overlap_with ?a c (c + unat n)" using n(1) ov by (simp add: new_area_def)
    ultimately have "filter (\<lambda>x. \<not> is_overlap_with x c (c + unat n)) ?as = as"
      "filter (\<lambda>x. is_overlap_with x c (c + unat n)) ?as = [?a]"
      using filter_btree_insert [of as "\<lambda>x. \<not> is_overlap_with x c (c + unat n)" ?a] by simp_all
    then have "sys_munmap c (unat n) ?as = Some (True, as)"
      using n(1) by (simp add: sys_munmap_def modify_overlap_areas_def shrink_or_split_def new_area_def)
    then show ?thesis using c(3) by (simp add: munmap_call_def)
  qed
  show "areas_ok as' \<and> room as' \<le> room as \<and> unmapped as' < unmapped as"
    if n: "4096 dvd unat n" "mmap_call n as = (Some p, as')" for p as'
  proof -
    have "unat n \<noteq> 0" using n(2) mmap_call_0 [OF ok] by fastforce
    then obtain c where c: "fits as c (unat n)" "c + unat n < USER_VIRT_ADDR_LIMIT"
      "as' = btree_insert (new_area c (unat n) (prot_flags PROT_NONE)) as"
      using call n by (auto split: if_splits)
    note a = new_area_ok [OF ok c(1) n(1) _ c(2), of "prot_flags PROT_NONE"]
    have "\<forall>b \<in> set as. a_start (new_area c (unat n) (prot_flags PROT_NONE)) \<noteq> a_start b"
      using c(1) ok \<open>unat n \<noteq> 0\<close> by (fastforce simp: fits_def new_area_def areas_ok_def dest: area_ok_less)
    then have "(\<Sum>a\<leftarrow>as'. a_end a - a_start a) = unat n + (\<Sum>a\<leftarrow>as. a_end a - a_start a)"
      unfolding c(3) by (subst sum_btree_insert) (simp_all add: new_area_def)
    moreover have "(\<Sum>a\<leftarrow>as'. a_end a - a_start a) \<le> USER_VIRT_ADDR_LIMIT"
      using sizes_le [of as' 0] a(3) \<open>unat n \<noteq> 0\<close> c(3) by simp
    ultimately have "unmapped as' < unmapped as" using \<open>unat n \<noteq> 0\<close> by (simp add: unmapped_def)
    then show ?thesis
      using a(3) room_insert [OF ok c(1) n(1) _ c(2)] \<open>unat n \<noteq> 0\<close> unfolding c(3) by simp
  qed
qed

subsection \<open>System calls refine the page map\<close>

datatype vm_op = Mmap nat nat nat bool | Munmap nat nat

definition vm_step :: "vm_op \<Rightarrow> areas \<Rightarrow> (nat option \<times> areas) option" where
  "vm_step op as =
     (case op of
        Mmap st len prot map_fixed \<Rightarrow> sys_mmap_anon st len prot map_fixed (-1) 0 as
      | Munmap st len \<Rightarrow>
          map_option (\<lambda>(ok, as). (if ok then Some 0 else None, as)) (sys_munmap st len as))"

fun vm_run :: "vm_op list \<Rightarrow> areas \<Rightarrow> (nat option list \<times> areas) option" where
  "vm_run [] as = Some ([], as)"
| "vm_run (op # ops) as =
     (case vm_step op as of
        None \<Rightarrow> None
      | Some (r, as) \<Rightarrow> map_option (\<lambda>(rs, as). (r # rs, as)) (vm_run ops as))"

text \<open>A request the kernel handles as meant: it has a length, and \<open>munmap\<close>, which does not round, is given
  whole pages.\<close>

fun op_ok :: "vm_op \<Rightarrow> bool" where
  "op_ok (Mmap st len prot map_fixed) \<longleftrightarrow> 0 < len"
| "op_ok (Munmap st len) \<longleftrightarrow> 0 < len \<and> 4096 dvd st \<and> 4096 dvd len"

definition pages_in :: "nat \<Rightarrow> nat \<Rightarrow> nat set" where
  "pages_in st en = {pg. st \<le> pg * 4096 \<and> pg * 4096 < en}"

definition set_pages :: "nat set \<Rightarrow> nat option \<Rightarrow> (nat \<Rightarrow> nat option) \<Rightarrow> nat \<Rightarrow> nat option" where
  "set_pages S v m = (\<lambda>pg. if pg \<in> S then v else m pg)"

text \<open>The specification: what a call does to the flags of the pages.  A fixed mapping replaces what was there,
  another one takes unmapped pages, and a refused one leaves the pages alone.\<close>

inductive page_step :: "vm_op \<Rightarrow> nat option \<Rightarrow> (nat \<Rightarrow> nat option) \<Rightarrow> (nat \<Rightarrow> nat option) \<Rightarrow> bool" where
  unmaps: "page_step (Munmap st len) (Some 0) m (set_pages (pages_in st (st + len)) None m)"
| maps_fixed:
    "align_down st \<noteq> 0 \<Longrightarrow> align_up (st + len) < USER_VIRT_ADDR_LIMIT \<Longrightarrow>
     page_step (Mmap st len prot True) (Some (align_down st)) m
       (set_pages (pages_in (align_down st) (align_up (st + len))) (Some (prot_flags prot)) m)"
| maps_free:
    "4096 dvd c \<Longrightarrow> 4096 \<le> c \<Longrightarrow> n = align_up (st + len) - align_down st \<Longrightarrow> c + n < USER_VIRT_ADDR_LIMIT \<Longrightarrow>
     \<forall>pg \<in> pages_in c (c + n). m pg = None \<Longrightarrow>
     page_step (Mmap st len prot False) (Some c) m (set_pages (pages_in c (c + n)) (Some (prot_flags prot)) m)"
| refuses_fixed:
    "align_down st = 0 \<or> USER_VIRT_ADDR_LIMIT \<le> align_up (st + len) \<Longrightarrow>
     page_step (Mmap st len prot True) None m m"
| refuses_free: "page_step (Mmap st len prot False) None m m"

inductive page_run :: "vm_op list \<Rightarrow> nat option list \<Rightarrow> (nat \<Rightarrow> nat option) \<Rightarrow> (nat \<Rightarrow> nat option) \<Rightarrow> bool" where
  run_nil: "page_run [] [] m m"
| run_cons: "page_step op r m m1 \<Longrightarrow> page_run ops rs m1 m2 \<Longrightarrow> page_run (op # ops) (r # rs) m m2"

lemma insert_area:
  assumes "areas_ok as" and "4096 dvd c" and "4096 \<le> c" and "4096 dvd m" and "0 < m"
    and "c + m < USER_VIRT_ADDR_LIMIT" and free: "\<forall>a \<in> set as. a_end a \<le> c \<or> c + m \<le> a_start a"
  shows "areas_ok (btree_insert (new_area c m fl) as)"
    and "page_map (btree_insert (new_area c m fl) as) = set_pages (pages_in c (c + m)) (Some fl) (page_map as)"
    and "\<forall>pg \<in> pages_in c (c + m). page_map as pg = None"
proof -
  have a: "area_ok (new_area c m fl)" using assms by (auto simp: area_ok_def new_area_def)
  have b: "\<forall>b \<in> set as. apart (new_area c m fl) b" using free by (auto simp: apart_def new_area_def)
  note i = btree_insert_ok [OF assms(1) a b]
  show "areas_ok (btree_insert (new_area c m fl) as)" by (rule i(1))
  have out: "\<not> area_contains x (pg * 4096)" if "x \<in> set as" "pg \<in> pages_in c (c + m)" for x pg
    using free that by (fastforce simp: area_contains_def pages_in_def)
  then show "\<forall>pg \<in> pages_in c (c + m). page_map as pg = None"
    by (auto simp: page_map_def find_None_iff)
  have new: "area_contains (new_area c m fl) (pg * 4096) \<longleftrightarrow> pg \<in> pages_in c (c + m)" for pg
    by (simp add: area_contains_def new_area_def pages_in_def)
  have flags: "a_flags (new_area c m fl) = fl" by (simp add: new_area_def)
  show "page_map (btree_insert (new_area c m fl) as) = set_pages (pages_in c (c + m)) (Some fl) (page_map as)"
  proof (rule page_map_eqI [OF i(1)])
    fix pg f
    show "(\<exists>x \<in> set (btree_insert (new_area c m fl) as). area_contains x (pg * 4096) \<and> a_flags x = f) \<longleftrightarrow>
      set_pages (pages_in c (c + m)) (Some fl) (page_map as) pg = Some f"
      using out new [of pg] page_map_iff [OF assms(1), of pg f]
      by (simp add: i(2) set_pages_def flags)
  qed
qed

lemma push_place:
  assumes "make_place st en anywhere as = Some (Inr (c, c + m), as')"
    and "areas_ok as'" and "4096 dvd c" and "4096 \<le> c" and "4096 dvd m" and "0 < m"
    and "c + m < USER_VIRT_ADDR_LIMIT" and "\<forall>a \<in> set as'. a_end a \<le> c \<or> c + m \<le> a_start a"
  shows "push_with_backend st en fl anywhere as = Some (Inr c, btree_insert (new_area c m fl) as')"
proof -
  have new: "area_new c (c + m) fl (m div 4096) = Inr (new_area c m fl)"
    using area_new_ok [of c "c + m" fl] assms(3,5,6) by (simp add: new_area_def)
  have "test_free_area as' c (c + m)"
    using assms(8) overlap_aligned [of c "c + m"] assms(3,5)
    by (auto simp: test_free_iff [OF assms(2)])
  then show ?thesis
    using assms(1,3,5,6,7) new pm_new_ok [of m]
    by (simp add: push_with_backend_def push_area_def Let_def) (simp add: new_area_def)
qed

lemma find_free_cases:
  assumes "areas_ok as" and "4096 dvd hint" and "4096 dvd m"
  obtains "find_free_area as hint m = Some (Inl MemorySet_UserMmapIntersectWithKernel)"
  | c where "find_free_area as hint m = Some (Inr c)" "4096 dvd c" "4096 \<le> c" "c + m < USER_VIRT_ADDR_LIMIT"
    "\<forall>a \<in> set as. a_end a \<le> c \<or> c + m \<le> a_start a"
proof -
  let ?t = "if hint = 0 then 4096 else align_up hint" and ?P = "\<lambda>addr. test_free_area as addr (addr + m)"
  have t: "4096 dvd ?t" "4096 \<le> ?t" using assms(2) by (auto dest: dvd_imp_le)
  have c: "4096 dvd c \<and> 4096 \<le> c" if "c \<in> set (?t # map a_end as)" for c
    using that t candidates_dvd [OF assms(1), of c] by (auto simp: candidates_def)
  have free: "?P c \<longleftrightarrow> (\<forall>a \<in> set as. a_end a \<le> c \<or> c + m \<le> a_start a)" if "c \<in> set (?t # map a_end as)" for c
    using c [OF that] assms(1,3) by (auto simp: test_free_iff is_overlap_with_def Let_def)
  have "\<exists>c \<in> set (?t # map a_end as). \<forall>a \<in> set as. a_end a \<le> c \<or> c + m \<le> a_start a"
  proof (cases "as = []")
    case False
    then show ?thesis using areas_end_le_last [OF assms(1)] by (intro bexI [of _ "a_end (last as)"]) auto
  qed simp
  then have "List.find ?P (?t # map a_end as) \<noteq> None" using free by (metis find_None_iff)
  then obtain x where x: "List.find ?P (?t # map a_end as) = Some x" by blast
  then have "x \<in> set (?t # map a_end as)" "?P x" by (metis find_Some_iff nth_mem)+
  then show thesis
    using x c [of x] free [of x] that by (cases "USER_VIRT_ADDR_LIMIT \<le> x + m") (simp_all add: find_free_area_def Let_def)
qed

lemma modify_free:
  assumes "areas_ok as" and "4096 dvd st" and "4096 dvd en" and "st < en"
  shows "\<exists>as'. modify_overlap_areas st en as = Some (None, as') \<and> areas_ok as' \<and>
    page_map as' = set_pages (pages_in st en) None (page_map as) \<and> (\<forall>a \<in> set as'. a_end a \<le> st \<or> en \<le> a_start a)"
proof -
  obtain as' where as': "modify_overlap_areas st en as = Some (None, as')" "areas_ok as'"
    "page_map as' = (\<lambda>pg. if st \<le> pg * 4096 \<and> pg * 4096 < en then None else page_map as pg)"
    using munmap_page_map [OF assms] by blast
  have "set as' = (\<Union>d \<in> {a \<in> set as. is_overlap_with a st en}. set (pieces st en d)) \<union>
      {a \<in> set as. \<not> is_overlap_with a st en}"
    using modify_overlap_areas_ok [OF assms] as'(1) by auto
  then have "\<forall>a \<in> set as'. a_end a \<le> st \<or> en \<le> a_start a"
    using overlap_aligned [OF assms(2,3)] by (auto simp: pieces_def split: if_splits)
  then show ?thesis using as' by (auto simp: set_pages_def pages_in_def)
qed

lemma align_span: "0 < len \<Longrightarrow> align_down st < align_up (st + len)"
  using align_le [of st] align_le [of "st + len"] by simp

lemma mmap_step_ok:
  assumes "areas_ok as" and "0 < len"
  shows "\<exists>r as'. vm_step (Mmap st len prot fixed) as = Some (r, as') \<and> areas_ok as' \<and>
    page_step (Mmap st len prot fixed) r (page_map as) (page_map as')"
proof -
  let ?s = "align_down st" and ?e = "align_up (st + len)"
  let ?m = "?e - ?s"
  have m: "0 < ?m" "4096 dvd ?m" "?s + ?m = ?e" using align_span [OF assms(2), of st] by (auto intro: dvd_diff_nat)
  have call: "vm_step (Mmap st len prot fixed) as =
    (if ?s = 0 \<and> fixed then Some (None, as)
     else (case push_with_backend ?s ?e (prot_flags prot) (?s = 0 \<or> \<not> fixed) as of
             None \<Rightarrow> None | Some (Inl _, as) \<Rightarrow> Some (None, as) | Some (Inr st, as) \<Rightarrow> Some (Some st, as)))"
    using m(3) by (simp add: vm_step_def sys_mmap_anon_def Let_def)
  show ?thesis
  proof (cases fixed)
    case True
    show ?thesis
    proof (cases "?s = 0 \<or> USER_VIRT_ADDR_LIMIT \<le> ?e")
      case refused: True
      then have "vm_step (Mmap st len prot fixed) as = Some (None, as)"
        using call True by (auto simp: push_with_backend_def make_place_def)
      then show ?thesis using assms(1) refuses_fixed [OF refused] True by auto
    next
      case False
      then have s: "4096 \<le> ?s" "?s + ?m < USER_VIRT_ADDR_LIMIT" "?s < ?s + ?m"
        using m dvd_imp_le [OF dvd_align(1), of st] by auto
      obtain as1 where as1: "modify_overlap_areas ?s (?s + ?m) as = Some (None, as1)" "areas_ok as1"
        "page_map as1 = set_pages (pages_in ?s (?s + ?m)) None (page_map as)"
        "\<forall>a \<in> set as1. a_end a \<le> ?s \<or> ?s + ?m \<le> a_start a"
        using modify_free [OF assms(1), of ?s "?s + ?m"] m s(3) by auto
      have "make_place ?s ?e False as = Some (Inr (?s, ?s + ?m), as1)"
        using as1(1) s(2) m(3) by (simp add: make_place_def)
      from push_place [OF this as1(2) _ s(1) m(2,1) s(2) as1(4)]
      have "vm_step (Mmap st len prot fixed) as = Some (Some ?s, btree_insert (new_area ?s ?m (prot_flags prot)) as1)"
        using call True False by simp
      moreover have "page_step (Mmap st len prot fixed) (Some ?s) (page_map as)
          (page_map (btree_insert (new_area ?s ?m (prot_flags prot)) as1))"
      proof -
        have "page_map (btree_insert (new_area ?s ?m (prot_flags prot)) as1) = set_pages (pages_in ?s ?e) (Some (prot_flags prot)) (page_map as)"
          using insert_area(2) [OF as1(2) _ s(1) m(2,1) s(2) as1(4)] as1(3) m(3) by (auto simp: set_pages_def)
        then show ?thesis using maps_fixed [of st len prot] False True by simp
      qed
      ultimately show ?thesis using insert_area(1) [OF as1(2) dvd_align(1) s(1) m(2,1) s(2) as1(4), of "prot_flags prot"] by blast
    qed
  next
    case False
    have dvd: "4096 dvd ?s" by simp
    from assms(1) dvd m(2) show ?thesis
    proof (cases rule: find_free_cases)
      case 1
      then have "vm_step (Mmap st len prot fixed) as = Some (None, as)"
        using call False by (simp add: push_with_backend_def make_place_def)
      then show ?thesis using assms(1) refuses_free [of st len prot] False by auto
    next
      case (2 c)
      have "make_place ?s ?e True as = Some (Inr (c, c + ?m), as)" using 2(1) by (simp add: make_place_def)
      from push_place [OF this assms(1) 2(2,3) m(2,1) 2(4,5)]
      have "vm_step (Mmap st len prot fixed) as = Some (Some c, btree_insert (new_area c ?m (prot_flags prot)) as)"
        using call False by simp
      moreover note i = insert_area(1,2) [OF assms(1) 2(2,3) m(2,1) 2(4,5), of "prot_flags prot"]
        insert_area(3) [OF assms(1) 2(2,3) m(2,1) 2(4,5)]
      moreover have "page_step (Mmap st len prot fixed) (Some c) (page_map as)
          (page_map (btree_insert (new_area c ?m (prot_flags prot)) as))"
        using maps_free [OF 2(2,3) _ 2(4) i(3)] False by (simp add: i(2))
      ultimately show ?thesis by blast
    qed
  qed
qed

lemma munmap_step_ok:
  assumes "areas_ok as" and "op_ok (Munmap st len)"
  shows "\<exists>r as'. vm_step (Munmap st len) as = Some (r, as') \<and> areas_ok as' \<and>
    page_step (Munmap st len) r (page_map as) (page_map as')"
proof -
  obtain as' where as': "modify_overlap_areas st (st + len) as = Some (None, as')" "areas_ok as'"
    "page_map as' = set_pages (pages_in st (st + len)) None (page_map as)"
    using modify_free [OF assms(1), of st "st + len"] assms(2) by auto
  then have "vm_step (Munmap st len) as = Some (Some 0, as')" by (simp add: vm_step_def sys_munmap_def)
  then show ?thesis using as'(2,3) unmaps [of st len "page_map as"] by auto
qed

lemma vm_step_ok:
  assumes "areas_ok as" and "op_ok op"
  shows "\<exists>r as'. vm_step op as = Some (r, as') \<and> areas_ok as' \<and> page_step op r (page_map as) (page_map as')"
proof (cases op)
  case (Mmap st len prot fixed)
  then show ?thesis using mmap_step_ok [OF assms(1)] assms(2) by simp
next
  case (Munmap st len)
  then show ?thesis using munmap_step_ok [OF assms(1)] assms(2) by simp
qed

text \<open>\<open>munmap\<close> does not round: a range within one page takes the whole area away and reports an error,
  and a length that is no multiple of the page size leaves an area at an odd address.\<close>

lemma munmap_sub_page_drops_area:
  "sys_munmap 4196 100 [new_area 4096 8192 3] = Some (False, [])"
  by (simp add: sys_munmap_def modify_overlap_areas_def is_overlap_with_def shrink_or_split_def new_area_def
      align_down_def align_up_def pm_split_def addr_to_page_id_def area_new_def Let_def)

lemma munmap_unaligned_length:
  "sys_munmap 4096 100 [new_area 4096 8192 3] =
     Some (True, [\<lparr>a_start = 4196, a_end = 12288, a_flags = 3, a_pages = 2\<rparr>])"
  by (simp add: sys_munmap_def modify_overlap_areas_def is_overlap_with_def shrink_or_split_def new_area_def
      align_down_def align_up_def pm_shrink_left_def addr_to_page_id_def Let_def)

subsection \<open>Properties\<close>





end
