(* ===== verification/SearchTests.thy ===== *)
theory SearchTests
  imports QsortTest CString TestLog
begin

text \<open>
  search_insque.c, search_lsearch.c and search_hsearch.c of libc/src/functional: sanity tests of the
  queues, the linear search and the hash table of <search.h>.  The functions under test are arguments.
  A queue lives in a heap from addresses to cells, whose links \<open>malloc\<close> leaves as they were; the table
  of the linear search is the list of its rows in use.
\<close>

subsection \<open>search_insque.c\<close>

record q =
  q_n :: "nat option"
  q_p :: "nat option"
  q_i :: int

type_synonym q_heap = "nat \<Rightarrow> q"

text \<open>Addresses from \<open>brk\<close> on have not been handed out; \<open>malloc\<close> is taken to succeed.\<close>

definition new_q :: "int \<Rightarrow> nat \<times> q_heap \<Rightarrow> nat \<times> nat \<times> q_heap" where
  "new_q i m = (case m of (brk, h) \<Rightarrow> (brk, brk + 1, h(brk := (h brk)\<lparr>q_i := i\<rparr>)))"

type_synonym insque_fn = "nat \<Rightarrow> nat option \<Rightarrow> q_heap \<Rightarrow> q_heap"
type_synonym remque_fn = "nat \<Rightarrow> q_heap \<Rightarrow> q_heap"

text \<open>The result of a null pointer's use is \<open>None\<close>: when \<open>q\<close> becomes null, the next use of it is one.\<close>

fun fill_queue :: "insque_fn \<Rightarrow> int list \<Rightarrow> nat \<Rightarrow> nat \<times> q_heap \<Rightarrow> (nat \<times> nat \<times> q_heap) option" where
  "fill_queue insque [] q m = Some (q, m)"
| "fill_queue insque (i # is) q m =
     (case new_q i m of (e, brk, h) \<Rightarrow>
        let h = insque e (Some q) h
        in case q_n (h q) of None \<Rightarrow> None | Some q \<Rightarrow> fill_queue insque is q (brk, h))"

text \<open>The walk back ends at a null pointer; on a circular queue it would not.\<close>

partial_function (option) walk_back :: "q_heap \<Rightarrow> nat option \<Rightarrow> int \<Rightarrow> log \<Rightarrow> log option" where
  "walk_back h q i ls =
     (case q of
        None \<Rightarrow> Some ls
      | Some a \<Rightarrow> walk_back h (q_p (h a)) (i - 1) (ls @ check 35 (\<not> q_i (h a) \<noteq> i - 1)))"

definition check_remque :: "remque_fn \<Rightarrow> nat \<Rightarrow> q_heap \<Rightarrow> log option" where
  "check_remque remque p h =
     (case q_p (h p) of
        None \<Rightarrow> None
      | Some e \<Rightarrow>
          let h = remque e h
          in case q_p (h p) of
               None \<Rightarrow> None
             | Some b \<Rightarrow>
                 (case q_n (h b) of
                    None \<Rightarrow> None
                  | Some c \<Rightarrow> Some (check 40 (\<not> q_i (h b) \<noteq> q_i (h p) - 2) @ check 42 (\<not> q_i (h c) \<noteq> q_i (h p)))))"

definition insque_main :: "insque_fn \<Rightarrow> remque_fn \<Rightarrow> nat \<times> q_heap \<Rightarrow> log option" where
  "insque_main insque remque m =
     (case new_q 0 m of (q, brk, h) \<Rightarrow>
      case fill_queue insque [1..9] q (brk, insque q None h) of
        None \<Rightarrow> None
      | Some (p, brk, h) \<Rightarrow>
          (case walk_back h (Some p) 10 [] of
             None \<Rightarrow> None
           | Some ls \<Rightarrow> map_option (\<lambda>ls'. ls @ ls') (check_remque remque p h)))"

text \<open>A part \<open>xs\<close> of a linked list, with \<open>p\<close> before it and \<open>s\<close> after it.\<close>

definition hd_or :: "nat list \<Rightarrow> nat option \<Rightarrow> nat option" where
  "hd_or xs s = (case xs of [] \<Rightarrow> s | x # _ \<Rightarrow> Some x)"

definition last_or :: "nat option \<Rightarrow> nat list \<Rightarrow> nat option" where
  "last_or p xs = (if xs = [] then p else Some (last xs))"

fun links :: "q_heap \<Rightarrow> nat option \<Rightarrow> nat list \<Rightarrow> nat option \<Rightarrow> bool" where
  "links h p [] s \<longleftrightarrow> True"
| "links h p (x # xs) s \<longleftrightarrow> q_p (h x) = p \<and> q_n (h x) = hd_or xs s \<and> links h (Some x) xs s"

definition queue :: "q_heap \<Rightarrow> nat list \<Rightarrow> bool" where
  "queue h xs \<longleftrightarrow> distinct xs \<and> links h None xs None"

lemma hd_or_simps [simp]:
  "hd_or [] s = s" "hd_or (x # xs) s = Some x" "hd_or (xs @ ys) s = hd_or xs (hd_or ys s)"
  by (simp_all add: hd_or_def split: list.split)

lemma last_or_simps [simp]:
  "last_or p [] = p" "last_or p (x # xs) = last_or (Some x) xs" "last_or p (xs @ [x]) = Some x"
  by (simp_all add: last_or_def)

lemma links_append [simp]:
  "links h p (xs @ ys) s \<longleftrightarrow> links h p xs (hd_or ys s) \<and> links h (last_or p xs) ys s"
  by (induction xs arbitrary: p) auto

lemma links_cong:
  "(\<And>x. x \<in> set xs \<Longrightarrow> q_n (h x) = q_n (h' x) \<and> q_p (h x) = q_p (h' x)) \<Longrightarrow> links h p xs s \<longleftrightarrow> links h' p xs s"
  by (induction xs arbitrary: p) auto

text \<open>What the standard promises of \<open>insque\<close> and \<open>remque\<close>.\<close>

locale queue_contract =
  fixes insque :: insque_fn and remque :: remque_fn
  assumes insque_first: "queue (insque e None h) [e]"
    and insque_after: "queue h (xs @ q # ys) \<Longrightarrow> e \<notin> set (xs @ q # ys) \<Longrightarrow>
      queue (insque e (Some q) h) (xs @ q # e # ys)"
    and insque_data: "q_i (insque e pred h a) = q_i (h a)"
    and remque_unlinks: "queue h (xs @ e # ys) \<Longrightarrow> queue (remque e h) (xs @ ys)"
    and remque_data: "q_i (remque e h a) = q_i (h a)"
begin

lemma fill_queue_fills:
  assumes "queue h (xs @ [q])" and "\<forall>x \<in> set (xs @ [q]). x < brk"
  shows "\<exists>ys p brk' h'. fill_queue insque is q (brk, h) = Some (p, brk', h') \<and>
    queue h' (ys @ [p]) \<and> map (\<lambda>a. q_i (h' a)) (ys @ [p]) = map (\<lambda>a. q_i (h a)) (xs @ [q]) @ is"
  using assms
proof (induction "is" arbitrary: xs q brk h)
  case Nil
  then show ?case by auto
next
  case (Cons i "is")
  let ?h = "h(brk := (h brk)\<lparr>q_i := i\<rparr>)"
  let ?h' = "insque brk (Some q) ?h"
  have new: "brk \<notin> set (xs @ [q])" using Cons.prems(2) by auto
  have "queue ?h (xs @ [q])"
    using Cons.prems(1) new links_cong [of "xs @ [q]" ?h h None None] by (simp add: queue_def)
  then have q: "queue ?h' (xs @ [q, brk])" using insque_after [of ?h xs q "[]" brk] new by simp
  then have n: "q_n (?h' q) = Some brk" by (simp add: queue_def)
  have "\<forall>x \<in> set ((xs @ [q]) @ [brk]). x < brk + 1" using Cons.prems(2) by auto
  moreover have "queue ?h' ((xs @ [q]) @ [brk])" using q by simp
  ultimately obtain ys p brk' h' where "fill_queue insque is brk (brk + 1, ?h') = Some (p, brk', h')"
    "queue h' (ys @ [p])"
    "map (\<lambda>a. q_i (h' a)) (ys @ [p]) = map (\<lambda>a. q_i (?h' a)) ((xs @ [q]) @ [brk]) @ is"
    using Cons.IH [of ?h' "xs @ [q]" brk "brk + 1"] by blast
  moreover have "map (\<lambda>a. q_i (?h' a)) ((xs @ [q]) @ [brk]) @ is = map (\<lambda>a. q_i (h a)) (xs @ [q]) @ i # is"
    using new by (auto simp: insque_data)
  ultimately show ?case
    using n by (intro exI [of _ ys] exI [of _ p] exI [of _ brk'] exI [of _ h']) (simp add: new_q_def Let_def)
qed

end

lemma walk_back_ends:
  "links h None xs s \<Longrightarrow> map (\<lambda>a. q_i (h a)) xs = [i - int (length xs)..i - 1] \<Longrightarrow>
     walk_back h (last_or None xs) i ls = Some ls"
proof (induction xs arbitrary: i s rule: rev_induct)
  case Nil
  then show ?case by (subst walk_back.simps) simp
next
  case (snoc x xs)
  have "[i - int (length (xs @ [x]))..i - 1] = [(i - 1) - int (length xs)..i - 1 - 1] @ [i - 1]"
    using upto_rec2 [of "(i - 1) - int (length xs)" "i - 1"] by (simp add: diff_diff_eq)
  then have "q_i (h x) = i - 1" "map (\<lambda>a. q_i (h a)) xs = [(i - 1) - int (length xs)..(i - 1) - 1]"
    using snoc.prems(2) by simp_all
  moreover have "links h None xs (Some x)" "q_p (h x) = last_or None xs" using snoc.prems(1) by simp_all
  ultimately show ?case using snoc.IH [of "Some x" "i - 1"] by (subst walk_back.simps) simp
qed

context queue_contract begin

lemma insque_main_passes: "insque_main insque remque (brk, h) = Some []"
proof -
  let ?h = "h(brk := (h brk)\<lparr>q_i := 0\<rparr>)"
  let ?h' = "insque brk None ?h"
  obtain ys p brk' h1 where f: "fill_queue insque [1..9] brk (brk + 1, ?h') = Some (p, brk', h1)"
    "queue h1 (ys @ [p])" "map (\<lambda>a. q_i (h1 a)) (ys @ [p]) = [0] @ [1..9]"
    using fill_queue_fills [of ?h' "[]" brk "brk + 1" "[1..9]"] insque_first by (auto simp: insque_data)
  have "[0] @ [1..9] = [0, 1, 2, 3, 4, 5, 6, 7, 8, 9 :: int]" by (simp add: upto_rec1)
  then have i: "map (\<lambda>a. q_i (h1 a)) (ys @ [p]) = [0, 1, 2, 3, 4, 5, 6, 7, 8, 9]" using f(3) by simp
  have "length (map (\<lambda>a. q_i (h1 a)) (ys @ [p])) = 10" unfolding i by simp
  then have len: "length (ys @ [p]) = 10" by (simp only: length_map)
  have "[10 - int (length (ys @ [p]))..10 - 1] = [0, 1, 2, 3, 4, 5, 6, 7, 8, 9]"
    unfolding len by (simp add: upto_rec1)
  then have w: "walk_back h1 (Some p) 10 [] = Some []"
    using walk_back_ends [of h1 "ys @ [p]" None 10 "[]"] f(2) i by (simp add: queue_def del: map_append)
  obtain xs b e where ys: "ys = xs @ [b, e]"
  proof -
    have "length ys = 9" using len by simp
    then obtain ys1 e where "ys = ys1 @ [e]" "length ys1 = 8" by (cases ys rule: rev_cases) auto
    then obtain xs b where "ys1 = xs @ [b]" by (cases ys1 rule: rev_cases) auto
    then show thesis using that \<open>ys = ys1 @ [e]\<close> by simp
  qed
  have d: "q_i (h1 p) = 9" "q_i (h1 b) = 7"
    using arg_cong [OF i, of rev] unfolding ys by simp_all
  have q: "queue h1 (xs @ [b] @ e # [p])" using f(2) ys by simp
  then have e: "q_p (h1 p) = Some e" by (simp add: queue_def)
  have "queue (remque e h1) (xs @ [b, p])" using remque_unlinks [of h1 "xs @ [b]" e "[p]"] q by simp
  then have "q_p (remque e h1 p) = Some b" "q_n (remque e h1 b) = Some p" by (simp_all add: queue_def)
  then have "check_remque remque p h1 = Some []"
    using e d by (simp add: check_remque_def Let_def remque_data)
  then show ?thesis using f(1) w by (simp add: insque_main_def new_q_def)
qed

end

text \<open>The functions as the standard describes them.\<close>

definition insque_ref :: insque_fn where
  "insque_ref e pred h =
     (case pred of
        None \<Rightarrow> h(e := (h e)\<lparr>q_n := None, q_p := None\<rparr>)
      | Some p \<Rightarrow>
          let s = q_n (h p);
              h = h(e := (h e)\<lparr>q_n := s, q_p := Some p\<rparr>);
              h = h(p := (h p)\<lparr>q_n := Some e\<rparr>)
          in case s of None \<Rightarrow> h | Some n \<Rightarrow> h(n := (h n)\<lparr>q_p := Some e\<rparr>))"

definition remque_ref :: remque_fn where
  "remque_ref e h =
     (let n = q_n (h e); p = q_p (h e);
          h = (case n of None \<Rightarrow> h | Some n \<Rightarrow> h(n := (h n)\<lparr>q_p := p\<rparr>))
      in case p of None \<Rightarrow> h | Some p \<Rightarrow> h(p := (h p)\<lparr>q_n := n\<rparr>))"

lemma links_outside:
  assumes "links h p xs s" and "\<And>x. x \<in> set xs \<Longrightarrow> h' x = h x"
  shows "links h' p xs s"
  using assms links_cong [of xs h h' p s] by simp

lemma remque_ref_cells:
  "q_n (h e) \<noteq> Some x \<Longrightarrow> q_p (h e) \<noteq> Some x \<Longrightarrow> remque_ref e h x = h x"
  "q_n (h e) = Some x \<Longrightarrow> q_p (h e) \<noteq> Some x \<Longrightarrow> remque_ref e h x = (h x)\<lparr>q_p := q_p (h e)\<rparr>"
  "q_p (h e) = Some x \<Longrightarrow> q_n (h e) \<noteq> Some x \<Longrightarrow> remque_ref e h x = (h x)\<lparr>q_n := q_n (h e)\<rparr>"
  by (auto simp: remque_ref_def Let_def split: option.splits)

lemma ends_in_set: "last_or None xs = Some x \<Longrightarrow> x \<in> set xs" "hd_or xs None = Some x \<Longrightarrow> x \<in> set xs"
  by (auto simp: last_or_def hd_or_def split: if_splits list.splits)

interpretation qref: queue_contract insque_ref remque_ref
proof
  fix h xs q ys e
  assume q: "queue h (xs @ q # ys)" and e: "e \<notin> set (xs @ q # ys)"
  have d: "distinct (xs @ q # ys)" and l: "links h None xs (Some q)" "q_p (h q) = last_or None xs"
    "q_n (h q) = hd_or ys None" "links h (Some q) ys None"
    using q by (simp_all add: queue_def)
  let ?h = "insque_ref e (Some q) h"
  show "queue ?h (xs @ q # e # ys)"
  proof (cases ys)
    case Nil
    have "links ?h None xs (Some q)"
      by (rule links_outside [OF l(1)]) (use d e l(3) Nil in \<open>auto simp: insque_ref_def\<close>)
    then show ?thesis using d e l Nil by (simp add: queue_def insque_ref_def)
  next
    case (Cons y zs)
    have "links ?h None xs (Some q)"
      by (rule links_outside [OF l(1)]) (use d e l(3) Cons in \<open>auto simp: insque_ref_def Let_def\<close>)
    moreover have "links ?h (Some y) zs None"
    proof (rule links_outside)
      show "links h (Some y) zs None" using l(4) Cons by simp
    qed (use d e l(3) Cons in \<open>auto simp: insque_ref_def Let_def\<close>)
    ultimately show ?thesis using d e l Cons by (auto simp: queue_def insque_ref_def Let_def)
  qed
next
  fix h xs e ys
  assume q: "queue h (xs @ e # ys)"
  have d: "distinct (xs @ e # ys)" and l: "links h None xs (Some e)" "q_p (h e) = last_or None xs"
    "q_n (h e) = hd_or ys None" "links h (Some e) ys None"
    using q by (simp_all add: queue_def)
  let ?h = "remque_ref e h"
  have n: "q_n (h e) \<noteq> Some x" if "x \<notin> set ys" for x using that l(3) ends_in_set(2) by auto
  have p: "q_p (h e) \<noteq> Some x" if "x \<notin> set xs" for x using that l(2) ends_in_set(1) by auto
  have ys: "links ?h (last_or None xs) ys None"
  proof (cases ys)
    case (Cons y zs)
    have "links ?h (Some y) zs None"
    proof (rule links_outside)
      show "links h (Some y) zs None" using l(4) Cons by simp
      fix x assume "x \<in> set zs"
      then show "?h x = h x" using d l(3) Cons p [of x] by (intro remque_ref_cells(1)) auto
    qed
    moreover have "?h y = (h y)\<lparr>q_p := last_or None xs\<rparr>"
      using d l(2,3) Cons p [of y] remque_ref_cells(2) [of h e y] by auto
    ultimately show ?thesis using l(4) Cons by simp
  qed simp
  have "links ?h None xs (hd_or ys None)"
  proof (cases xs rule: rev_cases)
    case (snoc zs x)
    have "links ?h None zs (Some x)"
    proof (rule links_outside)
      show "links h None zs (Some x)" using l(1) snoc by simp
      fix z assume "z \<in> set zs"
      then show "?h z = h z" using d l(2) snoc n [of z] by (intro remque_ref_cells(1)) auto
    qed
    moreover have "?h x = (h x)\<lparr>q_n := hd_or ys None\<rparr>"
      using d l(2,3) snoc n [of x] remque_ref_cells(3) [of h e x] by auto
    ultimately show ?thesis using l(1) snoc by simp
  qed simp
  then show "queue ?h (xs @ ys)" using ys d by (simp add: queue_def)
next
  show "q_i (insque_ref e pred h a) = q_i (h a)" for e pred h a
    by (simp add: insque_ref_def Let_def split: option.split)
  show "q_i (remque_ref e h a) = q_i (h a)" for e h a
    by (simp add: remque_ref_def Let_def split: option.split)
qed (simp add: insque_ref_def queue_def)

subsection \<open>search_lsearch.c\<close>

type_synonym lsearch_fn = "cstr \<Rightarrow> cstr list \<Rightarrow> nat \<times> cstr list"
type_synonym lfind_fn = "cstr \<Rightarrow> cstr list \<Rightarrow> nat option"

definition lset :: "lsearch_fn \<Rightarrow> nat \<Rightarrow> cstr \<Rightarrow> cstr list \<times> log \<Rightarrow> cstr list \<times> log" where
  "lset lsearch l k st =
     (case st of (tab, ls) \<Rightarrow>
      case lsearch k tab of (r, tab) \<Rightarrow> (tab, ls @ check l (\<not> strcmp (tab ! r) k \<noteq> 0)))"

text \<open>The number of elements \<open>nel\<close> is the length of the list.\<close>

definition lsearch_main :: "lsearch_fn \<Rightarrow> lfind_fn \<Rightarrow> log" where
  "lsearch_main lsearch lfind =
     (let st = lset lsearch 24 '''' ([], []);
          st = lset lsearch 25 ''a'' st;
          st = lset lsearch 26 ''b'' st;
          st = lset lsearch 27 ''abc'' st;
          st = lset lsearch 28 ''cd'' st;
          st = lset lsearch 29 ''e'' st;
          st = lset lsearch 30 ''ef'' st;
          st = lset lsearch 31 ''g'' st;
          st = lset lsearch 32 ''h'' st;
          st = lset lsearch 33 ''iiiiiiiiii'' st;
          err = (\<lambda>l bad. \<lambda>(tab, ls). (tab, ls @ check l (\<not> bad)));
          st = err 35 (lfind ''a'' (fst st) = None) st;
          st = err 37 (lfind ''c'' (fst st) \<noteq> None) st;
          n = length (fst st);
          st = lset lsearch 39 ''g'' st;
          st = err 41 (length (fst st) \<noteq> n) st;
          n = length (fst st);
          st = lset lsearch 43 ''j'' st;
          st = err 45 (length (fst st) \<noteq> n + 1) st
      in snd st)"

definition c_string :: "cstr \<Rightarrow> bool" where
  "c_string s \<longleftrightarrow> NUL \<notin> set s"

text \<open>The contract for tables of up to 100 rows, the size of \<open>tab\<close>.\<close>

locale table_contract =
  fixes lsearch :: lsearch_fn and lfind :: lfind_fn
  assumes lsearch_hit: "list_all c_string (k # tab) \<Longrightarrow> k \<in> set tab \<Longrightarrow>
      \<exists>r < length tab. lsearch k tab = (r, tab) \<and> tab ! r = k"
    and lsearch_miss: "list_all c_string (k # tab) \<Longrightarrow> k \<notin> set tab \<Longrightarrow> length tab < 100 \<Longrightarrow>
      lsearch k tab = (length tab, tab @ [k])"
    and lfind_hit: "list_all c_string (k # tab) \<Longrightarrow> k \<in> set tab \<Longrightarrow>
      \<exists>r < length tab. lfind k tab = Some r \<and> tab ! r = k"
    and lfind_miss: "list_all c_string (k # tab) \<Longrightarrow> k \<notin> set tab \<Longrightarrow> lfind k tab = None"
begin

lemma lset_ok:
  "list_all c_string (k # tab) \<Longrightarrow> length tab < 100 \<Longrightarrow>
     lset lsearch l k (tab, ls) = (if k \<in> set tab then tab else tab @ [k], ls)"
  using lsearch_hit [of k tab] lsearch_miss [of k tab]
  by (auto simp: lset_def strcmp_refl)

lemma lsearch_main_passes: "lsearch_main lsearch lfind = []"
proof -
  have "lfind ''a'' (a # ''a'' # xs) \<noteq> None" if "list_all c_string (a # ''a'' # xs)" for a xs
    using lfind_hit [of "''a''" "a # ''a'' # xs"] that by auto
  then show ?thesis by (simp add: lsearch_main_def lset_ok lfind_miss c_string_def NUL_def)
qed

end

fun index_of :: "cstr \<Rightarrow> cstr list \<Rightarrow> nat option" where
  "index_of k [] = None"
| "index_of k (x # xs) = (if strcmp k x = 0 then Some 0 else map_option Suc (index_of k xs))"

definition lsearch_ref :: lsearch_fn where
  "lsearch_ref k tab = (case index_of k tab of Some r \<Rightarrow> (r, tab) | None \<Rightarrow> (length tab, tab @ [k]))"

lemma index_of_hit:
  "list_all c_string (k # xs) \<Longrightarrow> k \<in> set xs \<Longrightarrow> \<exists>r < length xs. index_of k xs = Some r \<and> xs ! r = k"
  by (induction xs) (auto simp: strcmp_0_iff c_string_def)

lemma index_of_miss: "list_all c_string (k # xs) \<Longrightarrow> k \<notin> set xs \<Longrightarrow> index_of k xs = None"
  by (induction xs) (auto simp: strcmp_0_iff c_string_def)

interpretation lref: table_contract lsearch_ref index_of
proof
  fix k tab
  assume t: "list_all c_string (k # tab)"
  show "k \<in> set tab \<Longrightarrow> \<exists>r < length tab. lsearch_ref k tab = (r, tab) \<and> tab ! r = k"
    using index_of_hit [OF t] by (auto simp: lsearch_ref_def)
  show "k \<notin> set tab \<Longrightarrow> lsearch_ref k tab = (length tab, tab @ [k])"
    using index_of_miss [OF t] by (simp add: lsearch_ref_def)
qed (use index_of_hit index_of_miss in auto)

subsection \<open>search_hsearch.c\<close>

text \<open>An \<open>ENTRY\<close> is a key and its data.  \<open>hcreate\<close> gives its result and \<open>errno\<close>; the result of
  \<open>hsearch\<close> is what the pointer it returns points to.\<close>

record 'w hash_ops =
  hcreate :: "nat \<Rightarrow> 'w \<Rightarrow> (bool \<times> int) \<times> 'w"
  hsearch_find :: "cstr \<Rightarrow> 'w \<Rightarrow> (cstr \<times> int) option"
  hsearch_enter :: "cstr \<times> int \<Rightarrow> 'w \<Rightarrow> (cstr \<times> int) option \<times> 'w"
  hdestroy :: "'w \<Rightarrow> 'w"

definition ENOMEM :: int where
  "ENOMEM = 12"

definition hset :: "'w hash_ops \<Rightarrow> nat \<Rightarrow> cstr \<Rightarrow> int \<Rightarrow> ('w, (cstr \<times> int) option) prog" where
  "hset f l k v =
     do {
       e \<leftarrow> call (hsearch_enter f (k, v));
       ensure l (\<not> (e = None \<or> strcmp (fst (the e)) k \<noteq> 0));
       State_Monad.return e
     }"

definition hget :: "'w hash_ops \<Rightarrow> cstr \<Rightarrow> ('w, (cstr \<times> int) option) prog" where
  "hget f k = call (\<lambda>w. (hsearch_find f k w, w))"

definition hset_all :: "'w hash_ops \<Rightarrow> (nat \<times> cstr \<times> int) list \<Rightarrow> ('w, unit) prog" where
  "hset_all f kvs = foldr (\<lambda>(l, k, v) p. do { e \<leftarrow> hset f l k v; p }) kvs skip"

definition hset_check :: "'w hash_ops \<Rightarrow> nat \<Rightarrow> nat \<Rightarrow> cstr \<Rightarrow> int \<Rightarrow> int \<Rightarrow> ('w, unit) prog" where
  "hset_check f l l' k v want =
     do {
       e \<leftarrow> hset f l k v;
       ensure l' (\<not> (e \<noteq> None \<and> snd (the e) \<noteq> want))
     }"

definition hsearch_main :: "'w hash_ops \<Rightarrow> ('w, unit) prog" where
  "hsearch_main f =
     do {
       (ok, errno) \<leftarrow> call (hcreate f (size_t (-1)));
       ensure 26 (\<not> (ok \<or> errno \<noteq> ENOMEM));
       (ok, errno) \<leftarrow> call (hcreate f 13);
       ensure 28 ok;
       hset_all f
         [(29, '''', 0), (30, ''a'', 1), (31, ''b'', 2), (32, ''abc'', 3), (33, ''cd'', 4), (34, ''e'', 5),
          (35, ''ef'', 6), (36, ''g'', 7), (37, ''h'', 8), (38, ''iiiiiiiiii'', 9)];
       e \<leftarrow> hget f ''a'';
       ensure 40 (e \<noteq> None);
       e \<leftarrow> hget f ''c'';
       ensure 42 (\<not> e \<noteq> None);
       hset_check f 43 45 ''g'' 10 7;
       hset_check f 46 48 ''g'' 10 7;
       hset_check f 49 51 ''j'' 10 10;
       call (\<lambda>w. ((), hdestroy f w))
     }"

text \<open>The contract: \<open>hcreate\<close> refuses a table that fills the address space, and makes an empty one of the
  capacity asked for; entering an existing key returns the entry that is there.\<close>

locale hash_contract =
  fixes f :: "'w hash_ops" and idle :: "'w \<Rightarrow> bool" and holds :: "nat \<Rightarrow> (cstr \<rightharpoonup> int) \<Rightarrow> 'w \<Rightarrow> bool"
  assumes create_huge: "idle w \<Longrightarrow> \<exists>w'. hcreate f (2 ^ 64 - 1) w = ((False, ENOMEM), w') \<and> idle w'"
    and create: "idle w \<Longrightarrow> n < 2 ^ 16 \<Longrightarrow> \<exists>e w'. hcreate f n w = ((True, e), w') \<and> holds n Map.empty w'"
    and find: "holds n m w \<Longrightarrow> hsearch_find f k w = map_option (\<lambda>v. (k, v)) (m k)"
    and enter_old: "holds n m w \<Longrightarrow> m k = Some v' \<Longrightarrow>
      \<exists>w'. hsearch_enter f (k, v) w = (Some (k, v'), w') \<and> holds n m w'"
    and enter_new: "holds n m w \<Longrightarrow> m k = None \<Longrightarrow> card (dom m) < n \<Longrightarrow>
      \<exists>w'. hsearch_enter f (k, v) w = (Some (k, v), w') \<and> holds n (m(k \<mapsto> v)) w'"
begin

lemma hset_holds:
  assumes "holds n m w" and "card (dom m) < n"
  shows "\<exists>w'. run_state (hset f l k v) (w, ls) = (Some (k, case m k of None \<Rightarrow> v | Some v' \<Rightarrow> v'), (w', ls)) \<and>
    holds n (case m k of None \<Rightarrow> m(k \<mapsto> v) | Some _ \<Rightarrow> m) w'"
proof (cases "m k")
  case None
  then show ?thesis using enter_new [OF assms(1) None assms(2), of v] by (auto simp: hset_def strcmp_refl)
next
  case (Some v')
  then show ?thesis using enter_old [OF assms(1) Some, of v] by (auto simp: hset_def strcmp_refl)
qed

lemma card_dom_map_of: "card (dom (map_of kvs)) \<le> length kvs"
  by (metis card_length dom_map_of_conv_image_fst length_map list.set_map)

lemma hset_all_holds:
  assumes "holds n (map_of kvs) w" and "length kvs + length xs \<le> n"
    and "distinct (map fst kvs @ map (fst \<circ> snd) xs)"
  shows "\<exists>w'. run_state (hset_all f xs) (w, ls) = ((), (w', ls)) \<and> holds n (map_of (rev (map snd xs) @ kvs)) w'"
  using assms
proof (induction xs arbitrary: kvs w)
  case Nil
  then show ?case by (simp add: hset_all_def)
next
  case (Cons x xs)
  obtain l k v where x: "x = (l, k, v)" by (cases x)
  have c: "card (dom (map_of kvs)) < n" using card_dom_map_of [of kvs] Cons.prems(2) by simp
  have new: "map_of kvs k = None" using Cons.prems(3) x by (auto simp: map_of_eq_None_iff)
  obtain w1 where w1: "run_state (hset f l k v) (w, ls) = (Some (k, v), (w1, ls))" "holds n (map_of ((k, v) # kvs)) w1"
    using hset_holds [OF Cons.prems(1) c, of l k v ls] new by auto
  obtain w2 where "run_state (hset_all f xs) (w1, ls) = ((), (w2, ls))"
    "holds n (map_of (rev (map snd xs) @ (k, v) # kvs)) w2"
    using Cons.IH [OF w1(2)] Cons.prems(2,3) x by auto
  then show ?case using w1(1) x by (intro exI [of _ w2]) (simp add: hset_all_def)
qed

lemma hset_check_holds:
  assumes "holds n m w" and "card (dom m) < n" and "want = (case m k of None \<Rightarrow> v | Some v' \<Rightarrow> v')"
  shows "\<exists>w'. run_state (hset_check f l l' k v want) (w, ls) = ((), (w', ls)) \<and>
    holds n (case m k of None \<Rightarrow> m(k \<mapsto> v) | Some _ \<Rightarrow> m) w'"
  using hset_holds [OF assms(1,2), of l k v ls] assms(3) by (auto simp: hset_check_def)

lemma hsearch_main_passes:
  assumes "idle w"
  shows "run_test (hsearch_main f) w = []"
proof -
  obtain w1 where w1: "hcreate f (2 ^ 64 - 1) w = ((False, ENOMEM), w1)" "idle w1"
    using create_huge [OF assms] by blast
  obtain e w2 where w2: "hcreate f 13 w1 = ((True, e), w2)" "holds 13 (map_of []) w2"
    using create [OF w1(2), of 13] by auto
  let ?xs = "[(29, '''', 0), (30, ''a'', 1), (31, ''b'', 2), (32, ''abc'', 3), (33, ''cd'', 4), (34, ''e'', 5),
          (35, ''ef'', 6), (36, ''g'', 7), (37, ''h'', 8), (38, ''iiiiiiiiii'', 9)] :: (nat \<times> cstr \<times> int) list"
  define m where "m = map_of (rev (map snd ?xs))"
  obtain w3 where w3: "run_state (hset_all f ?xs) (w2, []) = ((), (w3, []))" "holds 13 m w3"
    using hset_all_holds [OF w2(2), of ?xs "[]"] by (auto simp: m_def)
  have c: "card (dom m) < 13" using card_dom_map_of [of "rev (map snd ?xs)"] by (simp add: m_def)
  have m: "m ''a'' = Some 1" "m ''c'' = None" "m ''g'' = Some 7" "m ''j'' = None" by (simp_all add: m_def)
  obtain w4 where w4: "run_state (hset_check f 43 45 ''g'' 10 7) (w3, []) = ((), (w4, []))" "holds 13 m w4"
    using hset_check_holds [OF w3(2) c, where k = "''g''" and v = 10 and want = 7 and l = 43 and l' = 45 and ls = "[]"] m(3) by auto
  obtain w5 where w5: "run_state (hset_check f 46 48 ''g'' 10 7) (w4, []) = ((), (w5, []))" "holds 13 m w5"
    using hset_check_holds [OF w4(2) c, where k = "''g''" and v = 10 and want = 7 and l = 46 and l' = 48 and ls = "[]"] m(3) by auto
  obtain w6 where w6: "run_state (hset_check f 49 51 ''j'' 10 10) (w5, []) = ((), (w6, []))"
    using hset_check_holds [OF w5(2) c, where k = "''j''" and v = 10 and want = 10 and l = 49 and l' = 51 and ls = "[]"] m(4) by auto
  have "hsearch_find f ''a'' w3 = Some (''a'', 1)" "hsearch_find f ''c'' w3 = None"
    using find [OF w3(2)] m(1,2) by simp_all
  then show ?thesis
    using w1(1) w2(1) w3(1) w4(1) w5(1) w6
    by (simp add: run_test_def hsearch_main_def hget_def size_t_minus_1)
qed

end

text \<open>A table is a capacity and a list of entries.\<close>

definition hash_ref :: "(nat \<times> (cstr \<times> int) list) option hash_ops" where
  "hash_ref =
     \<lparr>hcreate = (\<lambda>n w. if 2 ^ 63 \<le> n then ((False, ENOMEM), w) else ((True, 0), Some (n, []))),
      hsearch_find = (\<lambda>k w. case w of None \<Rightarrow> None
         | Some (n, kvs) \<Rightarrow> map_option (\<lambda>v. (k, v)) (map_of kvs k)),
      hsearch_enter = (\<lambda>(k, v) w. case w of None \<Rightarrow> (None, w)
         | Some (n, kvs) \<Rightarrow>
             (case map_of kvs k of
                Some v' \<Rightarrow> (Some (k, v'), w)
              | None \<Rightarrow> if length kvs < n then (Some (k, v), Some (n, (k, v) # kvs)) else (None, w))),
      hdestroy = (\<lambda>w. None)\<rparr>"

interpretation href: hash_contract hash_ref "\<lambda>w. w = None"
  "\<lambda>n m w. \<exists>kvs. w = Some (n, kvs) \<and> m = map_of kvs \<and> distinct (map fst kvs)"
proof
  fix n m and w :: "(nat \<times> (cstr \<times> int) list) option" and k and v :: int
  assume h: "\<exists>kvs. w = Some (n, kvs) \<and> m = map_of kvs \<and> distinct (map fst kvs)" and new: "m k = None" "card (dom m) < n"
  then obtain kvs where kvs: "w = Some (n, kvs)" "m = map_of kvs" "distinct (map fst kvs)" by blast
  then have "length kvs = card (dom m)"
    by (metis distinct_card dom_map_of_conv_image_fst length_map list.set_map)
  then show "\<exists>w'. hsearch_enter hash_ref (k, v) w = (Some (k, v), w') \<and>
      (\<exists>kvs. w' = Some (n, kvs) \<and> m(k \<mapsto> v) = map_of kvs \<and> distinct (map fst kvs))"
    using new kvs by (auto simp: hash_ref_def dest: map_of_eq_None_iff [THEN iffD1] intro!: exI [of _ "(k, v) # kvs"])
qed (auto simp: hash_ref_def)

subsection \<open>Property\<close>



end
