(* ===== verification/IpcBase.thy ===== *)
theory IpcBase
  imports TestLog CString Runtest
begin

text \<open>
  What ipc_msg.c, ipc_sem.c and ipc_shm.c of libc/src/functional have in common.  Each makes an object of
  System V IPC, forks, and lets the child use and remove it.  Every call of a service has the process that makes
  it as an argument.  \<open>errno\<close> is given as the call leaves it.  The parent only waits for the child, so the child
  runs between the parent's \<open>fork\<close> and its \<open>waitpid\<close>; its \<open>t_status\<close> starts as a copy of the parent's, and
  what it reports reaches the parent in its exit status only.
\<close>

subsection \<open>Processes\<close>

record 'w posix =
  time_fn :: "'w \<Rightarrow> (int \<times> unit) \<times> 'w"
  ftok :: "cstr \<Rightarrow> int \<Rightarrow> 'w \<Rightarrow> (int \<times> unit) \<times> 'w"
  geteuid :: int
  getegid :: int
  fork :: "int \<Rightarrow> 'w \<Rightarrow> int \<times> 'w"
  waitpid :: "int \<Rightarrow> u32 \<Rightarrow> 'w \<Rightarrow> (int \<times> u32) \<times> 'w"

text \<open>The macros.  A call gives its value and what it stores through pointers and in \<open>errno\<close>.\<close>

definition T :: "nat \<Rightarrow> ('w \<Rightarrow> (int \<times> 'a) \<times> 'w) \<Rightarrow> ('w, int \<times> 'a) prog" where
  "T l op = do { x \<leftarrow> call op; ensure l (\<not> fst x + 1 = 0); State_Monad.return x }"

definition EQ :: "nat \<Rightarrow> 'a \<Rightarrow> 'a \<Rightarrow> ('w, unit) prog" where
  "EQ l a b = ensure l (\<not> a \<noteq> b)"

definition get_status :: "('w, int) prog" where
  "get_status = State (\<lambda>(w, ls). (t_status ls, w, ls))"

text \<open>How a process leaves a function of the test: it goes on, it has called \<open>exit\<close>, or a signal has killed it.\<close>

datatype outcome = Goes_on | Exited | Killed

definition end_status :: "outcome \<Rightarrow> log \<Rightarrow> u32" where
  "end_status r ls = (if r = Killed then 11 else push_bit 8 (of_int (t_status ls)))"

definition in_child :: "('w, outcome) prog \<Rightarrow> ('w, u32) prog" where
  "in_child p = State (\<lambda>(w, ls). case run_state p (w, ls) of (r, w', ls') \<Rightarrow> (end_status r ls', w', ls))"

text \<open>\<open>main\<close>, with the lines of its three checks.\<close>

definition fork_main ::
    "('w, 'z) posix_scheme \<Rightarrow> nat \<times> nat \<times> nat \<Rightarrow> int \<Rightarrow> ('w, outcome) prog \<Rightarrow> (int \<Rightarrow> ('w, outcome) prog) \<Rightarrow> ('w, unit) prog" where
  "fork_main f lines me parent child =
     (case lines of (l1, l2, l3) \<Rightarrow>
      do {
        r \<leftarrow> parent;
        if r \<noteq> Goes_on then skip
        else do {
          p \<leftarrow> call (fork f me);
          if p = -1 then t_error l1
          else do {
            st \<leftarrow> in_child (child p);
            (r, status) \<leftarrow> T l2 (waitpid f p st);
            ensure l3 (\<not> (\<not> WIFEXITED status \<or> WEXITSTATUS status \<noteq> 0))
          }
        }
      })"

subsection \<open>Objects\<close>

definition IPC_CREAT :: int where "IPC_CREAT = 512"
definition IPC_EXCL :: int where "IPC_EXCL = 1024"
definition IPC_NOWAIT :: int where "IPC_NOWAIT = 2048"
definition rw_all :: int where "rw_all = 438"
definition EEXIST :: int where "EEXIST = 17"

text \<open>The first half of the first function: a clean object, made with \<open>get\<close> after a possible old one is removed
  with \<open>rmid\<close>, and the check of \<open>IPC_EXCL\<close>.  The result is \<open>None\<close> after \<open>exit\<close>, else the time and the
  identifier.  \<open>L\<close> is the line of the first call.\<close>

definition ipc_clean ::
    "('w, 'z) posix_scheme \<Rightarrow> (int \<Rightarrow> int \<Rightarrow> 'w \<Rightarrow> (int \<times> int) \<times> 'w) \<Rightarrow> (int \<Rightarrow> 'w \<Rightarrow> (int \<times> int) \<times> 'w) \<Rightarrow>
     nat \<Rightarrow> int \<Rightarrow> ('w, (int \<times> int) option) prog" where
  "ipc_clean f get rmid L proj =
     do {
       (t, _) \<leftarrow> T L (time_fn f);
       (k, _) \<leftarrow> T (L + 1) (ftok f ''.'' proj);
       (i, _) \<leftarrow> T (L + 4) (get k (IPC_CREAT OR rw_all));
       _ \<leftarrow> T (L + 5) (rmid i);
       (i, _) \<leftarrow> T (L + 6) (get k (IPC_CREAT OR (IPC_EXCL OR rw_all)));
       st \<leftarrow> get_status;
       if st \<noteq> 0 then State_Monad.return None
       else do {
         (r, errno) \<leftarrow> call (get k (IPC_CREAT OR (IPC_EXCL OR rw_all)));
         ensure (L + 14) (\<not> (r \<noteq> -1 \<or> errno \<noteq> EEXIST));
         State_Monad.return (Some (t, i))
       }
     }"

record ipc_perm =
  cuid :: int
  uid :: int
  cgid :: int
  gid :: int
  mode :: int

definition check_perm :: "('w, 'z) posix_scheme \<Rightarrow> nat \<Rightarrow> ipc_perm \<Rightarrow> ('w, unit) prog" where
  "check_perm f L p =
     do {
       EQ L (cuid p) (geteuid f);
       EQ (L + 1) (uid p) (geteuid f);
       EQ (L + 2) (cgid p) (getegid f);
       EQ (L + 3) (gid p) (getegid f);
       EQ (L + 4) (mode p AND 0x1ff) rw_all
     }"

definition check_window :: "nat \<Rightarrow> int \<Rightarrow> int \<Rightarrow> ('w, unit) prog" where
  "check_window L t x = do { ensure L (\<not> x < t); ensure (L + 2) (\<not> x > t + 5) }"

subsection \<open>Rules\<close>

lemma silent_T:
  "(case op w of (x, w') \<Rightarrow> fst x \<noteq> -1 \<and> Q x w') \<Longrightarrow> silent (T l op) Q w"
  by (auto simp: T_def silent_def split: prod.splits)

lemma silent_EQ: "a = b \<Longrightarrow> Q () w \<Longrightarrow> silent (EQ l a b) Q w"
  by (simp add: EQ_def silent_ensure)

lemma silent_status: "Q 0 w \<Longrightarrow> silent get_status Q w"
  by (simp add: silent_def get_status_def t_status_def)

lemma silent_in_child:
  "silent p (\<lambda>r w. r \<noteq> Killed \<and> Q 0 w) w \<Longrightarrow> silent (in_child p) Q w"
  by (auto simp: silent_def in_child_def end_status_def t_status_def split: prod.splits)

lemma silent_check_window: "t \<le> x \<Longrightarrow> x \<le> t + 5 \<Longrightarrow> Q () w \<Longrightarrow> silent (check_window L t x) Q w"
  by (simp add: check_window_def silent_bind silent_ensure)

text \<open>The process services.  \<open>holds t s w\<close> says that the object of the key is in state \<open>s\<close> and the clock of
  \<open>w\<close> is at \<open>t\<close> or later; the test takes less than five seconds from \<open>t0\<close> on.\<close>

locale ipc_process =
  fixes f :: "('w, 'z) posix_scheme" and holds :: "int \<Rightarrow> 's \<Rightarrow> 'w \<Rightarrow> bool" and t0 :: int
    and proj :: int and key :: int
  assumes t0: "0 \<le> t0" and key: "key \<noteq> -1"
    and time_now: "holds t s w \<Longrightarrow> case time_fn f w of ((t', _), w') \<Rightarrow> t0 \<le> t' \<and> holds t' s w'"
    and ftok_key: "holds t s w \<Longrightarrow> case ftok f ''.'' proj w of ((k, _), w') \<Rightarrow> k = key \<and> holds t s w'"
    and forks: "holds t s w \<Longrightarrow> case fork f me w of (p, w') \<Rightarrow> p \<noteq> -1 \<and> p \<noteq> me \<and> holds t s w'"
    and waits: "holds t s w \<Longrightarrow> p \<noteq> -1 \<Longrightarrow> case waitpid f p st w of ((r, st'), w') \<Rightarrow> r \<noteq> -1 \<and> st' = st \<and> holds t s w'"
begin

lemma fork_main_silent:
  assumes "silent parent (\<lambda>r w. r = Goes_on \<and> (\<exists>t s. holds t s w \<and> P s)) w"
    and "\<And>p t s w. p \<noteq> me \<Longrightarrow> holds t s w \<Longrightarrow> P s \<Longrightarrow>
      silent (child p) (\<lambda>r w. r = Goes_on \<and> (\<exists>t s. holds t s w)) w"
  shows "silent (fork_main f lines me parent child) (\<lambda>_ _. True) w"
proof -
  obtain l1 l2 l3 where l: "lines = (l1, l2, l3)" by (cases lines)
  have fk: "silent (State_Monad.bind (call (fork f me)) (\<lambda>p. if p = -1 then t_error l1
          else do {
            st \<leftarrow> in_child (child p);
            (r, status) \<leftarrow> T l2 (waitpid f p st);
            ensure l3 (\<not> (\<not> WIFEXITED status \<or> WEXITSTATUS status \<noteq> 0))
          })) (\<lambda>_ _. True) w" if h: "holds t s w" "P s" for t s w
  proof (rule silent_bind, rule silent_call)
    obtain p w1 where p: "fork f me w = (p, w1)" "p \<noteq> -1" "p \<noteq> me" "holds t s w1"
      using forks [OF h(1), of me] by (cases "fork f me w") auto
    have "silent (in_child (child p)) (\<lambda>st w. st = 0 \<and> (\<exists>t s. holds t s w)) w1"
      by (rule silent_in_child, rule silent_mono [OF assms(2) [OF p(3,4) h(2)]]) auto
    then have "silent (in_child (child p)) (\<lambda>st. silent (State_Monad.bind (T l2 (waitpid f p st)) (\<lambda>(r, status).
        ensure l3 (\<not> (\<not> WIFEXITED status \<or> WEXITSTATUS status \<noteq> 0)))) (\<lambda>_ _. True)) w1"
    proof (rule silent_mono)
      fix st :: u32 and w assume "st = 0 \<and> (\<exists>t s. holds t s w)"
      then obtain t' s' where st: "st = 0" "holds t' s' w" by blast
      show "silent (State_Monad.bind (T l2 (waitpid f p st)) (\<lambda>(r, status).
        ensure l3 (\<not> (\<not> WIFEXITED status \<or> WEXITSTATUS status \<noteq> 0)))) (\<lambda>_ _. True) w"
        using waits [of t' s' w p st] st p(2)
        by (intro silent_bind silent_T) (auto simp: WIFEXITED_def WEXITSTATUS_def intro!: silent_ensure)
    qed
    then show "case fork f me w of (r, w') \<Rightarrow> silent (if r = -1 then t_error l1
          else do {
            st \<leftarrow> in_child (child r);
            (r, status) \<leftarrow> T l2 (waitpid f r st);
            ensure l3 (\<not> (\<not> WIFEXITED status \<or> WEXITSTATUS status \<noteq> 0))
          }) (\<lambda>_ _. True) w'"
      using p(1,2) by (simp add: silent_bind)
  qed
  show ?thesis
    unfolding fork_main_def l prod.case
    by (rule silent_bind, rule silent_mono [OF assms(1)]) (use fk in auto)
qed

end

definition own_perm :: "('w, 'z) posix_scheme \<Rightarrow> int \<Rightarrow> ipc_perm" where
  "own_perm f m = \<lparr>cuid = geteuid f, uid = geteuid f, cgid = getegid f, gid = getegid f, mode = m\<rparr>"

text \<open>The services on the objects of one kind: \<open>get\<close> takes the caller, a size, the key and the flags, and \<open>rmid\<close>
  the caller and the identifier.  \<open>perm\<close> reads
  the permissions of an object, \<open>enough\<close> says that it is of the size asked for, \<open>initial\<close> that it is new.\<close>

locale ipc_objects = ipc_process f holds t0 proj key
  for f :: "('w, 'z) posix_scheme" and holds :: "int \<Rightarrow> (int \<times> 'o) option \<Rightarrow> 'w \<Rightarrow> bool" and t0 proj key +
  fixes get :: "int \<Rightarrow> nat \<Rightarrow> int \<Rightarrow> int \<Rightarrow> 'w \<Rightarrow> (int \<times> int) \<times> 'w"
    and rmid :: "int \<Rightarrow> int \<Rightarrow> 'w \<Rightarrow> (int \<times> int) \<times> 'w"
    and perm :: "'o \<Rightarrow> ipc_perm" and enough :: "nat \<Rightarrow> 'o \<Rightarrow> bool" and initial :: "int \<Rightarrow> nat \<Rightarrow> int \<Rightarrow> 'o \<Rightarrow> bool"
  assumes id_valid: "holds t (Some (i, x)) w \<Longrightarrow> i \<noteq> -1"
    and get_new: "holds t None w \<Longrightarrow> fl AND IPC_CREAT \<noteq> 0 \<Longrightarrow>
      case get me n key fl w of ((i, _), w') \<Rightarrow>
        \<exists>x. holds t (Some (i, x)) w' \<and> perm x = own_perm f (fl AND 0x1ff) \<and> initial me n t x"
    and get_old: "holds t (Some (i, x)) w \<Longrightarrow> fl AND IPC_EXCL = 0 \<Longrightarrow> perm x = own_perm f rw_all \<Longrightarrow> enough n x \<Longrightarrow>
      case get me n key fl w of ((r, _), w') \<Rightarrow> r = i \<and> holds t (Some (i, x)) w'"
    and get_excl: "holds t (Some (i, x)) w \<Longrightarrow> fl AND IPC_CREAT \<noteq> 0 \<Longrightarrow> fl AND IPC_EXCL \<noteq> 0 \<Longrightarrow>
      case get me n key fl w of ((r, errno), w') \<Rightarrow> r = -1 \<and> errno = EEXIST \<and> holds t (Some (i, x)) w'"
    and rmid_removes: "holds t (Some (i, x)) w \<Longrightarrow> perm x = own_perm f rw_all \<Longrightarrow>
      case rmid me i w of ((r, _), w') \<Rightarrow> r \<noteq> -1 \<and> holds t None w'"
begin

text \<open>What an earlier run of the test may have left.\<close>

definition usable :: "nat \<Rightarrow> (int \<times> 'o) option \<Rightarrow> bool" where
  "usable n s \<longleftrightarrow> (\<forall>i x. s = Some (i, x) \<longrightarrow> perm x = own_perm f rw_all \<and> enough n x)"

lemma flags_and:
  "(IPC_CREAT OR rw_all) AND IPC_EXCL = 0" "(IPC_CREAT OR rw_all) AND IPC_CREAT \<noteq> 0"
  "(IPC_CREAT OR (IPC_EXCL OR rw_all)) AND IPC_CREAT \<noteq> 0" "(IPC_CREAT OR (IPC_EXCL OR rw_all)) AND IPC_EXCL \<noteq> 0"
  "(IPC_CREAT OR rw_all) AND 0x1ff = rw_all" "(IPC_CREAT OR (IPC_EXCL OR rw_all)) AND 0x1ff = rw_all"
  by (simp_all add: IPC_CREAT_def IPC_EXCL_def rw_all_def)

lemma get_clean:
  assumes "holds t s w" and "usable n s"
  shows "case get me n key (IPC_CREAT OR rw_all) w of ((i, _), w') \<Rightarrow>
    i \<noteq> -1 \<and> (\<exists>x. holds t (Some (i, x)) w' \<and> perm x = own_perm f rw_all)"
proof (cases s)
  case None
  then show ?thesis
    using get_new [where fl = "IPC_CREAT OR rw_all" and me = me and n = n] assms(1) flags_and id_valid by fastforce
next
  case (Some ix)
  then obtain i x where s: "s = Some (i, x)" by (cases ix) auto
  then have p: "perm x = own_perm f rw_all" "enough n x" using assms(2) by (simp_all add: usable_def)
  have h: "holds t (Some (i, x)) w" using assms(1) s by simp
  show ?thesis using get_old [OF h flags_and(1) p, where me = me] p(1) id_valid [OF h] by auto
qed

lemma ipc_clean_silent:
  assumes "holds t s w" and "usable n s"
  shows "silent (ipc_clean f (get me n) (rmid me) L proj)
    (\<lambda>r w. \<exists>t i x. r = Some (t, i) \<and> t0 \<le> t \<and> holds t (Some (i, x)) w \<and> perm x = own_perm f rw_all \<and>
       initial me n t x) w"
proof -
  let ?fl = "IPC_CREAT OR (IPC_EXCL OR rw_all)"
  obtain t1 w1 where 1: "time_fn f w = ((t1, ()), w1)" "t0 \<le> t1" "holds t1 s w1"
    using time_now [OF assms(1)] by (cases "time_fn f w") auto
  obtain w2 where 2: "ftok f ''.'' proj w1 = ((key, ()), w2)" "holds t1 s w2"
    using ftok_key [OF 1(3)] by (cases "ftok f ''.'' proj w1") auto
  obtain i e w3 x where 3: "get me n key (IPC_CREAT OR rw_all) w2 = ((i, e), w3)" "i \<noteq> -1" "holds t1 (Some (i, x)) w3"
    "perm x = own_perm f rw_all"
    using get_clean [OF 2(2) assms(2), where me = me] by (cases "get me n key (IPC_CREAT OR rw_all) w2") auto
  obtain r e w4 where 4: "rmid me i w3 = ((r, e), w4)" "r \<noteq> -1" "holds t1 None w4"
    using rmid_removes [OF 3(3,4), where me = me] by (cases "rmid me i w3") auto
  obtain i e w5 x where 5: "get me n key ?fl w4 = ((i, e), w5)" "holds t1 (Some (i, x)) w5"
    "perm x = own_perm f rw_all" "initial me n t1 x"
    using get_new [OF 4(3) flags_and(3), where me = me and n = n] flags_and(6) by (cases "get me n key ?fl w4") auto
  obtain w6 where 6: "get me n key ?fl w5 = ((-1, EEXIST), w6)" "holds t1 (Some (i, x)) w6"
    using get_excl [OF 5(2) flags_and(3,4), where me = me and n = n] by (cases "get me n key ?fl w5") auto
  have ne: "t1 \<noteq> -1" "i \<noteq> -1" using 1(2) t0 id_valid [OF 5(2)] by simp_all
  have post: "\<exists>x. holds t1 (Some (i, x)) w6 \<and> perm x = own_perm f rw_all \<and> initial me n t1 x"
    using 6(2) 5(3,4) by blast
  show ?thesis
    unfolding ipc_clean_def
    by (rule silent_bind silent_T silent_status silent_call silent_rules
        | simp only: 1(1) 2(1) 3(1) 4(1) 5(1) 6(1) prod.case fst_conv if_False simp_thms
        | simp add: ne 3(2) 4(2) key 1(2) post)+
qed

end

text \<open>The contract holds for the objects with an invariant, if new ones have it.\<close>

lemma ipc_objects_restrict:
  assumes a: "ipc_objects f holds t0 proj key get rmid perm enough initial"
    and J: "\<And>me n t i x. initial me n t x \<Longrightarrow> J i x"
  shows "ipc_objects f (\<lambda>t s w. holds t s w \<and> (\<forall>i x. s = Some (i, x) \<longrightarrow> J i x)) t0 proj key get rmid perm enough initial"
proof (intro ipc_objects.intro ipc_process.intro ipc_objects_axioms.intro)
  note p = ipc_objects.axioms(1) [OF a]
  show "0 \<le> t0" "key \<noteq> -1" by (rule ipc_process.t0 [OF p] ipc_process.key [OF p])+
  fix t :: int and s w
  assume h: "holds t s w \<and> (\<forall>i x. s = Some (i, x) \<longrightarrow> J i x)"
  note h1 = h [THEN conjunct1]
  show "case time_fn f w of ((t', _), w') \<Rightarrow> t0 \<le> t' \<and> holds t' s w' \<and> (\<forall>i x. s = Some (i, x) \<longrightarrow> J i x)"
    using ipc_process.time_now [OF p h1] h by auto
  show "case ftok f ''.'' proj w of ((k, _), w') \<Rightarrow> k = key \<and> holds t s w' \<and> (\<forall>i x. s = Some (i, x) \<longrightarrow> J i x)"
    using ipc_process.ftok_key [OF p h1] h by auto
  show "case fork f me w of (p, w') \<Rightarrow> p \<noteq> -1 \<and> p \<noteq> me \<and> holds t s w' \<and> (\<forall>i x. s = Some (i, x) \<longrightarrow> J i x)" for me
    using ipc_process.forks [OF p h1, of me] h by auto
  show "case waitpid f q st w of ((r, st'), w') \<Rightarrow> r \<noteq> -1 \<and> st' = st \<and> holds t s w' \<and> (\<forall>i x. s = Some (i, x) \<longrightarrow> J i x)"
    if "q \<noteq> -1" for q st
    using ipc_process.waits [OF p h1 that, of st] h by auto
next
  fix t i x w
  assume h: "holds t (Some (i, x)) w \<and> (\<forall>j y. Some (i, x) = Some (j, y) \<longrightarrow> J j y)"
  note h1 = h [THEN conjunct1]
  show "i \<noteq> -1" by (rule ipc_objects.id_valid [OF a h1])
  show "case get me n key fl w of ((r, _), w') \<Rightarrow> r = i \<and> holds t (Some (i, x)) w' \<and> (\<forall>j y. Some (i, x) = Some (j, y) \<longrightarrow> J j y)"
    if "fl AND IPC_EXCL = 0" "perm x = own_perm f rw_all" "enough n x" for fl n me
    using ipc_objects.get_old [OF a h1 that, of me] h by auto
  show "case get me n key fl w of ((r, errno), w') \<Rightarrow> r = -1 \<and> errno = EEXIST \<and> holds t (Some (i, x)) w' \<and>
      (\<forall>j y. Some (i, x) = Some (j, y) \<longrightarrow> J j y)"
    if "fl AND IPC_CREAT \<noteq> 0" "fl AND IPC_EXCL \<noteq> 0" for fl n me
    using ipc_objects.get_excl [OF a h1 that, of me n] h by auto
  show "case rmid me i w of ((r, _), w') \<Rightarrow> r \<noteq> -1 \<and> holds t None w' \<and> (\<forall>j y. None = Some (j, y) \<longrightarrow> J j y)"
    if "perm x = own_perm f rw_all" for me
    using ipc_objects.rmid_removes [OF a h1 that, of me] by auto
next
  fix t w fl me n
  assume "holds t None w \<and> (\<forall>j y. None = Some (j, y) \<longrightarrow> J j y)" and "fl AND IPC_CREAT \<noteq> 0"
  then show "case get me n key fl w of ((i, _), w') \<Rightarrow> \<exists>x.
      (holds t (Some (i, x)) w' \<and> (\<forall>j y. Some (i, x) = Some (j, y) \<longrightarrow> J j y)) \<and>
      perm x = own_perm f (fl AND 0x1ff) \<and> initial me n t x"
    using ipc_objects.get_new [OF a, of t w fl me n] J by fastforce
qed

subsection \<open>A reference\<close>

text \<open>A world with a table of objects, from keys to identifiers and states.\<close>

record 'o ipc_world =
  now :: int
  next_id :: int
  next_pid :: int
  objs :: "(int \<times> int \<times> 'o) list"

definition obj_of_id :: "int \<Rightarrow> (int \<times> int \<times> 'o) list \<Rightarrow> 'o option" where
  "obj_of_id i xs = map_option (snd \<circ> snd) (List.find (\<lambda>x. fst (snd x) = i) xs)"

definition obj_update :: "int \<Rightarrow> ('o \<Rightarrow> 'o) \<Rightarrow> (int \<times> int \<times> 'o) list \<Rightarrow> (int \<times> int \<times> 'o) list" where
  "obj_update i g xs = map (\<lambda>(k, j, x). (k, j, if j = i then g x else x)) xs"

definition obj_remove :: "int \<Rightarrow> (int \<times> int \<times> 'o) list \<Rightarrow> (int \<times> int \<times> 'o) list" where
  "obj_remove i xs = filter (\<lambda>x. fst (snd x) \<noteq> i) xs"

definition world_ok :: "'o ipc_world \<Rightarrow> bool" where
  "world_ok w \<longleftrightarrow> distinct (map fst (objs w)) \<and> distinct (map (fst \<circ> snd) (objs w)) \<and>
     (\<forall>x \<in> set (objs w). 0 \<le> fst (snd x) \<and> fst (snd x) < next_id w) \<and> 0 \<le> next_id w \<and> 0 \<le> next_pid w"

definition world_holds :: "int \<Rightarrow> int \<Rightarrow> int \<Rightarrow> (int \<times> 'o) option \<Rightarrow> 'o ipc_world \<Rightarrow> bool" where
  "world_holds t0 k t s w \<longleftrightarrow> world_ok w \<and> t \<le> now w \<and> t0 \<le> now w \<and> now w \<le> t0 + 5 \<and> map_of (objs w) k = s"

definition world_posix :: "'o ipc_world posix" where
  "world_posix =
     \<lparr>time_fn = (\<lambda>w. ((now w, ()), w)), ftok = (\<lambda>path proj w. ((proj, ()), w)), geteuid = 1000, getegid = 100,
      fork = (\<lambda>me w. (if next_pid w = me then next_pid w + 1 else next_pid w, w)),
      waitpid = (\<lambda>p st w. ((p, st), w))\<rparr>"

text \<open>\<open>mk\<close> makes the state of a new object, \<open>may_use\<close> is the check of a request for an existing one.\<close>

definition world_get ::
    "(int \<Rightarrow> nat \<Rightarrow> int \<Rightarrow> int \<Rightarrow> 'o) \<Rightarrow> (nat \<Rightarrow> int \<Rightarrow> 'o \<Rightarrow> bool) \<Rightarrow> int \<Rightarrow> nat \<Rightarrow> int \<Rightarrow> int \<Rightarrow> 'o ipc_world
      \<Rightarrow> (int \<times> int) \<times> 'o ipc_world" where
  "world_get mk may_use me n k fl w =
     (case map_of (objs w) k of
        None \<Rightarrow>
          if fl AND IPC_CREAT = 0 then ((-1, 2), w)
          else ((next_id w, 0),
                w\<lparr>next_id := next_id w + 1, objs := (k, next_id w, mk me n (fl AND 0x1ff) (now w)) # objs w\<rparr>)
      | Some (i, x) \<Rightarrow>
          if fl AND IPC_CREAT \<noteq> 0 \<and> fl AND IPC_EXCL \<noteq> 0 then ((-1, EEXIST), w)
          else if may_use n fl x then ((i, 0), w) else ((-1, 13), w))"

definition world_rmid :: "('o \<Rightarrow> bool) \<Rightarrow> int \<Rightarrow> int \<Rightarrow> 'o ipc_world \<Rightarrow> (int \<times> int) \<times> 'o ipc_world" where
  "world_rmid own me i w =
     (case obj_of_id i (objs w) of
        None \<Rightarrow> ((-1, 22), w)
      | Some x \<Rightarrow> if own x then ((0, 0), w\<lparr>objs := obj_remove i (objs w)\<rparr>) else ((-1, 1), w))"

text \<open>An operation on an existing object: a refusal with an errno, or a value and the new state.\<close>

definition world_op ::
    "(int \<Rightarrow> 'o \<Rightarrow> (int \<times> 'a) \<times> 'o) \<Rightarrow> int \<times> 'a \<Rightarrow> int \<Rightarrow> 'o ipc_world \<Rightarrow> (int \<times> 'a) \<times> 'o ipc_world" where
  "world_op g bad i w =
     (case obj_of_id i (objs w) of
        None \<Rightarrow> (bad, w)
      | Some x \<Rightarrow> (case g (now w) x of (r, x') \<Rightarrow> (r, w\<lparr>objs := obj_update i (\<lambda>_. x') (objs w)\<rparr>)))"

lemma obj_of_id:
  assumes "world_holds t0 k t (Some (i, x)) w"
  shows "obj_of_id i (objs w) = Some x"
proof -
  have d: "distinct (map (fst \<circ> snd) (objs w))" and m: "(k, i, x) \<in> set (objs w)"
    using assms by (auto simp: world_holds_def world_ok_def dest: map_of_SomeD)
  have "List.find (\<lambda>x. fst (snd x) = i) (objs w) = Some (k, i, x)"
  proof (rule find_unique [OF m])
    show "y = (k, i, x)" if "y \<in> set (objs w)" "fst (snd y) = i" for y
      using that m d by (simp add: distinct_map inj_on_def)
  qed simp
  then show ?thesis by (simp add: obj_of_id_def)
qed

lemma map_of_obj_update:
  "map_of (obj_update i g xs) k = map_option (\<lambda>(j, x). (j, if j = i then g x else x)) (map_of xs k)"
  by (induction xs) (auto simp: obj_update_def)

lemma world_holds_update:
  assumes "world_holds t0 k t (Some (i, x)) w"
  shows "world_holds t0 k t (Some (i, x')) (w\<lparr>objs := obj_update i (\<lambda>_. x') (objs w)\<rparr>)"
proof -
  have "map fst (obj_update i (\<lambda>_. x') (objs w)) = map fst (objs w)"
    "map (fst \<circ> snd) (obj_update i (\<lambda>_. x') (objs w)) = map (fst \<circ> snd) (objs w)"
    by (auto simp: obj_update_def)
  moreover have "fst ` snd ` set (obj_update i (\<lambda>_. x') (objs w)) = fst ` snd ` set (objs w)"
    by (force simp: obj_update_def)
  ultimately show ?thesis
    using assms by (auto simp: world_holds_def world_ok_def map_of_obj_update simp del: map_map dest!: equalityD1 subsetD)
qed

lemma world_op_holds:
  assumes "world_holds t0 k t (Some (i, x)) w"
  shows "\<exists>s w'. t \<le> s \<and> t0 \<le> s \<and> s \<le> t0 + 5 \<and> world_op g bad i w = (fst (g s x), w') \<and>
    world_holds t0 k t (Some (i, snd (g s x))) w'"
  using obj_of_id [OF assms] world_holds_update [OF assms] assms
  by (intro exI [of _ "now w"]) (auto simp: world_op_def world_holds_def split: prod.split)

definition like_world :: "('o ipc_world, 'z) posix_scheme \<Rightarrow> bool" where
  "like_world f \<longleftrightarrow> time_fn f = time_fn world_posix \<and> ftok f = ftok world_posix \<and> fork f = fork world_posix \<and>
     waitpid f = waitpid world_posix"

lemma world_ipc_objects:
  fixes f :: "('o ipc_world, 'z) posix_scheme"
  assumes "0 \<le> t0" and "k \<noteq> -1" and f: "like_world f"
    and mk: "\<And>me n m s t. t \<le> s \<Longrightarrow> s \<le> t0 + 5 \<Longrightarrow> perm (mk me n m s) = own_perm f m \<and>
      initial me n t (mk me n m s)"
    and may: "\<And>n fl x. perm x = own_perm f rw_all \<Longrightarrow> enough n x \<Longrightarrow> may_use n fl x"
    and own: "\<And>x. perm x = own_perm f rw_all \<Longrightarrow> own x"
  shows "ipc_objects f (world_holds t0 k) t0 k k
    (world_get mk may_use) (world_rmid own) perm enough initial"
proof
  fix t fl me n and w :: "'o ipc_world"
  assume h: "world_holds t0 k t None w" and c: "fl AND IPC_CREAT \<noteq> 0"
  let ?x = "mk me n (fl AND 0x1ff) (now w)"
  have g: "world_get mk may_use me n k fl w =
      ((next_id w, 0), w\<lparr>next_id := next_id w + 1, objs := (k, next_id w, ?x) # objs w\<rparr>)"
    using h c by (simp add: world_get_def world_holds_def)
  have "world_holds t0 k t (Some (next_id w, ?x)) (snd (world_get mk may_use me n k fl w))"
    using h unfolding g by (auto simp: world_holds_def world_ok_def map_of_eq_None_iff)
  moreover have "t \<le> now w" "now w \<le> t0 + 5" using h by (simp_all add: world_holds_def)
  ultimately show "case world_get mk may_use me n k fl w of ((i, _), w') \<Rightarrow> \<exists>x. world_holds t0 k t (Some (i, x)) w' \<and>
      perm x = own_perm f (fl AND 0x1ff) \<and> initial me n t x"
    using mk [of t "now w" me n "fl AND 0x1ff"] unfolding g by (intro case_prodI exI [of _ ?x]) simp
next
  fix t i me and x :: 'o and w :: "'o ipc_world"
  assume h: "world_holds t0 k t (Some (i, x)) w" and p: "perm x = own_perm f rw_all"
  have "map_of (obj_remove i (objs w)) k = None"
  proof -
    have "(k, j, y) \<in> set (objs w) \<Longrightarrow> j = i" for j y
      using h by (auto simp: world_holds_def world_ok_def dest!: map_of_SomeD dest: eq_key_imp_eq_value)
    then show ?thesis by (fastforce simp: map_of_eq_None_iff obj_remove_def)
  qed
  then have "world_holds t0 k t None (w\<lparr>objs := obj_remove i (objs w)\<rparr>)"
    using h by (auto simp: world_holds_def world_ok_def obj_remove_def distinct_map_filter)
  then show "case world_rmid own me i w of ((r, _), w') \<Rightarrow> r \<noteq> -1 \<and> world_holds t0 k t None w'"
    using obj_of_id [OF h] own [OF p] by (simp add: world_rmid_def)
next
  show "world_holds t0 k t (Some (i, x)) w \<Longrightarrow> i \<noteq> -1" for t i and x :: 'o and w
    by (force simp: world_holds_def world_ok_def dest: map_of_SomeD)
qed (use assms(1,2) f may in \<open>auto simp: like_world_def world_posix_def world_holds_def world_ok_def world_get_def dest: map_of_SomeD\<close>)

end
