(* ===== verification/IpcMsg.thy ===== *)
theory IpcMsg
  imports IpcBase
begin

text \<open>
  ipc_msg.c of libc/src/functional: a process makes a message queue and sends a message; its child receives it.
  The message services are arguments.  A message is its type and the bytes of its data.
\<close>

subsection \<open>The test\<close>

record msqid_ds =
  msg_perm :: ipc_perm
  msg_qnum :: int
  msg_lspid :: int
  msg_lrpid :: int
  msg_stime :: int
  msg_rtime :: int
  msg_ctime :: int
  msg_qbytes :: int

definition E2BIG :: int where "E2BIG = 7"
definition ENOMSG :: int where "ENOMSG = 42"
definition MSG_NOERROR :: int where "MSG_NOERROR = 4096"

text \<open>\<open>msgrcv\<close> gives its value, \<open>errno\<close> and the contents of the buffer, which it is given as it is before.\<close>

record 'w msg_posix = "'w posix" +
  msgget :: "int \<Rightarrow> int \<Rightarrow> int \<Rightarrow> 'w \<Rightarrow> (int \<times> int) \<times> 'w"
  msgctl_rmid :: "int \<Rightarrow> int \<Rightarrow> 'w \<Rightarrow> (int \<times> int) \<times> 'w"
  msgctl_stat :: "int \<Rightarrow> int \<Rightarrow> 'w \<Rightarrow> (int \<times> msqid_ds) \<times> 'w"
  msgsnd :: "int \<Rightarrow> int \<Rightarrow> int \<times> cstr \<Rightarrow> int \<Rightarrow> 'w \<Rightarrow> (int \<times> int) \<times> 'w"
  msgrcv :: "int \<Rightarrow> int \<Rightarrow> nat \<Rightarrow> cstr \<Rightarrow> int \<Rightarrow> int \<Rightarrow> 'w \<Rightarrow> (int \<times> int \<times> cstr) \<times> 'w"

text \<open>The array \<open>data[20]\<close> initialised with a string.\<close>

definition msg_data :: cstr where
  "msg_data = ''test message'' @ replicate 8 NUL"

definition as_string :: "cstr \<Rightarrow> cstr" where
  "as_string bs = takeWhile (\<lambda>c. c \<noteq> NUL) bs"

definition snd_check_new :: "'w msg_posix \<Rightarrow> int \<Rightarrow> msqid_ds \<Rightarrow> ('w, unit) prog" where
  "snd_check_new f t ds =
     do {
       check_perm f 56 (msg_perm ds);
       EQ 61 (msg_qnum ds) 0;
       EQ 62 (msg_lspid ds) 0;
       EQ 63 (msg_lrpid ds) 0;
       EQ 64 (msg_stime ds) 0;
       EQ 65 (msg_rtime ds) 0;
       check_window 67 t (msg_ctime ds);
       ensure 71 (\<not> msg_qbytes ds \<le> 0)
     }"

definition snd_msg :: "'w msg_posix \<Rightarrow> int \<Rightarrow> int \<Rightarrow> int \<Rightarrow> ('w, unit) prog" where
  "snd_msg f me t qid =
     do {
       (r, ds) \<leftarrow> T 55 (msgctl_stat f me qid);
       snd_check_new f t ds;
       _ \<leftarrow> T 74 (msgsnd f me qid (1, msg_data) IPC_NOWAIT);
       (r, ds) \<leftarrow> T 75 (msgctl_stat f me qid);
       EQ 76 (msg_qnum ds) 1;
       EQ 77 (msg_lspid ds) me;
       check_window 79 t (msg_stime ds)
     }"

definition snd :: "'w msg_posix \<Rightarrow> int \<Rightarrow> ('w, outcome) prog" where
  "snd f me =
     do {
       r \<leftarrow> ipc_clean f (msgget f me) (msgctl_rmid f me) 38 (of_char CHR ''m'');
       (case r of
          None \<Rightarrow> State_Monad.return Exited
        | Some (t, qid) \<Rightarrow> do { snd_msg f me t qid; State_Monad.return Goes_on })
     }"

definition rcv :: "'w msg_posix \<Rightarrow> cstr \<Rightarrow> int \<Rightarrow> ('w, outcome) prog" where
  "rcv f buf me =
     do {
       (k, _) \<leftarrow> T 94 (ftok f ''.'' (of_char CHR ''m''));
       (qid, _) \<leftarrow> T 95 (msgget f me k 0);
       (r, errno, buf) \<leftarrow> call (msgrcv f me qid 0 buf 0 0);
       ensure 99 (\<not> (r \<noteq> -1 \<or> errno \<noteq> E2BIG));
       (r, errno, buf) \<leftarrow> T 102 (msgrcv f me qid 20 buf 0 IPC_NOWAIT);
       ensure 104 (\<not> strcmp (as_string buf) ''test message'' \<noteq> 0);
       (r, errno, buf) \<leftarrow> call (msgrcv f me qid 20 buf 0 (MSG_NOERROR OR IPC_NOWAIT));
       ensure 108 (\<not> (r \<noteq> -1 \<or> errno \<noteq> ENOMSG));
       _ \<leftarrow> T 111 (msgctl_rmid f me qid);
       State_Monad.return Goes_on
     }"

definition ipc_msg_main :: "'w msg_posix \<Rightarrow> cstr \<Rightarrow> int \<Rightarrow> ('w, unit) prog" where
  "ipc_msg_main f buf me = fork_main f (122, 126, 128) me (snd f me) (rcv f buf)"

subsection \<open>The contract\<close>

text \<open>The state of a queue: what \<open>IPC_STAT\<close> shows of it and its messages.\<close>

record mq =
  mq_ds :: msqid_ds
  mq_msgs :: "(int \<times> cstr) list"

definition mq_stat :: "mq \<Rightarrow> msqid_ds" where
  "mq_stat q = (mq_ds q)\<lparr>msg_qnum := int (length (mq_msgs q))\<rparr>"

definition mq_new :: "int \<Rightarrow> int \<Rightarrow> mq \<Rightarrow> bool" where
  "mq_new t0 t q \<longleftrightarrow> mq_msgs q = [] \<and> msg_lspid (mq_ds q) = 0 \<and> msg_lrpid (mq_ds q) = 0 \<and>
     msg_stime (mq_ds q) = 0 \<and> msg_rtime (mq_ds q) = 0 \<and> t \<le> msg_ctime (mq_ds q) \<and> msg_ctime (mq_ds q) \<le> t0 + 5 \<and>
     0 < msg_qbytes (mq_ds q)"

definition msg_size :: "(int \<times> cstr) list \<Rightarrow> int" where
  "msg_size ms = int (length (concat (map prod.snd ms)))"

definition mq_send :: "int \<Rightarrow> int \<Rightarrow> int \<times> cstr \<Rightarrow> mq \<Rightarrow> mq" where
  "mq_send me s m q = q\<lparr>mq_ds := (mq_ds q)\<lparr>msg_lspid := me, msg_stime := s\<rparr>, mq_msgs := mq_msgs q @ [m]\<rparr>"

definition mq_receive :: "int \<Rightarrow> int \<Rightarrow> mq \<Rightarrow> mq" where
  "mq_receive me s q = q\<lparr>mq_ds := (mq_ds q)\<lparr>msg_lrpid := me, msg_rtime := s\<rparr>, mq_msgs := tl (mq_msgs q)\<rparr>"

text \<open>A queue has room for at least one message of 20 bytes.  Receiving is specified for the message type 0.\<close>

locale msg_contract = ipc_objects f holds t0 "of_char CHR ''m''" key "\<lambda>me n. msgget f me" "msgctl_rmid f"
    "msg_perm \<circ> mq_ds" "\<lambda>_ _. True" "\<lambda>me n. mq_new t0"
  for f :: "'w msg_posix" and holds :: "int \<Rightarrow> (int \<times> mq) option \<Rightarrow> 'w \<Rightarrow> bool" and t0 key +
  assumes stat: "holds t (Some (i, q)) w \<Longrightarrow>
      case msgctl_stat f me i w of ((r, ds), w') \<Rightarrow> r \<noteq> -1 \<and> ds = mq_stat q \<and> holds t (Some (i, q)) w'"
    and send: "holds t (Some (i, q)) w \<Longrightarrow> msg_perm (mq_ds q) = own_perm f rw_all \<Longrightarrow> mq_msgs q = [] \<Longrightarrow>
      0 < msg_qbytes (mq_ds q) \<Longrightarrow> length (prod.snd m) \<le> 20 \<Longrightarrow>
      case msgsnd f me i m fl w of ((r, _), w') \<Rightarrow>
        r \<noteq> -1 \<and> (\<exists>s. t \<le> s \<and> s \<le> t0 + 5 \<and> holds t (Some (i, mq_send me s m q)) w')"
    and receive: "holds t (Some (i, q)) w \<Longrightarrow> msg_perm (mq_ds q) = own_perm f rw_all \<Longrightarrow>
      mq_msgs q = m # ms \<Longrightarrow> length (prod.snd m) \<le> n \<Longrightarrow> n \<le> length buf \<Longrightarrow>
      case msgrcv f me i n buf 0 fl w of ((r, _, buf'), w') \<Rightarrow>
        r \<noteq> -1 \<and> buf' = prod.snd m @ drop (length (prod.snd m)) buf \<and> (\<exists>s. holds t (Some (i, mq_receive me s q)) w')"
    and receive_long: "holds t (Some (i, q)) w \<Longrightarrow> msg_perm (mq_ds q) = own_perm f rw_all \<Longrightarrow>
      mq_msgs q = m # ms \<Longrightarrow> n < length (prod.snd m) \<Longrightarrow> fl AND MSG_NOERROR = 0 \<Longrightarrow>
      case msgrcv f me i n buf 0 fl w of ((r, errno, buf'), w') \<Rightarrow>
        r = -1 \<and> errno = E2BIG \<and> buf' = buf \<and> holds t (Some (i, q)) w'"
    and receive_none: "holds t (Some (i, q)) w \<Longrightarrow> msg_perm (mq_ds q) = own_perm f rw_all \<Longrightarrow>
      mq_msgs q = [] \<Longrightarrow> fl AND IPC_NOWAIT \<noteq> 0 \<Longrightarrow>
      case msgrcv f me i n buf 0 fl w of ((r, errno, buf'), w') \<Rightarrow>
        r = -1 \<and> errno = ENOMSG \<and> holds t (Some (i, q)) w'"
begin

abbreviation "mine q \<equiv> msg_perm (mq_ds q) = own_perm f rw_all"

lemma snd_msg_silent:
  assumes h: "holds t (Some (i, q)) w" and p: "mine q" and new: "mq_new t0 t q" and t: "t0 \<le> t"
  shows "silent (snd_msg f me t i)
    (\<lambda>_ w. \<exists>i q. holds t (Some (i, q)) w \<and> mine q \<and> mq_msgs q = [(1, msg_data)]) w"
proof -
  obtain r w1 where 1: "msgctl_stat f me i w = ((r, mq_stat q), w1)" "r \<noteq> -1" "holds t (Some (i, q)) w1"
    using stat [OF h, where me = me] by (cases "msgctl_stat f me i w") auto
  have "mq_msgs q = []" "0 < msg_qbytes (mq_ds q)" "length (prod.snd (1 :: int, msg_data)) \<le> 20"
    using new by (simp_all add: mq_new_def msg_data_def)
  note send [OF 1(3) p this, where me = me and fl = IPC_NOWAIT]
  then obtain r2 e w2 s where 2: "msgsnd f me i (1, msg_data) IPC_NOWAIT w1 = ((r2, e), w2)" "r2 \<noteq> -1" "t \<le> s" "s \<le> t0 + 5"
    "holds t (Some (i, mq_send me s (1, msg_data) q)) w2" (is "holds t (Some (i, ?q)) w2")
    by (cases "msgsnd f me i (1, msg_data) IPC_NOWAIT w1") auto
  obtain r3 w3 where 3: "msgctl_stat f me i w2 = ((r3, mq_stat ?q), w3)" "r3 \<noteq> -1" "holds t (Some (i, ?q)) w3"
    using stat [OF 2(5), where me = me] by (cases "msgctl_stat f me i w2") auto
  have q: "mine ?q" "mq_msgs ?q = [(1, msg_data)]"
    "msg_qnum (mq_stat ?q) = 1" "msg_lspid (mq_stat ?q) = me" "msg_stime (mq_stat ?q) = s"
    using p new by (simp_all add: mq_send_def mq_stat_def mq_new_def)
  have win: "msg_stime (mq_stat ?q) \<le> t + 5" "t \<le> msg_stime (mq_stat ?q)" using 2(3,4) t q(5) by simp_all
  have new1: "silent (snd_check_new f t (mq_stat q)) Q w1" if "Q () w1" for Q
    unfolding snd_check_new_def check_perm_def
    by (intro silent_bind silent_EQ silent_check_window silent_ensure)
      (use p new t that in \<open>simp_all add: mq_stat_def mq_new_def own_perm_def rw_all_def\<close>)
  have post: "\<exists>i q. holds t (Some (i, q)) w3 \<and> mine q \<and> mq_msgs q = [(1, msg_data)]"
    using 3(3) q(1,2) by blast
  show ?thesis
    unfolding snd_msg_def
    by (rule silent_bind silent_T new1 silent_EQ silent_check_window win post
        | simp only: 1(1) 2(1) 3(1) prod.case fst_conv
        | simp add: 1(2) 2(2) 3(2) q(2-4))+
qed

lemma snd_silent:
  assumes "holds t s w" and "usable 0 s"
  shows "silent (snd f me) (\<lambda>r w. r = Goes_on \<and>
    (\<exists>t i q. holds t (Some (i, q)) w \<and> mine q \<and> mq_msgs q = [(1, msg_data)])) w"
  unfolding snd_def
proof (rule silent_bind, rule silent_mono [OF ipc_clean_silent [OF assms]])
  fix r w
  assume "\<exists>t i x. r = Some (t, i) \<and> t0 \<le> t \<and> holds t (Some (i, x)) w \<and>
    (msg_perm \<circ> mq_ds) x = own_perm f rw_all \<and> mq_new t0 t x"
  then obtain t i q where r: "r = Some (t, i)" "t0 \<le> t" "holds t (Some (i, q)) w" "mine q" "mq_new t0 t q" by auto
  show "silent (case r of None \<Rightarrow> State_Monad.return Exited
      | Some (t, qid) \<Rightarrow> do { snd_msg f me t qid; State_Monad.return Goes_on })
    (\<lambda>r w. r = Goes_on \<and> (\<exists>t i q. holds t (Some (i, q)) w \<and> mine q \<and> mq_msgs q = [(1, msg_data)])) w"
    unfolding r(1) option.case prod.case
    by (rule silent_bind, rule silent_mono [OF snd_msg_silent [OF r(3-5,2)]]) (auto intro: silent_return)
qed

lemma rcv_silent:
  assumes h: "holds t (Some (i, q)) w" and p: "mine q" and m: "mq_msgs q = [(1, msg_data)]" and b: "length buf = 20"
  shows "silent (rcv f buf me) (\<lambda>r w. r = Goes_on \<and> holds t None w) w"
proof -
  obtain w1 where 1: "ftok f ''.'' (of_char CHR ''m'') w = ((key, ()), w1)" "holds t (Some (i, q)) w1"
    using ftok_key [OF h] by (cases "ftok f ''.'' (of_char CHR ''m'') w") auto
  obtain e2 w2 where 2: "msgget f me key 0 w1 = ((i, e2), w2)" "holds t (Some (i, q)) w2"
    using get_old [OF 1(2), where fl = 0 and me = me] p by (cases "msgget f me key 0 w1") auto
  obtain w3 where 3: "msgrcv f me i 0 buf 0 0 w2 = ((-1, E2BIG, buf), w3)" "holds t (Some (i, q)) w3"
    using receive_long [OF 2(2) p m, where n = 0 and buf = buf and fl = 0 and me = me]
    by (cases "msgrcv f me i 0 buf 0 0 w2") (auto simp: msg_data_def)
  have "length (prod.snd (1 :: int, msg_data)) \<le> 20" "20 \<le> length buf" using b by (simp_all add: msg_data_def)
  note receive [OF 3(2) p m this, where fl = IPC_NOWAIT and me = me]
  then obtain r4 e4 w4 s where 4: "msgrcv f me i 20 buf 0 IPC_NOWAIT w3 = ((r4, e4, msg_data @ drop (length msg_data) buf), w4)"
    "r4 \<noteq> -1" "holds t (Some (i, mq_receive me s q)) w4" (is "holds t (Some (i, ?q)) w4")
    by (cases "msgrcv f me i 20 buf 0 IPC_NOWAIT w3") auto
  let ?buf = "msg_data @ drop (length msg_data) buf"
  have q: "mine ?q" "mq_msgs ?q = []" using p m by (simp_all add: mq_receive_def)
  have "(MSG_NOERROR OR IPC_NOWAIT) AND IPC_NOWAIT \<noteq> 0" by (simp add: MSG_NOERROR_def IPC_NOWAIT_def)
  note receive_none [OF 4(3) q this, where me = me and n = 20 and buf = ?buf]
  then obtain b5 w5 where 5: "msgrcv f me i 20 ?buf 0 (MSG_NOERROR OR IPC_NOWAIT) w4 = ((-1, ENOMSG, b5), w5)"
    "holds t (Some (i, ?q)) w5" by (cases "msgrcv f me i 20 ?buf 0 (MSG_NOERROR OR IPC_NOWAIT) w4") auto
  obtain r6 e6 w6 where 6: "msgctl_rmid f me i w5 = ((r6, e6), w6)" "r6 \<noteq> -1" "holds t None w6"
    using rmid_removes [OF 5(2), where me = me] q(1) by (cases "msgctl_rmid f me i w5") auto
  have str: "strcmp (as_string ?buf) ''test message'' = 0"
    by (simp add: as_string_def msg_data_def NUL_def strcmp_refl)
  show ?thesis
    unfolding rcv_def
    by (rule silent_bind silent_T silent_call silent_rules
        | simp only: 1(1) 2(1) 3(1) 4(1) 5(1) 6(1) prod.case fst_conv
        | simp add: key id_valid [OF h] 4(2) 6(2,3) str)+
qed

lemma ipc_msg_main_passes:
  assumes "holds t s w" and "usable 0 s" and "length buf = 20"
  shows "run_test (ipc_msg_main f buf me) w = []"
proof -
  have "silent (fork_main f (122, 126, 128) me (snd f me) (rcv f buf)) (\<lambda>_ _. True) w"
  proof (rule fork_main_silent)
    show "silent (snd f me) (\<lambda>r w. r = Goes_on \<and>
        (\<exists>t s. holds t s w \<and> (\<exists>i q. s = Some (i, q) \<and> mine q \<and> mq_msgs q = [(1, msg_data)]))) w"
      by (rule silent_mono [OF snd_silent [OF assms(1,2)]]) blast
    show "silent (rcv f buf p) (\<lambda>r w. r = Goes_on \<and> (\<exists>t s. holds t s w)) w"
      if "holds t s w" "\<exists>i q. s = Some (i, q) \<and> mine q \<and> mq_msgs q = [(1, msg_data)]" for p t s w
      using that assms(3) by (elim exE conjE) (auto intro: silent_mono [OF rcv_silent])
  qed
  then show ?thesis unfolding ipc_msg_main_def by (rule silent_run_test)
qed

end

subsection \<open>A reference and the property\<close>

definition mk_mq :: "int \<Rightarrow> nat \<Rightarrow> int \<Rightarrow> int \<Rightarrow> mq" where
  "mk_mq me n m s =
     \<lparr>mq_ds = \<lparr>msg_perm = own_perm (world_posix :: mq ipc_world posix) m, msg_qnum = 0, msg_lspid = 0, msg_lrpid = 0,
        msg_stime = 0, msg_rtime = 0, msg_ctime = s, msg_qbytes = 16384\<rparr>, mq_msgs = []\<rparr>"

definition mq_mine :: "mq \<Rightarrow> bool" where
  "mq_mine q \<longleftrightarrow> msg_perm (mq_ds q) = own_perm (world_posix :: mq ipc_world posix) rw_all"

definition ref_snd :: "int \<Rightarrow> int \<times> cstr \<Rightarrow> int \<Rightarrow> mq \<Rightarrow> (int \<times> int) \<times> mq" where
  "ref_snd me m s q =
     (if msg_qbytes (mq_ds q) < msg_size (mq_msgs q @ [m]) \<and> mq_msgs q \<noteq> [] then ((-1, 11), q)
      else ((0, 0), mq_send me s m q))"

definition ref_rcv :: "int \<Rightarrow> nat \<Rightarrow> cstr \<Rightarrow> int \<Rightarrow> int \<Rightarrow> mq \<Rightarrow> (int \<times> int \<times> cstr) \<times> mq" where
  "ref_rcv me n buf fl s q =
     (case mq_msgs q of
        [] \<Rightarrow> ((-1, ENOMSG, buf), q)
      | m # ms \<Rightarrow>
          if n < length (prod.snd m) \<and> fl AND MSG_NOERROR = 0 then ((-1, E2BIG, buf), q)
          else let d = take n (prod.snd m)
               in ((int (length d), 0, d @ drop (length d) buf), mq_receive me s q))"

definition msg_ref :: "mq ipc_world msg_posix" where
  "msg_ref = posix.extend world_posix
     \<lparr>msgget = (\<lambda>me. world_get mk_mq (\<lambda>n fl. mq_mine) me 0),
      msgctl_rmid = world_rmid mq_mine,
      msgctl_stat = (\<lambda>me. world_op (\<lambda>s q. ((0, mq_stat q), q)) (-1, mq_stat (mk_mq 0 0 0 0))),
      msgsnd = (\<lambda>me i m fl. world_op (ref_snd me m) (-1, 22) i),
      msgrcv = (\<lambda>me i n buf ty fl. world_op (ref_rcv me n buf fl) (-1, 22, buf) i)\<rparr>"

lemma own_perm_ref: "own_perm msg_ref = own_perm (world_posix :: mq ipc_world posix)"
  by (rule ext) (simp add: own_perm_def msg_ref_def posix.defs world_posix_def)

lemma msg_ref_objects:
  "ipc_objects msg_ref (world_holds 0 109) 0 (of_char CHR ''m'') 109 (\<lambda>me n. msgget msg_ref me) (msgctl_rmid msg_ref)
     (msg_perm \<circ> mq_ds) (\<lambda>_ _. True) (\<lambda>me n. mq_new 0)"
proof -
  have "(\<lambda>me n. msgget msg_ref me) = world_get mk_mq (\<lambda>n fl. mq_mine)" "msgctl_rmid msg_ref = world_rmid mq_mine"
    by (intro ext) (simp_all add: msg_ref_def posix.defs world_get_def mk_mq_def split: option.split)
  moreover have "ipc_objects msg_ref (world_holds 0 109) 0 109 109 (world_get mk_mq (\<lambda>n fl. mq_mine)) (world_rmid mq_mine)
     (msg_perm \<circ> mq_ds) (\<lambda>_ _. True) (\<lambda>me n. mq_new 0)"
  proof (rule world_ipc_objects)
    show "like_world msg_ref" by (simp add: like_world_def msg_ref_def posix.defs world_posix_def)
  qed (simp_all add: own_perm_ref mk_mq_def mq_mine_def mq_new_def)
  ultimately show ?thesis by simp
qed

interpretation mref: msg_contract msg_ref "world_holds 0 109" 0 109
proof (intro msg_contract.intro msg_ref_objects msg_contract_axioms.intro)
  fix t i q and w :: "mq ipc_world" and me n fl m ms buf
  assume h: "world_holds 0 109 t (Some (i, q)) w"
  note op = world_op_holds [OF h]
  show "case msgctl_stat msg_ref me i w of ((r, ds), w') \<Rightarrow> r \<noteq> -1 \<and> ds = mq_stat q \<and> world_holds 0 109 t (Some (i, q)) w'"
    using op [of "\<lambda>s q. ((0, mq_stat q), q)" "(-1, mq_stat (mk_mq 0 0 0 0))"] by (auto simp: msg_ref_def posix.defs)
  show "mq_msgs q = [] \<Longrightarrow> case msgsnd msg_ref me i m fl w of ((r, _), w') \<Rightarrow>
        r \<noteq> -1 \<and> (\<exists>s. t \<le> s \<and> s \<le> 0 + 5 \<and> world_holds 0 109 t (Some (i, mq_send me s m q)) w')"
    using op [of "ref_snd me m" "(-1, 22)"] by (auto simp: msg_ref_def posix.defs ref_snd_def)
  show "mq_msgs q = m # ms \<Longrightarrow> length (prod.snd m) \<le> n \<Longrightarrow> n \<le> length buf \<Longrightarrow>
      case msgrcv msg_ref me i n buf 0 fl w of ((r, _, buf'), w') \<Rightarrow>
        r \<noteq> -1 \<and> buf' = prod.snd m @ drop (length (prod.snd m)) buf \<and>
        (\<exists>s. world_holds 0 109 t (Some (i, mq_receive me s q)) w')"
    using op [of "ref_rcv me n buf fl" "(-1, 22, buf)"] by (auto simp: msg_ref_def posix.defs ref_rcv_def Let_def)
  show "mq_msgs q = m # ms \<Longrightarrow> n < length (prod.snd m) \<Longrightarrow> fl AND MSG_NOERROR = 0 \<Longrightarrow>
      case msgrcv msg_ref me i n buf 0 fl w of ((r, errno, buf'), w') \<Rightarrow>
        r = -1 \<and> errno = E2BIG \<and> buf' = buf \<and> world_holds 0 109 t (Some (i, q)) w'"
    using op [of "ref_rcv me n buf fl" "(-1, 22, buf)"] by (auto simp: msg_ref_def posix.defs ref_rcv_def)
  show "mq_msgs q = [] \<Longrightarrow>
      case msgrcv msg_ref me i n buf 0 fl w of ((r, errno, buf'), w') \<Rightarrow>
        r = -1 \<and> errno = ENOMSG \<and> world_holds 0 109 t (Some (i, q)) w'"
    using op [of "ref_rcv me n buf fl" "(-1, 22, buf)"] by (auto simp: msg_ref_def posix.defs ref_rcv_def)
qed

end
