(* ===== verification/IpcSem.thy ===== *)
theory IpcSem
  imports IpcBase
begin

text \<open>
  ipc_sem.c of libc/src/functional: a process makes a set of one semaphore and increments it; its child decrements
  it.  The semaphore services are arguments.
\<close>

subsection \<open>The test\<close>

record semid_ds =
  sem_perm :: ipc_perm
  sem_nsems :: int
  sem_otime :: int
  sem_ctime :: int

text \<open>The commands of \<open>semctl\<close> that return a number.\<close>

datatype sem_cmd = GETVAL | GETPID | GETNCNT | GETZCNT

record sembuf =
  sem_num :: int
  sem_op :: int
  sem_flg :: int

record 'w sem_posix = "'w posix" +
  semget :: "int \<Rightarrow> int \<Rightarrow> nat \<Rightarrow> int \<Rightarrow> 'w \<Rightarrow> (int \<times> int) \<times> 'w"
  semctl_rmid :: "int \<Rightarrow> int \<Rightarrow> 'w \<Rightarrow> (int \<times> int) \<times> 'w"
  semctl_stat :: "int \<Rightarrow> int \<Rightarrow> 'w \<Rightarrow> (int \<times> semid_ds) \<times> 'w"
  semctl :: "int \<Rightarrow> int \<Rightarrow> sem_cmd \<Rightarrow> 'w \<Rightarrow> (int \<times> int) \<times> 'w"
  semop :: "int \<Rightarrow> int \<Rightarrow> sembuf \<Rightarrow> 'w \<Rightarrow> (int \<times> int) \<times> 'w"

definition inc_check_new :: "'w sem_posix \<Rightarrow> int \<Rightarrow> semid_ds \<Rightarrow> ('w, unit) prog" where
  "inc_check_new f t ds =
     do {
       check_perm f 59 (sem_perm ds);
       EQ 64 (sem_nsems ds) 1;
       EQ 65 (sem_otime ds) 0;
       check_window 67 t (sem_ctime ds)
     }"

definition inc_sem :: "'w sem_posix \<Rightarrow> int \<Rightarrow> int \<Rightarrow> int \<Rightarrow> ('w, unit) prog" where
  "inc_sem f me t semid =
     do {
       (r, ds) \<leftarrow> T 58 (semctl_stat f me semid);
       inc_check_new f t ds;
       _ \<leftarrow> T 75 (semop f me semid \<lparr>sem_num = 0, sem_op = 1, sem_flg = 0\<rparr>);
       (semval, _) \<leftarrow> T 76 (semctl f me semid GETVAL);
       EQ 77 semval 1;
       (sempid, _) \<leftarrow> T 78 (semctl f me semid GETPID);
       EQ 79 sempid me;
       (semncnt, _) \<leftarrow> T 80 (semctl f me semid GETNCNT);
       EQ 81 semncnt 0;
       (semzcnt, _) \<leftarrow> T 82 (semctl f me semid GETZCNT);
       EQ 83 semzcnt 0
     }"

definition inc :: "'w sem_posix \<Rightarrow> int \<Rightarrow> ('w, outcome) prog" where
  "inc f me =
     do {
       r \<leftarrow> ipc_clean f (\<lambda>k. semget f me k 1) (semctl_rmid f me) 40 (of_char CHR ''s'');
       (case r of
          None \<Rightarrow> State_Monad.return Exited
        | Some (t, semid) \<Rightarrow> do { inc_sem f me t semid; State_Monad.return Goes_on })
     }"

definition dec :: "'w sem_posix \<Rightarrow> int \<Rightarrow> ('w, outcome) prog" where
  "dec f me =
     do {
       (k, _) \<leftarrow> T 92 (ftok f ''.'' (of_char CHR ''s''));
       (semid, _) \<leftarrow> T 93 (semget f me k 0 0);
       _ \<leftarrow> T 99 (semop f me semid \<lparr>sem_num = 0, sem_op = -1, sem_flg = 0\<rparr>);
       (semval, _) \<leftarrow> T 100 (semctl f me semid GETVAL);
       EQ 101 semval 0;
       _ \<leftarrow> T 104 (semctl_rmid f me semid);
       State_Monad.return Goes_on
     }"

definition ipc_sem_main :: "'w sem_posix \<Rightarrow> int \<Rightarrow> ('w, unit) prog" where
  "ipc_sem_main f me = fork_main f (115, 119, 121) me (inc f me) (dec f)"

subsection \<open>The contract\<close>

text \<open>The state of a set of one semaphore: what \<open>IPC_STAT\<close> shows, the value, and the process of the last
  operation.  No process waits.\<close>

record sem_set =
  ss_ds :: semid_ds
  ss_val :: int
  ss_pid :: int

definition ss_new :: "int \<Rightarrow> nat \<Rightarrow> int \<Rightarrow> sem_set \<Rightarrow> bool" where
  "ss_new t0 n t s \<longleftrightarrow> sem_nsems (ss_ds s) = int n \<and> sem_otime (ss_ds s) = 0 \<and>
     t \<le> sem_ctime (ss_ds s) \<and> sem_ctime (ss_ds s) \<le> t0 + 5 \<and> ss_val s = 0"

definition ss_op :: "int \<Rightarrow> int \<Rightarrow> int \<Rightarrow> sem_set \<Rightarrow> sem_set" where
  "ss_op me t k s = s\<lparr>ss_ds := (ss_ds s)\<lparr>sem_otime := t\<rparr>, ss_val := ss_val s + k, ss_pid := me\<rparr>"

definition ss_ctl :: "sem_cmd \<Rightarrow> sem_set \<Rightarrow> int" where
  "ss_ctl c s = (case c of GETVAL \<Rightarrow> ss_val s | GETPID \<Rightarrow> ss_pid s | GETNCNT \<Rightarrow> 0 | GETZCNT \<Rightarrow> 0)"

locale sem_contract = ipc_objects f holds t0 "of_char CHR ''s''" key "\<lambda>me n k. semget f me k n" "semctl_rmid f"
    "sem_perm \<circ> ss_ds" "\<lambda>n s. int n \<le> sem_nsems (ss_ds s)" "\<lambda>me. ss_new t0"
  for f :: "'w sem_posix" and holds :: "int \<Rightarrow> (int \<times> sem_set) option \<Rightarrow> 'w \<Rightarrow> bool" and t0 key +
  assumes stat: "holds t (Some (i, s)) w \<Longrightarrow>
      case semctl_stat f me i w of ((r, ds), w') \<Rightarrow> r \<noteq> -1 \<and> ds = ss_ds s \<and> holds t (Some (i, s)) w'"
    and ctl: "holds t (Some (i, s)) w \<Longrightarrow> 1 \<le> sem_nsems (ss_ds s) \<Longrightarrow> 0 \<le> ss_ctl c s \<Longrightarrow>
      case semctl f me i c w of ((r, _), w') \<Rightarrow> r = ss_ctl c s \<and> holds t (Some (i, s)) w'"
    and operate: "holds t (Some (i, s)) w \<Longrightarrow> sem_perm (ss_ds s) = own_perm f rw_all \<Longrightarrow> 1 \<le> sem_nsems (ss_ds s) \<Longrightarrow>
      0 \<le> ss_val s + k \<Longrightarrow> ss_val s + k \<le> 32767 \<Longrightarrow> k \<noteq> 0 \<Longrightarrow>
      case semop f me i \<lparr>sem_num = 0, sem_op = k, sem_flg = fl\<rparr> w of ((r, _), w') \<Rightarrow>
        r \<noteq> -1 \<and> (\<exists>u. holds t (Some (i, ss_op me u k s)) w')"
begin

abbreviation "mine s \<equiv> sem_perm (ss_ds s) = own_perm f rw_all"

lemma ctl_silent:
  assumes "holds t (Some (i, s)) w" and "1 \<le> sem_nsems (ss_ds s)" and "0 \<le> ss_ctl c s"
    and "\<And>e w'. holds t (Some (i, s)) w' \<Longrightarrow> Q (ss_ctl c s, e) w'"
  shows "silent (T l (semctl f me i c)) Q w"
  using ctl [OF assms(1-3), where me = me] assms(3,4) by (intro silent_T) auto

lemma operate_silent:
  assumes "holds t (Some (i, s)) w" and "mine s" and "1 \<le> sem_nsems (ss_ds s)"
    and "0 \<le> ss_val s + k" and "ss_val s + k \<le> 32767" and "k \<noteq> 0"
    and "\<And>r u w'. holds t (Some (i, ss_op me u k s)) w' \<Longrightarrow> Q r w'"
  shows "silent (T l (semop f me i \<lparr>sem_num = 0, sem_op = k, sem_flg = fl\<rparr>)) Q w"
  using operate [OF assms(1-6), where me = me and fl = fl] assms(7) by (intro silent_T) auto

lemma inc_sem_silent:
  assumes h: "holds t (Some (i, s)) w" and p: "mine s" and new: "ss_new t0 1 t s" and t: "t0 \<le> t" and me: "0 \<le> me"
  shows "silent (inc_sem f me t i)
    (\<lambda>_ w. \<exists>i s. holds t (Some (i, s)) w \<and> mine s \<and> 1 \<le> sem_nsems (ss_ds s) \<and> ss_val s = 1) w"
proof -
  have new1: "silent (inc_check_new f t (ss_ds s)) Q w1" if "Q () w1" for Q w1
    unfolding inc_check_new_def check_perm_def
    by (intro silent_bind silent_EQ silent_check_window)
      (use p new t that in \<open>simp_all add: ss_new_def own_perm_def rw_all_def\<close>)
  have inc1: "ss_ctl GETVAL (ss_op me u 1 s) = 1" "ss_ctl GETPID (ss_op me u 1 s) = me"
    "ss_ctl GETNCNT (ss_op me u 1 s) = 0" "ss_ctl GETZCNT (ss_op me u 1 s) = 0"
    "mine (ss_op me u 1 s)" "sem_nsems (ss_ds (ss_op me u 1 s)) = 1" "ss_val (ss_op me u 1 s) = 1" for u
    using new p by (simp_all add: ss_ctl_def ss_op_def ss_new_def)
  have post: "\<exists>i s. holds t (Some (i, s)) w \<and> mine s \<and> 1 \<le> sem_nsems (ss_ds s) \<and> ss_val s = 1"
    if "holds t (Some (i, ss_op me u 1 s)) w" for u w
    using that inc1(5-7) [of u] by (intro exI [of _ i] exI [of _ "ss_op me u 1 s"]) simp
  have s: "1 \<le> sem_nsems (ss_ds s)" "0 \<le> ss_val s + 1" "ss_val s + 1 \<le> 32767" "(1 :: int) \<noteq> 0"
    using new by (simp_all add: ss_new_def)
  have rest: "silent (State_Monad.bind (T 76 (semctl f me i GETVAL)) (\<lambda>(semval, _). do {
       EQ 77 semval 1;
       (sempid, _) \<leftarrow> T 78 (semctl f me i GETPID);
       EQ 79 sempid me;
       (semncnt, _) \<leftarrow> T 80 (semctl f me i GETNCNT);
       EQ 81 semncnt 0;
       (semzcnt, _) \<leftarrow> T 82 (semctl f me i GETZCNT);
       EQ 83 semzcnt 0
     })) (\<lambda>_ w. \<exists>i s. holds t (Some (i, s)) w \<and> mine s \<and> 1 \<le> sem_nsems (ss_ds s) \<and> ss_val s = 1) w"
    if "holds t (Some (i, ss_op me u 1 s)) w" for u w
    using that me
    by (intro silent_bind) (rule ctl_silent, assumption, use me in \<open>simp_all add: inc1\<close>,
        (rule silent_bind silent_EQ ctl_silent | assumption | erule post | simp add: inc1)+)
  obtain r w1 where 1: "semctl_stat f me i w = ((r, ss_ds s), w1)" "r \<noteq> -1" "holds t (Some (i, s)) w1"
    using stat [OF h, where me = me] by (cases "semctl_stat f me i w") auto
  have "silent (T 75 (semop f me i \<lparr>sem_num = 0, sem_op = 1, sem_flg = 0\<rparr>)) Q w1"
    if "\<And>r u w'. holds t (Some (i, ss_op me u 1 s)) w' \<Longrightarrow> Q r w'" for Q
    by (rule operate_silent [OF 1(3) p s]) (rule that)
  then show ?thesis
    unfolding inc_sem_def
    by (intro silent_bind silent_T) (simp add: 1(1,2), intro silent_bind new1, simp add: rest)
qed

lemma inc_silent:
  assumes "holds t s w" and "usable 1 s" and me: "0 \<le> me"
  shows "silent (inc f me) (\<lambda>r w. r = Goes_on \<and>
    (\<exists>t i s. holds t (Some (i, s)) w \<and> mine s \<and> 1 \<le> sem_nsems (ss_ds s) \<and> ss_val s = 1)) w"
  unfolding inc_def
proof (rule silent_bind, rule silent_mono [OF ipc_clean_silent [OF assms(1,2)]])
  fix r w
  assume "\<exists>t i x. r = Some (t, i) \<and> t0 \<le> t \<and> holds t (Some (i, x)) w \<and>
    (sem_perm \<circ> ss_ds) x = own_perm f rw_all \<and> ss_new t0 1 t x"
  then obtain t i s where r: "r = Some (t, i)" "t0 \<le> t" "holds t (Some (i, s)) w" "mine s" "ss_new t0 1 t s" by auto
  show "silent (case r of None \<Rightarrow> State_Monad.return Exited
      | Some (t, semid) \<Rightarrow> do { inc_sem f me t semid; State_Monad.return Goes_on })
    (\<lambda>r w. r = Goes_on \<and> (\<exists>t i s. holds t (Some (i, s)) w \<and> mine s \<and> 1 \<le> sem_nsems (ss_ds s) \<and> ss_val s = 1)) w"
    unfolding r(1) option.case prod.case
    by (rule silent_bind, rule silent_mono [OF inc_sem_silent [OF r(3-5,2) me]]) (auto intro: silent_return)
qed

lemma dec_silent:
  assumes h: "holds t (Some (i, s)) w" and p: "mine s" and n: "1 \<le> sem_nsems (ss_ds s)" and v: "ss_val s = 1"
  shows "silent (dec f me) (\<lambda>r w. r = Goes_on \<and> holds t None w) w"
proof -
  obtain w1 where 1: "ftok f ''.'' (of_char CHR ''s'') w = ((key, ()), w1)" "holds t (Some (i, s)) w1"
    using ftok_key [OF h] by (cases "ftok f ''.'' (of_char CHR ''s'') w") auto
  obtain e2 w2 where 2: "semget f me key 0 0 w1 = ((i, e2), w2)" "holds t (Some (i, s)) w2"
    using get_old [OF 1(2), where fl = 0 and me = me and n = 0] p n by (cases "semget f me key 0 0 w1") auto
  have bounds: "0 \<le> ss_val s + (-1)" "ss_val s + (-1) \<le> 32767" "(-1 :: int) \<noteq> 0" using v by simp_all
  have dn: "ss_ctl GETVAL (ss_op me u (-1) s) = 0" "mine (ss_op me u (-1) s)"
    "sem_nsems (ss_ds (ss_op me u (-1) s)) = sem_nsems (ss_ds s)" for u
    using v p by (simp_all add: ss_ctl_def ss_op_def)
  have rest: "silent (State_Monad.bind (T 100 (semctl f me i GETVAL)) (\<lambda>(semval, _). do {
       EQ 101 semval 0;
       _ \<leftarrow> T 104 (semctl_rmid f me i);
       State_Monad.return Goes_on
     })) (\<lambda>r w. r = Goes_on \<and> holds t None w) w" if "holds t (Some (i, ss_op me u (-1) s)) w" for u w
    using that
  proof (intro silent_bind, elim ctl_silent)
    fix e w' assume h': "holds t (Some (i, ss_op me u (- 1) s)) w'"
    obtain r w'' where "semctl_rmid f me i w' = (r, w'')" "fst r \<noteq> -1" "holds t None w''"
      using rmid_removes [OF h', where me = me] dn(2) [of u] by (cases "semctl_rmid f me i w'") auto
    then show "silent (case (ss_ctl GETVAL (ss_op me u (- 1) s), e) of (semval, _) \<Rightarrow> do {
       EQ 101 semval 0;
       _ \<leftarrow> T 104 (semctl_rmid f me i);
       State_Monad.return Goes_on
     }) (\<lambda>r w. r = Goes_on \<and> holds t None w) w'"
      unfolding prod.case by (intro silent_bind silent_EQ silent_T) (simp_all add: dn(1) silent_return)
  qed (use n dn in simp_all)
  have op99: "silent (T 99 (semop f me i \<lparr>sem_num = 0, sem_op = -1, sem_flg = 0\<rparr>)) Q w2"
    if "\<And>r u w'. holds t (Some (i, ss_op me u (-1) s)) w' \<Longrightarrow> Q r w'" for Q
    by (rule operate_silent [OF 2(2) p n bounds]) (rule that)
  show ?thesis
    unfolding dec_def
    by (rule rest silent_bind op99 silent_T | assumption | simp only: 1(1) 2(1) prod.case fst_conv
        | simp add: key id_valid [OF h])+
qed

lemma ipc_sem_main_passes:
  assumes "holds t s w" and "usable 1 s" and "0 \<le> me"
  shows "run_test (ipc_sem_main f me) w = []"
proof -
  have "silent (fork_main f (115, 119, 121) me (inc f me) (dec f)) (\<lambda>_ _. True) w"
  proof (rule fork_main_silent)
    show "silent (inc f me) (\<lambda>r w. r = Goes_on \<and> (\<exists>t s. holds t s w \<and>
        (\<exists>i x. s = Some (i, x) \<and> mine x \<and> 1 \<le> sem_nsems (ss_ds x) \<and> ss_val x = 1))) w"
      by (rule silent_mono [OF inc_silent [OF assms]]) blast
    show "silent (dec f p) (\<lambda>r w. r = Goes_on \<and> (\<exists>t s. holds t s w)) w"
      if "holds t s w" "\<exists>i x. s = Some (i, x) \<and> mine x \<and> 1 \<le> sem_nsems (ss_ds x) \<and> ss_val x = 1" for p t s w
      using that by (elim exE conjE) (auto intro: silent_mono [OF dec_silent])
  qed
  then show ?thesis unfolding ipc_sem_main_def by (rule silent_run_test)
qed

end

subsection \<open>A reference\<close>

definition mk_ss :: "int \<Rightarrow> nat \<Rightarrow> int \<Rightarrow> int \<Rightarrow> sem_set" where
  "mk_ss me n m s =
     \<lparr>ss_ds = \<lparr>sem_perm = own_perm (world_posix :: sem_set ipc_world posix) m, sem_nsems = int n, sem_otime = 0,
        sem_ctime = s\<rparr>, ss_val = 0, ss_pid = 0\<rparr>"

definition ss_mine :: "sem_set \<Rightarrow> bool" where
  "ss_mine s \<longleftrightarrow> sem_perm (ss_ds s) = own_perm (world_posix :: sem_set ipc_world posix) rw_all"

text \<open>An operation that would wait is refused.\<close>

definition ref_semop :: "int \<Rightarrow> sembuf \<Rightarrow> int \<Rightarrow> sem_set \<Rightarrow> (int \<times> int) \<times> sem_set" where
  "ref_semop me b t s =
     (if sem_num b \<noteq> 0 \<or> ss_val s + sem_op b < 0 \<or> 32767 < ss_val s + sem_op b then ((-1, 11), s)
      else ((0, 0), ss_op me t (sem_op b) s))"

definition sem_ref :: "sem_set ipc_world sem_posix" where
  "sem_ref = posix.extend world_posix
     \<lparr>semget = (\<lambda>me k n. world_get mk_ss (\<lambda>n fl s. ss_mine s \<and> int n \<le> sem_nsems (ss_ds s)) me n k),
      semctl_rmid = world_rmid ss_mine,
      semctl_stat = (\<lambda>me. world_op (\<lambda>t s. ((0, ss_ds s), s)) (-1, ss_ds (mk_ss 0 0 0 0))),
      semctl = (\<lambda>me i c. world_op (\<lambda>t s. ((ss_ctl c s, 0), s)) (-1, 22) i),
      semop = (\<lambda>me i b. world_op (ref_semop me b) (-1, 22) i)\<rparr>"

lemma sem_ref_objects:
  "ipc_objects sem_ref (world_holds 0 115) 0 (of_char CHR ''s'') 115 (\<lambda>me n k. semget sem_ref me k n)
     (semctl_rmid sem_ref) (sem_perm \<circ> ss_ds) (\<lambda>n s. int n \<le> sem_nsems (ss_ds s)) (\<lambda>me. ss_new 0)"
proof -
  have own: "own_perm sem_ref = own_perm (world_posix :: sem_set ipc_world posix)"
    by (rule ext) (simp add: own_perm_def sem_ref_def posix.defs world_posix_def)
  have "(\<lambda>me n k. semget sem_ref me k n) = world_get mk_ss (\<lambda>n fl s. ss_mine s \<and> int n \<le> sem_nsems (ss_ds s))"
    "semctl_rmid sem_ref = world_rmid ss_mine"
    by (intro ext) (simp_all add: sem_ref_def posix.defs)
  moreover have "ipc_objects sem_ref (world_holds 0 115) 0 115 115
     (world_get mk_ss (\<lambda>n fl s. ss_mine s \<and> int n \<le> sem_nsems (ss_ds s))) (world_rmid ss_mine)
     (sem_perm \<circ> ss_ds) (\<lambda>n s. int n \<le> sem_nsems (ss_ds s)) (\<lambda>me. ss_new 0)"
  proof (rule world_ipc_objects)
    show "like_world sem_ref" by (simp add: like_world_def sem_ref_def posix.defs world_posix_def)
  qed (simp_all add: own mk_ss_def ss_mine_def ss_new_def)
  ultimately show ?thesis by simp
qed

interpretation sref: sem_contract sem_ref "world_holds 0 115" 0 115
proof (intro sem_contract.intro sem_ref_objects sem_contract_axioms.intro)
  fix t i s and w :: "sem_set ipc_world" and me c k fl
  assume h: "world_holds 0 115 t (Some (i, s)) w"
  note op = world_op_holds [OF h]
  show "case semctl_stat sem_ref me i w of ((r, ds), w') \<Rightarrow> r \<noteq> -1 \<and> ds = ss_ds s \<and> world_holds 0 115 t (Some (i, s)) w'"
    using op [of "\<lambda>t s. ((0, ss_ds s), s)" "(-1, ss_ds (mk_ss 0 0 0 0))"] by (auto simp: sem_ref_def posix.defs)
  show "case semctl sem_ref me i c w of ((r, _), w') \<Rightarrow> r = ss_ctl c s \<and> world_holds 0 115 t (Some (i, s)) w'"
    using op [of "\<lambda>t s. ((ss_ctl c s, 0 :: int), s)" "(-1, 22)"] by (auto simp: sem_ref_def posix.defs)
  show "0 \<le> ss_val s + k \<Longrightarrow> ss_val s + k \<le> 32767 \<Longrightarrow>
      case semop sem_ref me i \<lparr>sem_num = 0, sem_op = k, sem_flg = fl\<rparr> w of ((r, _), w') \<Rightarrow>
        r \<noteq> -1 \<and> (\<exists>u. world_holds 0 115 t (Some (i, ss_op me u k s)) w')"
    using op [of "ref_semop me \<lparr>sem_num = 0, sem_op = k, sem_flg = fl\<rparr>" "(-1, 22)"]
    by (auto simp: sem_ref_def posix.defs ref_semop_def)
qed

end
