(* ===== verification/IpcShm.thy ===== *)
theory IpcShm
  imports IpcMsg IpcSem
begin

text \<open>
  ipc_shm.c of libc/src/functional: a process makes a segment of shared memory and writes a string into it; its
  child reads it.  The services are arguments, among them the accesses to the memory, \<open>strcpy\<close> to an address and
  reading the string at an address: they fail where a signal would kill the process.
\<close>

subsection \<open>The test\<close>

record shmid_ds =
  shm_perm :: ipc_perm
  shm_segsz :: int
  shm_lpid :: int
  shm_cpid :: int
  shm_nattch :: int
  shm_atime :: int
  shm_dtime :: int
  shm_ctime :: int

definition SHM_RDONLY :: int where "SHM_RDONLY = 4096"

record 'w shm_posix = "'w posix" +
  shmget :: "int \<Rightarrow> int \<Rightarrow> nat \<Rightarrow> int \<Rightarrow> 'w \<Rightarrow> (int \<times> int) \<times> 'w"
  shmctl_rmid :: "int \<Rightarrow> int \<Rightarrow> 'w \<Rightarrow> (int \<times> int) \<times> 'w"
  shmctl_stat :: "int \<Rightarrow> int \<Rightarrow> 'w \<Rightarrow> (int \<times> shmid_ds) \<times> 'w"
  shmat :: "int \<Rightarrow> int \<Rightarrow> int \<Rightarrow> 'w \<Rightarrow> int \<times> 'w"
  shmdt :: "int \<Rightarrow> int \<Rightarrow> 'w \<Rightarrow> (int \<times> int) \<times> 'w"
  strcpy_to :: "int \<Rightarrow> int \<Rightarrow> cstr \<Rightarrow> 'w \<Rightarrow> bool \<times> 'w"
  string_at :: "int \<Rightarrow> int \<Rightarrow> 'w \<Rightarrow> cstr option"

definition set_check_new :: "'w shm_posix \<Rightarrow> int \<Rightarrow> int \<Rightarrow> shmid_ds \<Rightarrow> ('w, unit) prog" where
  "set_check_new f me t ds =
     do {
       check_perm f 53 (shm_perm ds);
       EQ 58 (shm_segsz ds) 100;
       EQ 59 (shm_lpid ds) 0;
       EQ 60 (shm_cpid ds) me;
       EQ 61 (shm_nattch ds) 0;
       EQ 62 (shm_atime ds) 0;
       EQ 63 (shm_dtime ds) 0;
       check_window 65 t (shm_ctime ds)
     }"

definition set_shm :: "'w shm_posix \<Rightarrow> int \<Rightarrow> int \<Rightarrow> int \<Rightarrow> ('w, outcome) prog" where
  "set_shm f me t shmid =
     do {
       (r, ds) \<leftarrow> T 52 (shmctl_stat f me shmid);
       set_check_new f me t ds;
       p \<leftarrow> call (shmat f me shmid 0);
       ensure 71 (\<not> p = 0);
       (r, ds) \<leftarrow> T 72 (shmctl_stat f me shmid);
       EQ 73 (shm_nattch ds) 1;
       EQ 74 (shm_lpid ds) me;
       check_window 76 t (shm_atime ds);
       ok \<leftarrow> call (strcpy_to f me p ''test data'');
       if \<not> ok then State_Monad.return Killed
       else do {
         _ \<leftarrow> T 80 (shmdt f me p);
         State_Monad.return Goes_on
       }
     }"

definition shm_set :: "'w shm_posix \<Rightarrow> int \<Rightarrow> ('w, outcome) prog" where
  "shm_set f me =
     do {
       r \<leftarrow> ipc_clean f (\<lambda>k. shmget f me k 100) (shmctl_rmid f me) 35 (of_char CHR ''h'');
       (case r of
          None \<Rightarrow> State_Monad.return Exited
        | Some (t, shmid) \<Rightarrow> set_shm f me t shmid)
     }"

definition shm_get :: "'w shm_posix \<Rightarrow> int \<Rightarrow> ('w, outcome) prog" where
  "shm_get f me =
     do {
       (k, _) \<leftarrow> T 89 (ftok f ''.'' (of_char CHR ''h''));
       (shmid, _) \<leftarrow> T 90 (shmget f me k 0 0);
       p \<leftarrow> call (shmat f me shmid SHM_RDONLY);
       ensure 94 (\<not> p = 0);
       s \<leftarrow> call (\<lambda>w. (string_at f me p w, w));
       (case s of
          None \<Rightarrow> State_Monad.return Killed
        | Some s \<Rightarrow>
            do {
              ensure 97 (\<not> strcmp s ''test data'' \<noteq> 0);
              _ \<leftarrow> T 100 (shmdt f me p);
              _ \<leftarrow> T 101 (shmctl_rmid f me shmid);
              State_Monad.return Goes_on
            })
     }"

definition ipc_shm_main :: "'w shm_posix \<Rightarrow> int \<Rightarrow> ('w, unit) prog" where
  "ipc_shm_main f me = fork_main f (112, 116, 118) me (shm_set f me) (shm_get f)"

subsection \<open>The contract\<close>

text \<open>The state of a segment: what \<open>IPC_STAT\<close> shows but for the number of attachments, the contents, and the
  attachments: the process, the address, and whether it may write.\<close>

record segment =
  sg_ds :: shmid_ds
  sg_mem :: cstr
  sg_at :: "(int \<times> int \<times> bool) list"

definition sg_stat :: "segment \<Rightarrow> shmid_ds" where
  "sg_stat s = (sg_ds s)\<lparr>shm_nattch := int (length (sg_at s))\<rparr>"

definition sg_new :: "int \<Rightarrow> int \<Rightarrow> nat \<Rightarrow> int \<Rightarrow> segment \<Rightarrow> bool" where
  "sg_new t0 me n t s \<longleftrightarrow> shm_segsz (sg_ds s) = int n \<and> shm_lpid (sg_ds s) = 0 \<and> shm_cpid (sg_ds s) = me \<and>
     sg_at s = [] \<and> shm_atime (sg_ds s) = 0 \<and> shm_dtime (sg_ds s) = 0 \<and>
     t \<le> shm_ctime (sg_ds s) \<and> shm_ctime (sg_ds s) \<le> t0 + 5 \<and> sg_mem s = replicate n NUL"

definition sg_attach :: "int \<Rightarrow> int \<Rightarrow> int \<Rightarrow> int \<Rightarrow> segment \<Rightarrow> segment" where
  "sg_attach me fl u p s =
     s\<lparr>sg_ds := (sg_ds s)\<lparr>shm_lpid := me, shm_atime := u\<rparr>, sg_at := (me, p, fl AND SHM_RDONLY = 0) # sg_at s\<rparr>"

definition sg_copy :: "cstr \<Rightarrow> segment \<Rightarrow> segment" where
  "sg_copy x s = s\<lparr>sg_mem := x @ [NUL] @ drop (length x + 1) (sg_mem s)\<rparr>"

definition sg_detach :: "int \<Rightarrow> int \<Rightarrow> int \<Rightarrow> segment \<Rightarrow> segment" where
  "sg_detach me u p s =
     s\<lparr>sg_ds := (sg_ds s)\<lparr>shm_lpid := me, shm_dtime := u\<rparr>,
       sg_at := filter (\<lambda>a. \<not> (fst a = me \<and> fst (prod.snd a) = p)) (sg_at s)\<rparr>"

definition sg_attached :: "int \<Rightarrow> int \<Rightarrow> segment \<Rightarrow> bool" where
  "sg_attached me p s \<longleftrightarrow> (\<exists>wr. (me, p, wr) \<in> set (sg_at s))"

locale shm_contract = ipc_objects f holds t0 "of_char CHR ''h''" key "\<lambda>me n k. shmget f me k n" "shmctl_rmid f"
    "shm_perm \<circ> sg_ds" "\<lambda>n s. int n \<le> shm_segsz (sg_ds s)" "sg_new t0"
  for f :: "'w shm_posix" and holds :: "int \<Rightarrow> (int \<times> segment) option \<Rightarrow> 'w \<Rightarrow> bool" and t0 key +
  assumes stat: "holds t (Some (i, s)) w \<Longrightarrow>
      case shmctl_stat f me i w of ((r, ds), w') \<Rightarrow> r \<noteq> -1 \<and> ds = sg_stat s \<and> holds t (Some (i, s)) w'"
    and attach: "holds t (Some (i, s)) w \<Longrightarrow> shm_perm (sg_ds s) = own_perm f rw_all \<Longrightarrow>
      case shmat f me i fl w of (p, w') \<Rightarrow>
        p \<noteq> 0 \<and> (\<exists>u. t \<le> u \<and> u \<le> t0 + 5 \<and> holds t (Some (i, sg_attach me fl u p s)) w')"
    and copy: "holds t (Some (i, s)) w \<Longrightarrow> (me, p, True) \<in> set (sg_at s) \<Longrightarrow> length x < length (sg_mem s) \<Longrightarrow>
      case strcpy_to f me p x w of (ok, w') \<Rightarrow> ok \<and> holds t (Some (i, sg_copy x s)) w'"
    and read: "holds t (Some (i, s)) w \<Longrightarrow> sg_attached me p s \<Longrightarrow> NUL \<in> set (sg_mem s) \<Longrightarrow>
      string_at f me p w = Some (as_string (sg_mem s))"
    and detach: "holds t (Some (i, s)) w \<Longrightarrow> sg_attached me p s \<Longrightarrow>
      case shmdt f me p w of ((r, _), w') \<Rightarrow> r \<noteq> -1 \<and> (\<exists>u. holds t (Some (i, sg_detach me u p s)) w')"
begin

abbreviation "mine s \<equiv> shm_perm (sg_ds s) = own_perm f rw_all"

definition written :: "segment \<Rightarrow> bool" where
  "written s \<longleftrightarrow> mine s \<and> 0 \<le> shm_segsz (sg_ds s) \<and> (\<exists>ys. sg_mem s = ''test data'' @ NUL # ys)"

lemma set_shm_silent:
  assumes h: "holds t (Some (i, s)) w" and p: "mine s" and new: "sg_new t0 me 100 t s" and t: "t0 \<le> t"
  shows "silent (set_shm f me t i)
    (\<lambda>r w. r = Goes_on \<and> (\<exists>t i s. holds t (Some (i, s)) w \<and> written s)) w"
proof -
  obtain r1 w1 where 1: "shmctl_stat f me i w = ((r1, sg_stat s), w1)" "r1 \<noteq> -1" "holds t (Some (i, s)) w1"
    using stat [OF h, where me = me] by (cases "shmctl_stat f me i w") auto
  obtain a w2 u where 2: "shmat f me i 0 w1 = (a, w2)" "a \<noteq> 0" "t \<le> u" "u \<le> t0 + 5"
    "holds t (Some (i, sg_attach me 0 u a s)) w2" (is "holds t (Some (i, ?s2)) w2")
    using attach [OF 1(3) p, where me = me and fl = 0] by (cases "shmat f me i 0 w1") auto
  obtain r3 w3 where 3: "shmctl_stat f me i w2 = ((r3, sg_stat ?s2), w3)" "r3 \<noteq> -1" "holds t (Some (i, ?s2)) w3"
    using stat [OF 2(5), where me = me] by (cases "shmctl_stat f me i w2") auto
  have s2: "shm_nattch (sg_stat ?s2) = 1" "shm_lpid (sg_stat ?s2) = me" "shm_atime (sg_stat ?s2) = u"
    "(me, a, True) \<in> set (sg_at ?s2)" "sg_mem ?s2 = replicate 100 NUL"
    using new by (simp_all add: sg_stat_def sg_attach_def sg_new_def)
  have win: "t \<le> shm_atime (sg_stat ?s2)" "shm_atime (sg_stat ?s2) \<le> t + 5" using 2(3,4) t s2(3) by simp_all
  have "length ''test data'' < length (sg_mem ?s2)" unfolding s2(5) by simp
  note copy [OF 3(3) s2(4) this]
  then obtain w4 where 4: "strcpy_to f me a ''test data'' w3 = (True, w4)"
    "holds t (Some (i, sg_copy ''test data'' ?s2)) w4" (is "holds t (Some (i, ?s4)) w4")
    by (cases "strcpy_to f me a ''test data'' w3") auto
  have "sg_attached me a ?s4" using s2(4) by (auto simp: sg_attached_def sg_copy_def)
  note detach [OF 4(2) this]
  then obtain r5 w5 u5 where 5: "shmdt f me a w4 = (r5, w5)" "fst r5 \<noteq> -1"
    "holds t (Some (i, sg_detach me u5 a ?s4)) w5" by (cases "shmdt f me a w4") auto
  have new1: "silent (set_check_new f me t (sg_stat s)) Q w'" if "Q () w'" for Q w'
    unfolding set_check_new_def check_perm_def
    by (intro silent_bind silent_EQ silent_check_window)
      (use p new t that in \<open>simp_all add: sg_stat_def sg_new_def own_perm_def rw_all_def\<close>)
  have "written (sg_detach me u5 a ?s4)"
    using p new by (simp add: written_def sg_detach_def sg_copy_def sg_attach_def sg_new_def)
  then have post: "Goes_on = Goes_on \<and> (\<exists>t i s. holds t (Some (i, s)) w5 \<and> written s)"
    using 5(3) by blast
  show ?thesis
    unfolding set_shm_def
    by (rule silent_bind new1 silent_T silent_call silent_EQ silent_check_window win silent_rules post
        | simp only: 1(1) 2(1) 3(1) 4(1) 5(1) prod.case fst_conv not_True_eq_False if_False
        | simp add: 1(2) 2(2) 3(2) 5(2) s2(1,2))+
qed

lemma shm_set_silent:
  assumes "holds t s w" and "usable 100 s"
  shows "silent (shm_set f me) (\<lambda>r w. r = Goes_on \<and>
    (\<exists>t i s. holds t (Some (i, s)) w \<and> written s)) w"
  unfolding shm_set_def
proof (rule silent_bind, rule silent_mono [OF ipc_clean_silent [OF assms]])
  fix r w
  assume "\<exists>t i x. r = Some (t, i) \<and> t0 \<le> t \<and> holds t (Some (i, x)) w \<and>
    (shm_perm \<circ> sg_ds) x = own_perm f rw_all \<and> sg_new t0 me 100 t x"
  then obtain t i s where r: "r = Some (t, i)" "t0 \<le> t" "holds t (Some (i, s)) w" "mine s" "sg_new t0 me 100 t s" by auto
  show "silent (case r of None \<Rightarrow> State_Monad.return Exited | Some (t, shmid) \<Rightarrow> set_shm f me t shmid)
    (\<lambda>r w. r = Goes_on \<and> (\<exists>t i s. holds t (Some (i, s)) w \<and> written s)) w"
    unfolding r(1) option.case prod.case by (rule set_shm_silent [OF r(3-5,2)])
qed

lemma shm_get_silent:
  assumes h: "holds t (Some (i, s)) w" and wr: "written s"
  shows "silent (shm_get f me) (\<lambda>r w. r = Goes_on \<and> (\<exists>t s. holds t s w)) w"
proof -
  have m: "mine s" "int 0 \<le> shm_segsz (sg_ds s)" using wr by (simp_all add: written_def)
  obtain w1 where 1: "ftok f ''.'' (of_char CHR ''h'') w = ((key, ()), w1)" "holds t (Some (i, s)) w1"
    using ftok_key [OF h] by (cases "ftok f ''.'' (of_char CHR ''h'') w") auto
  obtain e2 w2 where 2: "shmget f me key 0 0 w1 = ((i, e2), w2)" "holds t (Some (i, s)) w2"
    using get_old [OF 1(2), where fl = 0 and me = me and n = 0] m by (cases "shmget f me key 0 0 w1") auto
  obtain a w3 u where 3: "shmat f me i SHM_RDONLY w2 = (a, w3)" "a \<noteq> 0"
    "holds t (Some (i, sg_attach me SHM_RDONLY u a s)) w3" (is "holds t (Some (i, ?s3)) w3")
    using attach [OF 2(2) m(1), where me = me and fl = SHM_RDONLY] by (cases "shmat f me i SHM_RDONLY w2") auto
  have at: "sg_attached me a ?s3" by (auto simp: sg_attached_def sg_attach_def)
  have "NUL \<in> set (sg_mem ?s3)" using wr by (auto simp: written_def sg_attach_def)
  note read [OF 3(3) at this]
  moreover have "as_string (sg_mem ?s3) = ''test data''"
    using wr by (auto simp: written_def sg_attach_def as_string_def NUL_def)
  ultimately have str: "string_at f me a w3 = Some ''test data''" by simp
  obtain r4 w4 u4 where 4: "shmdt f me a w3 = (r4, w4)" "fst r4 \<noteq> -1" "holds t (Some (i, sg_detach me u4 a ?s3)) w4"
    using detach [OF 3(3) at] by (cases "shmdt f me a w3") auto
  have "(shm_perm \<circ> sg_ds) (sg_detach me u4 a ?s3) = own_perm f rw_all"
    using m(1) by (simp add: sg_detach_def sg_attach_def)
  from rmid_removes [OF 4(3) this, where me = me]
  obtain r5 w5 where 5: "shmctl_rmid f me i w4 = (r5, w5)" "fst r5 \<noteq> -1" "holds t None w5"
    by (cases "shmctl_rmid f me i w4") auto
  have post: "Goes_on = Goes_on \<and> (\<exists>t s. holds t s w5)" using 5(3) by blast
  show ?thesis
    unfolding shm_get_def
    by (rule silent_bind silent_T silent_call silent_rules post
        | simp only: 1(1) 2(1) 3(1) 4(1) 5(1) str prod.case fst_conv option.case
        | simp add: key id_valid [OF h] 3(2) 4(2) 5(2) strcmp_refl)+
qed

lemma ipc_shm_main_passes:
  assumes "holds t s w" and "usable 100 s"
  shows "run_test (ipc_shm_main f me) w = []"
proof -
  have "silent (fork_main f (112, 116, 118) me (shm_set f me) (shm_get f)) (\<lambda>_ _. True) w"
  proof (rule fork_main_silent)
    show "silent (shm_set f me) (\<lambda>r w. r = Goes_on \<and> (\<exists>t s. holds t s w \<and> (\<exists>i x. s = Some (i, x) \<and> written x))) w"
      by (rule silent_mono [OF shm_set_silent [OF assms]]) blast
    show "silent (shm_get f p) (\<lambda>r w. r = Goes_on \<and> (\<exists>t s. holds t s w)) w"
      if "holds t s w" "\<exists>i x. s = Some (i, x) \<and> written x" for p t s w
      using that by (elim exE conjE) (simp add: shm_get_silent)
  qed
  then show ?thesis unfolding ipc_shm_main_def by (rule silent_run_test)
qed

end

subsection \<open>A reference\<close>

definition mk_sg :: "int \<Rightarrow> nat \<Rightarrow> int \<Rightarrow> int \<Rightarrow> segment" where
  "mk_sg me n m s =
     \<lparr>sg_ds = \<lparr>shm_perm = own_perm (world_posix :: segment ipc_world posix) m, shm_segsz = int n, shm_lpid = 0,
        shm_cpid = me, shm_nattch = 0, shm_atime = 0, shm_dtime = 0, shm_ctime = s\<rparr>,
      sg_mem = replicate n NUL, sg_at = []\<rparr>"

definition sg_mine :: "segment \<Rightarrow> bool" where
  "sg_mine s \<longleftrightarrow> shm_perm (sg_ds s) = own_perm (world_posix :: segment ipc_world posix) rw_all"

text \<open>The segment with identifier \<open>i\<close> is attached at the address \<open>4096 * (i + 1)\<close> in every process.\<close>

definition addr_of :: "int \<Rightarrow> int" where
  "addr_of i = 4096 * (i + 1)"

definition id_of :: "int \<Rightarrow> int" where
  "id_of p = p div 4096 - 1"

definition shm_ref :: "segment ipc_world shm_posix" where
  "shm_ref = posix.extend world_posix
     \<lparr>shmget = (\<lambda>me k n. world_get mk_sg (\<lambda>n fl s. sg_mine s \<and> int n \<le> shm_segsz (sg_ds s)) me n k),
      shmctl_rmid = world_rmid sg_mine,
      shmctl_stat = (\<lambda>me. world_op (\<lambda>t s. ((0, sg_stat s), s)) (-1, sg_stat (mk_sg 0 0 0 0))),
      shmat = (\<lambda>me i fl w.
        case world_op (\<lambda>t s. ((addr_of i, ()), sg_attach me fl t (addr_of i) s)) (-1, ()) i w of ((p, _), w) \<Rightarrow> (p, w)),
      shmdt = (\<lambda>me p.
        world_op (\<lambda>t s. if list_ex (\<lambda>a. fst a = me \<and> fst (prod.snd a) = p) (sg_at s)
          then ((0, 0), sg_detach me t p s) else ((-1, 22), s)) (-1, 22) (id_of p)),
      strcpy_to = (\<lambda>me p x w.
        case world_op (\<lambda>t s. if (me, p, True) \<in> set (sg_at s) \<and> length x < length (sg_mem s)
          then ((0, ()), sg_copy x s) else ((-1, ()), s)) (-1, ()) (id_of p) w of ((r, _), w) \<Rightarrow> (r = 0, w)),
      string_at = (\<lambda>me p w.
        case obj_of_id (id_of p) (objs w) of
          None \<Rightarrow> None
        | Some s \<Rightarrow>
            if list_ex (\<lambda>a. fst a = me \<and> fst (prod.snd a) = p) (sg_at s) \<and> NUL \<in> set (sg_mem s)
            then Some (as_string (sg_mem s)) else None)\<rparr>"

definition at_home :: "int \<Rightarrow> segment \<Rightarrow> bool" where
  "at_home i s \<longleftrightarrow> (\<forall>a \<in> set (sg_at s). fst (prod.snd a) = addr_of i)"

definition shm_holds :: "int \<Rightarrow> (int \<times> segment) option \<Rightarrow> segment ipc_world \<Rightarrow> bool" where
  "shm_holds t s w \<longleftrightarrow> world_holds 0 104 t s w \<and> (\<forall>i x. s = Some (i, x) \<longrightarrow> at_home i x)"

lemma id_of_addr [simp]: "id_of (addr_of i) = i"
  by (simp add: id_of_def addr_of_def)

lemma shm_ref_objects:
  "ipc_objects shm_ref shm_holds 0 (of_char CHR ''h'') 104 (\<lambda>me n k. shmget shm_ref me k n)
     (shmctl_rmid shm_ref) (shm_perm \<circ> sg_ds) (\<lambda>n s. int n \<le> shm_segsz (sg_ds s)) (sg_new 0)"
proof -
  have own: "own_perm shm_ref = own_perm (world_posix :: segment ipc_world posix)"
    by (rule ext) (simp add: own_perm_def shm_ref_def posix.defs world_posix_def)
  have "(\<lambda>me n k. shmget shm_ref me k n) = world_get mk_sg (\<lambda>n fl s. sg_mine s \<and> int n \<le> shm_segsz (sg_ds s))"
    "shmctl_rmid shm_ref = world_rmid sg_mine"
    by (intro ext) (simp_all add: shm_ref_def posix.defs)
  moreover have "ipc_objects shm_ref shm_holds 0 104 104
     (world_get mk_sg (\<lambda>n fl s. sg_mine s \<and> int n \<le> shm_segsz (sg_ds s))) (world_rmid sg_mine)
     (shm_perm \<circ> sg_ds) (\<lambda>n s. int n \<le> shm_segsz (sg_ds s)) (sg_new 0)"
    unfolding shm_holds_def
  proof (rule ipc_objects_restrict, rule world_ipc_objects)
    show "like_world shm_ref" by (simp add: like_world_def shm_ref_def posix.defs world_posix_def)
    show "sg_new 0 me n t x \<Longrightarrow> at_home i x" for me n t i x by (simp add: sg_new_def at_home_def)
  qed (simp_all add: own mk_sg_def sg_mine_def sg_new_def)
  ultimately show ?thesis by simp
qed

lemma attached_ex:
  assumes "sg_attached me p s"
  shows "list_ex (\<lambda>a. fst a = me \<and> fst (prod.snd a) = p) (sg_at s)"
proof -
  obtain wr where "(me, p, wr) \<in> set (sg_at s)" using assms by (auto simp: sg_attached_def)
  then show ?thesis unfolding list_ex_iff by (intro bexI [of _ "(me, p, wr)"]) simp_all
qed

interpretation hmref: shm_contract shm_ref shm_holds 0 104
proof (intro shm_contract.intro shm_ref_objects shm_contract_axioms.intro)
  fix t i s and w :: "segment ipc_world" and me fl p x
  assume "shm_holds t (Some (i, s)) w"
  then have h: "world_holds 0 104 t (Some (i, s)) w" and home: "at_home i s" by (simp_all add: shm_holds_def)
  note op = world_op_holds [OF h]
  show "case shmctl_stat shm_ref me i w of ((r, ds), w') \<Rightarrow> r \<noteq> -1 \<and> ds = sg_stat s \<and> shm_holds t (Some (i, s)) w'"
    using op [of "\<lambda>t s. ((0, sg_stat s), s)" "(-1, sg_stat (mk_sg 0 0 0 0))"] home
    by (auto simp: shm_ref_def posix.defs shm_holds_def)
  have "0 \<le> i" using h by (force simp: world_holds_def world_ok_def dest: map_of_SomeD)
  then show "case shmat shm_ref me i fl w of (p, w') \<Rightarrow>
        p \<noteq> 0 \<and> (\<exists>u. t \<le> u \<and> u \<le> 0 + 5 \<and> shm_holds t (Some (i, sg_attach me fl u p s)) w')"
    using op [of "\<lambda>t s. ((addr_of i, ()), sg_attach me fl t (addr_of i) s)" "(-1, ())"] home
    by (auto simp: shm_ref_def posix.defs shm_holds_def at_home_def sg_attach_def addr_of_def)
  show "case strcpy_to shm_ref me p x w of (ok, w') \<Rightarrow> ok \<and> shm_holds t (Some (i, sg_copy x s)) w'"
    if "(me, p, True) \<in> set (sg_at s)" "length x < length (sg_mem s)"
  proof -
    have "p = addr_of i" using that(1) home by (fastforce simp: at_home_def)
    moreover have "at_home i (sg_copy x s)" using home by (simp add: at_home_def sg_copy_def)
    ultimately show ?thesis
      using op [of "\<lambda>t s. if (me, p, True) \<in> set (sg_at s) \<and> length x < length (sg_mem s)
          then ((0, ()), sg_copy x s) else ((-1, ()), s)" "(-1, ())"] that
      by (auto simp: shm_ref_def posix.defs shm_holds_def)
  qed
  show "string_at shm_ref me p w = Some (as_string (sg_mem s))"
    if "sg_attached me p s" "NUL \<in> set (sg_mem s)"
  proof -
    have "p = addr_of i" using that(1) home by (fastforce simp: at_home_def sg_attached_def)
    moreover have "list_ex (\<lambda>a. fst a = me \<and> fst (prod.snd a) = p) (sg_at s)"
      by (rule attached_ex [OF that(1)])
    ultimately show ?thesis
      using that(2) obj_of_id [OF h] by (simp add: shm_ref_def posix.defs)
  qed
  show "case shmdt shm_ref me p w of ((r, _), w') \<Rightarrow> r \<noteq> -1 \<and> (\<exists>u. shm_holds t (Some (i, sg_detach me u p s)) w')"
    if "sg_attached me p s"
  proof -
    have "p = addr_of i" using that(1) home by (fastforce simp: at_home_def sg_attached_def)
    moreover have "list_ex (\<lambda>a. fst a = me \<and> fst (prod.snd a) = p) (sg_at s)"
      by (rule attached_ex [OF that])
    moreover have "at_home i (sg_detach me u p s)" for u using home by (simp add: at_home_def sg_detach_def)
    ultimately show ?thesis
      using op [of "\<lambda>t s. if list_ex (\<lambda>a. fst a = me \<and> fst (prod.snd a) = p) (sg_at s)
          then ((0, 0 :: int), sg_detach me t p s) else ((-1, 22), s)" "(-1, 22)"] that
      by (auto simp: shm_ref_def posix.defs shm_holds_def)
  qed
qed

subsection \<open>Property\<close>

text \<open>C10: The three tests of System V IPC report nothing, whatever an earlier run of them has left behind, for
  every system that meets the contracts of message queues, semaphore sets and shared memory and takes less
  than five seconds: the child receives the message, decrements the semaphore and reads the string that its
  parent left, and removes the object.\<close>

theorem ipc_tests_pass:
  assumes "msg_contract f_msg h_msg t0 k_msg" and "h_msg t s_msg w_msg"
    and "s_msg = None \<or> (\<exists>i q. s_msg = Some (i, q) \<and> msg_perm (mq_ds q) = own_perm f_msg rw_all)"
    and "length buf = 20"
    and "sem_contract f_sem h_sem t0 k_sem" and "h_sem t s_sem w_sem" and "0 \<le> me"
    and "s_sem = None \<or>
      (\<exists>i x. s_sem = Some (i, x) \<and> sem_perm (ss_ds x) = own_perm f_sem rw_all \<and> 1 \<le> sem_nsems (ss_ds x))"
    and "shm_contract f_shm h_shm t0 k_shm" and "h_shm t s_shm w_shm"
    and "s_shm = None \<or>
      (\<exists>i x. s_shm = Some (i, x) \<and> shm_perm (sg_ds x) = own_perm f_shm rw_all \<and> 100 \<le> shm_segsz (sg_ds x))"
  shows "run_test (ipc_msg_main f_msg buf me) w_msg = [] \<and> run_test (ipc_sem_main f_sem me) w_sem = [] \<and>
    run_test (ipc_shm_main f_shm me) w_shm = []"
proof (intro conjI)
  show "run_test (ipc_msg_main f_msg buf me) w_msg = []"
    using assms(3) by (intro msg_contract.ipc_msg_main_passes [OF assms(1,2) _ assms(4)])
      (auto simp: ipc_objects.usable_def [OF msg_contract.axioms(1) [OF assms(1)]])
  show "run_test (ipc_sem_main f_sem me) w_sem = []"
    using assms(8) by (intro sem_contract.ipc_sem_main_passes [OF assms(5,6) _ assms(7)])
      (auto simp: ipc_objects.usable_def [OF sem_contract.axioms(1) [OF assms(5)]])
  show "run_test (ipc_shm_main f_shm me) w_shm = []"
    using assms(11) by (intro shm_contract.ipc_shm_main_passes [OF assms(9,10)])
      (auto simp: ipc_objects.usable_def [OF shm_contract.axioms(1) [OF assms(9)]])
qed

definition empty_world :: "'o ipc_world" where
  "empty_world = \<lparr>now = 3, next_id = 0, next_pid = 9, objs = []\<rparr>"

theorem ipc_tests_pass_witness:
  "run_test (ipc_msg_main msg_ref (replicate 20 NUL) 7) empty_world = [] \<and>
   run_test (ipc_sem_main sem_ref 7) empty_world = [] \<and> run_test (ipc_shm_main shm_ref 7) empty_world = []"
  by (rule ipc_tests_pass [OF mref.msg_contract_axioms _ _ _ sref.sem_contract_axioms _ _ _ hmref.shm_contract_axioms,
        where t = 0 and s_msg = None and s_sem = None and s_shm = None])
    (simp_all add: shm_holds_def world_holds_def world_ok_def empty_world_def)

end
