(* ===== verification/Reach.thy ===== *)
theory Reach
  imports Main
begin

text \<open>
  Reachable states of a machine whose steps are given as the list of the successors of a state, and a check by
  exploration: a list of states that is closed under the steps and made of reachable states is the reachable set.
\<close>

inductive reach :: "('s \<Rightarrow> 's list) \<Rightarrow> 's \<Rightarrow> 's \<Rightarrow> bool" for succs s0 where
  reach_init: "reach succs s0 s0"
| reach_step: "reach succs s0 s \<Longrightarrow> s' \<in> set (succs s) \<Longrightarrow> reach succs s0 s'"

text \<open>Depth first, with fuel; too little fuel leaves a list that is not closed.\<close>

fun explore :: "nat \<Rightarrow> ('s \<Rightarrow> 's list) \<Rightarrow> 's list \<Rightarrow> 's list \<Rightarrow> 's list" where
  "explore 0 succs todo seen = seen"
| "explore (Suc n) succs [] seen = seen"
| "explore (Suc n) succs (s # todo) seen =
     (if List.member seen s then explore n succs todo seen
      else explore n succs (succs s @ todo) (s # seen))"

definition closed_under :: "('s \<Rightarrow> 's list) \<Rightarrow> 's list \<Rightarrow> bool" where
  "closed_under succs S \<longleftrightarrow> list_all (\<lambda>s. list_all (\<lambda>s'. List.member S s') (succs s)) S"

lemma reach_closed:
  assumes "closed_under succs S" and "s0 \<in> set S" and "reach succs s0 s"
  shows "s \<in> set S"
  using assms(3,1,2) by (induction) (auto simp: closed_under_def list_all_iff)

lemma explore_reach:
  "\<forall>s \<in> set todo \<union> set seen. reach succs s0 s \<Longrightarrow> s \<in> set (explore n succs todo seen) \<Longrightarrow> reach succs s0 s"
proof (induction n succs todo seen rule: explore.induct)
  case (3 n succs s todo seen)
  then show ?case by (auto split: if_splits intro: reach_step)
qed auto

text \<open>What holds of the explored states holds of the reachable ones, and the explored ones can be reached.\<close>

lemma reach_explore:
  assumes "S = explore n succs [s0] []" and "closed_under succs S" and "List.member S s0"
  shows "reach succs s0 s \<longleftrightarrow> s \<in> set S"
  using reach_closed [OF assms(2)] assms(3) explore_reach [of "[s0]" "[]" succs s0 s n]
  by (auto simp: assms(1) intro: reach_init)

end
