(* ===== verification/PthreadMutex.thy ===== *)
theory PthreadMutex
  imports TestLog Reach
begin

text \<open>
  pthread_mutex.c and pthread_mutex_pi.c of libc/src/functional: what a second lock of a mutex by the same thread
  and an unlock by a thread that does not own it do, for the types of mutex.  The second file differs in a call of
  \<open>pthread_mutexattr_setprotocol\<close> in each test; its definitions have names in \<open>_pi\<close>, but for the functions of the
  created threads, which are the same in both files.

  Mutexes and semaphores are those of POSIX.  The main thread and the thread it creates are sequences of the calls of
  the source, interleaved in all ways; a call that has to wait is one that cannot be made yet.  The deadline of
  \<open>sem_timedwait\<close> may pass at any moment.
\<close>

subsection \<open>Mutexes\<close>

datatype mutex_type = NORMAL | RECURSIVE | ERRORCHECK

definition DEFAULT :: mutex_type where
  "DEFAULT = NORMAL"

record mutexattr =
  a_type :: mutex_type
  a_inherit :: bool

record mutex =
  m_type :: mutex_type
  m_owner :: "nat option"
  m_count :: int

definition EPERM :: int where "EPERM = 1"
definition EBUSY :: int where "EBUSY = 16"
definition EDEADLK :: int where "EDEADLK = 35"

definition mutex_init :: "mutexattr \<Rightarrow> mutex" where
  "mutex_init a = \<lparr>m_type = a_type a, m_owner = None, m_count = 0\<rparr>"

text \<open>\<open>None\<close>: the call waits.\<close>

definition mutex_lock :: "nat \<Rightarrow> mutex \<Rightarrow> (int \<times> mutex) option" where
  "mutex_lock t m =
     (case m_owner m of
        None \<Rightarrow> Some (0, m\<lparr>m_owner := Some t, m_count := 1\<rparr>)
      | Some o' \<Rightarrow>
          if o' \<noteq> t then None
          else (case m_type m of
                  NORMAL \<Rightarrow> None
                | ERRORCHECK \<Rightarrow> Some (EDEADLK, m)
                | RECURSIVE \<Rightarrow> Some (0, m\<lparr>m_count := m_count m + 1\<rparr>)))"

text \<open>An unlock of a normal mutex by another thread is undefined; the tests make none.\<close>

definition mutex_unlock :: "nat \<Rightarrow> mutex \<Rightarrow> (int \<times> mutex) option" where
  "mutex_unlock t m =
     (if m_owner m = Some t then
        Some (0, if m_count m = 1 then m\<lparr>m_owner := None, m_count := 0\<rparr> else m\<lparr>m_count := m_count m - 1\<rparr>)
      else if m_type m = NORMAL then None else Some (EPERM, m))"

definition mutex_destroy :: "mutex \<Rightarrow> int" where
  "mutex_destroy m = (if m_owner m = None then 0 else EBUSY)"

subsection \<open>The threads\<close>

text \<open>The statements of the two threads with their lines: the calls under the macros \<open>T\<close> and \<open>E\<close>, the calls
  whose value goes to \<open>i\<close>, the timed wait with its report, and the return.\<close>

datatype instr =
    T_lock nat | T_unlock nat | T_unlock_if_0 nat | Store_lock | Store_unlock | E_post nat
  | T_create nat | E_wait nat | Timedwait nat | T_join nat | T_destroy nat | E_sem_destroy nat | Return_i

record machine =
  main_pc :: nat
  thread_pc :: nat
  created :: bool
  mtx :: mutex
  sem :: int
  i :: "int option"
  ret :: "int option"
  finished :: bool
  expired :: bool
  errs :: log

text \<open>Thread 0 is the main one.\<close>

definition next_pc :: "nat \<Rightarrow> machine \<Rightarrow> machine" where
  "next_pc t s = (if t = 0 then s\<lparr>main_pc := main_pc s + 1\<rparr> else s\<lparr>thread_pc := thread_pc s + 1\<rparr>)"

definition report :: "nat \<Rightarrow> int \<Rightarrow> machine \<Rightarrow> machine" where
  "report l r s = s\<lparr>errs := errs s @ check l (r = 0)\<rparr>"

definition do_lock :: "nat \<Rightarrow> (int \<Rightarrow> machine \<Rightarrow> machine) \<Rightarrow> machine \<Rightarrow> machine list" where
  "do_lock t k s = (case mutex_lock t (mtx s) of None \<Rightarrow> [] | Some (r, m) \<Rightarrow> [next_pc t (k r (s\<lparr>mtx := m\<rparr>))])"

definition do_unlock :: "nat \<Rightarrow> (int \<Rightarrow> machine \<Rightarrow> machine) \<Rightarrow> machine \<Rightarrow> machine list" where
  "do_unlock t k s = (case mutex_unlock t (mtx s) of None \<Rightarrow> [] | Some (r, m) \<Rightarrow> [next_pc t (k r (s\<lparr>mtx := m\<rparr>))])"

text \<open>\<open>exec n t c s\<close>: the states after \<open>t\<close> has made the step \<open>c\<close>; the created thread has \<open>n\<close> steps.  The
  only error of \<open>sem_timedwait\<close> is \<open>ETIMEDOUT\<close>.\<close>

fun exec :: "nat \<Rightarrow> nat \<Rightarrow> instr \<Rightarrow> machine \<Rightarrow> machine list" where
  "exec n t (T_lock l) s = do_lock t (report l) s"
| "exec n t (T_unlock l) s = do_unlock t (report l) s"
| "exec n t (T_unlock_if_0 l) s = (if i s = Some 0 then do_unlock t (report l) s else [next_pc t s])"
| "exec n t Store_lock s = do_lock t (\<lambda>r s. s\<lparr>i := Some r\<rparr>) s"
| "exec n t Store_unlock s = do_unlock t (\<lambda>r s. s\<lparr>i := Some r\<rparr>) s"
| "exec n t (E_post l) s = [next_pc t (s\<lparr>sem := sem s + 1\<rparr>)]"
| "exec n t (T_create l) s = [next_pc t (s\<lparr>created := True\<rparr>)]"
| "exec n t (E_wait l) s = (if 0 < sem s then [next_pc t (s\<lparr>sem := sem s - 1\<rparr>)] else [])"
| "exec n t (Timedwait l) s =
     (if 0 < sem s then [next_pc t (s\<lparr>sem := sem s - 1\<rparr>)]
      else if expired s then [s\<lparr>ret := Some (-1), finished := True\<rparr>] else [])"
| "exec n t (T_join l) s = (if thread_pc s = n then [next_pc t s] else [])"
| "exec n t (T_destroy l) s = [next_pc t (report l (mutex_destroy (mtx s)) s)]"
| "exec n t (E_sem_destroy l) s = [next_pc t s]"
| "exec n t Return_i s = [s\<lparr>ret := i s, finished := True\<rparr>]"

definition succs :: "instr list \<Rightarrow> instr list \<Rightarrow> machine \<Rightarrow> machine list" where
  "succs main thread s =
     (if finished s \<or> length main \<le> main_pc s then [] else exec (length thread) 0 (main ! main_pc s) s) @
     (if created s \<and> thread_pc s < length thread then exec (length thread) 1 (thread ! thread_pc s) s else []) @
     (if expired s then [] else [s\<lparr>expired := True\<rparr>])"

definition relock :: "instr list" where
  "relock = [T_lock 17, E_post 18, Store_lock, E_post 20, T_unlock 22, T_unlock_if_0 24]"

definition unlock :: "instr list" where
  "unlock = [Store_unlock]"

text \<open>The calls on attributes at the start of each test: they all succeed.\<close>

definition start :: "mutex_type \<Rightarrow> machine" where
  "start mtype =
     (let ma = \<lparr>a_type = DEFAULT, a_inherit = False\<rparr>;
          ma = ma\<lparr>a_type := mtype\<rparr>
      in \<lparr>main_pc = 0, thread_pc = 0, created = False, mtx = mutex_init ma, sem = 0, i = None, ret = None,
          finished = False, expired = False, errs = []\<rparr>)"

definition start_pi :: "mutex_type \<Rightarrow> machine" where
  "start_pi mtype =
     (let ma = \<lparr>a_type = DEFAULT, a_inherit = False\<rparr>;
          ma = ma\<lparr>a_type := mtype\<rparr>;
          ma = ma\<lparr>a_inherit := True\<rparr>
      in \<lparr>main_pc = 0, thread_pc = 0, created = False, mtx = mutex_init ma, sem = 0, i = None, ret = None,
          finished = False, expired = False, errs = []\<rparr>)"

definition relock_main :: "instr list" where
  "relock_main = [T_create 45, E_wait 46, Timedwait 56, T_join 60, T_destroy 61, E_sem_destroy 62, Return_i]"

definition relock_main_pi :: "instr list" where
  "relock_main_pi = [T_create 46, E_wait 47, Timedwait 57, T_join 61, T_destroy 62, E_sem_destroy 63, Return_i]"

definition unlock_main :: "instr list" where
  "unlock_main = [T_create 88, T_join 89, T_destroy 90, Return_i]"

definition unlock_main_pi :: "instr list" where
  "unlock_main_pi = [T_create 90, T_join 91, T_destroy 92, Return_i]"

definition unlock_other_main :: "instr list" where
  "unlock_other_main = [T_lock 108, T_create 109, T_join 110, T_unlock 111, T_destroy 112, Return_i]"

definition unlock_other_main_pi :: "instr list" where
  "unlock_other_main_pi = [T_lock 111, T_create 112, T_join 113, T_unlock 114, T_destroy 115, Return_i]"

text \<open>The tests: the steps of the main thread after the calls on attributes, those of the other one, and the state after
  these calls.\<close>

type_synonym test = "instr list \<times> instr list \<times> machine"

definition test_relock :: "mutex_type \<Rightarrow> test" where
  "test_relock mtype = (relock_main, relock, start mtype)"

definition test_relock_pi :: "mutex_type \<Rightarrow> test" where
  "test_relock_pi mtype = (relock_main_pi, relock, start_pi mtype)"

definition test_unlock :: "mutex_type \<Rightarrow> test" where
  "test_unlock mtype = (unlock_main, unlock, start mtype)"

definition test_unlock_pi :: "mutex_type \<Rightarrow> test" where
  "test_unlock_pi mtype = (unlock_main_pi, unlock, start_pi mtype)"

definition test_unlock_other :: "mutex_type \<Rightarrow> test" where
  "test_unlock_other mtype = (unlock_other_main, unlock, start mtype)"

definition test_unlock_other_pi :: "mutex_type \<Rightarrow> test" where
  "test_unlock_other_pi mtype = (unlock_other_main_pi, unlock, start_pi mtype)"

lemmas tests = test_relock_def test_relock_pi_def test_unlock_def test_unlock_pi_def test_unlock_other_def
  test_unlock_other_pi_def

text \<open>The results \<open>i\<close> of a test with what it reports.\<close>

definition returns :: "instr list \<Rightarrow> instr list \<Rightarrow> machine \<Rightarrow> int \<Rightarrow> log \<Rightarrow> bool" where
  "returns main thread s0 r ls \<longleftrightarrow>
     (\<exists>s. reach (succs main thread) s0 s \<and> finished s \<and> ret s = Some r \<and> errs s = ls)"

text \<open>The deadline: 100 ms after now, as a normalised pair of seconds and nanoseconds.\<close>

definition add_100ms :: "int \<times> int \<Rightarrow> int \<times> int" where
  "add_100ms ts =
     (case ts of (tv_sec, tv_nsec) \<Rightarrow>
        let tv_nsec = tv_nsec + 100 * 1000 * 1000
        in if 1000 * 1000 * 1000 \<le> tv_nsec then (tv_sec + 1, tv_nsec - 1000 * 1000 * 1000) else (tv_sec, tv_nsec))"

lemma add_100ms_ok:
  assumes "0 \<le> snd ts" and "snd ts < 10 ^ 9"
  shows "fst (add_100ms ts) * 10 ^ 9 + snd (add_100ms ts) = fst ts * 10 ^ 9 + snd ts + 10 ^ 8"
    and "0 \<le> snd (add_100ms ts) \<and> snd (add_100ms ts) < 10 ^ 9"
  using assms by (cases ts; auto simp: add_100ms_def Let_def)+

definition test_mutexattr :: log where
  "test_mutexattr =
     (let a = \<lparr>a_type = DEFAULT, a_inherit = False\<rparr>;
          ls = check 126 (\<not> a_type a \<noteq> DEFAULT);
          a = a\<lparr>a_type := ERRORCHECK\<rparr>
      in ls @ check 130 (\<not> a_type a \<noteq> ERRORCHECK))"

definition test_mutexattr_pi :: log where
  "test_mutexattr_pi =
     (let a = \<lparr>a_type = DEFAULT, a_inherit = False\<rparr>;
          ls = check 129 (\<not> a_type a \<noteq> DEFAULT);
          a = a\<lparr>a_type := ERRORCHECK\<rparr>
      in ls @ check 133 (\<not> a_type a \<noteq> ERRORCHECK))"

text \<open>The checks of \<open>main\<close>: a test, the value wanted, and the line of the report.\<close>

type_synonym row = "test \<times> int \<times> nat"

definition rows :: "row list" where
  "rows =
     [(test_relock NORMAL, -1, 142),
      (test_relock ERRORCHECK, EDEADLK, 145),
      (test_relock RECURSIVE, 0, 148),
      (test_unlock ERRORCHECK, EPERM, 152),
      (test_unlock RECURSIVE, EPERM, 155),
      (test_unlock_other ERRORCHECK, EPERM, 159),
      (test_unlock_other RECURSIVE, EPERM, 162)]"

definition rows_pi :: "row list" where
  "rows_pi =
     [(test_relock_pi NORMAL, -1, 145),
      (test_relock_pi ERRORCHECK, EDEADLK, 148),
      (test_relock_pi RECURSIVE, 0, 151),
      (test_unlock_pi ERRORCHECK, EPERM, 155),
      (test_unlock_pi RECURSIVE, EPERM, 158),
      (test_unlock_other_pi ERRORCHECK, EPERM, 162),
      (test_unlock_other_pi RECURSIVE, EPERM, 165)]"

inductive checks :: "row list \<Rightarrow> log \<Rightarrow> bool" where
  checks_nil: "checks [] []"
| checks_cons: "returns main thread s0 r l \<Longrightarrow> checks rs ls \<Longrightarrow>
    checks (((main, thread, s0), want, line) # rs) (l @ check line (\<not> r \<noteq> want) @ ls)"

inductive_simps checks_simps: "checks [] ls" "checks (((main, thread, s0), want, line) # rs) ls"

definition mutex_main :: "log \<Rightarrow> bool" where
  "mutex_main ls \<longleftrightarrow> (\<exists>ls'. checks rows ls' \<and> ls = test_mutexattr @ ls')"

definition mutex_main_pi :: "log \<Rightarrow> bool" where
  "mutex_main_pi ls \<longleftrightarrow> (\<exists>ls'. checks rows_pi ls' \<and> ls = test_mutexattr_pi @ ls')"

definition never_stuck :: "instr list \<Rightarrow> instr list \<Rightarrow> machine \<Rightarrow> bool" where
  "never_stuck main thread s0 \<longleftrightarrow>
     (\<forall>s. reach (succs main thread) s0 s \<longrightarrow> finished s \<or> succs main thread s \<noteq> [])"

subsection \<open>All interleavings\<close>

definition results :: "machine list \<Rightarrow> (int \<times> log) list" where
  "results S = remdups (concat (map (\<lambda>s. case ret s of Some r \<Rightarrow> if finished s then [(r, errs s)] else [] | None \<Rightarrow> []) S))"

definition verdict :: "instr list \<Rightarrow> instr list \<Rightarrow> machine \<Rightarrow> (int \<times> log) list option" where
  "verdict main thread s0 =
     (let S = explore 300 (succs main thread) [s0] []
      in if closed_under (succs main thread) S \<and> List.member S s0 \<and>
            list_all (\<lambda>s. finished s \<or> succs main thread s \<noteq> []) S
         then Some (results S) else None)"

lemma verdict:
  assumes "verdict main thread s0 = Some rs"
  shows "returns main thread s0 r ls \<longleftrightarrow> (r, ls) \<in> set rs" and "never_stuck main thread s0"
proof -
  define S where "S = explore 300 (succs main thread) [s0] []"
  have c: "closed_under (succs main thread) S" "List.member S s0"
    "list_all (\<lambda>s. finished s \<or> succs main thread s \<noteq> []) S" "rs = results S"
    using assms by (auto simp: verdict_def S_def Let_def split: if_splits)
  note reach = reach_explore [OF S_def c(1,2)]
  show "never_stuck main thread s0" using c(3) by (auto simp: never_stuck_def reach list_all_iff)
  show "returns main thread s0 r ls \<longleftrightarrow> (r, ls) \<in> set rs"
    by (force simp: returns_def reach c(4) results_def split: option.splits if_splits)
qed

definition outcomes :: "(int \<times> log) list option list" where
  "outcomes =
     [Some [(-1, [])], Some [(-1, []), (EDEADLK, [])], Some [(-1, []), (0, [])],
      Some [(EPERM, [])], Some [(EPERM, [])], Some [(EPERM, [])], Some [(EPERM, [])]]"

lemma verdicts:
  "map (\<lambda>((main, thread, s0), _). verdict main thread s0) rows = outcomes"
  "map (\<lambda>((main, thread, s0), _). verdict main thread s0) rows_pi = outcomes"
  by code_simp+

text \<open>The same row by row.\<close>

lemma checks_row:
  assumes "verdict main thread s0 = Some (map (\<lambda>r. (r, [])) rs)"
  shows "checks (((main, thread, s0), want, line) # cs) ls \<longleftrightarrow>
    (\<exists>r \<in> set rs. \<exists>ls'. checks cs ls' \<and> ls = check line (r = want) @ ls')"
proof -
  have "returns main thread s0 r l \<longleftrightarrow> r \<in> set rs \<and> l = []" for r l
    using verdict(1) [OF assms, of r l] by auto
  then show ?thesis by (auto simp: checks_simps)
qed

lemma checks_seven:
  assumes "map (\<lambda>((main, thread, s0), _). verdict main thread s0)
      [((m1, t1, s1), -1, l1), ((m2, t2, s2), EDEADLK, l2), ((m3, t3, s3), 0 :: int, l3), ((m4, t4, s4), EPERM, l4),
       ((m5, t5, s5), EPERM, l5), ((m6, t6, s6), EPERM, l6), ((m7, t7, s7), EPERM, l7 :: nat)] = outcomes"
  shows "checks [((m1, t1, s1), -1, l1), ((m2, t2, s2), EDEADLK, l2), ((m3, t3, s3), 0, l3), ((m4, t4, s4), EPERM, l4),
       ((m5, t5, s5), EPERM, l5), ((m6, t6, s6), EPERM, l6), ((m7, t7, s7), EPERM, l7)] ls
    \<longleftrightarrow> ls \<in> {[], [l2], [l3], [l2, l3]}"
proof -
  have v: "verdict m1 t1 s1 = Some (map (\<lambda>r. (r, [])) [-1])"
    "verdict m2 t2 s2 = Some (map (\<lambda>r. (r, [])) [-1, EDEADLK])"
    "verdict m3 t3 s3 = Some (map (\<lambda>r. (r, [])) [-1, 0])"
    "verdict m4 t4 s4 = Some (map (\<lambda>r. (r, [])) [EPERM])" "verdict m5 t5 s5 = Some (map (\<lambda>r. (r, [])) [EPERM])"
    "verdict m6 t6 s6 = Some (map (\<lambda>r. (r, [])) [EPERM])" "verdict m7 t7 s7 = Some (map (\<lambda>r. (r, [])) [EPERM])"
    using assms by (simp_all add: outcomes_def)
  show ?thesis
    by (auto simp: checks_row [OF v(1)] checks_row [OF v(2)] checks_row [OF v(3)] checks_row [OF v(4)]
      checks_row [OF v(5)] checks_row [OF v(6)] checks_row [OF v(7)] checks_simps(1) EDEADLK_def)
qed

lemma rows_never_stuck: "list_all (\<lambda>((main, thread, s0), _). never_stuck main thread s0) (rows @ rows_pi)"
proof -
  have "list_all (\<lambda>((main, thread, s0), _). never_stuck main thread s0) rs"
    if "map (\<lambda>((main, thread, s0), _). verdict main thread s0) rs = outcomes" for rs :: "row list"
  proof -
    have "\<forall>v \<in> set (map (\<lambda>((main, thread, s0), _). verdict main thread s0) rs). v \<noteq> None"
      unfolding that by (simp add: outcomes_def)
    then show ?thesis by (auto simp: list_all_iff dest!: bspec dest: verdict(2))
  qed
  from this [OF verdicts(1)] this [OF verdicts(2)] show ?thesis by simp
qed

lemma test_mutexattr_silent: "test_mutexattr = []" "test_mutexattr_pi = []"
  by (simp_all add: test_mutexattr_def test_mutexattr_pi_def Let_def)

subsection \<open>Property\<close>


end
