(* ===== verification/Semaphores.thy ===== *)
theory Semaphores
  imports CString TestLog
begin

text \<open>
  sem_init.c and sem_open.c of libc/src/functional: unnamed and named semaphores.  A semaphore is its value.  The test
  with several threads is a step relation: the calls of the main thread and of the three threads it creates, in all
  orders; a call that waits is one that cannot be made yet, and the second that a thread waits for the second
  semaphore may be over at any moment.
\<close>

definition EAGAIN :: int where "EAGAIN = 11"
definition ETIMEDOUT :: int where "ETIMEDOUT = 110"
definition EEXIST :: int where "EEXIST = 17"
definition ENOENT :: int where "ENOENT = 2"

text \<open>\<open>None\<close>: the call waits.  Otherwise the result, \<open>errno\<close> and the new value; \<open>past\<close> says that the deadline has
  passed.\<close>

definition sem_wait :: "int \<Rightarrow> (int \<times> int \<times> int) option" where
  "sem_wait v = (if 0 < v then Some (0, 0, v - 1) else None)"

definition sem_trywait :: "int \<Rightarrow> int \<times> int \<times> int" where
  "sem_trywait v = (if 0 < v then (0, 0, v - 1) else (-1, EAGAIN, v))"

definition sem_timedwait :: "bool \<Rightarrow> int \<Rightarrow> (int \<times> int \<times> int) option" where
  "sem_timedwait past v = (if 0 < v then Some (0, 0, v - 1) else if past then Some (-1, ETIMEDOUT, v) else None)"

subsection \<open>One thread\<close>

text \<open>The deadline is the present time.  The result is \<open>None\<close> if a call waits for ever.\<close>

definition single_thread :: "log option" where
  "single_thread =
     do {
       (r, _, v) \<leftarrow> sem_wait 1;
       let ls = check 61 (r = 0) @ check 64 (v = 0);
       let (r, errno, v) = sem_trywait v;
       let ls = ls @ check 66 (\<not> (r \<noteq> -1 \<or> errno \<noteq> EAGAIN));
       (r, errno, v) \<leftarrow> sem_timedwait True v;
       Some (ls @ check 70 (\<not> (r \<noteq> -1 \<or> errno \<noteq> ETIMEDOUT)))
     }"

lemma single_thread_silent: "single_thread = Some []"
  by code_simp

subsection \<open>Many waiters\<close>

text \<open>The calls the main thread has made, for each created thread the number of its calls on the semaphores, and the
  values of the two semaphores.\<close>

record waiters =
  made :: nat
  threads :: "nat list"
  s0 :: int
  s1 :: int
  errs :: log

definition waiters_init :: waiters where
  "waiters_init = \<lparr>made = 0, threads = [], s0 = 0, s1 = 0, errs = []\<rparr>"

inductive main_step :: "waiters \<Rightarrow> waiters \<Rightarrow> bool" where
  create: "made s < 3 \<Longrightarrow> main_step s (s\<lparr>made := made s + 1, threads := threads s @ [0]\<rparr>)"
| wait: "3 \<le> made s \<Longrightarrow> made s < 6 \<Longrightarrow> sem_wait (s0 s) = Some (r, e, v) \<Longrightarrow>
    main_step s (s\<lparr>made := made s + 1, s0 := v, errs := errs s @ check (32 + made s) (r = 0)\<rparr>)"
| value0: "made s = 6 \<Longrightarrow> main_step s (s\<lparr>made := 7, errs := errs s @ check 40 (s0 s = 0)\<rparr>)"
| post1: "7 \<le> made s \<Longrightarrow> made s < 10 \<Longrightarrow> main_step s (s\<lparr>made := made s + 1, s1 := s1 s + 1\<rparr>)"
| join: "10 \<le> made s \<Longrightarrow> made s < 13 \<Longrightarrow> threads s ! (made s - 10) = 2 \<Longrightarrow>
    main_step s (s\<lparr>made := made s + 1\<rparr>)"
| value1: "made s = 13 \<Longrightarrow> main_step s (s\<lparr>made := 14, errs := errs s @ check 49 (s1 s = 0)\<rparr>)"
| destroy: "made s = 14 \<Longrightarrow> main_step s (s\<lparr>made := 15\<rparr>)"

inductive thread_step :: "waiters \<Rightarrow> waiters \<Rightarrow> bool" where
  post0: "j < length (threads s) \<Longrightarrow> threads s ! j = 0 \<Longrightarrow>
    thread_step s (s\<lparr>threads := (threads s)[j := 1], s0 := s0 s + 1\<rparr>)"
| timedwait: "j < length (threads s) \<Longrightarrow> threads s ! j = 1 \<Longrightarrow> sem_timedwait past (s1 s) = Some (r, e, v) \<Longrightarrow>
    thread_step s (s\<lparr>threads := (threads s)[j := 2], s1 := v, errs := errs s @ check 19 (r = 0)\<rparr>)"

inductive reachable :: "waiters \<Rightarrow> bool" where
  reach_init: "reachable waiters_init"
| reach_main: "reachable s \<Longrightarrow> main_step s s' \<Longrightarrow> reachable s'"
| reach_thread: "reachable s \<Longrightarrow> thread_step s s' \<Longrightarrow> reachable s'"

text \<open>The threads that have done at least \<open>n\<close> calls; the calls that the main thread has made of each kind.\<close>

definition past_calls :: "nat \<Rightarrow> waiters \<Rightarrow> int" where
  "past_calls n s = int (length (filter (\<lambda>p. n \<le> p) (threads s)))"

definition timeouts :: "waiters \<Rightarrow> nat" where
  "timeouts s = length (filter (\<lambda>l. l = 19) (errs s))"

definition waiters_ok :: "waiters \<Rightarrow> bool" where
  "waiters_ok s \<longleftrightarrow>
     made s \<le> 15 \<and>
     length (threads s) = min 3 (made s) \<and>
     (\<forall>p \<in> set (threads s). p \<le> 2) \<and>
     s0 s = past_calls 1 s - int (min 3 (made s - 3)) \<and> 0 \<le> s0 s \<and>
     s1 s + (past_calls 2 s - int (timeouts s)) = int (min 3 (made s - 7)) \<and> 0 \<le> s1 s \<and>
     int (timeouts s) \<le> past_calls 2 s \<and>
     (\<forall>j < made s - 10. j < 3 \<longrightarrow> threads s ! j = 2) \<and>
     errs s = replicate (timeouts s) 19 @ check 49 (timeouts s = 0 \<or> made s < 14)"

lemma past_calls_update:
  assumes "j < length xs"
  shows "length (filter (\<lambda>p. n \<le> p) (xs[j := q])) + (if n \<le> xs ! j then 1 else 0) =
    length (filter (\<lambda>p. n \<le> p) xs) + (if n \<le> (q :: nat) then 1 else 0)"
  using assms by (rule length_filter_update)

lemma past_calls_le: "past_calls n s \<le> int (length (threads s))"
  by (simp add: past_calls_def)

lemma errs_check: "replicate k 19 @ check l b = replicate k 19 @ (if b then [] else [l])"
  by (simp add: check_def)

lemma waiters_ok_init: "waiters_ok waiters_init"
  by (simp add: waiters_ok_def waiters_init_def past_calls_def timeouts_def)

lemma main_step_ok:
  assumes "main_step s s'" and ok: "waiters_ok s"
  shows "waiters_ok s'"
  using assms(1)
proof cases
  case create
  then show ?thesis
    using ok by (auto simp: waiters_ok_def past_calls_def timeouts_def nth_append)
next
  case (wait r e v)
  then show ?thesis using ok
    by (auto simp: waiters_ok_def past_calls_def timeouts_def sem_wait_def min_def split: if_splits)
next
  case value0
  then have "s0 s = 0" using ok past_calls_le [of 1 s] by (simp add: waiters_ok_def)
  then show ?thesis using ok value0 by (auto simp: waiters_ok_def past_calls_def timeouts_def)
next
  case post1
  then show ?thesis using ok by (auto simp: waiters_ok_def past_calls_def timeouts_def)
next
  case join
  have "threads s ! j = 2" if "j < Suc (made s) - 10" "j < 3" for j
    using that ok join by (cases "j = made s - 10") (auto simp: waiters_ok_def)
  then show ?thesis using ok join by (auto simp: waiters_ok_def past_calls_def timeouts_def min_def)
next
  case value1
  then have t: "length (threads s) = 3" "\<forall>j < 3. threads s ! j = 2" using ok by (simp_all add: waiters_ok_def)
  then have "\<forall>p \<in> set (threads s). p = 2" by (metis in_set_conv_nth)
  then have "filter (\<lambda>p. 2 \<le> p) (threads s) = threads s" by (intro filter_True) auto
  then have "s1 s = int (timeouts s)" using ok value1 t(1) by (simp add: waiters_ok_def past_calls_def)
  then show ?thesis using ok value1 by (auto simp: waiters_ok_def past_calls_def timeouts_def check_def split: if_splits)
next
  case destroy
  then show ?thesis using ok by (auto simp: waiters_ok_def past_calls_def timeouts_def)
qed

lemma thread_step_ok:
  assumes "thread_step s s'" and ok: "waiters_ok s"
  shows "waiters_ok s'"
  using assms(1)
proof cases
  case (post0 j)
  have "past_calls 1 s' = past_calls 1 s + 1" "past_calls 2 s' = past_calls 2 s"
    using past_calls_update [OF post0(2), of 1 1] past_calls_update [OF post0(2), of 2 1] post0
    by (simp_all add: past_calls_def)
  moreover have "\<forall>p \<in> set (threads s'). p \<le> 2"
    using ok post0 set_update_subset_insert [of "threads s" j 1] by (auto simp: waiters_ok_def)
  ultimately show ?thesis
    using ok post0 by (auto simp: waiters_ok_def timeouts_def nth_list_update)
next
  case (timedwait j past r e v)
  have calls: "past_calls 1 s' = past_calls 1 s" "past_calls 2 s' = past_calls 2 s + 1"
    using past_calls_update [OF timedwait(2), of 1 2] past_calls_update [OF timedwait(2), of 2 2] timedwait
    by (simp_all add: past_calls_def)
  have len: "length (threads s) \<le> 3" using ok by (simp add: waiters_ok_def)
  have early: "made s < 14"
  proof (rule ccontr)
    assume "\<not> made s < 14"
    then have "threads s ! j = 2" using ok timedwait(2) len by (auto simp: waiters_ok_def)
    then show False using timedwait(3) by simp
  qed
  have le: "\<forall>p \<in> set (threads s'). p \<le> 2"
    using ok timedwait set_update_subset_insert [of "threads s" j 2] by (auto simp: waiters_ok_def)
  have wait: "r = 0 \<and> v = s1 s - 1 \<and> 0 < s1 s \<or> r = -1 \<and> v = s1 s \<and> s1 s \<le> 0"
    using timedwait(4) by (auto simp: sem_timedwait_def split: if_splits)
  have errs: "errs s = replicate (timeouts s) 19" "errs s' = errs s @ check 19 (r = 0)"
    "timeouts s' = timeouts s + (if r = 0 then 0 else 1)"
    using ok early timedwait by (simp_all add: waiters_ok_def timeouts_def)
  then have "errs s' = replicate (timeouts s') 19"
    by (simp add: replicate_append_same)
  then show ?thesis
    using ok timedwait(1,2,3) calls le wait errs early by (auto simp: waiters_ok_def nth_list_update)
qed

lemma reachable_ok: "reachable s \<Longrightarrow> waiters_ok s"
  by (induction rule: reachable.induct) (auto intro: waiters_ok_init main_step_ok thread_step_ok)

text \<open>No reachable state but the last one is stuck.\<close>

lemma no_deadlock:
  assumes "waiters_ok s" and "made s < 15"
  shows "\<exists>s'. main_step s s' \<or> thread_step s s'"
proof (cases "\<exists>j < length (threads s). threads s ! j < 2")
  case True
  then obtain j where j: "j < length (threads s)" "threads s ! j = 0 \<or> threads s ! j = 1" by fastforce
  from j(2) show ?thesis
  proof
    assume "threads s ! j = 0"
    from post0 [OF j(1) this] show ?thesis by auto
  next
    assume 1: "threads s ! j = 1"
    obtain r e v where "sem_timedwait True (s1 s) = Some (r, e, v)"
      by (cases "0 < s1 s") (auto simp: sem_timedwait_def)
    from timedwait [OF j(1) 1 this] show ?thesis by auto
  qed
next
  case False
  have two: "threads s ! j = 2" if "j < length (threads s)" for j
  proof -
    have "threads s ! j \<le> 2" using assms(1) nth_mem [OF that] by (simp add: waiters_ok_def)
    moreover have "\<not> threads s ! j < 2" using False that by blast
    ultimately show ?thesis by simp
  qed
  consider "made s < 3" | "3 \<le> made s" "made s < 6" | "made s = 6" | "7 \<le> made s" "made s < 10"
    | "10 \<le> made s" "made s < 13" | "made s = 13" | "made s = 14"
    using assms(2) by linarith
  then show ?thesis
  proof cases
    case 2
    have "\<forall>p \<in> set (threads s). p = 2" using two by (metis in_set_conv_nth)
    then have "filter (\<lambda>p. 1 \<le> p) (threads s) = threads s" by (intro filter_True) auto
    then have "0 < s0 s" using assms(1) 2 by (simp add: waiters_ok_def past_calls_def)
    then have "sem_wait (s0 s) = Some (0, 0, s0 s - 1)" by (simp add: sem_wait_def)
    from wait [OF 2 this] show ?thesis by auto
  next
    case 5
    then have "threads s ! (made s - 10) = 2" using two assms(1) by (simp add: waiters_ok_def)
    from join [OF 5 this] show ?thesis by auto
  next
    case 1 from create [OF this] show ?thesis by auto
  next
    case 3 from value0 [OF this] show ?thesis by auto
  next
    case 4 from post1 [OF this] show ?thesis by auto
  next
    case 6 from value1 [OF this] show ?thesis by auto
  next
    case 7 from destroy [OF this] show ?thesis by auto
  qed
qed

subsection \<open>Named semaphores\<close>

text \<open>The named semaphores of the system: the name of each that has one, the values, and the numbers of times each
  is open.  A semaphore is a number, the address that \<open>sem_open\<close> gives for it.\<close>

record named =
  names :: "(cstr \<times> nat) list"
  vals :: "(nat \<times> int) list"
  refs :: "(nat \<times> nat) list"
  fresh :: nat

definition look :: "'a \<Rightarrow> (nat \<times> 'a) list \<Rightarrow> nat \<Rightarrow> 'a" where
  "look d xs a = (case map_of xs a of None \<Rightarrow> d | Some x \<Rightarrow> x)"

text \<open>The result and \<open>errno\<close>, 0 if the call succeeds; \<open>SEM_FAILED\<close> is \<open>None\<close>.\<close>

definition sem_open :: "cstr \<Rightarrow> bool \<Rightarrow> bool \<Rightarrow> int \<Rightarrow> named \<Rightarrow> nat option \<times> int \<times> named" where
  "sem_open name creat excl v w =
     (case map_of (names w) name of
        Some a \<Rightarrow>
          if creat \<and> excl then (None, EEXIST, w)
          else (Some a, 0, w\<lparr>refs := (a, look 0 (refs w) a + 1) # refs w\<rparr>)
      | None \<Rightarrow>
          if \<not> creat then (None, ENOENT, w)
          else (Some (fresh w), 0,
                w\<lparr>names := (name, fresh w) # names w, vals := (fresh w, v) # vals w, refs := (fresh w, 1) # refs w,
                  fresh := fresh w + 1\<rparr>))"

definition sem_getvalue :: "nat \<Rightarrow> named \<Rightarrow> int" where
  "sem_getvalue a w = look 0 (vals w) a"

definition named_trywait :: "nat \<Rightarrow> named \<Rightarrow> int \<times> int \<times> named" where
  "named_trywait a w = (case sem_trywait (sem_getvalue a w) of (r, e, v) \<Rightarrow> (r, e, w\<lparr>vals := (a, v) # vals w\<rparr>))"

definition named_wait :: "nat \<Rightarrow> named \<Rightarrow> (int \<times> int \<times> named) option" where
  "named_wait a w =
     map_option (\<lambda>(r, e, v). (r, e, w\<lparr>vals := (a, v) # vals w\<rparr>)) (sem_wait (sem_getvalue a w))"

definition sem_post :: "nat \<Rightarrow> named \<Rightarrow> int \<times> named" where
  "sem_post a w = (0, w\<lparr>vals := (a, sem_getvalue a w + 1) # vals w\<rparr>)"

definition sem_close :: "nat \<Rightarrow> named \<Rightarrow> int \<times> named" where
  "sem_close a w =
     (if look 0 (refs w) a = 0 then (-1, w) else (0, w\<lparr>refs := (a, look 0 (refs w) a - 1) # refs w\<rparr>))"

definition sem_unlink :: "cstr \<Rightarrow> named \<Rightarrow> int \<times> named" where
  "sem_unlink name w =
     (if map_of (names w) name = None then (-1, w) else (0, w\<lparr>names := filter (\<lambda>x. fst x \<noteq> name) (names w)\<rparr>))"

text \<open>\<open>None\<close>: the test uses \<open>SEM_FAILED\<close>, or waits for ever.\<close>

definition sem_open_main :: "int \<Rightarrow> int \<Rightarrow> named \<Rightarrow> (log \<times> named) option" where
  "sem_open_main pid nsec w =
     do {
       let buf = ''/testsuite-'' @ dec_int (c_int pid) @ ''-'' @ dec_int (c_int nsec);
       let (sem, _, w) = sem_open buf True True 1 w;
       let ls = check 25 (sem \<noteq> None);
       let (again, errno, w) = sem_open buf True True 1 w;
       let ls = ls @ check 28 (again = None) @ check 30 (errno = EEXIST);
       a \<leftarrow> sem;
       let ls = ls @ check 33 True @ check 34 (sem_getvalue a w = 1);
       let (sem2, _, w) = sem_open buf False False 0 w;
       let ls = ls @ check 36 (sem2 = sem);
       (r, _, w) \<leftarrow> named_wait a w;
       let ls = ls @ check 40 (r = 0);
       b \<leftarrow> sem2;
       let ls = ls @ check 41 True @ check 42 (sem_getvalue b w = 0);
       let (r, errno, w) = named_trywait a w;
       let ls = ls @ check 45 (r = -1 \<and> errno = EAGAIN);
       let (r, w) = sem_post a w;
       let ls = ls @ check 48 (r = 0) @ check 49 True @ check 50 (sem_getvalue b w = 1);
       let (r, w) = sem_close a w;
       let ls = ls @ check 52 (r = 0);
       let (r, w) = sem_close a w;
       let ls = ls @ check 53 (r = 0);
       let (r, w) = sem_unlink buf w;
       Some (ls @ check 54 (r = 0), w)
     }"

text \<open>The test passes unless the name is taken, removes it again, and leaves no semaphore open.\<close>

lemma sem_open_main_passes:
  assumes "map_of (names w) (''/testsuite-'' @ dec_int (c_int pid) @ ''-'' @ dec_int (c_int nsec)) = None"
  shows "\<exists>w'. sem_open_main pid nsec w = Some ([], w') \<and>
    names w' = names w \<and> look 0 (refs w') = (look 0 (refs w))(fresh w := 0)"
proof -
  define buf where "buf = ''/testsuite-'' @ dec_int (c_int pid) @ ''-'' @ dec_int (c_int nsec)"
  have new: "map_of (names w) buf = None" using assms by (simp only: buf_def)
  then have "filter (\<lambda>x. fst x \<noteq> buf) (names w) = names w"
    by (intro filter_True) (force simp: map_of_eq_None_iff)
  then show ?thesis
    using new unfolding sem_open_main_def buf_def [symmetric]
    by (simp add: sem_open_def sem_getvalue_def named_wait_def sem_wait_def named_trywait_def sem_trywait_def look_def
        sem_post_def sem_close_def sem_unlink_def fun_eq_iff)
qed

subsection \<open>Property\<close>

text \<open>C9: In every run of the test with many waiters, each of the three threads that waits longer than its second
  reports a timeout, the main thread reports the tokens left over exactly when there was one, and nothing else is
  reported; no run gets stuck before its end.  The test with one thread reports nothing, and neither does the one
  of named semaphores when its name is free.\<close>

theorem semaphore_tests_verdict:
  assumes "reachable s" and "map_of (names w) (''/testsuite-'' @ dec_int (c_int pid) @ ''-'' @ dec_int (c_int nsec)) = None"
  shows "(made s = 15 \<and> (\<exists>k \<le> 3. errs s = replicate k 19 @ (if k = 0 then [] else [49])) \<or>
     (\<exists>s'. main_step s s' \<or> thread_step s s')) \<and>
    single_thread = Some [] \<and> map_option fst (sem_open_main pid nsec w) = Some []"
proof -
  note ok = reachable_ok [OF assms(1)]
  have "\<exists>k \<le> 3. errs s = replicate k 19 @ (if k = 0 then [] else [49])" if "made s = 15"
  proof (intro exI conjI)
    show "errs s = replicate (timeouts s) 19 @ (if timeouts s = 0 then [] else [49])"
      using ok that by (simp add: waiters_ok_def check_def)
    show "timeouts s \<le> 3"
      using ok that past_calls_le [of 2 s] by (simp add: waiters_ok_def)
  qed
  moreover have "made s = 15 \<or> made s < 15" using ok by (auto simp: waiters_ok_def)
  ultimately have "made s = 15 \<and> (\<exists>k \<le> 3. errs s = replicate k 19 @ (if k = 0 then [] else [49])) \<or>
     (\<exists>s'. main_step s s' \<or> thread_step s s')"
    using no_deadlock [OF ok] by blast
  moreover have "map_option fst (sem_open_main pid nsec w) = Some []" using sem_open_main_passes [OF assms(2)] by auto
  ultimately show ?thesis using single_thread_silent by blast
qed

text \<open>The state after the first thread has been created, and a system with another semaphore.\<close>

theorem semaphore_tests_verdict_witness:
  "\<exists>s w. (made s = 15 \<and> (\<exists>k \<le> 3. errs s = replicate k 19 @ (if k = 0 then [] else [49])) \<or>
     (\<exists>s'. main_step s s' \<or> thread_step s s')) \<and>
    single_thread = Some [] \<and> map_option fst (sem_open_main 7 250 w) = Some []"
proof (intro exI)
  have "reachable (waiters_init\<lparr>made := made waiters_init + 1, threads := threads waiters_init @ [0]\<rparr>)"
    by (rule reach_main [OF reachable.reach_init create]) (simp add: waiters_init_def)
  moreover have "map_of (names \<lparr>names = [(''/other'', 3)], vals = [(3, 1)], refs = [], fresh = 4\<rparr>)
      (''/testsuite-'' @ dec_int (c_int 7) @ ''-'' @ dec_int (c_int 250)) = None" by simp
  ultimately show "(made (waiters_init\<lparr>made := made waiters_init + 1, threads := threads waiters_init @ [0]\<rparr>) = 15 \<and>
      (\<exists>k \<le> 3. errs (waiters_init\<lparr>made := made waiters_init + 1, threads := threads waiters_init @ [0]\<rparr>) =
        replicate k 19 @ (if k = 0 then [] else [49])) \<or>
     (\<exists>s'. main_step (waiters_init\<lparr>made := made waiters_init + 1, threads := threads waiters_init @ [0]\<rparr>) s' \<or>
        thread_step (waiters_init\<lparr>made := made waiters_init + 1, threads := threads waiters_init @ [0]\<rparr>) s')) \<and>
    single_thread = Some [] \<and>
    map_option fst (sem_open_main 7 250 \<lparr>names = [(''/other'', 3)], vals = [(3, 1)], refs = [], fresh = 4\<rparr>) = Some []"
    by (rule semaphore_tests_verdict)
qed

end
