(* ===== verification/StrftimeTest.thy ===== *)
theory StrftimeTest
  imports TimeTest
begin

text \<open>
  strftime.c of libc/src/functional: the text of the conversions of five broken-down times, in the time
  zone UTC.  \<open>strftime\<close> is an argument: given the size of the buffer, the format and the time it gives the
  length it returns and the bytes of the buffer.  A report is the line of the check with the texts it prints.
\<close>

subsection \<open>The test\<close>

type_synonym strftime_fn = "nat \<Rightarrow> cstr \<Rightarrow> tm \<Rightarrow> nat \<times> cstr"

datatype strftime_report =
  Differs cstr cstr cstr
| GotNothing cstr cstr

text \<open>The string at the start of a buffer.\<close>

definition buffer_str :: "cstr \<Rightarrow> cstr" where
  "buffer_str b = takeWhile (\<lambda>c. c \<noteq> NUL) b"

definition checkStrftime :: "strftime_fn \<Rightarrow> cstr \<Rightarrow> tm \<Rightarrow> cstr \<Rightarrow> strftime_report list" where
  "checkStrftime strftime format tm expected =
     (case strftime 100 format tm of (resultLength, buffer) \<Rightarrow>
        if resultLength \<noteq> 0 \<and> strcmp (buffer_str buffer) expected \<noteq> 0
        then [Differs format expected (buffer_str buffer)]
        else if resultLength = 0 \<and> length expected \<noteq> 0 then [GotNothing format expected]
        else [])"

definition tm1 :: tm where
  "tm1 = TM 45 23 13 3 0 (2016 - 1900) 0 2 0"

definition tm2 :: tm where
  "tm2 = TM 53 17 5 5 0 (10009 - 1900) 1 4 0"

definition tm3 :: tm where
  "tm3 = TM 0 0 12 23 1 (0 - 1900) 3 53 0"

definition tm4 :: tm where
  "tm4 = TM 0 0 0 1 0 (-123 - 1900) 1 0 0"

definition tm5 :: tm where
  "tm5 = TM 0 0 0 1 0 (int INT_MAX) 3 0 0"

type_synonym strftime_use = "cstr \<times> tm \<times> cstr"

definition uses_date :: "strftime_use list" where
  "uses_date =
    [(''%c'', tm1, ''Sun Jan  3 13:23:45 2016''),
     (''%c'', tm2, ''Mon Jan  5 05:17:53 +10009''),
     (''%c'', tm3, ''Wed Feb 23 12:00:00 0000''),
     (''%C'', tm1, ''20''),
     (''%03C'', tm1, ''020''),
     (''%+3C'', tm1, ''+20''),
     (''%C'', tm2, ''100''),
     (''%C'', tm3, ''00''),
     (''%01C'', tm3, ''0''),
     (''%F'', tm1, ''2016-01-03''),
     (''%012F'', tm1, ''002016-01-03''),
     (''%+10F'', tm1, ''2016-01-03''),
     (''%+11F'', tm1, ''+2016-01-03''),
     (''%F'', tm2, ''+10009-01-05''),
     (''%011F'', tm2, ''10009-01-05''),
     (''%F'', tm3, ''0000-02-23''),
     (''%01F'', tm3, ''0-02-23''),
     (''%06F'', tm3, ''0-02-23''),
     (''%010F'', tm3, ''0000-02-23''),
     (''%F'', tm4, ''-123-01-01''),
     (''%011F'', tm4, ''-0123-01-01''),
     (''%g'', tm1, ''15''),
     (''%g'', tm2, ''09''),
     (''%G'', tm1, ''2015''),
     (''%+5G'', tm1, ''+2015''),
     (''%04G'', tm2, ''10009''),
     (''%r'', tm1, ''01:23:45 PM''),
     (''%r'', tm2, ''05:17:53 AM''),
     (''%r'', tm3, ''12:00:00 PM''),
     (''%r'', tm4, ''12:00:00 AM'')]"

definition uses_seconds :: "strftime_use list" where
  "uses_seconds =
    [(''%s'', tm1, ''1451827425'')]"

definition uses_seconds_64 :: "strftime_use list" where
  "uses_seconds_64 =
    [(''%s'', tm2, ''253686748673'')]"

definition uses_time :: "strftime_use list" where
  "uses_time =
    [(''%T'', tm1, ''13:23:45''),
     (''%T'', tm2, ''05:17:53''),
     (''%T'', tm3, ''12:00:00''),
     (''%T'', tm4, ''00:00:00''),
     (''%U'', tm1, ''01''),
     (''%U'', tm2, ''01''),
     (''%U'', tm3, ''08''),
     (''%V'', tm1, ''53''),
     (''%V'', tm2, ''02''),
     (''%V'', tm3, ''08''),
     (''%W'', tm1, ''00''),
     (''%W'', tm2, ''01''),
     (''%W'', tm3, ''08''),
     (''%x'', tm1, ''01/03/16''),
     (''%X'', tm1, ''13:23:45''),
     (''%y'', tm1, ''16''),
     (''%Y'', tm1, ''2016''),
     (''%05Y'', tm1, ''02016''),
     (''%+4Y'', tm1, ''2016''),
     (''%+5Y'', tm1, ''+2016''),
     (''%Y'', tm2, ''+10009''),
     (''%05Y'', tm2, ''10009''),
     (''%Y'', tm3, ''0000''),
     (''%02Y'', tm3, ''00''),
     (''%+5Y'', tm3, ''+0000''),
     (''%Y'', tm4, ''-123''),
     (''%+4Y'', tm4, ''-123''),
     (''%+5Y'', tm4, ''-0123'')]"

definition uses_int_max :: "strftime_use list" where
  "uses_int_max =
    [(''%y'', tm5, ''47''),
     (''%Y'', tm5, ''+2147485547''),
     (''%011Y'', tm5, ''02147485547'')]"

definition uses_int_max_64 :: "strftime_use list" where
  "uses_int_max_64 =
    [(''%s'', tm5, ''67768036160140800'')]"

text \<open>\<open>W\<close> is the number of bits of \<open>time_t\<close>.\<close>

definition strftime_uses :: "nat \<Rightarrow> strftime_use list" where
  "strftime_uses W =
     uses_date @ uses_seconds @ (if 64 \<le> W then uses_seconds_64 else []) @ uses_time @
     (if INT_MAX = 0x7FFFFFFF
      then uses_int_max @ (if 64 \<le> W then uses_int_max_64 else [])
      else [])"

definition strftime_main :: "nat \<Rightarrow> strftime_fn \<Rightarrow> strftime_report list" where
  "strftime_main W strftime =
     concat (map (\<lambda>(format, tm, expected). checkStrftime strftime format tm expected) (strftime_uses W))"

subsection \<open>The conversions, as POSIX states them\<close>

text \<open>
  A number of a year in a field of at least \<open>w\<close> bytes, filled with zeros; with the flag \<open>+\<close> a plus sign leads a
  number that is not negative when the field takes more than \<open>k\<close> bytes.
\<close>

definition year_field :: "int \<Rightarrow> bool \<Rightarrow> nat \<Rightarrow> int \<Rightarrow> cstr" where
  "year_field k p w v =
     (let digits = dec_int \<bar>v\<bar>;
          sign = (if v < 0 then ''-'' else if p \<and> k < int (max (length digits) w) then ''+'' else [])
      in sign @ replicate (w - length sign - length digits) CHR ''0'' @ digits)"

text \<open>The week number of day \<open>d\<close> of the year when weeks start \<open>s\<close> days after Sunday.\<close>

definition week_of :: "int \<Rightarrow> int \<Rightarrow> int \<Rightarrow> int" where
  "week_of s d wday = (d + 7 - (wday - s) mod 7) div 7"

definition year_length :: "int \<Rightarrow> int" where
  "year_length y = (if leap y then 366 else 365)"

text \<open>The ISO 8601 year and week: those of the Thursday of the week.\<close>

definition iso_week :: "tm \<Rightarrow> int \<times> int" where
  "iso_week tm =
     (let y = tm_year tm + 1900;
          thursday = tm_yday tm + 3 - (tm_wday tm - 1) mod 7
      in if thursday < 0 then (y - 1, (thursday + year_length (y - 1)) div 7 + 1)
         else if year_length y \<le> thursday then (y + 1, (thursday - year_length y) div 7 + 1)
         else (y, thursday div 7 + 1))"

definition day_names :: "cstr list" where
  "day_names = [''Sun'', ''Mon'', ''Tue'', ''Wed'', ''Thu'', ''Fri'', ''Sat'']"

definition month_names :: "cstr list" where
  "month_names =
     [''Jan'', ''Feb'', ''Mar'', ''Apr'', ''May'', ''Jun'', ''Jul'', ''Aug'', ''Sep'', ''Oct'', ''Nov'', ''Dec'']"

definition hms :: "int \<Rightarrow> tm \<Rightarrow> cstr" where
  "hms h tm = pad_int 2 h @ '':'' @ pad_int 2 (tm_min tm) @ '':'' @ pad_int 2 (tm_sec tm)"

text \<open>A conversion has a flag, a width and a letter; without flag and width, \<open>%Y\<close> and \<open>%G\<close> are \<open>%+4Y\<close> and
  \<open>%+4G\<close>, \<open>%F\<close> is \<open>%+10F\<close> and \<open>%C\<close> is \<open>%02C\<close>.\<close>

datatype directive = Directive (flag: "char option") (width: nat) (letter: char)

fun parse_width :: "nat \<Rightarrow> cstr \<Rightarrow> nat \<times> cstr" where
  "parse_width n [] = (n, [])"
| "parse_width n (c # s) =
     (if is_digit c then parse_width (10 * n + (of_char c - 48)) s else (n, c # s))"

definition parse_directive :: "cstr \<Rightarrow> directive option" where
  "parse_directive s =
     (case s of
        p # c # s' \<Rightarrow>
          if p \<noteq> CHR ''%'' then None
          else (let (f, r) = (if c = CHR ''0'' \<or> c = CHR ''+'' then (Some c, s') else (None, c # s'))
                in case parse_width 0 r of (w, r) \<Rightarrow> if length r = 1 then Some (Directive f w (hd r)) else None)
      | _ \<Rightarrow> None)"

definition year_number :: "int \<Rightarrow> bool \<Rightarrow> nat \<Rightarrow> directive \<Rightarrow> int \<Rightarrow> cstr" where
  "year_number k p w d v =
     (if flag d = None \<and> width d = 0 then year_field k p w v
      else year_field k (flag d = Some CHR ''+'') (width d) v)"

definition iso_date :: "directive \<Rightarrow> tm \<Rightarrow> cstr" where
  "iso_date d tm =
     (if flag d = None \<and> width d = 0 then year_field 4 True 4 (tm_year tm + 1900)
      else year_field 4 (flag d = Some CHR ''+'') (width d - 6) (tm_year tm + 1900)) @
     ''-'' @ pad_int 2 (tm_mon tm + 1) @ ''-'' @ pad_int 2 (tm_mday tm)"

definition date_time :: "tm \<Rightarrow> cstr" where
  "date_time tm =
     day_names ! nat (tm_wday tm) @ '' '' @ month_names ! nat (tm_mon tm) @ '' '' @
     (if tm_mday tm < 10 then '' '' else []) @ dec_int (tm_mday tm) @ '' '' @
     hms (tm_hour tm) tm @ '' '' @ year_field 4 True 4 (tm_year tm + 1900)"

definition conversion :: "directive \<Rightarrow> tm \<Rightarrow> cstr" where
  "conversion d tm =
     (let c = letter d; year = tm_year tm + 1900
      in if c = CHR ''c'' then date_time tm
         else if c = CHR ''C'' then year_number 2 False 2 d (year div 100)
         else if c = CHR ''F'' then iso_date d tm
         else if c = CHR ''g'' then pad_int 2 (fst (iso_week tm) mod 100)
         else if c = CHR ''G'' then year_number 4 True 4 d (fst (iso_week tm))
         else if c = CHR ''r'' then
           hms ((tm_hour tm + 11) mod 12 + 1) tm @ (if tm_hour tm < 12 then '' AM'' else '' PM'')
         else if c = CHR ''s'' then dec_int (posix_secs tm)
         else if c = CHR ''T'' \<or> c = CHR ''X'' then hms (tm_hour tm) tm
         else if c = CHR ''U'' then pad_int 2 (week_of 0 (tm_yday tm) (tm_wday tm))
         else if c = CHR ''V'' then pad_int 2 (snd (iso_week tm))
         else if c = CHR ''W'' then pad_int 2 (week_of 1 (tm_yday tm) (tm_wday tm))
         else if c = CHR ''x'' then
           pad_int 2 (tm_mon tm + 1) @ ''/'' @ pad_int 2 (tm_mday tm) @ ''/'' @ pad_int 2 (year mod 100)
         else if c = CHR ''y'' then pad_int 2 (year mod 100)
         else if c = CHR ''Y'' then year_number 4 True 4 d year
         else [])"

definition strftime_text :: "cstr \<Rightarrow> tm \<Rightarrow> cstr" where
  "strftime_text format tm = (case parse_directive format of None \<Rightarrow> [] | Some d \<Rightarrow> conversion d tm)"

text \<open>A result agrees with a text that fits in the buffer.\<close>

definition stores :: "nat \<times> cstr \<Rightarrow> cstr \<Rightarrow> bool" where
  "stores r s \<longleftrightarrow> fst r \<noteq> 0 \<and> buffer_str (snd r) = s"

subsection \<open>Every use expects the text of the specification\<close>

definition use_ok :: "strftime_use \<Rightarrow> bool" where
  "use_ok u \<longleftrightarrow> (case u of (f, tm, s) \<Rightarrow> strftime_text f tm = s \<and> s \<noteq> [] \<and> length s < 100 \<and> NUL \<notin> set s)"

text \<open>Evaluation keeps large numbers out of \<open>nat\<close>, whose numerals are unary there.\<close>

function int_digits :: "int \<Rightarrow> cstr" where
  "int_digits i = (if i < 10 then [char_of (48 + i)] else int_digits (i div 10) @ [char_of (48 + i mod 10)])"
  by pat_completeness auto
termination
  by (relation "measure nat") auto

declare int_digits.simps [simp del]

lemma dec_digits_int: "dec_digits n = int_digits (int n)"
proof (induction n rule: dec_digits.induct)
  case (1 n)
  have c: "(char_of (48 + k) :: char) = char_of (48 + int k)" for k :: nat
    using char_of_nat [of "48 + k", where 'a = int] by simp
  show ?case
  proof (cases "n < 10")
    case True
    then show ?thesis by (simp add: dec_digits.simps [of n] int_digits.simps [of "int n"] c)
  next
    case False
    then show ?thesis
      using 1 by (simp add: dec_digits.simps [of n] int_digits.simps [of "int n"] c zdiv_int zmod_int)
  qed
qed

lemma parse_width_code [code]:
  "parse_width n [] = (n, [])"
  "parse_width n (c # s) =
     (if is_digit c then parse_width (10 * n + nat (of_char c - 48)) s else (n, c # s))"
proof -
  have "(of_char c :: int) = int (of_char c)" by (simp add: of_nat_of_char)
  then have "nat (of_char c - 48) = (of_char c :: nat) - 48" by (simp add: nat_diff_distrib')
  then show "parse_width n (c # s) =
     (if is_digit c then parse_width (10 * n + nat (of_char c - 48)) s else (n, c # s))" by simp
qed simp

lemma dec_int_code [code]: "dec_int i = (if i < 0 then ''-'' @ int_digits (- i) else int_digits i)"
  by (simp add: dec_int_def dec_digits_int)

lemma tm5_code [code]: "tm5 = TM 0 0 0 1 0 2147483647 3 0 0"
  by (simp add: tm5_def INT_MAX_def)

lemma uses_ok_1: "list_all use_ok uses_seconds"
  by code_simp

lemma uses_ok_2: "list_all use_ok uses_seconds_64"
  by code_simp

lemma uses_ok_3: "list_all use_ok uses_int_max"
  by code_simp

lemma uses_ok_4: "list_all use_ok uses_int_max_64"
  by code_simp

lemma uses_date_ok: "list_all use_ok uses_date"
  by code_simp

lemma uses_time_ok: "list_all use_ok uses_time"
  by code_simp

lemma strftime_uses_ok: "list_all use_ok (strftime_uses W)"
  by (simp add: strftime_uses_def uses_ok_1 uses_ok_2 uses_ok_3 uses_ok_4 uses_date_ok uses_time_ok)

lemma tms_valid: "list_all tm_valid [tm1, tm2, tm3, tm4, tm5]"
  by code_simp

subsection \<open>The verdict of the test\<close>

lemma buffer_str_no_NUL: "NUL \<notin> set (buffer_str b)"
  by (auto simp: buffer_str_def dest: set_takeWhileD)

lemma checkStrftime_silent:
  assumes "s \<noteq> []" and "NUL \<notin> set s"
  shows "checkStrftime strftime f tm s = [] \<longleftrightarrow> stores (strftime 100 f tm) s"
  using assms
  by (auto simp: checkStrftime_def stores_def strcmp_0_iff buffer_str_no_NUL split: prod.splits)

lemma strftime_main_silent:
  "strftime_main W strftime = [] \<longleftrightarrow>
     list_all (\<lambda>(f, tm, _). stores (strftime 100 f tm) (strftime_text f tm)) (strftime_uses W)"
proof -
  have "list_all (\<lambda>u. (case u of (f, tm, s) \<Rightarrow> checkStrftime strftime f tm s) = [] \<longleftrightarrow>
      (case u of (f, tm, _) \<Rightarrow> stores (strftime 100 f tm) (strftime_text f tm))) (strftime_uses W)"
    by (rule list_all_mono_imp [OF strftime_uses_ok]) (auto simp: use_ok_def checkStrftime_silent)
  then show ?thesis
    unfolding strftime_main_def concat_map_Nil by (rule list_all_iff_cong)
qed

text \<open>C15: the strftime test reports nothing exactly when each of its calls stores the text that the POSIX
  rules for the conversion give (years with their sign and padding, weeks of the year and ISO weeks, seconds
  since the epoch by the formula of POSIX, the last two groups of uses with a 64-bit time_t only); the five
  broken-down times it converts are consistent, so that each has the day of the week and of the year of its
  date.\<close>

theorem strftime_main_verdict:
  "(strftime_main W strftime = [] \<longleftrightarrow>
     list_all (\<lambda>(f, tm, _). stores (strftime 100 f tm) (strftime_text f tm)) (strftime_uses W)) \<and>
   list_all tm_valid [tm1, tm2, tm3, tm4, tm5]"
  by (rule conjI [OF strftime_main_silent tms_valid])

end
