(* ===== verification/RandomTest.thy ===== *)
theory RandomTest
  imports RandLcg TestLog
begin

text \<open>
  random.c of libc/src/functional, which compares the generator behind \<open>random\<close> with itself through
  \<open>initstate\<close>, \<open>setstate\<close> and \<open>srandom\<close> and makes naive statistical checks of eleven seeds, and
  lrand48-signextend.c of libc/src/regression.  The functions under test are arguments; \<open>random\<close> and \<open>lrand48\<close>
  return numbers below 2^31, which are naturals here.  A state buffer is named by its address.
\<close>

subsection \<open>random.c\<close>

text \<open>The counts \<open>d\<close> of the residues modulo 8 of the first hundred numbers.\<close>

definition count_low :: "nat list \<Rightarrow> nat list" where
  "count_low x = foldl (\<lambda>d i. d[x ! i mod 8 := d ! (x ! i mod 8) + 1]) (replicate 8 0) [0..<100]"

definition chkmissing :: "nat list \<Rightarrow> bool" where
  "chkmissing x = list_ex (\<lambda>i. count_low x ! i = 0) [0..<8]"

definition chkrepeat :: "nat list \<Rightarrow> bool" where
  "chkrepeat x = list_ex (\<lambda>i. list_ex (\<lambda>j. x ! i = x ! j) [0..<i]) [0..<100]"

text \<open>The new value of the static variable \<open>orx\<close> and the result.\<close>

definition chkones :: "nat list \<Rightarrow> u32 \<times> bool" where
  "chkones x =
     (let orx = foldl (\<lambda>orx i. orx OR of_nat (x ! i)) 0 [0..<20]
      in (orx, orx \<noteq> 0x7fffffff))"

record 'w random_srv =
  random_call :: "'w \<Rightarrow> nat \<times> 'w"
  srandom_call :: "u32 \<Rightarrow> 'w \<Rightarrow> unit \<times> 'w"
  initstate_call :: "u32 \<Rightarrow> nat \<Rightarrow> nat \<Rightarrow> 'w \<Rightarrow> nat \<times> 'w"
  setstate_call :: "nat \<Rightarrow> 'w \<Rightarrow> nat \<times> 'w"

text \<open>\<open>x[i] = random()\<close> for \<open>n\<close> values of \<open>i\<close>.\<close>

fun fill_random :: "'w random_srv \<Rightarrow> nat \<Rightarrow> ('w, nat list) prog" where
  "fill_random f 0 = State_Monad.return []"
| "fill_random f (Suc n) =
     do {
       r \<leftarrow> call (random_call f);
       x \<leftarrow> fill_random f n;
       State_Monad.return (r # x)
     }"

text \<open>The loops that compare the numbers of \<open>x\<close> with new ones and report line \<open>l\<close>.\<close>

fun compare_random :: "'w random_srv \<Rightarrow> nat \<Rightarrow> nat list \<Rightarrow> ('w, unit) prog" where
  "compare_random f l [] = skip"
| "compare_random f l (r # x) =
     do {
       y \<leftarrow> call (random_call f);
       ensure l (\<not> r \<noteq> y);
       compare_random f l x
     }"

definition checkseed :: "'w random_srv \<Rightarrow> u32 \<Rightarrow> ('w, unit) prog" where
  "checkseed f seed =
     do {
       call (srandom_call f seed);
       x \<leftarrow> fill_random f 100;
       ensure 50 (\<not> chkmissing x);
       ensure 52 (\<not> chkrepeat x);
       ensure 54 (\<not> snd (chkones x))
     }"

text \<open>\<open>p\<close> is the other state: the result of the last \<open>initstate\<close> or \<open>setstate\<close>.\<close>

fun check_setstate :: "'w random_srv \<Rightarrow> nat \<Rightarrow> nat \<Rightarrow> ('w, unit) prog" where
  "check_setstate f 0 p = skip"
| "check_setstate f (Suc n) p =
     do {
       z \<leftarrow> call (random_call f);
       q \<leftarrow> call (setstate_call f p);
       y \<leftarrow> call (random_call f);
       ensure 76 (\<not> z \<noteq> y);
       p \<leftarrow> call (setstate_call f q);
       check_setstate f n p
     }"

fun checkseeds :: "'w random_srv \<Rightarrow> u32 list \<Rightarrow> ('w, unit) prog" where
  "checkseeds f [] = skip"
| "checkseeds f (s # ss) = do { checkseed f s; checkseeds f ss }"

text \<open>\<open>state\<close> is the address of the local array of 128 bytes.\<close>

definition random_main :: "'w random_srv \<Rightarrow> nat \<Rightarrow> ('w, unit) prog" where
  "random_main f state =
     do {
       x \<leftarrow> fill_random f 100;
       p \<leftarrow> call (initstate_call f 1 state 128);
       compare_random f 71 x;
       check_setstate f 10 p;
       call (srandom_call f 1);
       compare_random f 82 x;
       checkseed f 0x7fffffff;
       checkseeds f (map of_nat [0..<10])
     }"

subsection \<open>lrand48-signextend.c\<close>

definition lrand48_main :: "('w \<Rightarrow> nat \<times> 'w) \<Rightarrow> ('w, unit) prog" where
  "lrand48_main lrand48 =
     do {
       r \<leftarrow> call lrand48;
       ensure 10 (\<not> r \<noteq> 0);
       r \<leftarrow> call lrand48;
       ensure 12 (\<not> r \<noteq> 2116118);
       r \<leftarrow> call lrand48;
       ensure 14 (\<not> r \<noteq> 89401895)
     }"

subsection \<open>The statistical checks, as they are meant\<close>

lemma count_low_step:
  assumes "length d = 8"
  shows "foldl (\<lambda>d i. d[g i mod 8 := d ! (g i mod 8) + 1]) d is =
    map (\<lambda>r. d ! r + length (filter (\<lambda>i. g i mod 8 = r) is)) [0..<8]"
  using assms
proof (induction "is" arbitrary: d)
  case Nil
  then show ?case using map_nth [of d] by simp
next
  case (Cons i "is")
  then show ?case by (auto simp: nth_list_update intro!: map_cong)
qed

lemma count_low_eq: "count_low x = map (\<lambda>r. length (filter (\<lambda>i. x ! i mod 8 = r) [0..<100])) [0..<8]"
proof -
  have "count_low x = map (\<lambda>r. replicate 8 0 ! r + length (filter (\<lambda>i. x ! i mod 8 = r) [0..<100])) [0..<8]"
    unfolding count_low_def by (rule count_low_step [where g = "(!) x"]) simp
  also have "\<dots> = map (\<lambda>r. length (filter (\<lambda>i. x ! i mod 8 = r) [0..<100])) [0..<8]"
    by (rule map_cong) simp_all
  finally show ?thesis .
qed

lemma chkmissing_iff:
  assumes "length x = 100"
  shows "chkmissing x \<longleftrightarrow> (\<exists>r < 8. \<forall>a \<in> set x. a mod 8 \<noteq> r)"
proof -
  have "set x = (!) x ` {0..<100}" using assms by (auto simp: set_conv_nth)
  then have "(\<forall>a \<in> set x. a mod 8 \<noteq> r) \<longleftrightarrow> filter (\<lambda>i. x ! i mod 8 = r) [0..<100] = []" for r
    by (auto simp: filter_empty_conv)
  then show ?thesis unfolding chkmissing_def count_low_eq list_ex_iff by (auto simp del: upt_rec_numeral)
qed

lemma repeat_iff: "(\<exists>i < length x. \<exists>j < i. x ! i = x ! j) \<longleftrightarrow> \<not> distinct x"
proof
  assume "\<exists>i < length x. \<exists>j < i. x ! i = x ! j"
  then obtain i j where "i < length x" "j < i" "x ! i = x ! j" by blast
  then show "\<not> distinct x" using nth_eq_iff_index_eq [of x i j] by auto
next
  assume "\<not> distinct x"
  then obtain i j where ij: "i < length x" "j < length x" "i \<noteq> j" "x ! i = x ! j"
    by (auto simp: distinct_conv_nth)
  then have "i < j \<or> j < i" by auto
  then show "\<exists>i < length x. \<exists>j < i. x ! i = x ! j" using ij by metis
qed

lemma chkrepeat_iff:
  assumes "length x = 100"
  shows "chkrepeat x \<longleftrightarrow> \<not> distinct x"
proof -
  have "chkrepeat x \<longleftrightarrow> (\<exists>i < 100. \<exists>j < i. x ! i = x ! j)"
    unfolding chkrepeat_def list_ex_iff by (auto simp: Bex_def)
  also have "\<dots> \<longleftrightarrow> \<not> distinct x"
    using repeat_iff [of x] by (simp only: assms)
  finally show ?thesis .
qed

lemma chkones_iff:
  assumes "length x = 100"
  shows "snd (chkones x) \<longleftrightarrow> foldr (OR) (map of_nat (take 20 x)) (0 :: u32) \<noteq> 0x7fffffff"
proof -
  have t: "map ((!) x) [0..<20] = take 20 x" using assms by (simp add: take_map [symmetric] list_eq_iff_nth_eq)
  have f: "foldl (\<lambda>a i. a OR of_nat (x ! i)) c is = c OR foldr (OR) (map of_nat (map ((!) x) is)) 0"
    for c :: u32 and "is"
    by (induction "is" arbitrary: c) (simp_all add: or.assoc)
  show ?thesis unfolding chkones_def Let_def f [of 0 "[0..<20]"] t by simp
qed

subsection \<open>The contract of random\<close>

fun outputs :: "('g \<Rightarrow> nat \<times> 'g) \<Rightarrow> nat \<Rightarrow> 'g \<Rightarrow> nat list" where
  "outputs nxt 0 g = []"
| "outputs nxt (Suc n) g = (case nxt g of (r, g) \<Rightarrow> r # outputs nxt n g)"

fun after :: "('g \<Rightarrow> nat \<times> 'g) \<Rightarrow> nat \<Rightarrow> 'g \<Rightarrow> 'g" where
  "after nxt 0 g = g"
| "after nxt (Suc n) g = after nxt n (snd (nxt g))"

lemma length_outputs [simp]: "length (outputs nxt n g) = n"
  by (induction n arbitrary: g) (simp_all split: prod.splits)

text \<open>The checks of one seed, over the first hundred numbers it gives.\<close>

definition weak_seed :: "nat list \<Rightarrow> log" where
  "weak_seed x =
     check 50 (\<forall>r < 8. \<exists>a \<in> set x. a mod 8 = r) @
     check 52 (distinct x) @
     check 54 (foldr (OR) (map of_nat (take 20 x)) (0 :: u32) = 0x7fffffff)"

text \<open>
  A service has a current state buffer and a generator of \<open>n\<close> bytes in each state buffer; \<open>seeded n s\<close> is the
  generator of \<open>n\<close> bytes that seed \<open>s\<close> starts.
\<close>

locale random_contract =
  fixes f :: "'w random_srv" and cur :: "'w \<Rightarrow> nat" and gen :: "'w \<Rightarrow> nat \<Rightarrow> (nat \<times> 'g) option"
    and nxt :: "'g \<Rightarrow> nat \<times> 'g" and seeded :: "nat \<Rightarrow> u32 \<Rightarrow> 'g"
  assumes random_law: "gen w (cur w) = Some (n, g) \<Longrightarrow>
      \<exists>w'. random_call f w = (fst (nxt g), w') \<and> cur w' = cur w \<and> gen w' = (gen w)(cur w \<mapsto> (n, snd (nxt g)))"
    and srandom_law: "gen w (cur w) = Some (n, g) \<Longrightarrow>
      \<exists>w'. srandom_call f s w = ((), w') \<and> cur w' = cur w \<and> gen w' = (gen w)(cur w \<mapsto> (n, seeded n s))"
    and initstate_law: "8 \<le> n \<Longrightarrow>
      \<exists>w'. initstate_call f s b n w = (cur w, w') \<and> cur w' = b \<and> gen w' = (gen w)(b \<mapsto> (n, seeded n s))"
    and setstate_law: "gen w p \<noteq> None \<Longrightarrow>
      \<exists>w'. setstate_call f p w = (cur w, w') \<and> cur w' = p \<and> gen w' = gen w"
begin

lemma run_fill:
  "gen w (cur w) = Some (n, g) \<Longrightarrow>
     \<exists>w'. run_state (fill_random f k) (w, ls) = (outputs nxt k g, (w', ls)) \<and> cur w' = cur w \<and>
       gen w' = (gen w)(cur w \<mapsto> (n, after nxt k g))"
proof (induction k arbitrary: w g)
  case 0
  then show ?case by (auto intro!: exI [of _ w])
next
  case (Suc k)
  obtain w1 where w1: "random_call f w = (fst (nxt g), w1)" "cur w1 = cur w"
      "gen w1 = (gen w)(cur w \<mapsto> (n, snd (nxt g)))"
    using random_law [OF Suc.prems] by blast
  have "gen w1 (cur w1) = Some (n, snd (nxt g))" by (simp add: w1)
  then obtain w2 where "run_state (fill_random f k) (w1, ls) = (outputs nxt k (snd (nxt g)), (w2, ls))"
      "cur w2 = cur w1" "gen w2 = (gen w1)(cur w1 \<mapsto> (n, after nxt k (snd (nxt g))))"
    using Suc.IH by blast
  then show ?case using w1 by (auto simp: split_beta intro!: exI [of _ w2])
qed

lemma run_compare:
  "gen w (cur w) = Some (n, g) \<Longrightarrow>
     \<exists>w'. run_state (compare_random f l (outputs nxt k g)) (w, ls) = ((), (w', ls)) \<and> cur w' = cur w \<and>
       gen w' = (gen w)(cur w \<mapsto> (n, after nxt k g))"
proof (induction k arbitrary: w g)
  case 0
  then show ?case by (auto intro!: exI [of _ w])
next
  case (Suc k)
  obtain w1 where w1: "random_call f w = (fst (nxt g), w1)" "cur w1 = cur w"
      "gen w1 = (gen w)(cur w \<mapsto> (n, snd (nxt g)))"
    using random_law [OF Suc.prems] by blast
  have "gen w1 (cur w1) = Some (n, snd (nxt g))" by (simp add: w1)
  then obtain w2 where "run_state (compare_random f l (outputs nxt k (snd (nxt g)))) (w1, ls) = ((), (w2, ls))"
      "cur w2 = cur w1" "gen w2 = (gen w1)(cur w1 \<mapsto> (n, after nxt k (snd (nxt g))))"
    using Suc.IH by blast
  then show ?case using w1 by (auto simp: split_beta intro!: exI [of _ w2])
qed

text \<open>Two buffers that hold the same generator stay in step through the loop over \<open>setstate\<close>.\<close>

lemma run_setstate:
  "cur w \<noteq> p \<Longrightarrow> gen w (cur w) = Some (n, g) \<Longrightarrow> gen w p = Some (m, g) \<Longrightarrow>
     \<exists>w'. run_state (check_setstate f k p) (w, ls) = ((), (w', ls)) \<and> cur w' = cur w \<and>
       gen w' = (gen w)(cur w \<mapsto> (n, after nxt k g), p \<mapsto> (m, after nxt k g))"
proof (induction k arbitrary: w g)
  case 0
  then show ?case by (auto intro!: exI [of _ w])
next
  case (Suc k)
  obtain w1 where w1: "random_call f w = (fst (nxt g), w1)" "cur w1 = cur w"
      "gen w1 = (gen w)(cur w \<mapsto> (n, snd (nxt g)))"
    using random_law [OF Suc.prems(2)] by blast
  obtain w2 where w2: "setstate_call f p w1 = (cur w, w2)" "cur w2 = p" "gen w2 = gen w1"
    using setstate_law [of w1 p] Suc.prems w1 by auto
  have "gen w2 (cur w2) = Some (m, g)" using Suc.prems w1 w2 by simp
  then obtain w3 where w3: "random_call f w2 = (fst (nxt g), w3)" "cur w3 = p"
      "gen w3 = (gen w1)(p \<mapsto> (m, snd (nxt g)))"
    using random_law [of w2 m g] w2 by auto
  obtain w4 where w4: "setstate_call f (cur w) w3 = (p, w4)" "cur w4 = cur w" "gen w4 = gen w3"
    using setstate_law [of w3 "cur w"] Suc.prems w1 w3 by auto
  have "cur w4 \<noteq> p" "gen w4 (cur w4) = Some (n, snd (nxt g))" "gen w4 p = Some (m, snd (nxt g))"
    using Suc.prems w1 w3 w4 by simp_all
  from Suc.IH [OF this] obtain w5 where
      "run_state (check_setstate f k p) (w4, ls) = ((), (w5, ls))" "cur w5 = cur w4"
      "gen w5 = (gen w4)(cur w4 \<mapsto> (n, after nxt k (snd (nxt g))), p \<mapsto> (m, after nxt k (snd (nxt g))))"
    by blast
  then show ?case using w1 w2 w3 w4 by (auto intro!: exI [of _ w5])
qed

lemma run_checkseed:
  assumes "gen w (cur w) = Some (n, g)"
  shows "\<exists>w' g'. run_state (checkseed f s) (w, ls) = ((), (w', ls @ weak_seed (outputs nxt 100 (seeded n s)))) \<and>
    gen w' (cur w') = Some (n, g')"
proof -
  obtain w1 where w1: "srandom_call f s w = ((), w1)" "cur w1 = cur w" "gen w1 = (gen w)(cur w \<mapsto> (n, seeded n s))"
    using srandom_law [OF assms] by blast
  then have "gen w1 (cur w1) = Some (n, seeded n s)" by simp
  from run_fill [OF this, of 100 ls] obtain w2 where
      w2: "run_state (fill_random f 100) (w1, ls) = (outputs nxt 100 (seeded n s), (w2, ls))" "cur w2 = cur w1"
      "gen w2 = (gen w1)(cur w1 \<mapsto> (n, after nxt 100 (seeded n s)))"
    by blast
  define x where "x = outputs nxt 100 (seeded n s)"
  have x: "length x = 100" by (simp add: x_def)
  have "check 50 (\<not> chkmissing x) @ check 52 (\<not> chkrepeat x) @ check 54 (\<not> snd (chkones x)) = weak_seed x"
    unfolding weak_seed_def chkmissing_iff [OF x] chkrepeat_iff [OF x] chkones_iff [OF x] by simp
  then show ?thesis
    using w1(1) w2 by (simp add: checkseed_def x_def [symmetric])
qed

lemma run_checkseeds:
  "gen w (cur w) = Some (n, g) \<Longrightarrow>
     \<exists>w'. run_state (checkseeds f ss) (w, ls) =
       ((), (w', ls @ concat (map (\<lambda>s. weak_seed (outputs nxt 100 (seeded n s))) ss)))"
proof (induction ss arbitrary: w ls g)
  case (Cons s ss)
  obtain w' g' where
      "run_state (checkseed f s) (w, ls) = ((), (w', ls @ weak_seed (outputs nxt 100 (seeded n s))))"
      "gen w' (cur w') = Some (n, g')"
    using run_checkseed [OF Cons.prems] by blast
  then show ?case using Cons.IH [of w' g' "ls @ weak_seed (outputs nxt 100 (seeded n s))"] by auto
qed simp

lemma run_random_main:
  assumes w: "gen w (cur w) = Some (128, seeded 128 1)" "cur w \<noteq> state"
  shows "run_test (random_main f state) w =
    concat (map (\<lambda>s. weak_seed (outputs nxt 100 (seeded 128 s))) (0x7fffffff # map of_nat [0..<10]))"
proof -
  let ?g = "seeded 128 1"
  let ?x = "outputs nxt 100 ?g"
  obtain w1 where w1: "run_state (fill_random f 100) (w, []) = (?x, (w1, []))" "cur w1 = cur w"
      "gen w1 = (gen w)(cur w \<mapsto> (128, after nxt 100 ?g))"
    using run_fill [OF w(1), of 100 "[]"] by blast
  obtain w2 where w2: "initstate_call f 1 state 128 w1 = (cur w, w2)" "cur w2 = state"
      "gen w2 = (gen w1)(state \<mapsto> (128, ?g))"
    using initstate_law [of 128 1 state w1] w1 by auto
  have "gen w2 (cur w2) = Some (128, ?g)" by (simp add: w2)
  from run_compare [OF this, of 71 100 "[]"] obtain w3 where
      w3: "run_state (compare_random f 71 ?x) (w2, []) = ((), (w3, []))" "cur w3 = state"
      "gen w3 = (gen w2)(state \<mapsto> (128, after nxt 100 ?g))"
    using w2 by auto
  have "cur w3 \<noteq> cur w" "gen w3 (cur w3) = Some (128, after nxt 100 ?g)"
      "gen w3 (cur w) = Some (128, after nxt 100 ?g)"
    using w w1 w2 w3 by simp_all
  from run_setstate [OF this, of 10 "[]"] obtain w4 where
      w4: "run_state (check_setstate f 10 (cur w)) (w3, []) = ((), (w4, []))" "cur w4 = state"
      "gen w4 (cur w4) = Some (128, after nxt 10 (after nxt 100 ?g))"
    using w w3 by auto
  obtain w5 where w5: "srandom_call f 1 w4 = ((), w5)" "gen w5 (cur w5) = Some (128, ?g)"
    using srandom_law [OF w4(3), of 1] by auto
  from run_compare [OF this(2), of 82 100 "[]"] obtain w6 where
      w6: "run_state (compare_random f 82 ?x) (w5, []) = ((), (w6, []))"
      "gen w6 (cur w6) = Some (128, after nxt 100 ?g)"
    by auto
  obtain w7 g7 where w7: "run_state (checkseed f 0x7fffffff) (w6, []) =
      ((), (w7, weak_seed (outputs nxt 100 (seeded 128 0x7fffffff))))" "gen w7 (cur w7) = Some (128, g7)"
    using run_checkseed [OF w6(2), of "0x7fffffff" "[]"] by auto
  let ?ls = "weak_seed (outputs nxt 100 (seeded 128 0x7fffffff))"
  obtain w8 where w8: "run_state (checkseeds f (map of_nat [0..<10])) (w7, ?ls) =
      ((), (w8, ?ls @ concat (map (\<lambda>s. weak_seed (outputs nxt 100 (seeded 128 s))) (map of_nat [0..<10]))))"
    using run_checkseeds [OF w7(2), where ls = ?ls and ss = "map of_nat [0..<10]"] by blast
  have "run_state (random_main f state) (w, []) = run_state (checkseeds f (map of_nat [0..<10])) (w7, ?ls)"
    using w1(1) w2(1) w3(1) w4(1) w5(1) w6(1) w7(1) by (simp add: random_main_def del: upt_rec_numeral)
  then show ?thesis unfolding w8 by (simp add: run_test_def del: upt_rec_numeral)
qed

end

subsection \<open>A service over the 64-bit generator of the harness\<close>

type_synonym random_state = "nat \<times> (nat \<Rightarrow> (nat \<times> u64) option)"

definition lcg_next :: "u64 \<Rightarrow> nat \<times> u64" where
  "lcg_next s = (let s = seed_step s in (unat (drop_bit 33 s), s))"

definition lcg_seeded :: "nat \<Rightarrow> u32 \<Rightarrow> u64" where
  "lcg_seeded n s = ucast s"

definition random_ref :: "random_state random_srv" where
  "random_ref =
     \<lparr>random_call = (\<lambda>(c, g). case g c of
        None \<Rightarrow> (0, (c, g))
      | Some (n, s) \<Rightarrow> (case lcg_next s of (r, s) \<Rightarrow> (r, (c, g(c \<mapsto> (n, s)))))),
      srandom_call = (\<lambda>s (c, g). ((), (c, g(c := map_option (\<lambda>(n, _). (n, lcg_seeded n s)) (g c))))),
      initstate_call = (\<lambda>s b n (c, g). (c, (b, g(b \<mapsto> (n, lcg_seeded n s))))),
      setstate_call = (\<lambda>p (c, g). (c, (p, g)))\<rparr>"

interpretation rref: random_contract random_ref fst snd lcg_next lcg_seeded
  by unfold_locales (auto simp: random_ref_def split: prod.splits)

text \<open>The 48-bit generator of POSIX, from a state that starts as 0.\<close>

definition drand48_step :: "nat \<Rightarrow> nat" where
  "drand48_step x = (0x5DEECE66D * x + 0xB) mod 2 ^ 48"

definition lrand48_spec :: "nat \<Rightarrow> nat \<times> nat" where
  "lrand48_spec x = (drand48_step x div 2 ^ 17, drand48_step x)"

lemma lrand48_main_spec: "run_test (lrand48_main lrand48_spec) 0 = []"
  by (simp add: run_test_def lrand48_main_def lrand48_spec_def drand48_step_def)

text \<open>C14: on every service that keeps the contract of random, whose default state is the one of seed 1 in 128
  bytes, the random test reports no difference between the default state, initstate(1), srandom(1) and the two
  states it swaps with setstate; what it reports is, for each of the eleven seeds, a residue modulo 8 that the first
  hundred numbers miss, a repetition among them, or a bit that the first twenty do not set. The lrand48 test reports
  nothing exactly when the first three results are the expected ones, and the 48-bit generator of POSIX started from 0
  gives these.\<close>

theorem random_tests_verdict:
  assumes "random_contract f cur gen nxt seeded"
    and "gen w (cur w) = Some (128, seeded 128 1)" and "cur w \<noteq> state"
  shows "run_test (random_main f state) w =
      concat (map (\<lambda>s. weak_seed (outputs nxt 100 (seeded 128 s))) (0x7fffffff # map of_nat [0..<10])) \<and>
    (run_test (lrand48_main lr) v = [] \<longleftrightarrow>
      (case lr v of (a, v) \<Rightarrow> case lr v of (b, v) \<Rightarrow> a = 0 \<and> b = 2116118 \<and> fst (lr v) = 89401895)) \<and>
    run_test (lrand48_main lrand48_spec) 0 = []"
proof (intro conjI lrand48_main_spec)
  show "run_test (random_main f state) w =
      concat (map (\<lambda>s. weak_seed (outputs nxt 100 (seeded 128 s))) (0x7fffffff # map of_nat [0..<10]))"
    by (rule random_contract.run_random_main [where f = f, OF assms])
  show "run_test (lrand48_main lr) v = [] \<longleftrightarrow>
      (case lr v of (a, v) \<Rightarrow> case lr v of (b, v) \<Rightarrow> a = 0 \<and> b = 2116118 \<and> fst (lr v) = 89401895)"
    by (auto simp: run_test_def lrand48_main_def split: prod.splits)
qed

lemma random_tests_verdict_witness:
  "run_test (random_main random_ref 1) (0, [0 \<mapsto> (128, 1)]) =
      concat (map (\<lambda>s. weak_seed (outputs lcg_next 100 (lcg_seeded 128 s))) (0x7fffffff # map of_nat [0..<10])) \<and>
    run_test (lrand48_main (\<lambda>x. (x, x + 1))) (0 :: nat) \<noteq> []"
  using random_tests_verdict [where f = random_ref and cur = fst and gen = snd and nxt = lcg_next and
      seeded = lcg_seeded and w = "(0, [0 \<mapsto> (128, 1)])" and state = 1 and
      lr = "\<lambda>x :: nat. (x, x + 1)" and v = 0]
    rref.random_contract_axioms
  by (simp add: lcg_seeded_def del: upt_rec_numeral)

end
