(* ===== verification/PthreadCond.thy ===== *)
theory PthreadCond
  imports TestLog Reach
begin

text \<open>
  pthread_cond.c of libc/src/functional: a condition variable with one waiter, with three waiters that are signalled
  one by one, and with three waiters that are woken by a broadcast.  The calls of \<open>main\<close> in each of the three parts are
  a list of operations, the threads it creates have program counters, and all of them run in every order.  A wait
  releases the mutex and goes to sleep in one step; a waiter that is woken has to take the mutex again.  POSIX allows a
  wait to return without a signal: the steps of \<open>spurious_succs\<close>.
\<close>

subsection \<open>The program\<close>

text \<open>The program counters of \<open>start_signal\<close> and \<open>start_wait\<close>: which call comes next, or where the thread sleeps.\<close>

datatype pc =
  Idle
| SStart | SSignal | SUnlock
| Start | Test | Wait | Asleep | Woken | Unlocking
| Done

text \<open>\<open>Succeed\<close> stands for the calls whose success does not depend on the other threads: the initialisations and the
  sleep.  \<open>MAsleep\<close> and \<open>MWoken\<close> are what is left of a wait of the main thread.\<close>

datatype op =
  Succeed
| Lock
| Unlock nat
| Create nat pc
| SetFoo int
| MWait | MAsleep | MWoken
| Signal
| Broadcast
| Join nat
| DestroyMutex nat
| DestroyCond nat

datatype holder = Free | Main | Thread nat

record cond_run =
  todo :: "op list"
  owner :: holder
  foo :: int
  pcs :: "pc list"
  errors :: log

text \<open>The states in which one of the waiters has been woken.\<close>

definition wakes :: "cond_run \<Rightarrow> cond_run list" where
  "wakes s =
     map (\<lambda>i. s\<lparr>pcs := (pcs s)[i := Woken]\<rparr>) (filter (\<lambda>i. pcs s ! i = Asleep) [0..<length (pcs s)]) @
     (case todo s of MAsleep # rest \<Rightarrow> [s\<lparr>todo := MWoken # rest\<rparr>] | _ \<Rightarrow> [])"

definition signal :: "cond_run \<Rightarrow> cond_run list" where
  "signal s = (if wakes s = [] then [s] else wakes s)"

definition broadcast :: "cond_run \<Rightarrow> cond_run" where
  "broadcast s = s\<lparr>pcs := map (\<lambda>p. if p = Asleep then Woken else p) (pcs s)\<rparr>"

definition start_signal :: "nat \<Rightarrow> pc \<Rightarrow> cond_run \<Rightarrow> cond_run list" where
  "start_signal i p s =
     (if p = SStart then
        (if owner s = Free then [s\<lparr>owner := Thread i, pcs := (pcs s)[i := SSignal]\<rparr>] else [])
      else if p = SSignal then map (\<lambda>s. s\<lparr>pcs := (pcs s)[i := SUnlock]\<rparr>) (signal s)
      else if p = SUnlock then [s\<lparr>owner := Free, pcs := (pcs s)[i := Done]\<rparr>]
      else [])"

definition start_wait :: "nat \<Rightarrow> pc \<Rightarrow> cond_run \<Rightarrow> cond_run list" where
  "start_wait i p s =
     (if p = Start \<or> p = Woken then
        (if owner s = Free then [s\<lparr>owner := Thread i, pcs := (pcs s)[i := Test]\<rparr>] else [])
      else if p = Test then [s\<lparr>pcs := (pcs s)[i := if foo s \<noteq> 0 then Wait else Unlocking]\<rparr>]
      else if p = Wait then [s\<lparr>owner := Free, pcs := (pcs s)[i := Asleep]\<rparr>]
      else if p = Unlocking then [s\<lparr>owner := Free, pcs := (pcs s)[i := Done]\<rparr>]
      else [])"

definition main_succs :: "cond_run \<Rightarrow> cond_run list" where
  "main_succs s =
     (case todo s of
        [] \<Rightarrow> []
      | x # rest \<Rightarrow>
          let s' = s\<lparr>todo := rest\<rparr>
          in (case x of
                Succeed \<Rightarrow> [s']
              | Lock \<Rightarrow> (if owner s = Free then [s'\<lparr>owner := Main\<rparr>] else [])
              | Unlock l \<Rightarrow> [s'\<lparr>owner := Free, errors := errors s @ check l (owner s = Main)\<rparr>]
              | Create i p \<Rightarrow> [s'\<lparr>pcs := (pcs s)[i := p]\<rparr>]
              | SetFoo v \<Rightarrow> [s'\<lparr>foo := v\<rparr>]
              | MWait \<Rightarrow> [s'\<lparr>todo := MAsleep # rest, owner := Free\<rparr>]
              | MAsleep \<Rightarrow> []
              | MWoken \<Rightarrow> (if owner s = Free then [s'\<lparr>owner := Main\<rparr>] else [])
              | Signal \<Rightarrow> signal s'
              | Broadcast \<Rightarrow> [broadcast s']
              | Join i \<Rightarrow> (if pcs s ! i = Done then [s'] else [])
              | DestroyMutex l \<Rightarrow> [s'\<lparr>errors := errors s @ check l (owner s = Free)\<rparr>]
              | DestroyCond l \<Rightarrow> [s'\<lparr>errors := errors s @ check l (\<not> List.member (pcs s) Asleep)\<rparr>]))"

definition thread_succs :: "cond_run \<Rightarrow> cond_run list" where
  "thread_succs s =
     concat (map (\<lambda>i. start_signal i (pcs s ! i) s @ start_wait i (pcs s ! i) s) [0..<length (pcs s)])"

definition cond_succs :: "cond_run \<Rightarrow> cond_run list" where
  "cond_succs s = main_succs s @ thread_succs s"

definition spurious_succs :: "cond_run \<Rightarrow> cond_run list" where
  "spurious_succs s = cond_succs s @ wakes s"

definition one_waiter :: "op list" where
  "one_waiter =
     [Succeed, Succeed, Lock, Create 0 SStart, MWait, Join 0, Unlock 48, DestroyMutex 49, DestroyCond 50]"

definition three_waiters :: "op list" where
  "three_waiters =
     [Succeed, Succeed, Lock, SetFoo 1, Create 0 Start, Create 1 Start, Create 2 Start, Unlock 60, Succeed,
      SetFoo 0,
      Lock, Signal, Unlock 65,
      Lock, Signal, Unlock 68,
      Lock, Signal, Unlock 71,
      Join 0, Join 1, Join 2, DestroyMutex 75, DestroyCond 76]"

definition three_woken :: "op list" where
  "three_woken =
     [Succeed, Succeed, Lock, SetFoo 1, Create 0 Start, Create 1 Start, Create 2 Start, Unlock 86, Succeed,
      Lock, SetFoo 0, Unlock 90,
      Broadcast,
      Join 0, Join 1, Join 2, DestroyMutex 95, DestroyCond 96]"

text \<open>A part starts with the mutex free; \<open>foo\<close> has any value before it is set.\<close>

definition part :: "op list \<Rightarrow> int \<Rightarrow> cond_run" where
  "part ops v = \<lparr>todo = ops, owner = Free, foo = v, pcs = [Idle, Idle, Idle], errors = []\<rparr>"

definition finished :: "cond_run \<Rightarrow> bool" where
  "finished s \<longleftrightarrow> todo s = [] \<and> owner s = Free \<and> list_all (\<lambda>p. p = Done \<or> p = Idle) (pcs s)"

subsection \<open>One waiter\<close>

definition states_one :: "cond_run list" where
  "states_one = explore 200 cond_succs [part one_waiter 0] []"

lemma states_one_closed: "closed_under cond_succs states_one"
  by code_simp

lemma states_one_fine:
  "list_all (\<lambda>s. errors s = [] \<and> (finished s \<or> cond_succs s \<noteq> [])) states_one"
  by code_simp

definition stuck_one :: "cond_run list" where
  "stuck_one = filter (\<lambda>s. spurious_succs s = [] \<and> \<not> finished s) (explore 200 spurious_succs [part one_waiter 0] [])"

lemma stuck_one_eq:
  "map (\<lambda>s. (todo s, owner s, pcs s)) stuck_one =
    [([Join 0, Unlock 48, DestroyMutex 49, DestroyCond 50], Main, [SStart, Idle, Idle])]"
  by code_simp

subsection \<open>Three waiters\<close>

text \<open>Whether the main thread holds the mutex before the calls \<open>ops\<close>, and how many of the waiters these calls
  wake.\<close>

fun held :: "op list \<Rightarrow> bool" where
  "held [] \<longleftrightarrow> False"
| "held (x # ops) \<longleftrightarrow>
     (case x of Lock \<Rightarrow> False | Unlock _ \<Rightarrow> True | _ \<Rightarrow> held ops)"

definition to_wake :: "op list \<Rightarrow> nat" where
  "to_wake ops = (if Broadcast \<in> set ops then 3 else length (filter (\<lambda>x. x = Signal) ops))"

text \<open>
  What the order of the calls guarantees: the mutex is locked and unlocked in turn, the waiters are created while it is
  locked and before \<open>foo\<close> is cleared, each signal is made with the mutex held, a broadcast comes after \<open>foo\<close> was cleared
  under the mutex, nothing but joins follows the last wake-up, and the objects are destroyed after the joins.
\<close>

definition op_fits :: "op \<Rightarrow> op list \<Rightarrow> bool" where
  "op_fits x rest \<longleftrightarrow>
     (case x of
        Succeed \<Rightarrow> True
      | Lock \<Rightarrow> held rest
      | Unlock l \<Rightarrow> \<not> held rest
      | Create i p \<Rightarrow>
          i < 3 \<and> p = Start \<and> held rest \<and> SetFoo 0 \<in> set rest \<and> Create i Start \<notin> set rest \<and> Join i \<in> set rest
      | SetFoo v \<Rightarrow>
          (v = 0 \<longrightarrow> SetFoo 0 \<notin> set rest \<and> 3 \<le> to_wake rest \<and> (Broadcast \<in> set rest \<longrightarrow> held rest)) \<and>
          (v \<noteq> 0 \<longrightarrow> SetFoo 0 \<in> set rest)
      | Signal \<Rightarrow> held rest \<and> SetFoo 0 \<notin> set rest \<and> Broadcast \<notin> set rest
      | Broadcast \<Rightarrow> \<not> held rest \<and> SetFoo 0 \<notin> set rest \<and> Broadcast \<notin> set rest
      | Join i \<Rightarrow>
          i < 3 \<and> \<not> held rest \<and> to_wake rest = 0 \<and> SetFoo 0 \<notin> set rest \<and> (\<forall>j < 3. Create j Start \<notin> set rest)
      | DestroyMutex l \<Rightarrow> (\<forall>i < 3. Join i \<notin> set rest) \<and> \<not> held rest
      | DestroyCond l \<Rightarrow> (\<forall>i < 3. Join i \<notin> set rest)
      | _ \<Rightarrow> False)"

fun ops_fit :: "op list \<Rightarrow> bool" where
  "ops_fit [] \<longleftrightarrow> True"
| "ops_fit (x # rest) \<longleftrightarrow> op_fits x rest \<and> ops_fit rest"

definition starts :: "op list \<Rightarrow> bool" where
  "starts ops \<longleftrightarrow>
     ops_fit ops \<and> \<not> held ops \<and> SetFoo 0 \<in> set ops \<and> (\<forall>i < 3. Create i Start \<in> set ops \<and> Join i \<in> set ops)"

lemma all_less_3: "(\<forall>i < (3::nat). P i) \<longleftrightarrow> P 0 \<and> P 1 \<and> P 2"
  by (auto simp: numeral_3_eq_3 All_less_Suc numeral_2_eq_2)

lemma three_waiters_start: "starts three_waiters"
  by (simp add: starts_def three_waiters_def op_fits_def to_wake_def all_less_3)

lemma three_woken_start: "starts three_woken"
  by (simp add: starts_def three_woken_def op_fits_def to_wake_def all_less_3)

definition holding :: "pc \<Rightarrow> bool" where
  "holding p \<longleftrightarrow> p = Test \<or> p = Wait \<or> p = Unlocking"

definition sleepy :: "pc list \<Rightarrow> nat" where
  "sleepy ps = length (filter (\<lambda>p. p = Wait \<or> p = Asleep) ps)"

definition wait_pcs :: "pc set" where
  "wait_pcs = {Idle, Start, Test, Wait, Asleep, Woken, Unlocking, Done}"

definition cond_ok :: "cond_run \<Rightarrow> bool" where
  "cond_ok s \<longleftrightarrow>
     ops_fit (todo s) \<and>
     length (pcs s) = 3 \<and> set (pcs s) \<subseteq> wait_pcs \<and>
     (\<forall>i < 3. holding (pcs s ! i) \<longleftrightarrow> owner s = Thread i) \<and> (\<forall>i. owner s = Thread i \<longrightarrow> i < 3) \<and>
     (owner s = Main \<longleftrightarrow> held (todo s)) \<and>
     (\<forall>i < 3. pcs s ! i = Idle \<longleftrightarrow> Create i Start \<in> set (todo s)) \<and>
     (\<forall>i < 3. Join i \<in> set (todo s) \<or> pcs s ! i = Done) \<and>
     (SetFoo 0 \<notin> set (todo s) \<longrightarrow>
        foo s = 0 \<and> sleepy (pcs s) \<le> to_wake (todo s) \<and>
        (Broadcast \<in> set (todo s) \<longrightarrow> Wait \<notin> set (pcs s))) \<and>
     errors s = []"

lemma cond_ok_part: "starts ops \<Longrightarrow> cond_ok (part ops v)"
  by (auto simp: starts_def cond_ok_def part_def all_less_3 holding_def wait_pcs_def)

lemma sleepy_update:
  "i < length ps \<Longrightarrow>
     sleepy (ps[i := q]) + (if ps ! i = Wait \<or> ps ! i = Asleep then 1 else 0) =
       sleepy ps + (if q = Wait \<or> q = Asleep then 1 else 0)"
  unfolding sleepy_def by (rule length_filter_update)

lemma sleepy_le: "sleepy ps \<le> length ps"
  by (simp add: sleepy_def)

lemma no_MAsleep: "ops_fit ops \<Longrightarrow> (case ops of MAsleep # rest \<Rightarrow> [f rest] | _ \<Rightarrow> []) = []"
  by (auto simp: op_fits_def split: list.split op.split)

lemma wakes_iff:
  "cond_ok s \<Longrightarrow> s' \<in> set (wakes s) \<longleftrightarrow> (\<exists>i < 3. pcs s ! i = Asleep \<and> s' = s\<lparr>pcs := (pcs s)[i := Woken]\<rparr>)"
  unfolding wakes_def
  using no_MAsleep [of "todo s" "\<lambda>rest. s\<lparr>todo := MWoken # rest\<rparr>"] by (auto simp: cond_ok_def)

text \<open>The change of one program counter.\<close>

lemma cond_ok_move:
  assumes ok: "cond_ok s" and i: "i < 3" "pcs s ! i \<noteq> Idle" "pcs s ! i \<noteq> Done" "q \<in> wait_pcs" "q \<noteq> Idle"
    and s': "todo s' = todo s" "foo s' = foo s" "errors s' = errors s" "pcs s' = (pcs s)[i := q]"
    and own: "owner s' = (if holding q then Thread i else if holding (pcs s ! i) then Free else owner s)"
    and free: "holding (pcs s ! i) \<or> holding q \<longrightarrow> owner s = Free \<or> owner s = Thread i"
    and foo: "q = Wait \<longrightarrow> foo s \<noteq> 0" "q = Asleep \<longrightarrow> pcs s ! i = Wait"
  shows "cond_ok s'"
proof -
  have len: "i < length (pcs s)" using ok i(1) by (simp add: cond_ok_def)
  have sub: "set ((pcs s)[i := q]) \<subseteq> wait_pcs"
    using ok i(4) set_update_subset_insert [of "pcs s" i q] by (auto simp: cond_ok_def)
  have sl: "sleepy ((pcs s)[i := q]) \<le> sleepy (pcs s)" if "foo s = 0"
    using sleepy_update [OF len, of q] foo that by (auto split: if_splits)
  have wt: "Wait \<in> set ((pcs s)[i := q]) \<Longrightarrow> foo s = 0 \<Longrightarrow> Wait \<in> set (pcs s)"
    using set_update_subset_insert [of "pcs s" i q] foo(1) by auto
  show ?thesis
    using ok i len sub sl wt own free
    by (auto simp: cond_ok_def s' nth_list_update split: if_splits)
qed

lemma pcs_wait: "cond_ok s \<Longrightarrow> i < 3 \<Longrightarrow> pcs s ! i \<in> wait_pcs"
  by (auto simp: cond_ok_def subset_iff)

lemma start_signal_none: "p \<in> wait_pcs \<Longrightarrow> start_signal i p s = []"
  by (auto simp: start_signal_def wait_pcs_def)

lemma start_wait_ok:
  assumes ok: "cond_ok s" and i: "i < 3" and step: "s' \<in> set (start_wait i (pcs s ! i) s)"
  shows "cond_ok s'"
proof -
  have h: "holding (pcs s ! i) \<longleftrightarrow> owner s = Thread i" using ok i by (simp add: cond_ok_def)
  define q where "q = pcs s' ! i"
  have len: "i < length (pcs s)" using ok i by (simp add: cond_ok_def)
  show ?thesis
    using step h len
    by (intro cond_ok_move [OF ok i, of q])
      (auto simp: start_wait_def q_def holding_def wait_pcs_def split: if_splits)
qed

lemma thread_succs_iff:
  "cond_ok s \<Longrightarrow> s' \<in> set (thread_succs s) \<longleftrightarrow> (\<exists>i < 3. s' \<in> set (start_wait i (pcs s ! i) s))"
  using start_signal_none [OF pcs_wait] by (auto simp: thread_succs_def cond_ok_def)

lemma wakes_ok: "cond_ok s \<Longrightarrow> s' \<in> set (wakes s) \<Longrightarrow> cond_ok s'"
proof -
  assume ok: "cond_ok s" and "s' \<in> set (wakes s)"
  then obtain i where i: "i < 3" "pcs s ! i = Asleep" "s' = s\<lparr>pcs := (pcs s)[i := Woken]\<rparr>"
    using wakes_iff by blast
  then show "cond_ok s'"
    by (intro cond_ok_move [OF ok i(1), of Woken]) (auto simp: wait_pcs_def holding_def)
qed

text \<open>A signal leaves one waiter less asleep, if there is one; a broadcast leaves none.\<close>

lemma signal_sleepy:
  assumes ok: "cond_ok s" and todo: "todo s = Signal # rest" and step: "s' \<in> set (signal (s\<lparr>todo := rest\<rparr>))"
  shows "cond_ok s'"
proof -
  have fit: "op_fits Signal rest" "ops_fit rest" using ok todo by (simp_all add: cond_ok_def)
  have own: "owner s = Main" using ok todo fit by (simp add: cond_ok_def op_fits_def)
  then have none: "\<not> holding (pcs s ! i)" if "i < 3" for i using ok that by (simp add: cond_ok_def)
  have ps: "length (pcs s) = 3" using ok by (simp add: cond_ok_def)
  then have "Wait \<notin> set (pcs s)" using none by (auto simp: in_set_conv_nth holding_def)
  then have sl: "sleepy (pcs s) = length (filter (\<lambda>p. p = Asleep) (pcs s))"
    unfolding sleepy_def by (metis (mono_tags, lifting) filter_cong)
  show ?thesis
  proof (cases "Asleep \<in> set (pcs s)")
    case True
    have "s' \<in> set (wakes (s\<lparr>todo := rest\<rparr>))"
    proof (cases "wakes (s\<lparr>todo := rest\<rparr>) = []")
      case True
      then show ?thesis using \<open>Asleep \<in> set (pcs s)\<close> by (auto simp: wakes_def in_set_conv_nth filter_empty_conv)
    qed (use step in \<open>simp add: signal_def\<close>)
    moreover have "(case rest of MAsleep # r \<Rightarrow> [f r] | _ \<Rightarrow> []) = []" for f :: "op list \<Rightarrow> cond_run"
      by (rule no_MAsleep [OF fit(2)])
    ultimately obtain i where i: "i < 3" "pcs s ! i = Asleep" "s' = s\<lparr>todo := rest, pcs := (pcs s)[i := Woken]\<rparr>"
      using ps by (auto simp: wakes_def)
    have "sleepy ((pcs s)[i := Woken]) + 1 = sleepy (pcs s)"
      using sleepy_update [of i "pcs s" Woken] i ps by simp
    moreover have "set ((pcs s)[i := Woken]) \<subseteq> insert Woken (set (pcs s))" by (rule set_update_subset_insert)
    ultimately show ?thesis
      using ok todo fit i ps
      by (auto simp: cond_ok_def op_fits_def to_wake_def holding_def wait_pcs_def nth_list_update)
  next
    case False
    then have "wakes (s\<lparr>todo := rest\<rparr>) = []"
      using no_MAsleep [OF fit(2)] by (auto simp: wakes_def in_set_conv_nth filter_empty_conv)
    then have "s' = s\<lparr>todo := rest\<rparr>" using step by (simp add: signal_def)
    moreover have "sleepy (pcs s) = 0" using False sl by (auto simp: filter_empty_conv)
    ultimately show ?thesis
      using ok todo fit by (auto simp: cond_ok_def op_fits_def)
  qed
qed

lemma broadcast_ok:
  assumes ok: "cond_ok s" and todo: "todo s = Broadcast # rest"
  shows "cond_ok (broadcast (s\<lparr>todo := rest\<rparr>))"
proof -
  let ?g = "\<lambda>p. if p = Asleep then Woken else p"
  have fit: "op_fits Broadcast rest" "ops_fit rest" using ok todo by (simp_all add: cond_ok_def)
  have "SetFoo 0 \<notin> set (todo s)" using fit todo by (simp add: op_fits_def)
  then have "Wait \<notin> set (pcs s)" using ok todo by (simp add: cond_ok_def)
  then have "sleepy (map ?g (pcs s)) = 0" by (auto simp: sleepy_def filter_empty_conv)
  moreover have "holding (?g p) = holding p" "(?g p = Idle) = (p = Idle)" "(?g p = Done) = (p = Done)" for p
    by (auto simp: holding_def)
  moreover have "set (map ?g (pcs s)) \<subseteq> wait_pcs" using ok by (auto simp: cond_ok_def wait_pcs_def)
  ultimately show ?thesis
    using ok todo fit by (simp add: cond_ok_def op_fits_def broadcast_def del: set_map)
qed

lemma main_succs_ok:
  assumes ok: "cond_ok s" and step: "s' \<in> set (main_succs s)"
  shows "cond_ok s'"
proof (cases "todo s")
  case Nil
  then show ?thesis using step by (simp add: main_succs_def)
next
  case (Cons x rest)
  have fit: "op_fits x rest" "ops_fit rest" using ok Cons by (simp_all add: cond_ok_def)
  have len: "length (pcs s) = 3" using ok by (simp add: cond_ok_def)
  show ?thesis
  proof (cases x)
    case (Create i p)
    have i: "i < 3" "p = Start" "pcs s ! i = Idle" using ok fit Cons Create by (auto simp: cond_ok_def op_fits_def)
    have "set ((pcs s)[i := Start]) \<subseteq> insert Start (set (pcs s))" by (rule set_update_subset_insert)
    then show ?thesis
      using ok fit step Cons Create i len
      by (auto simp: cond_ok_def op_fits_def main_succs_def holding_def wait_pcs_def nth_list_update)
  next
    case Signal
    then show ?thesis using signal_sleepy [OF ok, of rest s'] step Cons by (simp add: main_succs_def)
  next
    case Broadcast
    then show ?thesis using broadcast_ok [OF ok, of rest] step Cons by (simp add: main_succs_def)
  next
    case (SetFoo v)
    have "sleepy (pcs s) \<le> 3" using sleepy_le [of "pcs s"] len by simp
    moreover have "Wait \<notin> set (pcs s)" if "owner s = Main"
      using ok that len by (auto simp: cond_ok_def in_set_conv_nth holding_def)
    ultimately show ?thesis
      using ok fit step Cons SetFoo by (auto simp: cond_ok_def op_fits_def main_succs_def)
  next
    case (Join i)
    then show ?thesis
      using ok fit step Cons by (auto simp: cond_ok_def op_fits_def main_succs_def to_wake_def split: if_splits)
  next
    case (DestroyMutex l)
    have "owner s = Free"
      using ok fit Cons DestroyMutex by (cases "owner s") (auto simp: cond_ok_def op_fits_def holding_def)
    then show ?thesis
      using ok fit step Cons DestroyMutex by (auto simp: cond_ok_def op_fits_def main_succs_def to_wake_def)
  next
    case (DestroyCond l)
    have "Asleep \<notin> set (pcs s)"
      using ok fit Cons DestroyCond len by (auto simp: cond_ok_def op_fits_def in_set_conv_nth)
    then show ?thesis
      using ok fit step Cons DestroyCond
      by (auto simp: cond_ok_def op_fits_def main_succs_def to_wake_def)
  qed (use ok fit step Cons in \<open>auto simp: cond_ok_def op_fits_def main_succs_def to_wake_def split: if_splits\<close>)
qed

lemma reach_cond_ok:
  assumes "starts ops" and "reach spurious_succs (part ops v) s"
  shows "cond_ok s"
  using assms(2)
proof induction
  case reach_init
  show ?case by (rule cond_ok_part [OF assms(1)])
next
  case (reach_step s s')
  then consider "s' \<in> set (main_succs s)" | "s' \<in> set (thread_succs s)" | "s' \<in> set (wakes s)"
    by (auto simp: spurious_succs_def cond_succs_def)
  then show ?case
  proof cases
    case 2
    then obtain i where "i < 3" "s' \<in> set (start_wait i (pcs s ! i) s)"
      using thread_succs_iff [OF reach_step.IH] by blast
    then show ?thesis by (rule start_wait_ok [OF reach_step.IH])
  qed (rule main_succs_ok [OF reach_step.IH], assumption, rule wakes_ok [OF reach_step.IH], assumption)
qed

text \<open>What is left to do: every step that is not a spurious wake-up brings it down.\<close>

definition rank :: "pc \<Rightarrow> nat" where
  "rank p =
     (if p = Start \<or> p = Woken then 4 else if p = Test then 3 else if p = Wait then 2
      else if p = Asleep \<or> p = Unlocking then 1 else 0)"

definition weight :: "cond_run \<Rightarrow> nat" where
  "weight s = 13 * length (todo s) + sum_list (map rank (pcs s))"

lemma progress:
  assumes ok: "cond_ok s"
  shows "cond_succs s \<noteq> [] \<or> finished s"
proof (cases "\<exists>i < 3. start_wait i (pcs s ! i) s \<noteq> []")
  case True
  then obtain i s' where "i < 3" "s' \<in> set (start_wait i (pcs s ! i) s)"
    by (meson list.set_sel(1))
  then have "s' \<in> set (thread_succs s)" using thread_succs_iff [OF ok] by blast
  then show ?thesis by (auto simp: cond_succs_def)
next
  case False
  have len: "length (pcs s) = 3" using ok by (simp add: cond_ok_def)
  have free: "owner s \<noteq> Thread i" for i
  proof
    assume "owner s = Thread i"
    then have "i < 3" "holding (pcs s ! i)" using ok by (auto simp: cond_ok_def)
    then show False using False by (auto simp: holding_def start_wait_def)
  qed
  have rest: "pcs s ! i = Idle \<or> pcs s ! i = Asleep \<or> pcs s ! i = Done" if "i < 3" "owner s = Free" for i
    using pcs_wait [OF ok that(1)] False that by (auto simp: start_wait_def wait_pcs_def)
  show ?thesis
  proof (cases "todo s")
    case Nil
    then have "\<forall>i < 3. pcs s ! i = Done" "owner s \<noteq> Main" using ok by (simp_all add: cond_ok_def)
    moreover from this have "owner s = Free" using free by (cases "owner s") auto
    ultimately have "\<forall>i < 3. pcs s ! i = Done" "owner s = Free" by blast+
    then show ?thesis using Nil len by (auto simp: finished_def list_all_length)
  next
    case (Cons x xs)
    have fit: "op_fits x xs" using ok Cons by (simp add: cond_ok_def)
    have main: "main_succs s \<noteq> []"
    proof (cases x)
      case Lock
      then have "owner s = Free" using ok Cons free [of 0] free by (cases "owner s") (auto simp: cond_ok_def)
      then show ?thesis using Cons Lock by (simp add: main_succs_def)
    next
      case (Join i)
      have own: "owner s = Free"
        using ok Cons Join fit free by (cases "owner s") (auto simp: cond_ok_def op_fits_def)
      have "sleepy (pcs s) = 0" using ok Cons Join fit by (auto simp: cond_ok_def op_fits_def to_wake_def split: if_splits)
      then have "Asleep \<notin> set (pcs s)" by (auto simp: sleepy_def filter_empty_conv)
      then have "pcs s ! i \<noteq> Asleep" using len Join fit by (auto simp: op_fits_def in_set_conv_nth)
      moreover have "pcs s ! i \<noteq> Idle" using ok Cons Join fit by (auto simp: cond_ok_def op_fits_def)
      ultimately have "pcs s ! i = Done" using rest [of i] own fit Join by (auto simp: op_fits_def)
      then show ?thesis using Cons Join by (simp add: main_succs_def)
    next
      case Signal
      then show ?thesis using Cons by (simp add: main_succs_def signal_def Let_def)
    qed (use fit Cons in \<open>simp_all add: main_succs_def op_fits_def\<close>)
    then show ?thesis by (simp add: cond_succs_def)
  qed
qed

lemma sum_rank_update:
  "i < length ps \<Longrightarrow> sum_list (map rank (ps[i := q])) + rank (ps ! i) = sum_list (map rank ps) + rank q"
proof (induction ps arbitrary: i)
  case (Cons p ps)
  show ?case
  proof (cases i)
    case (Suc j)
    then show ?thesis using Cons.IH [of j] Cons.prems by simp
  qed simp
qed simp

lemma sum_rank_broadcast:
  "sum_list (map rank (map (\<lambda>p. if p = Asleep then Woken else p) ps)) \<le> sum_list (map rank ps) + 3 * length ps"
  by (induction ps) (auto simp: rank_def)

lemma weight_wait:
  assumes "i < length (pcs s)" and "s' \<in> set (start_wait i (pcs s ! i) s)"
  shows "weight s' < weight s"
  using assms(2) sum_rank_update [OF assms(1), of "pcs s' ! i"] assms(1)
  by (auto simp: start_wait_def weight_def rank_def split: if_splits)

lemma weight_signal:
  assumes ok: "ops_fit rest" and step: "s' \<in> set (signal (s\<lparr>todo := rest\<rparr>))"
  shows "weight s' \<le> 13 * length rest + sum_list (map rank (pcs s)) + 3"
proof -
  have "s' = s\<lparr>todo := rest\<rparr> \<or> s' \<in> set (wakes (s\<lparr>todo := rest\<rparr>))"
    using step by (auto simp: signal_def split: if_splits)
  moreover have "(case rest of MAsleep # r \<Rightarrow> [f r] | _ \<Rightarrow> []) = []" for f :: "op list \<Rightarrow> cond_run"
    by (rule no_MAsleep [OF ok])
  ultimately consider "s' = s\<lparr>todo := rest\<rparr>"
    | i where "i < length (pcs s)" "pcs s ! i = Asleep" "s' = s\<lparr>todo := rest, pcs := (pcs s)[i := Woken]\<rparr>"
    by (auto simp: wakes_def)
  then show ?thesis
  proof cases
    case 2
    then show ?thesis using sum_rank_update [OF 2(1), of Woken] by (simp add: weight_def rank_def)
  qed (simp add: weight_def)
qed

lemma weight_main:
  assumes ok: "cond_ok s" and step: "s' \<in> set (main_succs s)"
  shows "weight s' < weight s"
proof (cases "todo s")
  case Nil
  then show ?thesis using step by (simp add: main_succs_def)
next
  case (Cons x rest)
  have fit: "op_fits x rest" "ops_fit rest" and len: "length (pcs s) = 3" using ok Cons by (simp_all add: cond_ok_def)
  show ?thesis
  proof (cases x)
    case (Create i p)
    then have "i < length (pcs s)" "p = Start" using fit len by (simp_all add: op_fits_def)
    then show ?thesis
      using sum_rank_update [of i "pcs s" p] step Cons Create by (simp add: main_succs_def weight_def rank_def)
  next
    case Signal
    then show ?thesis
      using weight_signal [OF fit(2), of s' s] step Cons by (simp add: main_succs_def weight_def)
  next
    case Broadcast
    then show ?thesis
      using sum_rank_broadcast [of "pcs s"] step Cons len
      by (simp add: main_succs_def weight_def broadcast_def del: map_map)
  qed (use step Cons fit in \<open>auto simp: main_succs_def weight_def op_fits_def split: if_splits\<close>)
qed

lemma weight_step: "cond_ok s \<Longrightarrow> list_all (\<lambda>s'. weight s' < weight s) (cond_succs s)"
  using weight_main weight_wait thread_succs_iff
  by (fastforce simp: cond_succs_def list_all_iff cond_ok_def)

subsection \<open>The verdict of the test\<close>

lemma one_waiter_reach: "reach cond_succs (part one_waiter 0) s \<longleftrightarrow> s \<in> set states_one"
  by (rule reach_explore [OF states_one_def states_one_closed]) code_simp

lemma one_waiter_fine:
  assumes "reach cond_succs (part one_waiter 0) s"
  shows "errors s = [] \<and> (finished s \<or> cond_succs s \<noteq> [])"
  using assms states_one_fine unfolding one_waiter_reach list_all_iff by blast

lemma one_waiter_stuck:
  "\<exists>s. reach spurious_succs (part one_waiter 0) s \<and> spurious_succs s = [] \<and> owner s = Main \<and> pcs s ! 0 = SStart"
proof -
  obtain s where s: "stuck_one = [s]" "owner s = Main" "pcs s = [SStart, Idle, Idle]"
    using stuck_one_eq by (auto simp: map_eq_Cons_conv)
  have "s \<in> set stuck_one" unfolding s(1) by simp
  then have "s \<in> set (explore 200 spurious_succs [part one_waiter 0] [])" "spurious_succs s = []"
    by (simp_all only: stuck_one_def set_filter mem_Collect_eq)
  moreover from this have "reach spurious_succs (part one_waiter 0) s"
    by (intro explore_reach [where seen = "[]"]) (auto intro: reach.intros)
  ultimately show ?thesis using s by auto
qed

text \<open>C2: in the two parts of the condition variable test with three waiters, in every order of the calls and with any
  number of spurious wake-ups, no check fails and no run gets stuck: a state that is not the end has a step other
  than a spurious wake-up, and such steps cannot go on for ever, each of them making the weight smaller. The part with
  one waiter has the same property without spurious wake-ups; with one it can end in a deadlock, where the main thread
  joins the signalling thread while it holds the mutex that this thread waits for.\<close>

theorem pthread_cond_verdict:
  assumes "reach spurious_succs (part three_waiters v) s"
    and "reach spurious_succs (part three_woken v) t"
    and "reach cond_succs (part one_waiter 0) u"
  shows "errors s = [] \<and> (cond_succs s \<noteq> [] \<or> finished s) \<and> list_all (\<lambda>s'. weight s' < weight s) (cond_succs s) \<and>
    errors t = [] \<and> (cond_succs t \<noteq> [] \<or> finished t) \<and> list_all (\<lambda>t'. weight t' < weight t) (cond_succs t) \<and>
    errors u = [] \<and> (cond_succs u \<noteq> [] \<or> finished u) \<and>
    (\<exists>d. reach spurious_succs (part one_waiter 0) d \<and> spurious_succs d = [] \<and> owner d = Main \<and> pcs d ! 0 = SStart)"
proof -
  note s = reach_cond_ok [OF three_waiters_start assms(1)]
  note t = reach_cond_ok [OF three_woken_start assms(2)]
  have "errors s = []" "errors t = []" using s t by (simp_all add: cond_ok_def)
  then show ?thesis
    using progress [OF s] progress [OF t] weight_step [OF s] weight_step [OF t] one_waiter_fine [OF assms(3)]
      one_waiter_stuck
    by auto
qed

lemma pthread_cond_verdict_witness:
  "cond_succs (part three_waiters 0) \<noteq> [] \<and> cond_succs (part three_woken 0) \<noteq> [] \<and>
   list_all (\<lambda>s'. weight s' < weight (part three_waiters 0)) (cond_succs (part three_waiters 0))"
  using pthread_cond_verdict [of 0 "part three_waiters 0" "part three_woken 0" "part one_waiter 0"]
  by (auto intro: reach_init simp: finished_def part_def three_waiters_def three_woken_def)

end
