(* ===== verification/StringBasics.thy ===== *)
theory StringBasics
  imports StringStrchr
begin

text \<open>
  string.c of libc/src/functional: sanity checks of the functions of <string.h> on one buffer of 32 bytes.  The
  functions are arguments; pointers into the buffer are offsets, a string that is read may also be a literal, and
  \<open>'h\<close> is what \<open>strtok\<close> remembers between its calls.
\<close>

subsection \<open>The test\<close>

datatype src = At nat | Lit cstr

record 'h str_fns =
  f_strcpy :: "mem \<Rightarrow> nat \<Rightarrow> src \<Rightarrow> nat \<times> mem"
  f_memset :: "mem \<Rightarrow> nat \<Rightarrow> char \<Rightarrow> nat \<Rightarrow> nat \<times> mem"
  f_strncpy :: "mem \<Rightarrow> nat \<Rightarrow> cstr \<Rightarrow> nat \<Rightarrow> nat \<times> mem"
  f_memcmp :: "mem \<Rightarrow> nat \<Rightarrow> char list \<Rightarrow> nat \<Rightarrow> int"
  f_strncmp :: "cstr \<Rightarrow> cstr \<Rightarrow> nat \<Rightarrow> int"
  f_strncat :: "mem \<Rightarrow> nat \<Rightarrow> cstr \<Rightarrow> nat \<Rightarrow> nat \<times> mem"
  f_strchr :: "mem \<Rightarrow> nat \<Rightarrow> char \<Rightarrow> nat option"
  f_strrchr :: "mem \<Rightarrow> nat \<Rightarrow> char \<Rightarrow> nat option"
  f_strspn :: "mem \<Rightarrow> nat \<Rightarrow> cstr \<Rightarrow> nat"
  f_strcspn :: "mem \<Rightarrow> nat \<Rightarrow> cstr \<Rightarrow> nat"
  f_strpbrk :: "mem \<Rightarrow> nat \<Rightarrow> cstr \<Rightarrow> nat option"
  f_strtok :: "'h \<Rightarrow> mem \<Rightarrow> nat option \<Rightarrow> cstr \<Rightarrow> nat option \<times> mem \<times> 'h"
  f_strlcpy :: "mem \<Rightarrow> nat option \<Rightarrow> cstr \<Rightarrow> nat \<Rightarrow> nat \<times> mem"
  f_strlcat :: "mem \<Rightarrow> nat \<Rightarrow> cstr \<Rightarrow> nat \<Rightarrow> nat \<times> mem"

definition string_at :: "mem \<Rightarrow> nat \<Rightarrow> cstr" where
  "string_at m k = c_string (drop k m)"

text \<open>\<open>TEST_S\<close> at line \<open>l\<close>.\<close>

definition test_s :: "nat \<Rightarrow> mem \<Rightarrow> nat \<Rightarrow> cstr \<Rightarrow> log" where
  "test_s l m s x = check l (strcmp (string_at m s) x = 0)"

text \<open>Lines \<open>l\<close> and \<open>l + 1\<close>: \<open>strcpy(b+d, src)\<close>, its result and the string there.\<close>

definition test_strcpy :: "'h str_fns \<Rightarrow> nat \<Rightarrow> nat \<Rightarrow> nat \<Rightarrow> cstr \<Rightarrow> log \<times> mem \<Rightarrow> log \<times> mem" where
  "test_strcpy f l d k x b =
     (case b of (ls, m) \<Rightarrow>
      case f_strcpy f m d (At k) of (s, m) \<Rightarrow>
        (ls @ check l (s = d) @ test_s (l + 1) m s x, m))"

definition copy_tests :: "'h str_fns \<Rightarrow> mem \<Rightarrow> log \<times> mem" where
  "copy_tests f m =
     (let b = ([], m[16 := CHR ''a'', 17 := CHR ''b'', 18 := CHR ''c'', 19 := NUL]);
          b = test_strcpy f 28 0 16 ''abc'' b;
          b = test_strcpy f 30 1 16 ''abc'' b;
          b = test_strcpy f 32 2 16 ''abc'' b;
          b = test_strcpy f 34 3 16 ''abc'' b;
          b = test_strcpy f 37 1 17 ''bc'' b;
          b = test_strcpy f 39 2 18 ''c'' b
      in test_strcpy f 41 3 19 [] b)"

definition fill_tests :: "'h str_fns \<Rightarrow> mem \<Rightarrow> log \<times> mem" where
  "fill_tests f m =
     (let (s, m) = f_memset f m 0 CHR ''x'' 32;
          ls = check 44 (s = 0);
          (s, m) = f_strncpy f m 0 ''abc'' 31;
          ls = ls @ check 45 (s = 0);
          ls = ls @ check 46 (f_memcmp f m 0 (''abc'' @ replicate 5 NUL) 8 = 0);
          ls = ls @ check 47 (m ! 31 = CHR ''x'');
          m = m[3 := CHR ''x'', 4 := NUL];
          m = snd (f_strncpy f m 0 ''abc'' 3);
          ls = ls @ check 51 (m ! 2 = CHR ''c'') @ check 52 (m ! 3 = CHR ''x'');
          ls = ls @ check 54 (f_strncmp f ''abcd'' ''abce'' 3 = 0) @ check 55 (f_strncmp f ''abc'' ''abd'' 3 \<noteq> 0);
          m = snd (f_strcpy f m 0 (Lit ''abc''));
          (s, m) = f_strncat f m 0 ''123456'' 3
      in (ls @ check 58 (s = 0) @ check 59 (m ! 6 = NUL) @ test_s 60 m s ''abc123'', m))"

definition scan_tests :: "'h str_fns \<Rightarrow> mem \<Rightarrow> log \<times> mem" where
  "scan_tests f m =
     (let m = snd (f_strcpy f m 0 (Lit ''aaababccdd0001122223''))
      in (check 63 (f_strchr f m 0 CHR ''b'' = Some 3) @
          check 64 (f_strrchr f m 0 CHR ''b'' = Some 5) @
          check 65 (f_strspn f m 0 ''abcd'' = 10) @
          check 66 (f_strcspn f m 0 ''0123'' = 10) @
          check 67 (f_strpbrk f m 0 ''0123'' = Some 10), m))"

text \<open>One use of \<open>strtok\<close>, with the checks of lines \<open>l\<close> and \<open>l + 1\<close>; \<open>None\<close> if a null result is compared.\<close>

definition test_strtok ::
    "'h str_fns \<Rightarrow> nat \<Rightarrow> nat option \<Rightarrow> cstr \<Rightarrow> nat \<Rightarrow> cstr \<Rightarrow> log \<times> mem \<times> 'h \<Rightarrow> (log \<times> mem \<times> 'h) option" where
  "test_strtok f l p sep k x b =
     (case b of (ls, m, h) \<Rightarrow>
      case f_strtok f h m p sep of (s, m, h) \<Rightarrow>
        map_option (\<lambda>s. (ls @ check l (s = k) @ test_s (l + 1) m s x, m, h)) s)"

definition token_tests :: "'h str_fns \<Rightarrow> mem \<times> 'h \<Rightarrow> (log \<times> mem \<times> 'h) option" where
  "token_tests f w =
     do {
       let (m, h) = w;
       let m = snd (f_strcpy f m 0 (Lit ''abc   123; xyz; foo''));
       b \<leftarrow> test_strtok f 70 (Some 0) '' '' 0 ''abc'' ([], m, h);
       b \<leftarrow> test_strtok f 73 None '';'' 4 ''  123'' b;
       b \<leftarrow> test_strtok f 76 None '' ;'' 11 ''xyz'' b;
       test_strtok f 79 None '' ;'' 16 ''foo'' b
     }"

definition strlcpy_tests :: "'h str_fns \<Rightarrow> mem \<Rightarrow> log \<times> mem" where
  "strlcpy_tests f m =
     (let m = snd (f_memset f m 0 CHR ''x'' 32);
          (i, m) = f_strlcpy f m (Some 0) ''abc'' 31;
          ls = check 83 (i = 3) @ check 84 (m ! 3 = NUL) @ check 85 (m ! 4 = CHR ''x'');
          m = snd (f_memset f m 0 CHR ''x'' 32);
          (i, m) = f_strlcpy f m (Some 0) ''abc'' 2;
          ls = ls @ check 88 (i = 3) @ check 89 (m ! 0 = CHR ''a'') @ check 90 (m ! 1 = NUL);
          m = snd (f_memset f m 0 CHR ''x'' 32);
          (i, m) = f_strlcpy f m (Some 0) ''abc'' 3;
          ls = ls @ check 93 (i = 3) @ check 94 (m ! 2 = NUL);
          (i, m) = f_strlcpy f m None ''abc'' 0
      in (ls @ check 96 (i = 3), m))"

text \<open>Line \<open>l\<close>: \<open>strlcat(b, "123", n)\<close> after \<open>b\<close> was set.\<close>

definition test_strlcat :: "'h str_fns \<Rightarrow> nat \<Rightarrow> nat \<Rightarrow> cstr \<Rightarrow> mem \<Rightarrow> log \<times> mem" where
  "test_strlcat f l n x m =
     (let m = put m 0 (''abc'' @ replicate 3 NUL @ ''x'' @ [NUL]);
          (i, m) = f_strlcat f m 0 ''123'' n
      in (check l (i = 6) @ test_s (l + 1) m 0 x, m))"

definition strlcat_tests :: "'h str_fns \<Rightarrow> mem \<Rightarrow> log \<times> mem" where
  "strlcat_tests f m =
     (let (l1, m) = test_strlcat f 99 32 ''abc123'' m;
          (l2, m) = test_strlcat f 103 6 ''abc12'' m;
          l3 = check 105 (m ! 6 = CHR ''x'');
          (l4, m) = test_strlcat f 108 4 ''abc'' m;
          (l5, m) = test_strlcat f 112 3 ''abc'' m
      in (l1 @ l2 @ l3 @ l4 @ l5, m))"

definition string_main :: "'h str_fns \<Rightarrow> mem \<times> 'h \<Rightarrow> log option" where
  "string_main f w =
     do {
       let (m, h) = w;
       let (l1, m) = copy_tests f m;
       let (l2, m) = fill_tests f m;
       let (l3, m) = scan_tests f m;
       (l4, m, h) \<leftarrow> token_tests f (m, h);
       let (l5, m) = strlcpy_tests f m;
       let (l6, m) = strlcat_tests f m;
       Some (l1 @ l2 @ l3 @ l4 @ l5 @ l6)
     }"

subsection \<open>The functions\<close>

definition src_str :: "mem \<Rightarrow> src \<Rightarrow> cstr" where
  "src_str m x = (case x of At k \<Rightarrow> string_at m k | Lit s \<Rightarrow> s)"

definition terminated :: "mem \<Rightarrow> nat \<Rightarrow> bool" where
  "terminated m k \<longleftrightarrow> NUL \<in> set (drop k m)"

text \<open>The bytes from \<open>d\<close> on that \<open>strcpy\<close> stores do not meet those that it reads.\<close>

definition apart :: "mem \<Rightarrow> nat \<Rightarrow> src \<Rightarrow> bool" where
  "apart m d x \<longleftrightarrow>
     (case x of
        At k \<Rightarrow> terminated m k \<and>
          (let n = length (string_at m k) + 1 in d + n \<le> k \<or> k + n \<le> d)
      | Lit s \<Rightarrow> NUL \<notin> set s)"

definition find_set :: "mem \<Rightarrow> nat \<Rightarrow> cstr \<Rightarrow> nat option" where
  "find_set m d s =
     (let k = length (takeWhile (\<lambda>c. c \<notin> set s) (string_at m d))
      in if k < length (string_at m d) then Some (d + k) else None)"

text \<open>The token at or after \<open>p\<close>, the memory and the place where the next search starts.\<close>

definition token :: "mem \<Rightarrow> nat \<Rightarrow> cstr \<Rightarrow> nat option \<times> mem \<times> nat" where
  "token m p sep =
     (let s = string_at m p;
          a = length (takeWhile (\<lambda>c. c \<in> set sep) s);
          n = length (takeWhile (\<lambda>c. c \<notin> set sep) (drop a s))
      in if a = length s then (None, m, p + a)
         else if a + n = length s then (Some (p + a), m, p + a + n)
         else (Some (p + a), m[p + a + n := NUL], p + a + n + 1))"

definition strlcat_spec :: "mem \<Rightarrow> nat \<Rightarrow> cstr \<Rightarrow> nat \<Rightarrow> nat \<times> mem" where
  "strlcat_spec m d s n =
     (let l = length (c_string (take n (drop d m)))
      in (l + length s, if l = n then m else put m (d + l) (take (n - 1 - l) s @ [NUL])))"

text \<open>Evaluation on buffers that are written out.\<close>

lemmas buffer_simps = put_def string_at_def c_string_def src_str_def apart_def terminated_def NUL_def Let_def

locale string_contract =
  fixes f :: "'h str_fns" and pos :: "'h \<Rightarrow> nat"
  assumes strcpy_law: "apart m d x \<Longrightarrow> d + length (src_str m x) < length m \<Longrightarrow>
      f_strcpy f m d x = (d, put m d (src_str m x @ [NUL]))"
    and memset_law: "d + n \<le> length m \<Longrightarrow> f_memset f m d c n = (d, put m d (replicate n c))"
    and strncpy_law: "d + n \<le> length m \<Longrightarrow> NUL \<notin> set s \<Longrightarrow>
      f_strncpy f m d s n = (d, put m d (take n (s @ replicate n NUL)))"
    and memcmp_law: "d + n \<le> length m \<Longrightarrow> n \<le> length s \<Longrightarrow> f_memcmp f m d s n = 0 \<longleftrightarrow> take n (drop d m) = take n s"
    and strncmp_law: "NUL \<notin> set s \<Longrightarrow> NUL \<notin> set t \<Longrightarrow> f_strncmp f s t n = 0 \<longleftrightarrow> take n s = take n t"
    and strncat_law: "terminated m d \<Longrightarrow> NUL \<notin> set s \<Longrightarrow>
      d + length (string_at m d) + length (take n s) < length m \<Longrightarrow>
      f_strncat f m d s n = (d, put m (d + length (string_at m d)) (take n s @ [NUL]))"
    and strchr_law: "terminated m d \<Longrightarrow>
      f_strchr f m d c = map_option (\<lambda>i. d + i) (CString.strchr (string_at m d) c)"
    and strrchr_law: "terminated m d \<Longrightarrow>
      f_strrchr f m d c = map_option (\<lambda>i. d + i) (CString.strrchr (string_at m d) c)"
    and strspn_law: "terminated m d \<Longrightarrow>
      f_strspn f m d s = length (takeWhile (\<lambda>c. c \<in> set s) (string_at m d))"
    and strcspn_law: "terminated m d \<Longrightarrow>
      f_strcspn f m d s = length (takeWhile (\<lambda>c. c \<notin> set s) (string_at m d))"
    and strpbrk_law: "terminated m d \<Longrightarrow> f_strpbrk f m d s = find_set m d s"
    and strtok_first_law: "terminated m d \<Longrightarrow>
      \<exists>h'. f_strtok f h m (Some d) s = (fst (token m d s), fst (snd (token m d s)), h') \<and>
        pos h' = snd (snd (token m d s))"
    and strtok_next_law: "terminated m (pos h) \<Longrightarrow>
      \<exists>h'. f_strtok f h m None s = (fst (token m (pos h) s), fst (snd (token m (pos h) s)), h') \<and>
        pos h' = snd (snd (token m (pos h) s))"
    and strlcpy_law: "0 < n \<Longrightarrow> d + length (take (n - 1) s) < length m \<Longrightarrow>
      f_strlcpy f m (Some d) s n = (length s, put m d (take (n - 1) s @ [NUL]))"
    and strlcpy_0_law: "f_strlcpy f m p s 0 = (length s, m)"
    and strlcat_law: "d + n \<le> length m \<Longrightarrow> f_strlcat f m d s n = strlcat_spec m d s n"
begin

lemmas laws = strcpy_law memset_law strncpy_law memcmp_law strncmp_law strncat_law strchr_law strrchr_law
  strspn_law strcspn_law strpbrk_law strlcpy_law strlcpy_0_law strlcat_law

lemma copy_tests_explicit:
  "m = [b0, b1, b2, b3, b4, b5, b6, b7, b8, b9, b10, b11, b12, b13, b14, b15, b16, b17, b18, b19, b20, b21, b22, b23, b24, b25, b26, b27, b28, b29, b30, b31] \<Longrightarrow> fst (copy_tests f m) = [] \<and> length (snd (copy_tests f m)) = 32"
  by (simp add: copy_tests_def test_strcpy_def test_s_def laws buffer_simps)

lemma fill_tests_silent:
  "length m = 32 \<Longrightarrow> \<exists>m'. fill_tests f m = ([], m') \<and> length m' = 32"
  by (simp add: fill_tests_def test_s_def laws buffer_simps nth_append)

lemma scan_tests_silent:
  "length m = 32 \<Longrightarrow> \<exists>m'. scan_tests f m = ([], m') \<and> length m' = 32"
  by (simp add: scan_tests_def test_s_def laws buffer_simps find_set_def)

lemma token_tests_silent:
  assumes "length m = 32"
  shows "\<exists>m' h'. token_tests f (m, h) = Some ([], m', h') \<and> length m' = 32"
proof -
  define M where "M = put m 0 (''abc   123; xyz; foo'' @ [NUL])"
  define M1 where "M1 = M[3 := NUL]"
  define M2 where "M2 = M1[9 := NUL]"
  define M3 where "M3 = M2[14 := NUL]"
  note M_defs = M3_def M2_def M1_def M_def
  have m: "f_strcpy f m 0 (Lit ''abc   123; xyz; foo'') = (0, M)"
    using assms by (simp add: strcpy_law src_str_def apart_def NUL_def M_def)
  have t: "token M 0 '' '' = (Some 0, M1, 4)" "token M1 4 '';'' = (Some 4, M2, 10)"
    "token M2 10 '' ;'' = (Some 11, M3, 15)" "token M3 15 '' ;'' = (Some 16, M3, 19)"
    by (simp_all add: token_def M_defs buffer_simps)
  have z: "terminated M 0" "terminated M1 4" "terminated M2 10" "terminated M3 15"
    by (simp_all add: M_defs buffer_simps)
  have st: "string_at M1 0 = ''abc''" "string_at M2 4 = ''  123''" "string_at M3 11 = ''xyz''"
    "string_at M3 16 = ''foo''" "length M3 = 32"
    using assms by (simp_all add: M_defs buffer_simps)
  obtain h1 where h1: "f_strtok f h M (Some 0) '' '' = (Some 0, M1, h1)" "pos h1 = 4"
    using strtok_first_law [OF z(1), of h "'' ''"] by (auto simp: t)
  obtain h2 where h2: "f_strtok f h1 M1 None '';'' = (Some 4, M2, h2)" "pos h2 = 10"
    using strtok_next_law [of M1 h1 "'';''"] h1 z by (auto simp: t)
  obtain h3 where h3: "f_strtok f h2 M2 None '' ;'' = (Some 11, M3, h3)" "pos h3 = 15"
    using strtok_next_law [of M2 h2 "'' ;''"] h2 z by (auto simp: t)
  obtain h4 where h4: "f_strtok f h3 M3 None '' ;'' = (Some 16, M3, h4)"
    using strtok_next_law [of M3 h3 "'' ;''"] h3 z by (auto simp: t)
  show ?thesis
    using st by (simp add: token_tests_def test_strtok_def test_s_def m h1 h2 h3 h4)
qed

lemma strlcpy_tests_silent:
  "length m = 32 \<Longrightarrow> \<exists>m'. strlcpy_tests f m = ([], m') \<and> length m' = 32"
  by (simp add: strlcpy_tests_def laws buffer_simps)

lemma strlcat_tests_silent:
  "length m = 32 \<Longrightarrow> \<exists>m'. strlcat_tests f m = ([], m') \<and> length m' = 32"
  by (simp add: strlcat_tests_def test_strlcat_def test_s_def laws buffer_simps strlcat_spec_def)

lemma string_main_silent:
  assumes "length m = 32"
  shows "string_main f (m, h) = Some []"
proof -
  have "fst (copy_tests f m) = [] \<and> length (snd (copy_tests f m)) = 32"
    using assms copy_tests_explicit by (auto simp: length_Suc_conv eval_nat_numeral)
  then obtain m1 where m1: "copy_tests f m = ([], m1)" "length m1 = 32" by (cases "copy_tests f m") auto
  obtain m2 where m2: "fill_tests f m1 = ([], m2)" "length m2 = 32" using fill_tests_silent [OF m1(2)] by blast
  obtain m3 where m3: "scan_tests f m2 = ([], m3)" "length m3 = 32" using scan_tests_silent [OF m2(2)] by blast
  obtain m4 h4 where m4: "token_tests f (m3, h) = Some ([], m4, h4)" "length m4 = 32"
    using token_tests_silent [OF m3(2)] by blast
  obtain m5 where m5: "strlcpy_tests f m4 = ([], m5)" "length m5 = 32" using strlcpy_tests_silent [OF m4(2)] by blast
  obtain m6 where m6: "strlcat_tests f m5 = ([], m6)" using strlcat_tests_silent [OF m5(2)] by blast
  show ?thesis
    by (simp add: string_main_def m1(1) m2(1) m3(1) m4(1) m5(1) m6(1))
qed

end

subsection \<open>Functions that keep the contract\<close>

definition str_ref :: "nat str_fns" where
  "str_ref =
     \<lparr>f_strcpy = (\<lambda>m d x. (d, put m d (src_str m x @ [NUL]))),
      f_memset = (\<lambda>m d c n. (d, put m d (replicate n c))),
      f_strncpy = (\<lambda>m d s n. (d, put m d (take n (s @ replicate n NUL)))),
      f_memcmp = (\<lambda>m d s n. if take n (drop d m) = take n s then 0 else 1),
      f_strncmp = (\<lambda>s t n. strcmp (take n s) (take n t)),
      f_strncat = (\<lambda>m d s n. (d, put m (d + length (string_at m d)) (take n s @ [NUL]))),
      f_strchr = (\<lambda>m d c. map_option (\<lambda>i. d + i) (CString.strchr (string_at m d) c)),
      f_strrchr = (\<lambda>m d c. map_option (\<lambda>i. d + i) (CString.strrchr (string_at m d) c)),
      f_strspn = (\<lambda>m d s. length (takeWhile (\<lambda>c. c \<in> set s) (string_at m d))),
      f_strcspn = (\<lambda>m d s. length (takeWhile (\<lambda>c. c \<notin> set s) (string_at m d))),
      f_strpbrk = find_set,
      f_strtok = (\<lambda>h m p s. token m (case p of None \<Rightarrow> h | Some k \<Rightarrow> k) s),
      f_strlcpy = (\<lambda>m p s n. (length s, case p of None \<Rightarrow> m | Some d \<Rightarrow>
        if n = 0 then m else put m d (take (n - 1) s @ [NUL]))),
      f_strlcat = strlcat_spec\<rparr>"

lemma strncmp_ref: "NUL \<notin> set s \<Longrightarrow> NUL \<notin> set t \<Longrightarrow> strcmp (take n s) (take n t) = 0 \<longleftrightarrow> take n s = take n t"
  by (rule strcmp_0_iff) (auto dest: in_set_takeD)

interpretation bref: string_contract str_ref id
  by unfold_locales (auto simp: str_ref_def strncmp_ref split: option.split)



end
