(* ===== verification/EnvTest.thy ===== *)
theory EnvTest
  imports CString TestLog "HOL-Library.AList"
begin

text \<open>
  env.c of libc/src/functional, the environment of a process, and setenv-oom.c of libc/src/regression.  The functions
  are arguments over a state \<open>'w\<close> from which \<open>environ\<close> can be read: \<open>None\<close> for a null pointer, or the strings before
  the null pointer at its end.  A call gives its result, \<open>errno\<close> as it leaves it (cleared before) and the state.
\<close>

subsection \<open>The tests\<close>

definition EINVAL :: int where "EINVAL = 22"
definition ENOMEM :: int where "ENOMEM = 12"

record 'w env_fns =
  environ :: "'w \<Rightarrow> cstr list option"
  e_clearenv :: "'w \<Rightarrow> int \<times> 'w"
  e_putenv :: "cstr \<Rightarrow> 'w \<Rightarrow> int \<times> 'w"
  e_getenv :: "cstr \<Rightarrow> 'w \<Rightarrow> cstr option"
  e_setenv :: "cstr \<Rightarrow> cstr \<Rightarrow> bool \<Rightarrow> 'w \<Rightarrow> int \<times> int \<times> 'w"
  e_unsetenv :: "cstr \<Rightarrow> 'w \<Rightarrow> int \<times> 'w"
  e_memfill :: "'w \<Rightarrow> int \<times> 'w"

text \<open>\<open>environ[i]\<close>: no value when \<open>environ\<close> is null or \<open>i\<close> is past the end, else a pointer that may be null.\<close>

definition cell :: "'w env_fns \<Rightarrow> 'w \<Rightarrow> nat \<Rightarrow> cstr option option" where
  "cell f w i =
     (case environ f w of
        None \<Rightarrow> None
      | Some es \<Rightarrow> if i < length es then Some (Some (es ! i)) else if i = length es then Some None else None)"

text \<open>The result of \<open>main\<close> is \<open>None\<close> when it uses a null pointer.\<close>

definition env_main :: "'w env_fns \<Rightarrow> 'w \<Rightarrow> log option" where
  "env_main f w =
     do {
       let ls = check 18 (environ f w \<noteq> None);
       let (r, w) = e_clearenv f w;
       let ls = ls @ check 20 (\<not> (r \<noteq> 0 \<or> environ f w \<noteq> None \<and> environ f w \<noteq> Some []));
       let (r, w) = e_putenv f ''TEST=1'' w;
       let ls = ls @ check 22 (r = 0);
       e0 \<leftarrow> cell f w 0;
       e0 \<leftarrow> e0;
       let ls = ls @ check 24 (strcmp e0 ''TEST=1'' = 0);
       s \<leftarrow> cell f w 1;
       let ls = ls @ check 26 (s = None);
       let s = e_getenv f ''TEST'' w;
       let ls = ls @ check 28 (s \<noteq> None);
       s \<leftarrow> s;
       let ls = ls @ check 30 (strcmp s ''1'' = 0);
       let (r, w) = e_unsetenv f ''TEST'' w;
       let ls = ls @ check 32 (r = 0);
       s \<leftarrow> cell f w 0;
       let ls = ls @ check 34 (s = None);
       let ls = ls @ check 36 (e_getenv f ''TEST'' w = None);
       let (r, _, w) = e_setenv f ''TEST'' ''2'' False w;
       let ls = ls @ check 39 (r = 0);
       s \<leftarrow> e_getenv f ''TEST'' w;
       let ls = ls @ check 41 (strcmp s ''2'' = 0);
       e0 \<leftarrow> cell f w 0;
       e0 \<leftarrow> e0;
       let ls = ls @ check 43 (strcmp e0 ''TEST=2'' = 0);
       let (r, _, w) = e_setenv f ''TEST'' ''3'' False w;
       let ls = ls @ check 46 (r = 0);
       s \<leftarrow> e_getenv f ''TEST'' w;
       let ls = ls @ check 48 (strcmp s ''2'' = 0);
       let (r, _, w) = e_setenv f ''TEST'' ''3'' True w;
       let ls = ls @ check 51 (r = 0);
       s \<leftarrow> e_getenv f ''TEST'' w;
       let ls = ls @ check 53 (strcmp s ''3'' = 0);
       let (r, errno, w) = e_setenv f [] [] False w;
       Some (ls @ check 57 (\<not> (r \<noteq> -1 \<or> errno \<noteq> EINVAL)))
     }"

definition setenv_oom_main :: "'w env_fns \<Rightarrow> 'w \<Rightarrow> log" where
  "setenv_oom_main f w =
     (let (r, w) = e_memfill f w;
          ls = check 13 (\<not> r < 0);
          buf = replicate 9999 CHR ''x'';
          (r, errno, w) = e_setenv f ''TESTVAR'' buf True w
      in ls @ check 20 (r = -1) @ check 22 (errno = ENOMEM))"

subsection \<open>The contract\<close>

text \<open>
  \<open>vars w\<close> are the variables in the order of \<open>environ\<close>, each name once, and \<open>avail w\<close> is the number of bytes that can
  still be allocated.  A name is neither empty nor does it hold an equals sign.
\<close>

definition entry :: "cstr \<times> cstr \<Rightarrow> cstr" where
  "entry x = fst x @ ''='' @ snd x"

definition name_ok :: "cstr \<Rightarrow> bool" where
  "name_ok n \<longleftrightarrow> n \<noteq> [] \<and> CHR ''='' \<notin> set n"

locale env_contract =
  fixes f :: "'w env_fns" and vars :: "'w \<Rightarrow> (cstr \<times> cstr) list" and avail :: "'w \<Rightarrow> nat"
  assumes environ_law: "environ f w = Some (map entry (vars w)) \<or> environ f w = None \<and> vars w = []"
    and names_law: "distinct (map fst (vars w))"
    and clearenv_law: "\<exists>w'. e_clearenv f w = (0, w') \<and> vars w' = [] \<and> avail w \<le> avail w'"
    and putenv_law: "name_ok n \<Longrightarrow> 2000 \<le> avail w \<Longrightarrow>
      \<exists>w'. e_putenv f (entry (n, v)) w = (0, w') \<and> map_of (vars w') = (map_of (vars w))(n \<mapsto> v) \<and>
        avail w \<le> avail w' + 1000"
    and getenv_law: "name_ok n \<Longrightarrow> e_getenv f n w = map_of (vars w) n"
    and unsetenv_law: "name_ok n \<Longrightarrow>
      \<exists>w'. e_unsetenv f n w = (0, w') \<and> map_of (vars w') = (map_of (vars w))(n := None) \<and> avail w \<le> avail w' \<and>
        (environ f w \<noteq> None \<longrightarrow> environ f w' \<noteq> None)"
    and setenv_law: "name_ok n \<Longrightarrow> length v < 1000 \<Longrightarrow> 2000 \<le> avail w \<Longrightarrow>
      \<exists>e w'. e_setenv f n v ov w = (0, e, w') \<and>
        map_of (vars w') =
          (if \<not> ov \<and> map_of (vars w) n \<noteq> None then map_of (vars w) else (map_of (vars w))(n \<mapsto> v)) \<and>
        avail w \<le> avail w' + 2000"
    and setenv_EINVAL_law: "\<not> name_ok n \<Longrightarrow> \<exists>w'. e_setenv f n v ov w = (-1, EINVAL, w') \<and> vars w' = vars w"
    and setenv_ENOMEM_law: "name_ok n \<Longrightarrow> avail w < length v \<Longrightarrow> ov \<Longrightarrow>
      \<exists>w'. e_setenv f n v ov w = (-1, ENOMEM, w') \<and> vars w' = vars w"
    and memfill_law: "\<exists>r w'. e_memfill f w = (r, w') \<and> 0 \<le> r \<and> avail w' < 1000"
begin

lemma single_var:
  assumes "map_of (vars w) = [n \<mapsto> v]"
  shows "vars w = [(n, v)]" "environ f w = Some [entry (n, v)]"
proof -
  have d: "distinct (map fst (vars w))" by (rule names_law)
  have s: "set (vars w) = {(n, v)}"
  proof (rule set_eqI)
    fix x
    show "x \<in> set (vars w) \<longleftrightarrow> x \<in> {(n, v)}"
      using map_of_eq_Some_iff [OF d, of "fst x" "snd x"] assms by (cases x) (auto split: if_splits)
  qed
  have "length (vars w) = card (set (vars w))"
    using d by (simp add: distinct_card distinct_map)
  then have "length (vars w) = 1" using s by simp
  then show *: "vars w = [(n, v)]" using s by (auto simp: length_Suc_conv)
  show "environ f w = Some [entry (n, v)]" using environ_law [of w] * by simp
qed

lemma no_vars:
  assumes "map_of (vars w) = Map.empty" and "environ f w \<noteq> None"
  shows "environ f w = Some []"
  using assms environ_law [of w] by (auto simp: map_of_eq_empty_iff)

lemma env_main_verdict:
  assumes avail: "16000 \<le> avail w"
  shows "env_main f w = Some (check 18 (environ f w \<noteq> None))"
proof -
  have ok: "name_ok ''TEST''" "\<not> name_ok []" by (simp_all add: name_ok_def)
  obtain w1 where w1: "e_clearenv f w = (0, w1)" "vars w1 = []" "16000 \<le> avail w1"
    using clearenv_law [of w] avail by auto
  have n1: "environ f w1 = None \<or> environ f w1 = Some []" using environ_law [of w1] w1 by auto
  obtain w2 where w2: "e_putenv f (entry (''TEST'', ''1'')) w1 = (0, w2)" "map_of (vars w2) = [''TEST'' \<mapsto> ''1'']"
      "15000 \<le> avail w2"
    using putenv_law [OF ok(1), of w1 "''1''"] w1 by auto
  note n2 = single_var [OF w2(2)]
  obtain w3 where w3: "e_unsetenv f ''TEST'' w2 = (0, w3)" "map_of (vars w3) = Map.empty" "environ f w3 \<noteq> None"
      "15000 \<le> avail w3"
    using unsetenv_law [OF ok(1), of w2] w2 n2 by auto
  note n3 = no_vars [OF w3(2,3)]
  obtain e4 w4 where w4: "e_setenv f ''TEST'' ''2'' False w3 = (0, e4, w4)" "map_of (vars w4) = [''TEST'' \<mapsto> ''2'']"
      "13000 \<le> avail w4"
    using setenv_law [OF ok(1), of "''2''" w3 False] w3 by auto
  note n4 = single_var [OF w4(2)]
  obtain e5 w5 where w5: "e_setenv f ''TEST'' ''3'' False w4 = (0, e5, w5)" "map_of (vars w5) = [''TEST'' \<mapsto> ''2'']"
      "11000 \<le> avail w5"
    using setenv_law [OF ok(1), of "''3''" w4 False] w4 by auto
  obtain e6 w6 where w6: "e_setenv f ''TEST'' ''3'' True w5 = (0, e6, w6)" "map_of (vars w6) = [''TEST'' \<mapsto> ''3'']"
    using setenv_law [OF ok(1), of "''3''" w5 True] w5 by auto
  obtain w7 where w7: "e_setenv f [] [] False w6 = (-1, EINVAL, w7)"
    using setenv_EINVAL_law [OF ok(2), of "[]" False w6] by auto
  have get: "e_getenv f ''TEST'' w' = map_of (vars w') ''TEST''" for w' by (rule getenv_law [OF ok(1)])
  show ?thesis
    using n1 w1(1) w2(1,2) w3(1,2) w4(1,2) w5(1,2) w6(1,2) w7 n2(2) n3 n4(2)
    by (auto simp: env_main_def cell_def entry_def get)
qed

lemma setenv_oom_silent: "setenv_oom_main f w = []"
proof -
  obtain r w1 where w1: "e_memfill f w = (r, w1)" "0 \<le> r" "avail w1 < 1000" using memfill_law [of w] by blast
  obtain w2 where "e_setenv f ''TESTVAR'' (replicate 9999 CHR ''x'') True w1 = (-1, ENOMEM, w2)"
    using setenv_ENOMEM_law [of "''TESTVAR''" w1 "replicate 9999 CHR ''x''" True] w1 by (auto simp: name_ok_def)
  then show ?thesis using w1 by (simp add: setenv_oom_main_def)
qed

end

subsection \<open>An environment that keeps the contract\<close>

text \<open>The variables with the bytes that are left; clearing the environment makes \<open>environ\<close> null.\<close>

type_synonym env_state = "(cstr \<times> cstr) list option \<times> nat"

definition vars_of :: "env_state \<Rightarrow> (cstr \<times> cstr) list" where
  "vars_of w = AList.clearjunk (case fst w of None \<Rightarrow> [] | Some vs \<Rightarrow> vs)"

definition split_entry :: "cstr \<Rightarrow> cstr \<times> cstr" where
  "split_entry s = (takeWhile (\<lambda>c. c \<noteq> CHR ''='') s, tl (dropWhile (\<lambda>c. c \<noteq> CHR ''='') s))"

definition set_var :: "cstr \<Rightarrow> cstr \<Rightarrow> env_state \<Rightarrow> env_state" where
  "set_var n v w = (Some (AList.update n v (vars_of w)), snd w - length v)"

definition env_ref :: "env_state env_fns" where
  "env_ref =
     \<lparr>environ = (\<lambda>w. map_option (\<lambda>_. map entry (vars_of w)) (fst w)),
      e_clearenv = (\<lambda>w. (0, (None, snd w))),
      e_putenv = (\<lambda>s w. case split_entry s of (n, v) \<Rightarrow> (0, (fst (set_var n v w), snd w))),
      e_getenv = (\<lambda>n w. map_of (vars_of w) n),
      e_setenv = (\<lambda>n v ov w.
        if \<not> name_ok n then (-1, EINVAL, w)
        else if \<not> ov \<and> map_of (vars_of w) n \<noteq> None then (0, 0, w)
        else if snd w < length v then (-1, ENOMEM, w)
        else (0, 0, set_var n v w)),
      e_unsetenv = (\<lambda>n w. (0, (map_option (\<lambda>_. AList.delete n (vars_of w)) (fst w), snd w))),
      e_memfill = (\<lambda>w. (0, (fst w, 0)))\<rparr>"

lemma distinct_vars_of: "distinct (map fst (vars_of w))"
  by (simp add: vars_of_def)

lemma map_of_vars_of: "map_of (vars_of w) = map_of (case fst w of None \<Rightarrow> [] | Some vs \<Rightarrow> vs)"
  by (simp add: vars_of_def map_of_clearjunk)

lemma split_entry: "name_ok n \<Longrightarrow> split_entry (entry (n, v)) = (n, v)"
  by (auto simp: split_entry_def entry_def name_ok_def takeWhile_append dropWhile_append)

interpretation eref: env_contract env_ref vars_of snd
  by unfold_locales
    (auto simp: env_ref_def distinct_vars_of map_of_vars_of set_var_def update_conv' delete_conv' split_entry
      vars_of_def [of "(None, _)"] split: option.splits)



end
