(* ===== verification/SnprintfTest.thy ===== *)
theory SnprintfTest
  imports StringMemory StrftimeTest
begin

text \<open>
  snprintf.c of libc/src/functional: the conversions of integers and of floating-point numbers, the truncation to the
  buffer, and the exact decimal expansion of a tiny number, which the test doubles digit by digit until it is 1.
  \<open>snprintf\<close> is an argument.  A floating-point number is a value of a type \<open>'d\<close>; what the compiler makes of a literal
  is the argument \<open>dbl\<close>.  The slow tests are disabled in the source.
\<close>

subsection \<open>The test\<close>

datatype 'd arg = IntArg int | StrArg cstr | DblArg 'd

text \<open>\<open>snprintf\<close> on the buffer \<open>b\<close> (\<open>True\<close>) or on a null pointer, with the size, the format and the argument.\<close>

type_synonym 'd snprintf_fn = "mem \<Rightarrow> bool \<Rightarrow> nat \<Rightarrow> cstr \<Rightarrow> 'd arg \<Rightarrow> int \<times> mem"

definition int_tests :: "(cstr \<times> int \<times> cstr) list" where
  "int_tests =
    [(''%04d'', 12, ''0012''),
     (''%.3d'', 12, ''012''),
     (''%3d'', 12, '' 12''),
     (''%-3d'', 12, ''12 ''),
     (''%+3d'', 12, ''+12''),
     (''%+-5d'', 12, ''+12  ''),
     (''%+- 5d'', 12, ''+12  ''),
     (''%- 5d'', 12, '' 12  ''),
     (''% d'', 12, '' 12''),
     (''%0-5d'', 12, ''12   ''),
     (''%-05d'', 12, ''12   ''),
     (''%.0d'', 0, []),
     (''%.0o'', 0, []),
     (''%#.0d'', 0, []),
     (''%#.0o'', 0, ''0''),
     (''%#.0x'', 0, []),
     (''%2.0u'', 0, ''  ''),
     (''%02.0u'', 0, ''  ''),
     (''%2.0d'', 0, ''  ''),
     (''%02.0d'', 0, ''  ''),
     (''% .0d'', 0, '' ''),
     (''%+.0d'', 0, ''+''),
     (''%x'', 63, ''3f''),
     (''%#x'', 63, ''0x3f''),
     (''%X'', 63, ''3F''),
     (''%o'', 15, ''17''),
     (''%#o'', 15, ''017''),
     (''%#o'', 0, ''0''),
     (''%#.0o'', 0, ''0''),
     (''%#.1o'', 0, ''0''),
     (''%#o'', 1, ''01''),
     (''%#.0o'', 1, ''01''),
     (''%#.1o'', 1, ''01''),
     (''%#04o'', 1, ''0001''),
     (''%#04.0o'', 1, ''  01''),
     (''%#04.1o'', 1, ''  01''),
     (''%04o'', 1, ''0001''),
     (''%04.0o'', 1, ''   1''),
     (''%04.1o'', 1, ''   1'')]"

definition fp_tests :: "(cstr \<times> cstr \<times> cstr) list" where
  "fp_tests =
    [(''%a'', ''0.0'', ''0x0p+0''),
     (''%e'', ''0.0'', ''0.000000e+00''),
     (''%f'', ''0.0'', ''0.000000''),
     (''%g'', ''0.0'', ''0''),
     (''%#g'', ''0.0'', ''0.00000''),
     (''%la'', ''0.0'', ''0x0p+0''),
     (''%le'', ''0.0'', ''0.000000e+00''),
     (''%lf'', ''0.0'', ''0.000000''),
     (''%lg'', ''0.0'', ''0''),
     (''%#lg'', ''0.0'', ''0.00000''),
     (''%f'', ''1.1'', ''1.100000''),
     (''%f'', ''1.2'', ''1.200000''),
     (''%f'', ''1.3'', ''1.300000''),
     (''%f'', ''1.4'', ''1.400000''),
     (''%f'', ''1.5'', ''1.500000''),
     (''%.4f'', ''1.06125'', ''1.0613''),
     (''%.4f'', ''1.03125'', ''1.0312''),
     (''%.2f'', ''1.375'', ''1.38''),
     (''%.1f'', ''1.375'', ''1.4''),
     (''%.1lf'', ''1.375'', ''1.4''),
     (''%.15f'', ''1.1'', ''1.100000000000000''),
     (''%.16f'', ''1.1'', ''1.1000000000000001''),
     (''%.17f'', ''1.1'', ''1.10000000000000009''),
     (''%.2e'', ''1500001.0'', ''1.50e+06''),
     (''%.2e'', ''1505000.0'', ''1.50e+06''),
     (''%.2e'', ''1505000.00000095367431640625'', ''1.51e+06''),
     (''%.2e'', ''1505001.0'', ''1.51e+06''),
     (''%.2e'', ''1506000.0'', ''1.51e+06''),
     (''%.15g'', ''1.23456789012345'', ''1.23456789012345''),
     (''%g'', ''0.0001'', ''0.0001''),
     (''%g'', ''0.00001'', ''1e-05''),
     (''%g'', ''123456'', ''123456''),
     (''%g'', ''1234567'', ''1.23457e+06''),
     (''%.7g'', ''1234567'', ''1234567''),
     (''%.7g'', ''12345678'', ''1.234568e+07''),
     (''%.8g'', ''0.1'', ''0.1''),
     (''%.9g'', ''0.1'', ''0.1''),
     (''%.10g'', ''0.1'', ''0.1''),
     (''%.11g'', ''0.1'', ''0.1''),
     (''%.15f'', ''M_PI'', ''3.141592653589793''),
     (''%.18f'', ''M_PI'', ''3.141592653589793116''),
     (''%.0f'', ''340282366920938463463374607431768211456.0'', ''340282366920938463463374607431768211456'')]"

text \<open>The loop over a table: two checks for each row.\<close>

fun run_table :: "'d snprintf_fn \<Rightarrow> nat \<Rightarrow> nat \<Rightarrow> (cstr \<times> 'd arg \<times> cstr) list \<Rightarrow> mem \<Rightarrow> log \<times> mem" where
  "run_table f l1 l2 [] m = ([], m)"
| "run_table f l1 l2 ((fmt, x, expect) # rows) m =
     (let (i, m) = f m True 2000 fmt x;
          ls = check l1 (\<not> i \<noteq> int (length expect)) @ check l2 (\<not> strcmp (c_string m) expect \<noteq> 0);
          (ls', m) = run_table f l1 l2 rows m
      in (ls @ ls', m))"

text \<open>One digit of the doubling: the byte \<open>j\<close> of the buffer and the carry \<open>k\<close>.\<close>

definition double_digit :: "mem \<times> int \<Rightarrow> nat \<Rightarrow> mem \<times> int" where
  "double_digit s j =
     (case s of (b, k) \<Rightarrow>
        let c = of_char (b ! j) :: int
        in if c < of_char CHR ''5'' then (b[j := char_of (c + (c - of_char CHR ''0'' + k))], 0)
           else (b[j := char_of (c + (c - of_char CHR ''0'' - 10 + k))], 1))"

definition double_all :: "nat \<Rightarrow> mem \<Rightarrow> mem" where
  "double_all n b = fst (foldl double_digit (b, 0) (rev [1..<n + 1]))"

definition tiny_checks :: "int \<times> mem \<Rightarrow> log \<times> mem" where
  "tiny_checks r =
     (let (i, b) = r;
          ls = check 158 (i = 1024);
          b = b[1 := CHR ''0''];
          b = (double_all 1023 ^^ 1021) b;
          ls = ls @ check 166 (b ! 1 = CHR ''1'');
          j = 2 + length (takeWhile (\<lambda>c. c = CHR ''0'') (drop 2 b))
      in (ls @ check 168 (j = 1024), b))"

definition snprintf_main :: "(cstr \<Rightarrow> 'd) \<Rightarrow> 'd snprintf_fn \<Rightarrow> mem \<Rightarrow> log" where
  "snprintf_main dbl f b =
     (let (i, b) = f b False 0 ''%d'' (IntArg 123456);
          ls = check 148 (i = 6);
          (i, b) = f b False 0 ''%.4s'' (StrArg ''hello'');
          ls = ls @ check 149 (i = 4);
          (i, b) = f b True 0 ''%.0s'' (StrArg ''goodbye'');
          ls = ls @ check 150 (i = 0);
          b = put b 0 (''xxxxxxxx'' @ [NUL]);
          (i, b) = f b True 4 ''%d'' (IntArg 123456);
          ls = ls @ check 153 (i = 6) @ check 154 (strcmp (c_string b) ''123'' = 0) @ check 155 (b ! 5 = CHR ''x'');
          (l, b) = tiny_checks (f b True 2000 ''%.1022f'' (DblArg (dbl ''0x1p-1021'')));
          ls = ls @ l;
          (l, b) = run_table f 180 184 (map (\<lambda>(fmt, i, expect). (fmt, IntArg i, expect)) int_tests) b;
          ls = ls @ l;
          (l, b) = run_table f 190 194 (map (\<lambda>(fmt, x, expect). (fmt, DblArg (dbl x), expect)) fp_tests) b;
          ls = ls @ l;
          (i, b) = f b False 0 ''%.4a'' (DblArg (dbl ''1.0''))
      in ls @ check 197 (i = 11))"

subsection \<open>The conversions of integers, as POSIX states them\<close>

datatype int_directive =
  IntDirective (flags: cstr) (field_width: nat) (precision: "nat option") (int_conv: char)

definition parse_int_directive :: "cstr \<Rightarrow> int_directive" where
  "parse_int_directive s =
     (let is_flag = (\<lambda>c. c \<in> set ''-+ #0''); s = tl s;
          (w, r) = parse_width 0 (dropWhile is_flag s);
          (p, r) = (if hd r = CHR ''.'' then map_prod Some id (parse_width 0 (tl r)) else (None, r))
      in IntDirective (takeWhile is_flag s) w p (hd r))"

definition digit_char :: "bool \<Rightarrow> int \<Rightarrow> char" where
  "digit_char upper d = char_of (if d < 10 then 48 + d else if upper then 55 + d else 87 + d)"

function digits_in :: "bool \<Rightarrow> int \<Rightarrow> int \<Rightarrow> cstr" where
  "digits_in upper base v =
     (if v < base \<or> base < 2 then [digit_char upper v]
      else digits_in upper base (v div base) @ [digit_char upper (v mod base)])"
  by pat_completeness auto
termination
  by (relation "measure (\<lambda>(_, _, v). nat v)") (auto simp: int_div_less_self)

declare digits_in.simps [simp del]

text \<open>The digits, filled with zeros to the precision; the prefix; the field.\<close>

definition int_conversion :: "int_directive \<Rightarrow> int \<Rightarrow> cstr" where
  "int_conversion d i =
     (let c = int_conv d;
          v = (if c = CHR ''d'' then \<bar>i\<bar> else i mod 2 ^ 32);
          base = (if c = CHR ''o'' then 8 else if c = CHR ''x'' \<or> c = CHR ''X'' then 16 else 10);
          alt = List.member (flags d) CHR ''#'';
          p = (case precision d of None \<Rightarrow> 1 | Some p \<Rightarrow> p);
          ds = (if v = 0 then [] else digits_in (c = CHR ''X'') base v);
          ds = replicate (p - length ds) CHR ''0'' @ ds;
          ds = (if alt \<and> c = CHR ''o'' \<and> (ds = [] \<or> hd ds \<noteq> CHR ''0'') then CHR ''0'' # ds else ds);
          sign = (if alt \<and> (c = CHR ''x'' \<or> c = CHR ''X'') \<and> v \<noteq> 0 then [CHR ''0'', c]
                  else if c \<noteq> CHR ''d'' then []
                  else if i < 0 then ''-''
                  else if List.member (flags d) CHR ''+'' then ''+''
                  else if List.member (flags d) CHR '' '' then '' ''
                  else []);
          n = field_width d - length sign - length ds
      in if List.member (flags d) CHR ''-'' then sign @ ds @ replicate n CHR '' ''
         else if List.member (flags d) CHR ''0'' \<and> precision d = None then sign @ replicate n CHR ''0'' @ ds
         else replicate n CHR '' '' @ sign @ ds)"

definition int_text :: "cstr \<Rightarrow> int \<Rightarrow> cstr" where
  "int_text fmt i = int_conversion (parse_int_directive fmt) i"

lemma int_tests_ok: "list_all (\<lambda>(fmt, i, expect). int_text fmt i = expect) int_tests"
  by code_simp

lemma int_text_123456: "int_text ''%d'' 123456 = ''123456''"
  by code_simp

subsection \<open>Doubling a decimal number\<close>

text \<open>The digits of \<open>v\<close> in a field of \<open>w\<close>, and the value of a list of digits.\<close>

fun digits_fixed :: "nat \<Rightarrow> nat \<Rightarrow> cstr" where
  "digits_fixed 0 v = []"
| "digits_fixed (Suc w) v = digits_fixed w (v div 10) @ [char_of (48 + v mod 10)]"

fun double_list :: "cstr \<Rightarrow> int \<Rightarrow> cstr \<times> int" where
  "double_list [] k = ([], k)"
| "double_list (c # cs) k =
     (case double_list cs k of (cs, k) \<Rightarrow>
        let c = of_char c :: int
        in if c < 53 then (char_of (c + (c - 48 + k)) # cs, 0) else (char_of (c + (c - 58 + k)) # cs, 1))"

lemma length_digits_fixed [simp]: "length (digits_fixed w v) = w"
  by (induction w arbitrary: v) simp_all

lemma foldl_double_digit:
  "foldl double_digit (pre @ ds @ post, k) (rev [length pre..<length pre + length ds]) =
     (pre @ fst (double_list ds k) @ post, snd (double_list ds k))"
proof (induction ds arbitrary: pre)
  case (Cons d ds)
  have "[length pre..<length pre + length (d # ds)] = length pre # [length (pre @ [d])..<length (pre @ [d]) + length ds]"
    by (simp add: upt_rec)
  then show ?case
    using Cons.IH [of "pre @ [d]"]
    by (simp add: double_digit_def Let_def nth_append split: prod.splits)
qed simp

lemma double_list_snoc:
  "double_list (cs @ [c]) k =
     (case double_list [c] k of (c, k) \<Rightarrow> case double_list cs k of (cs, k) \<Rightarrow> (cs @ c, k))"
  by (induction cs) (auto simp: Let_def split: prod.splits if_splits)

lemma of_char_digit: "x < 10 \<Longrightarrow> (of_char (char_of (48 + x) :: char) :: int) = 48 + int x"
proof -
  assume "x < (10 :: nat)"
  then have "(of_char (char_of (48 + x) :: char) :: nat) = 48 + x" by (simp add: of_char_of)
  then show ?thesis by (metis of_nat_add of_nat_numeral of_nat_of_char)
qed

lemma char_of_int: "0 \<le> x \<Longrightarrow> (char_of x :: char) = char_of (nat x)" for x :: int
  using char_of_nat [of "nat x", where 'a = int] by simp

lemma double_one:
  assumes "d < 10" and "k < 2"
  shows "double_list [char_of (48 + d)] (int k) = ([char_of (48 + (2 * d + k) mod 10)], int ((2 * d + k) div 10))"
proof (cases "d < 5")
  case True
  then have "(2 * d + k) mod 10 = 2 * d + k" "(2 * d + k) div 10 = 0" using assms by simp_all
  then show ?thesis using True assms by (simp add: of_char_digit char_of_int nat_add_distrib nat_mult_distrib)
next
  case False
  then have "(2 * d + k) div 10 = 1" using assms by linarith
  moreover from this have "(2 * d + k) mod 10 = 2 * d + k - 10" using mod_div_mult_eq [of "2 * d + k" 10] by simp
  moreover have "48 + int d + (48 + int d - 58 + int k) = int (48 + (2 * d + k - 10))" using False by simp
  then have "(char_of (48 + int d + (48 + int d - 58 + int k)) :: char) = char_of (48 + (2 * d + k - 10))"
    by (simp only: char_of_nat)
  moreover have "\<not> 48 + int d < 53" using False by simp
  ultimately show ?thesis
    using of_char_digit [OF assms(1)] by (simp only: double_list.simps prod.case Let_def if_False of_nat_1)
qed

lemma double_digits_fixed:
  "k < 2 \<Longrightarrow> v < 10 ^ w \<Longrightarrow>
     double_list (digits_fixed w v) (int k) = (digits_fixed w (2 * v + k), int ((2 * v + k) div 10 ^ w))"
proof (induction w arbitrary: v k)
  case (Suc w)
  define c where "c = (2 * (v mod 10) + k) div 10"
  have c: "c < 2" unfolding c_def using Suc.prems(1) mod_less_divisor [of 10 v] by linarith
  have v: "v div 10 < 10 ^ w" using Suc.prems(2) by (simp add: div_less_iff_less_mult)
  have e: "2 * v + k = 10 * (2 * (v div 10)) + (2 * (v mod 10) + k)" using mult_div_mod_eq [of 10 v] by linarith
  have d: "(2 * v + k) div 10 = 2 * (v div 10) + c" unfolding e c_def by simp
  have m: "(2 * (v mod 10) + k) mod 10 = (2 * v + k) mod 10" unfolding e by (simp only: mod_mult_self4)
  have "(2 * (v div 10) + c) div 10 ^ w = (2 * v + k) div 10 ^ Suc w"
    by (simp only: d [symmetric] div_mult2_eq power_Suc)
  then show ?case
    using double_one [of "v mod 10" k] Suc.prems(1)
    by (simp add: double_list_snoc Suc.IH [OF c v] c_def [symmetric] m d)
qed simp

text \<open>The test starts from the digits of \<open>5 ^ n * 10\<close> after the point and ends with those of \<open>10 ^ (n + 1)\<close>.\<close>

lemma double_all_digits:
  assumes "2 * v < 10 ^ w"
  shows "double_all w (c # digits_fixed w v @ post) = c # digits_fixed w (2 * v) @ post"
proof -
  have "double_list (digits_fixed w v) 0 = (digits_fixed w (2 * v), 0)"
    using double_digits_fixed [of 0 v w] assms by simp
  then show ?thesis
    using foldl_double_digit [of "[c]" "digits_fixed w v" post 0] by (simp add: double_all_def)
qed

lemma double_all_power:
  "2 ^ i * v < 10 ^ w \<Longrightarrow> (double_all w ^^ i) (c # digits_fixed w v @ post) = c # digits_fixed w (2 ^ i * v) @ post"
proof (induction i)
  case (Suc i)
  then have "2 * (2 ^ i * v) < 10 ^ w" by simp
  moreover from this have "2 ^ i * v < 10 ^ w" by simp
  ultimately show ?case using Suc.IH double_all_digits [of "2 ^ i * v" w c post] by (simp add: mult.assoc)
qed simp

lemma char_of_digits: "char_of (48 :: nat) = CHR ''0''" "char_of (49 :: nat) = CHR ''1''"
  by code_simp+

lemma digits_fixed_power: "digits_fixed (Suc w) (10 ^ w) = ''1'' @ replicate w CHR ''0''"
proof (induction w)
  case 0
  show ?case by (simp add: char_of_digits)
next
  case (Suc w)
  have "digits_fixed (Suc (Suc w)) (10 ^ Suc w) = digits_fixed (Suc w) (10 ^ w) @ ''0''"
    by (simp add: digits_fixed.simps(2) [of "Suc w"] char_of_digits del: digits_fixed.simps)
  then show ?case unfolding Suc.IH by (simp add: replicate_append_same)
qed

text \<open>The exact decimal expansion of \<open>2 ^ -n\<close> with one zero more than it needs.\<close>

definition tiny_text :: "nat \<Rightarrow> cstr" where
  "tiny_text n = ''0.'' @ digits_fixed (n + 1) (10 * 5 ^ n)"

lemma digits_fixed_lead: "v < 10 ^ w \<Longrightarrow> digits_fixed (Suc w) v = CHR ''0'' # digits_fixed w v"
proof (induction w arbitrary: v)
  case (Suc w)
  then have "v div 10 < 10 ^ w" by (simp add: div_less_iff_less_mult)
  from Suc.IH [OF this] show ?case by (simp only: digits_fixed.simps append_Cons)
qed (simp add: char_of_digits)

lemma tiny_doubled:
  assumes "0 < n"
  shows "(double_all (n + 2) ^^ n) ((tiny_text n @ post)[1 := CHR ''0'']) = ''01'' @ replicate (n + 1) CHR ''0'' @ post"
proof -
  have "(5 :: nat) ^ n < 10 ^ n" using assms by (intro power_strict_mono) simp_all
  then have "10 * 5 ^ n < (10 :: nat) ^ (n + 1)" by simp
  from digits_fixed_lead [OF this]
  have m: "(tiny_text n @ post)[1 := CHR ''0''] = CHR ''0'' # digits_fixed (n + 2) (10 * 5 ^ n) @ post"
    by (simp add: tiny_text_def del: digits_fixed.simps)
  have p: "2 ^ n * (10 * 5 ^ n) = (10 :: nat) ^ Suc n" by (simp add: power_mult_distrib [symmetric])
  have "2 ^ n * (10 * 5 ^ n) < (10 :: nat) ^ (n + 2)" unfolding p by simp
  from double_all_power [OF this] digits_fixed_power [of "n + 1"]
  show ?thesis unfolding m p by (simp del: digits_fixed.simps)
qed

lemma tiny_checks_silent:
  "\<exists>b. tiny_checks (1024, tiny_text 1021 @ NUL # post) = ([], b) \<and> length b = 1025 + length post"
proof -
  have "(double_all 1023 ^^ 1021) ((tiny_text 1021 @ NUL # post)[1 := CHR ''0'']) =
      ''01'' @ replicate 1022 CHR ''0'' @ NUL # post"
    using tiny_doubled [of 1021 "NUL # post"] by simp
  moreover have "takeWhile (\<lambda>c. c = CHR ''0'') (replicate 1022 CHR ''0'' @ NUL # post) = replicate 1022 CHR ''0''"
    by (simp add: takeWhile_append NUL_def)
  ultimately show ?thesis by (simp add: tiny_checks_def Let_def)
qed

lemma length_tiny_text [simp]: "length (tiny_text n) = n + 3"
  by (simp add: tiny_text_def del: digits_fixed.simps)

text \<open>The expected texts are short strings.\<close>

definition short_text :: "cstr \<Rightarrow> bool" where
  "short_text e \<longleftrightarrow> NUL \<notin> set e \<and> length e < 50"

lemma tables_short:
  "list_all (\<lambda>(_, _, e). short_text e) int_tests" "list_all (\<lambda>(_, _, e). short_text e) fp_tests"
  by code_simp+

lemma short_rows:
  "list_all (\<lambda>(_, _, e). short_text e) rows \<Longrightarrow>
     list_all (\<lambda>(_, _, e). NUL \<notin> set e \<and> length e < 2000) (map (\<lambda>(fmt, x, e). (fmt, g x, e)) rows)"
  by (auto simp: list_all_iff short_text_def)

lemma int_rows:
  "list_all (\<lambda>(fmt, x, e). c fmt x = e) (map (\<lambda>(fmt, i, e). (fmt, IntArg i, e)) int_tests) \<longleftrightarrow>
     list_all (\<lambda>(fmt, i, _). c fmt (IntArg i) = int_text fmt i) int_tests"
  using int_tests_ok by (fastforce simp: list_all_iff)

lemma fp_rows:
  "list_all (\<lambda>(fmt, x, e). c fmt x = e) (map (\<lambda>(fmt, x, e). (fmt, g x, e)) rows) \<longleftrightarrow>
     list_all (\<lambda>(fmt, x, e). c fmt (g x) = e) rows"
  by (auto simp: list_all_iff)

subsection \<open>The contract and the verdict\<close>

text \<open>\<open>conv fmt x\<close> is the whole text that a format makes of an argument.\<close>

definition snprintf_stores :: "(cstr \<Rightarrow> 'd arg \<Rightarrow> cstr) \<Rightarrow> 'd snprintf_fn" where
  "snprintf_stores conv m to_b n fmt x =
     (case CString.snprintf n (conv fmt x) of
        (r, None) \<Rightarrow> (r, m)
      | (r, Some s) \<Rightarrow> (r, if to_b then put m 0 (s @ [NUL]) else m))"

locale snprintf_contract =
  fixes f :: "'d snprintf_fn" and conv :: "cstr \<Rightarrow> 'd arg \<Rightarrow> cstr"
  assumes conv_law: "NUL \<notin> set (conv fmt x)"
    and store_law: "if to_b then n \<le> length m else n = 0 \<Longrightarrow> f m to_b n fmt x = snprintf_stores conv m to_b n fmt x"
begin

lemma to_null:
  "f m False 0 fmt x = (if INT_MAX < length (conv fmt x) then -1 else int (length (conv fmt x)), m)"
  using store_law [of False 0 m fmt x] by (simp add: snprintf_stores_def CString.snprintf_def)

lemma to_b_0: "f m True 0 fmt x = (if INT_MAX < length (conv fmt x) then -1 else int (length (conv fmt x)), m)"
  using store_law [of True 0 m fmt x] by (simp add: snprintf_stores_def CString.snprintf_def)

lemma to_buffer:
  assumes "0 < n" and "n \<le> length m"
  shows "f m True n fmt x =
    (if INT_MAX < length (conv fmt x) then (-1, m)
     else (int (length (conv fmt x)), put m 0 (take (n - 1) (conv fmt x) @ [NUL])))"
  using store_law [of True n m fmt x] assms by (simp add: snprintf_stores_def CString.snprintf_def)

lemma returned: "length (conv fmt x) = k \<Longrightarrow> k < 2000 \<Longrightarrow> \<not> INT_MAX < length (conv fmt x)"
  by (simp add: INT_MAX_def)

lemma c_string_put_0: "NUL \<notin> set s \<Longrightarrow> c_string (put m 0 (s @ [NUL])) = s"
  by (simp add: put_def c_string_def takeWhile_append)

lemma row:
  assumes m: "length m = 2000" and e: "NUL \<notin> set e" "length e < 2000" and r: "f m True 2000 fmt x = (i, m')"
  shows "i = int (length e) \<and> strcmp (c_string m') e = 0 \<longleftrightarrow> conv fmt x = e" and "length m' = 2000"
proof -
  let ?t = "conv fmt x"
  have n: "NUL \<notin> set (take k ?t)" for k using conv_law [of fmt x] by (auto dest: in_set_takeD)
  have eq: "f m True 2000 fmt x = (if INT_MAX < length ?t then (-1, m)
      else (int (length ?t), put m 0 (take 1999 ?t @ [NUL])))"
    using to_buffer [of 2000 m fmt x] m by simp
  show "length m' = 2000" using eq r m by (auto simp: length_put split: if_splits)
  show "i = int (length e) \<and> strcmp (c_string m') e = 0 \<longleftrightarrow> conv fmt x = e"
  proof (cases "INT_MAX < length ?t")
    case True
    then have "?t \<noteq> e" using e(2) by (auto simp: INT_MAX_def)
    then show ?thesis using eq r True by auto
  next
    case False
    then have im: "i = int (length ?t)" "m' = put m 0 (take 1999 ?t @ [NUL])" using eq r by simp_all
    have "strcmp (c_string m') e = 0 \<longleftrightarrow> take 1999 ?t = e"
      unfolding im c_string_put_0 [OF n] by (rule strcmp_0_iff [OF n e(1)])
    moreover have "take 1999 ?t = ?t" if "length ?t = length e" using that e(2) by simp
    ultimately show ?thesis using im(1) by (metis of_nat_eq_iff)
  qed
qed

lemma table:
  assumes "length m = 2000" and "list_all (\<lambda>(_, _, e). NUL \<notin> set e \<and> length e < 2000) rows"
  shows "(fst (run_table f l1 l2 rows m) = [] \<longleftrightarrow> list_all (\<lambda>(fmt, x, e). conv fmt x = e) rows) \<and>
    length (snd (run_table f l1 l2 rows m)) = 2000"
  using assms
proof (induction rows arbitrary: m)
  case (Cons r rows)
  obtain fmt x e where r: "r = (fmt, x, e)" by (cases r) auto
  obtain i m' where im: "f m True 2000 fmt x = (i, m')" by fastforce
  have e: "NUL \<notin> set e" "length e < 2000" using Cons.prems(2) r by simp_all
  note row = row [OF Cons.prems(1) e im]
  have "list_all (\<lambda>(_, _, e). NUL \<notin> set e \<and> length e < 2000) rows" using Cons.prems(2) by simp
  note IH = Cons.IH [OF row(2) this]
  show ?case
  proof (cases "run_table f l1 l2 rows m'")
    case (Pair ls m2)
    then show ?thesis using IH row(1) by (auto simp: r im Let_def)
  qed
qed simp

lemma snprintf_main_verdict:
  assumes b: "length b = 2000" and tiny: "conv ''%.1022f'' (DblArg (dbl ''0x1p-1021'')) = tiny_text 1021"
  shows "snprintf_main dbl f b = [] \<longleftrightarrow>
    (length (conv ''%d'' (IntArg 123456)) = 6 \<and> take 3 (conv ''%d'' (IntArg 123456)) = ''123'') \<and>
    length (conv ''%.4s'' (StrArg ''hello'')) = 4 \<and> conv ''%.0s'' (StrArg ''goodbye'') = [] \<and>
    list_all (\<lambda>(fmt, i, _). conv fmt (IntArg i) = int_text fmt i) int_tests \<and>
    list_all (\<lambda>(fmt, x, expect). conv fmt (DblArg (dbl x)) = expect) fp_tests \<and>
    length (conv ''%.4a'' (DblArg (dbl ''1.0''))) = 11"
proof -
  let ?d = "conv ''%d'' (IntArg 123456)"
  define b1 where "b1 = put b 0 (''xxxxxxxx'' @ [NUL])"
  have b1: "length b1 = 2000" using b by (simp add: b1_def length_put)
  obtain i2 b2 where r2: "f b1 True 4 ''%d'' (IntArg 123456) = (i2, b2)" by fastforce
  have b2: "length b2 = 2000" and i2: "i2 = 6 \<longleftrightarrow> length ?d = 6"
    using to_buffer [of 4 b1 "''%d''" "IntArg 123456"] b1 r2
    by (auto simp: length_put INT_MAX_def split: if_splits)
  have str2: "c_string b2 = take 3 ?d" and x2: "b2 ! 5 = CHR ''x''" if "length ?d = 6"
  proof -
    have e: "b2 = put b1 0 (take 3 ?d @ [NUL])"
      using to_buffer [of 4 b1 "''%d''" "IntArg 123456"] b1 r2 that by (simp add: INT_MAX_def)
    show "c_string b2 = take 3 ?d"
      unfolding e by (rule c_string_put_0) (use conv_law in \<open>auto dest: in_set_takeD\<close>)
    show "b2 ! 5 = CHR ''x''" using that b1 b by (simp add: e nth_put b1_def length_put)
  qed
  have cmp: "strcmp (c_string b2) ''123'' = 0 \<longleftrightarrow> take 3 ?d = ''123''" if "length ?d = 6"
    unfolding str2 [OF that] by (rule strcmp_0_iff) (use conv_law in \<open>auto simp: NUL_def dest: in_set_takeD\<close>)
  have "f b2 True 2000 ''%.1022f'' (DblArg (dbl ''0x1p-1021'')) = (1024, tiny_text 1021 @ NUL # drop 1025 b2)"
    using to_buffer [of 2000 b2 "''%.1022f''" "DblArg (dbl ''0x1p-1021'')"] b2
    by (simp add: tiny INT_MAX_def put_def)
  moreover obtain b3 where "tiny_checks (1024, tiny_text 1021 @ NUL # drop 1025 b2) = ([], b3)" "length b3 = 2000"
    using tiny_checks_silent [of "drop 1025 b2"] b2 by auto
  ultimately have r3: "tiny_checks (f b2 True 2000 ''%.1022f'' (DblArg (dbl ''0x1p-1021''))) = ([], b3)"
    and b3: "length b3 = 2000" by simp_all
  let ?ints = "map (\<lambda>(fmt, i, expect). (fmt, IntArg i, expect)) int_tests"
  let ?fps = "map (\<lambda>(fmt, x, expect). (fmt, DblArg (dbl x), expect)) fp_tests"
  obtain l4 b4 where r4: "run_table f 180 184 ?ints b3 = (l4, b4)" by fastforce
  have l4: "l4 = [] \<longleftrightarrow> list_all (\<lambda>(fmt, i, _). conv fmt (IntArg i) = int_text fmt i) int_tests" "length b4 = 2000"
    using table [OF b3 short_rows [OF tables_short(1)], of 180 184 IntArg] r4 by (simp_all add: int_rows)
  obtain l5 b5 where r5: "run_table f 190 194 ?fps b4 = (l5, b5)" by fastforce
  have l5: "l5 = [] \<longleftrightarrow> list_all (\<lambda>(fmt, x, expect). conv fmt (DblArg (dbl x)) = expect) fp_tests"
    using table [OF l4(2) short_rows [OF tables_short(2)], of 190 194 "\<lambda>x. DblArg (dbl x)"] r5
    by (simp add: fp_rows)
  have len: "(if INT_MAX < length t then -1 else int (length t)) = int k \<longleftrightarrow> length t = k" if "k < 2000" for t :: cstr and k
    using that by (auto simp: INT_MAX_def)
  note len6 = len [of 6, simplified] and len4 = len [of 4, simplified] and len0 = len [of 0, simplified]
    and len11 = len [of 11, simplified]
  have "snprintf_main dbl f b = [] \<longleftrightarrow>
      length ?d = 6 \<and> length (conv ''%.4s'' (StrArg ''hello'')) = 4 \<and> conv ''%.0s'' (StrArg ''goodbye'') = [] \<and>
      i2 = 6 \<and> strcmp (c_string b2) ''123'' = 0 \<and> b2 ! 5 = CHR ''x'' \<and> l4 = [] \<and> l5 = [] \<and>
      length (conv ''%.4a'' (DblArg (dbl ''1.0''))) = 11"
    unfolding snprintf_main_def Let_def to_null to_b_0 prod.case b1_def [symmetric] r2 r3 r4 r5
      append_is_Nil_conv check_simps len6 len4 len0 len11
    by auto
  then show ?thesis using i2 cmp x2 l4(1) l5 by auto
qed

end

subsection \<open>Conversions that pass the test\<close>

text \<open>Integers by the rules of POSIX, floating-point numbers by their literal, from the table.\<close>

definition table_conv :: "cstr \<Rightarrow> cstr arg \<Rightarrow> cstr" where
  "table_conv fmt x =
     filter (\<lambda>c. c \<noteq> NUL)
       (case x of
          IntArg i \<Rightarrow> int_text fmt i
        | StrArg s \<Rightarrow> if fmt = ''%.4s'' then take 4 s else []
        | DblArg lit \<Rightarrow>
            if fmt = ''%.1022f'' then tiny_text 1021
            else if fmt = ''%.4a'' then ''0x1.0000p+0''
            else (case List.find (\<lambda>(f, l, _). f = fmt \<and> l = lit) fp_tests of None \<Rightarrow> [] | Some (_, _, e) \<Rightarrow> e))"

interpretation pref: snprintf_contract "snprintf_stores table_conv" table_conv
  by unfold_locales (simp_all add: table_conv_def)


lemma table_conv_int: "list_all (\<lambda>(fmt, i, _). table_conv fmt (IntArg i) = int_text fmt i) int_tests"
  by code_simp

lemma table_conv_fp: "list_all (\<lambda>(fmt, x, expect). table_conv fmt (DblArg x) = expect) fp_tests"
  by code_simp

lemma NUL_notin_digits_fixed: "NUL \<notin> set (digits_fixed w v)"
proof (induction w arbitrary: v)
  case (Suc w)
  have "(of_char (char_of (48 + v mod 10) :: char) :: int) \<noteq> of_char NUL"
    using of_char_digit [of "v mod 10"] by (simp add: NUL_def)
  then show ?case using Suc.IH [of "v div 10"] by auto
qed simp

lemma NUL_notin_tiny_text: "NUL \<notin> set (tiny_text n)"
  using NUL_notin_digits_fixed [of "n + 1" "10 * 5 ^ n"]
  by (simp add: tiny_text_def NUL_def del: digits_fixed.simps)

lemma table_conv_rest:
  "table_conv ''%.1022f'' (DblArg lit) = tiny_text 1021" "table_conv ''%d'' (IntArg 123456) = ''123456''"
  "table_conv ''%.4s'' (StrArg ''hello'') = ''hell''" "table_conv ''%.0s'' (StrArg s) = []"
  "table_conv ''%.4a'' (DblArg lit) = ''0x1.0000p+0''"
proof -
  have "filter (\<lambda>c. c \<noteq> NUL) (tiny_text 1021) = tiny_text 1021"
    using NUL_notin_tiny_text [of 1021] by (intro filter_True) auto
  then show "table_conv ''%.1022f'' (DblArg lit) = tiny_text 1021" by (simp add: table_conv_def)
qed (simp_all add: table_conv_def int_text_123456 NUL_def)


end
