(* ===== verification/KernelRlimit.thy ===== *)
theory KernelRlimit
  imports KernelFd
begin

text \<open>
  rlimit-open-files.c of libc/src/regression: the limit of open files is respected by \<open>dup\<close>.  The system calls are
  arguments; on the kernel's descriptor table of theory KernelFd the test reports nothing, unless the last descriptor
  below the new limit is open at its start.
\<close>

definition lim :: int where
  "lim = 42"

text \<open>The loop over \<open>dup(1)\<close>: \<open>errno\<close>, the largest descriptor and the state at its end.\<close>

partial_function (option) dup_max :: "(int \<Rightarrow> 'w \<Rightarrow> int sysret \<times> 'w) \<Rightarrow> int \<Rightarrow> 'w \<Rightarrow> (int \<times> int \<times> 'w) option" where
  "dup_max dup maxfd w =
     (case dup 1 w of
        (Inl e, w') \<Rightarrow> Some (e, maxfd, w')
      | (Inr fd, w') \<Rightarrow> dup_max dup (if fd > maxfd then fd else maxfd) w')"

definition rlimit_open_files_main ::
    "(int \<Rightarrow> rlimit \<Rightarrow> 'w \<Rightarrow> (int \<times> rlimit) \<times> 'w) \<Rightarrow> (int \<Rightarrow> rlimit \<Rightarrow> 'w \<Rightarrow> int \<times> 'w) \<Rightarrow>
     (int \<Rightarrow> 'w \<Rightarrow> int sysret \<times> 'w) \<Rightarrow> 'w \<Rightarrow> (log \<times> 'w) option" where
  "rlimit_open_files_main getrlimit setrlimit dup w =
     (let rl = \<lparr>rlim_cur = word_of_int lim, rlim_max = word_of_int lim\<rparr>;
          (failed, w) = setrlimit RLIMIT_NOFILE rl w;
          ls = check 19 (failed = 0);
          ((failed, rl), w) = getrlimit RLIMIT_NOFILE rl w;
          ls = ls @ check 21 (failed = 0);
          ls = ls @ check 23 (\<not> (rlim_max rl \<noteq> word_of_int lim \<or> rlim_cur rl \<noteq> word_of_int lim))
      in case dup_max dup 0 w of
           None \<Rightarrow> None
         | Some (errno, maxfd, w) \<Rightarrow>
             Some (ls @ check 28 (\<not> errno \<noteq> EMFILE) @ check 30 (\<not> maxfd + 1 \<noteq> lim), w))"

text \<open>On the kernel the loop ends when no descriptor below the limit is left, with the largest one that was free.\<close>

definition free_fds :: "'f fd_manager \<Rightarrow> nat set" where
  "free_fds m = {fd. fd < fd_limit m \<and> \<not> is_open m fd}"

lemma finite_free_fds: "finite (free_fds m)"
  by (rule finite_subset [of _ "{..<fd_limit m}"]) (auto simp: free_fds_def)

lemma dup_max_kernel:
  assumes "fd_ok m" and "is_open m 1"
  shows "\<exists>mx' m'. dup_max dup_call mx (Some m) = Some (EMFILE, mx', Some m') \<and> fd_ok m' \<and> free_fds m' = {} \<and>
    fd_limit m' = fd_limit m \<and> mx \<le> mx' \<and> (\<forall>k \<in> free_fds m. int k \<le> mx') \<and> (mx' = mx \<or> (\<exists>k \<in> free_fds m. mx' = int k))"
  using assms
proof (induction "card (free_fds m)" arbitrary: m mx)
  case 0
  then have none: "free_fds m = {}" using finite_free_fds [of m] by simp
  moreover have "1 \<in> opened_call (Some m)" using 0 by (auto simp: opened_call_def intro: exI [of _ 1])
  moreover have "free_call (Some m) = 0" using none by (simp add: free_call_def free_fds_def)
  ultimately have "dup_call 1 (Some m) = (Inl EMFILE, Some m)"
    using 0 by (intro dup_call_full) (auto simp: ok_call_def)
  then show ?case using 0 none by (subst dup_max.simps) simp
next
  case (Suc n)
  obtain k where k: "k < fd_limit m" "\<not> is_open m k"
    using Suc.hyps(2) by (metis (mono_tags, lifting) card.empty equals0I free_fds_def mem_Collect_eq nat.distinct(1))
  obtain f where f: "get_file 1 m = Inr f" using Suc.prems(2) by (auto simp: get_file_open)
  from push_least [OF Suc.prems(1) k, of f] obtain fd m1 where
    m1: "push f m = Some (Inr fd, m1)" "fd_ok m1" "fd < fd_limit m" "\<not> is_open m fd" "fd_limit m1 = fd_limit m"
      "\<forall>j. is_open m1 j \<longleftrightarrow> is_open m j \<or> j = fd" by blast
  have "sys_dup 1 m = Some (Inr fd, m1)" using f m1(1) by (simp add: sys_dup_def copy_fd_anywhere_def)
  then have d: "dup_call 1 (Some m) = (Inr (int fd), Some m1)"
    using sys_dup_call [OF Suc.prems] by simp
  have F: "free_fds m = Set.insert fd (free_fds m1)" "fd \<notin> free_fds m1"
    using m1(3-6) by (auto simp: free_fds_def)
  then have "n = card (free_fds m1)" using Suc.hyps(2) finite_free_fds [of m1] by simp
  moreover have "is_open m1 1" using m1(6) Suc.prems(2) by simp
  moreover define mx1 where "mx1 = (if int fd > mx then int fd else mx)"
  ultimately obtain mx' m' where
    "dup_max dup_call mx1 (Some m1) = Some (EMFILE, mx', Some m')" "fd_ok m'" "free_fds m' = {}"
    "fd_limit m' = fd_limit m1" "mx1 \<le> mx'"
    "\<forall>k \<in> free_fds m1. int k \<le> mx'" "mx' = mx1 \<or> (\<exists>k \<in> free_fds m1. mx' = int k)"
    using Suc.hyps(1) [of m1 mx1] m1(2) by blast
  moreover from this have "dup_max dup_call mx (Some m) = Some (EMFILE, mx', Some m')"
    by (subst dup_max.simps) (simp add: d mx1_def)
  ultimately show ?case using F(1) by (intro exI [of _ mx'] exI [of _ m']) (auto simp: mx1_def m1(5) split: if_splits)
qed

lemma modify_limit_ok:
  assumes "fd_ok m" and "a \<le> fd_limit m" and "\<forall>fd. is_open m fd \<longrightarrow> fd < a"
  shows "\<exists>m'. modify_limit a m = Some m' \<and> fd_ok m' \<and> fd_limit m' = a \<and> (\<forall>k. is_open m' k \<longleftrightarrow> is_open m k)"
proof (cases "a = fd_limit m")
  case True
  have "fd_limit m \<le> 256" using assms(1) by (simp add: fd_ok_def)
  then have "modify_limit a m = Some m" using True by (simp add: modify_limit_def FD_LIMIT_HARD_def)
  then show ?thesis using assms(1) True by simp
next
  case False
  then have a: "a < fd_limit m" "fd_limit m \<le> 256" using assms(1,2) by (simp_all add: fd_ok_def)
  obtain m' where m': "modify_limit a m = Some m'" "fd_limit m' = a" "files m' = files m"
    "bitalloc_ok (fd_allocator m')" "\<forall>k. free_at (fd_allocator m') k \<longleftrightarrow> k < a \<and> \<not> is_open m k"
    using modify_limit_lower [OF assms(1) a(1)] by blast
  then have "is_open m' k \<longleftrightarrow> is_open m k" for k by (simp add: is_open_def)
  moreover from this have "fd_ok m'" using m' a assms(3) by (simp add: fd_ok_def)
  ultimately show ?thesis using m'(1,2) by blast
qed

lemma rlimit_main_on_kernel:
  assumes "fd_ok m" and "is_open m 1" and "42 \<le> fd_limit m" and "\<forall>fd. is_open m fd \<longrightarrow> fd < 42"
  shows "\<exists>m'. rlimit_open_files_main getrlimit_call setrlimit_call dup_call (Some m) =
      Some (check 30 (\<not> is_open m 41), Some m') \<and>
    fd_ok m' \<and> fd_limit m' = 42 \<and> (\<forall>fd < 42. is_open m' fd)"
proof -
  obtain m1 where m1: "modify_limit 42 m = Some m1" "fd_ok m1" "fd_limit m1 = 42" "\<forall>k. is_open m1 k \<longleftrightarrow> is_open m k"
    using modify_limit_ok [OF assms(1,3,4)] by blast
  have "is_open m1 1" using m1(4) assms(2) by simp
  from dup_max_kernel [OF m1(2) this, of 0] obtain mx m' where
    mx: "dup_max dup_call 0 (Some m1) = Some (EMFILE, mx, Some m')" "\<forall>k \<in> free_fds m1. int k \<le> mx"
      "mx = 0 \<or> (\<exists>k \<in> free_fds m1. mx = int k)"
    and m': "fd_ok m'" "free_fds m' = {}" "fd_limit m' = 42"
    using m1(3) by auto
  have F: "k \<in> free_fds m1 \<longleftrightarrow> k < 42 \<and> \<not> is_open m k" for k using m1(3,4) by (simp add: free_fds_def)
  have "mx + 1 = 42 \<longleftrightarrow> \<not> is_open m 41"
  proof
    assume "mx + 1 = 42"
    then have "mx = int 41" by simp
    then have "41 \<in> free_fds m1" using mx(3) by (metis of_nat_eq_iff of_nat_eq_0_iff zero_neq_numeral)
    then show "\<not> is_open m 41" by (simp add: F)
  next
    assume "\<not> is_open m 41"
    then have "41 \<in> free_fds m1" by (simp add: F)
    then have "int 41 \<le> mx" by (rule bspec [OF mx(2)])
    moreover have "mx < 42" using mx(3) by (auto simp: Bex_def F)
    ultimately show "mx + 1 = 42" by simp
  qed
  then have "rlimit_open_files_main getrlimit_call setrlimit_call dup_call (Some m) =
      Some (check 30 (\<not> is_open m 41), Some m')"
    using m1(1,3) mx(1)
    by (simp add: rlimit_open_files_main_def setrlimit_call_def getrlimit_call_def sys_prlimt64_def
        RLIMIT_NOFILE_def RLIMIT_STACK_def lim_def)
  moreover have "\<forall>fd < 42. is_open m' fd" using m'(2,3) by (auto simp: free_fds_def)
  ultimately show ?thesis using m'(1,3) by blast
qed

text \<open>C25: what the harness and the test of the limit of open files do on the descriptor table of this kernel.  While
  descriptor 1 is open, \<open>t_fdfill\<close> ends without a panic, whatever the opening of \<open>/dev/null\<close> gives: no
  descriptor below the limit is left free, nothing that was open is closed, and the table stays in order.  Run by a process whose open descriptors are below 42 and whose limit is at
  least 42, the test ends without a panic and with the table in order and full; it reports nothing, except that the
  number of descriptors is wrong when descriptor 41 was open before, which a correct system cannot help.\<close>

theorem rlimit_test_on_kernel:
  assumes "fd_ok m" and "is_open m 1"
  shows "(\<exists>m'. t_fdfill dup_call open_null (Some m) = Some (Some m') \<and> fd_ok m' \<and>
      (\<forall>fd < fd_limit m'. is_open m' fd) \<and> (\<forall>fd. is_open m fd \<longrightarrow> is_open m' fd))
    \<and> (42 \<le> fd_limit m \<and> (\<forall>fd. is_open m fd \<longrightarrow> fd < 42) \<longrightarrow>
      (\<exists>m'. rlimit_open_files_main getrlimit_call setrlimit_call dup_call (Some m) =
          Some (check 30 (\<not> is_open m 41), Some m') \<and>
        fd_ok m' \<and> fd_limit m' = 42 \<and> (\<forall>fd < 42. is_open m' fd)))"
  using t_fdfill_fills_kernel_table [OF assms] rlimit_main_on_kernel [OF assms] by blast

theorem rlimit_test_on_kernel_witness:
  "\<exists>m m'. fd_manager_new 18 ''in'' ''out'' ''err'' = Some m \<and>
     rlimit_open_files_main getrlimit_call setrlimit_call dup_call (Some m) = Some ([], Some m')"
proof -
  obtain m where m: "fd_manager_new 18 ''in'' ''out'' ''err'' = Some m" "fd_ok m" "fd_limit m = 256"
    "\<forall>k. is_open m k \<longleftrightarrow> k < 3"
    using fd_manager_new_ok [of 18 "''in''" "''out''" "''err''"] by auto
  then show ?thesis using rlimit_test_on_kernel [OF m(2), THEN conjunct2] by auto
qed

end
