(* ===== verification/KernelFile.thy ===== *)
theory KernelFile
  imports CPrelude
begin

text \<open>
  The kernel's files in memory: \<open>VirtFileInner\<close> of kernel/src/file/vfs/virt_file.rs, a list of page frames with the
  length of the data and the position.  The frame allocator is an argument: \<open>alloc\<close> takes a frame with whatever it
  holds, and returns \<open>None\<close> when there is none left.  An operation returns \<open>None\<close> when the Rust code panics.

  The operations are refined to a flat file: \<open>contents\<close> is the data without the division into pages.
\<close>

definition PAGE_BYTES :: nat where
  "PAGE_BYTES = 4096"

definition addr_to_page_id :: "nat \<Rightarrow> nat" where
  "addr_to_page_id addr = addr div PAGE_BYTES"

definition page_offset :: "nat \<Rightarrow> nat" where
  "page_offset addr = addr mod PAGE_BYTES"

record virt_file =
  frames :: "u8 list list"
  fsize :: nat
  fpos :: nat

definition virt_file_new :: virt_file where
  "virt_file_new = \<lparr>frames = [], fsize = 0, fpos = 0\<rparr>"

text \<open>\<open>xs[i..i + ys.len()].copy_from_slice(ys)\<close>\<close>

definition copy_into :: "nat \<Rightarrow> 'a list \<Rightarrow> 'a list \<Rightarrow> 'a list" where
  "copy_into i ys xs = take i xs @ ys @ drop (i + length ys) xs"

subsection \<open>Operations\<close>

fun read_pages :: "u8 list list \<Rightarrow> nat \<Rightarrow> nat \<Rightarrow> u8 list \<Rightarrow> u8 list" where
  "read_pages [] buf_pos read_len buf = buf"
| "read_pages (page # pages) buf_pos read_len buf =
     (if buf_pos + PAGE_BYTES \<le> read_len
      then read_pages pages (buf_pos + PAGE_BYTES) read_len (copy_into buf_pos page buf)
      else copy_into buf_pos (take (read_len - buf_pos) page) buf)"

text \<open>The result: the number of bytes read, what the buffer holds then, and the file.  The difference of size and
  position is one of machine words, without a check for overflow in the build that the Makefile makes.\<close>

definition read_inner :: "u8 list \<Rightarrow> virt_file \<Rightarrow> (nat \<times> u8 list \<times> virt_file) option" where
  "read_inner buf f =
     (let read_len = min (length buf) (unat (of_nat (fsize f) - of_nat (fpos f) :: u64))
      in if read_len = 0 then Some (0, buf, f)
         else
           let page_now = addr_to_page_id (fpos f);
               off = page_offset (fpos f)
           in if length (frames f) \<le> page_now then None
              else if off + read_len \<le> PAGE_BYTES then
                Some (read_len, copy_into 0 (take read_len (drop off (frames f ! page_now))) buf,
                      f\<lparr>fpos := fpos f + read_len\<rparr>)
              else
                let buf = copy_into 0 (drop off (frames f ! page_now)) buf
                in Some (read_len, read_pages (drop (page_now + 1) (frames f)) (PAGE_BYTES - off) read_len buf,
                         f\<lparr>fpos := fpos f + read_len\<rparr>))"

fun push_frames :: "('w \<Rightarrow> (u8 list \<times> 'w) option) \<Rightarrow> nat \<Rightarrow> u8 list list \<Rightarrow> 'w \<Rightarrow> (u8 list list \<times> 'w) option" where
  "push_frames alloc 0 fs w = Some (fs, w)"
| "push_frames alloc (Suc n) fs w =
     (case alloc w of None \<Rightarrow> None | Some (page, w') \<Rightarrow> push_frames alloc n (fs @ [page]) w')"

fun write_pages :: "u8 list list \<Rightarrow> nat \<Rightarrow> u8 list \<Rightarrow> u8 list list" where
  "write_pages [] buf_pos buf = []"
| "write_pages (page # pages) buf_pos buf =
     (if buf_pos + PAGE_BYTES \<le> length buf
      then take PAGE_BYTES (drop buf_pos buf) # write_pages pages (buf_pos + PAGE_BYTES) buf
      else copy_into 0 (drop buf_pos buf) page # pages)"

definition write_inner ::
    "('w \<Rightarrow> (u8 list \<times> 'w) option) \<Rightarrow> u8 list \<Rightarrow> virt_file \<Rightarrow> 'w \<Rightarrow> ((nat \<times> virt_file) \<times> 'w) option" where
  "write_inner alloc buf f w =
     (if buf = [] then Some ((0, f), w)
      else
        let page_needed = addr_to_page_id ((fpos f + length buf - 1) mod 2 ^ 64)
        in case push_frames alloc (page_needed + 1 - length (frames f)) (frames f) w of
             None \<Rightarrow> None
           | Some (fs, w) \<Rightarrow>
               let page_now = addr_to_page_id (fpos f);
                   off = page_offset (fpos f);
                   pos' = (fpos f + length buf) mod 2 ^ 64
               in if length fs \<le> page_now then None
                  else if off + length buf \<le> PAGE_BYTES then
                    Some ((length buf, f\<lparr>frames := fs[page_now := copy_into off buf (fs ! page_now)],
                                         fpos := pos', fsize := max (fsize f) pos'\<rparr>), w)
                  else
                    let first = copy_into off (take (PAGE_BYTES - off) buf) (fs ! page_now);
                        rest = write_pages (drop (page_now + 1) fs) (PAGE_BYTES - off) buf
                    in Some ((length buf, f\<lparr>frames := take page_now fs @ first # rest,
                                            fpos := pos', fsize := max (fsize f) pos'\<rparr>), w))"

definition read_from_offset :: "nat \<Rightarrow> u8 list \<Rightarrow> virt_file \<Rightarrow> (nat \<times> u8 list \<times> virt_file) option" where
  "read_from_offset pos buf f =
     (case read_inner buf (f\<lparr>fpos := pos\<rparr>) of
        None \<Rightarrow> None
      | Some (n, buf, f') \<Rightarrow> Some (n, buf, f'\<lparr>fpos := fpos f\<rparr>))"

definition write_to_offset ::
    "('w \<Rightarrow> (u8 list \<times> 'w) option) \<Rightarrow> nat \<Rightarrow> u8 list \<Rightarrow> virt_file \<Rightarrow> 'w \<Rightarrow> ((nat \<times> virt_file) \<times> 'w) option" where
  "write_to_offset alloc pos buf f w =
     (case write_inner alloc buf (f\<lparr>fpos := pos\<rparr>) w of
        None \<Rightarrow> None
      | Some ((n, f'), w) \<Rightarrow> Some ((n, f'\<lparr>fpos := fpos f\<rparr>), w))"

datatype seek_from = Start nat | Current int | End int

definition i64 :: "int \<Rightarrow> int" where
  "i64 n = sint (word_of_int n :: u64)"

definition seek :: "seek_from \<Rightarrow> virt_file \<Rightarrow> nat option \<times> virt_file" where
  "seek from f =
     (case from of
        Start pos \<Rightarrow> (Some pos, f\<lparr>fpos := pos\<rparr>)
      | Current d \<Rightarrow>
          let p = i64 (int (fpos f) + d)
          in if p < 0 then (None, f) else (Some (nat p), f\<lparr>fpos := nat p\<rparr>)
      | End d \<Rightarrow>
          let p = i64 (int (fsize f) + d)
          in if p < 0 then (None, f) else (Some (nat p), f\<lparr>fpos := nat p\<rparr>))"

definition set_pos :: "nat \<Rightarrow> virt_file \<Rightarrow> virt_file" where
  "set_pos pos f = f\<lparr>fpos := pos\<rparr>"

definition clear :: "virt_file \<Rightarrow> virt_file" where
  "clear f = f\<lparr>fpos := 0, fsize := 0, frames := []\<rparr>"

subsection \<open>The flat file\<close>

definition pages_ok :: "u8 list list \<Rightarrow> bool" where
  "pages_ok fs \<longleftrightarrow> (\<forall>p \<in> set fs. length p = PAGE_BYTES)"

definition vf_ok :: "virt_file \<Rightarrow> bool" where
  "vf_ok f \<longleftrightarrow> pages_ok (frames f) \<and> fsize f \<le> PAGE_BYTES * length (frames f) \<and> fsize f < 2 ^ 63"

definition contents :: "virt_file \<Rightarrow> u8 list" where
  "contents f = take (fsize f) (concat (frames f))"

definition frames_ok :: "('w \<Rightarrow> (u8 list \<times> 'w) option) \<Rightarrow> bool" where
  "frames_ok alloc \<longleftrightarrow> (\<forall>w p w'. alloc w = Some (p, w') \<longrightarrow> length p = PAGE_BYTES)"

lemma PAGE_BYTES_pos [simp]: "0 < PAGE_BYTES"
  by (simp add: PAGE_BYTES_def)

lemma pages_ok_simps [simp]:
  "pages_ok []" "pages_ok (p # fs) \<longleftrightarrow> length p = PAGE_BYTES \<and> pages_ok fs"
  "pages_ok (fs @ gs) \<longleftrightarrow> pages_ok fs \<and> pages_ok gs"
  by (auto simp: pages_ok_def)

lemma pages_ok_take: "pages_ok fs \<Longrightarrow> pages_ok (take n fs)"
  by (auto simp: pages_ok_def dest: in_set_takeD)

lemma pages_ok_drop: "pages_ok fs \<Longrightarrow> pages_ok (drop n fs)"
  by (auto simp: pages_ok_def dest: in_set_dropD)

lemma pages_ok_nth: "pages_ok fs \<Longrightarrow> k < length fs \<Longrightarrow> length (fs ! k) = PAGE_BYTES"
  by (simp add: pages_ok_def)

lemma length_concat_pages: "pages_ok fs \<Longrightarrow> length (concat fs) = PAGE_BYTES * length fs"
  by (induction fs) auto

lemma take_concat_pages:
  "pages_ok fs \<Longrightarrow> k \<le> length fs \<Longrightarrow> take (PAGE_BYTES * k) (concat fs) = concat (take k fs)"
proof (induction fs arbitrary: k)
  case (Cons p fs)
  then show ?case by (cases k) (simp_all add: algebra_simps)
qed simp

lemma drop_concat_pages:
  "pages_ok fs \<Longrightarrow> k \<le> length fs \<Longrightarrow> drop (PAGE_BYTES * k) (concat fs) = concat (drop k fs)"
proof (induction fs arbitrary: k)
  case (Cons p fs)
  then show ?case by (cases k) (simp_all add: algebra_simps)
qed simp

lemma drop_concat_in_page:
  assumes "pages_ok fs" and "k < length fs" and "off \<le> PAGE_BYTES"
  shows "drop (PAGE_BYTES * k + off) (concat fs) = drop off (fs ! k) @ concat (drop (k + 1) fs)"
proof -
  have "drop (PAGE_BYTES * k + off) (concat fs) = drop off (concat (drop k fs))"
    using drop_concat_pages [OF assms(1), of k] assms(2) by (metis add.commute drop_drop less_imp_le)
  also have "drop k fs = fs ! k # drop (k + 1) fs"
    using assms(2) by (simp add: Cons_nth_drop_Suc)
  finally show ?thesis using assms pages_ok_nth [OF assms(1,2)] by simp
qed

lemma length_copy_into [simp]: "i + length ys \<le> length xs \<Longrightarrow> length (copy_into i ys xs) = length xs"
  by (simp add: copy_into_def)

lemma copy_into_Nil [simp]: "copy_into i [] xs = xs"
  by (simp add: copy_into_def)

lemma copy_into_twice:
  "i + length ys \<le> length xs \<Longrightarrow> copy_into (i + length ys) zs (copy_into i ys xs) = copy_into i (ys @ zs) xs"
  by (simp add: copy_into_def ac_simps)

lemma copy_into_append: "length ys = length xs \<Longrightarrow> copy_into 0 (ys @ zs) (xs @ ws) = ys @ copy_into 0 zs ws"
  by (simp add: copy_into_def)

lemma copy_into_0_append: "length ys \<le> length xs \<Longrightarrow> copy_into 0 ys (xs @ zs) = copy_into 0 ys xs @ zs"
  by (simp add: copy_into_def)

lemma read_pages_concat:
  assumes "pages_ok pages" and "buf_pos \<le> read_len" and "read_len \<le> length buf"
    and "read_len - buf_pos \<le> PAGE_BYTES * length pages"
  shows "read_pages pages buf_pos read_len buf = copy_into buf_pos (take (read_len - buf_pos) (concat pages)) buf"
  using assms
proof (induction pages arbitrary: buf_pos buf)
  case (Cons p ps)
  show ?case
  proof (cases "buf_pos + PAGE_BYTES \<le> read_len")
    case True
    then have le: "buf_pos + length p \<le> length buf" using Cons.prems by simp
    have "read_pages ps (buf_pos + PAGE_BYTES) read_len (copy_into buf_pos p buf)
        = copy_into (buf_pos + PAGE_BYTES) (take (read_len - (buf_pos + PAGE_BYTES)) (concat ps)) (copy_into buf_pos p buf)"
      using Cons.prems True le by (intro Cons.IH) auto
    also have "\<dots> = copy_into buf_pos (p @ take (read_len - (buf_pos + PAGE_BYTES)) (concat ps)) buf"
      using copy_into_twice [OF le] Cons.prems(1) by simp
    finally show ?thesis using True Cons.prems(1) by simp
  qed (use Cons.prems in simp)
qed simp

lemma write_pages_concat:
  assumes "pages_ok pages" and "buf_pos \<le> length buf" and "length buf - buf_pos \<le> PAGE_BYTES * length pages"
  shows "concat (write_pages pages buf_pos buf) = copy_into 0 (drop buf_pos buf) (concat pages)"
    and "pages_ok (write_pages pages buf_pos buf)" and "length (write_pages pages buf_pos buf) = length pages"
proof -
  have "concat (write_pages pages buf_pos buf) = copy_into 0 (drop buf_pos buf) (concat pages) \<and>
    pages_ok (write_pages pages buf_pos buf) \<and> length (write_pages pages buf_pos buf) = length pages"
    using assms
  proof (induction pages arbitrary: buf_pos)
    case (Cons p ps)
    show ?case
    proof (cases "buf_pos + PAGE_BYTES \<le> length buf")
      case True
      then have IH: "concat (write_pages ps (buf_pos + PAGE_BYTES) buf) = copy_into 0 (drop (buf_pos + PAGE_BYTES) buf) (concat ps)"
        "pages_ok (write_pages ps (buf_pos + PAGE_BYTES) buf)"
        "length (write_pages ps (buf_pos + PAGE_BYTES) buf) = length ps"
        using Cons.IH [of "buf_pos + PAGE_BYTES"] Cons.prems by auto
      have "drop buf_pos buf = take PAGE_BYTES (drop buf_pos buf) @ drop (buf_pos + PAGE_BYTES) buf"
        by (metis append_take_drop_id drop_drop add.commute)
      moreover have "length (take PAGE_BYTES (drop buf_pos buf)) = length p" using True Cons.prems(1) by simp
      ultimately have "copy_into 0 (drop buf_pos buf) (p @ concat ps)
          = take PAGE_BYTES (drop buf_pos buf) @ copy_into 0 (drop (buf_pos + PAGE_BYTES) buf) (concat ps)"
        by (metis copy_into_append)
      then show ?thesis using True IH Cons.prems(1) by simp
    next
      case False
      then have "length (drop buf_pos buf) \<le> length p" using Cons.prems by simp
      then show ?thesis using False Cons.prems(1) copy_into_0_append [of "drop buf_pos buf" p "concat ps"] by simp
    qed
  qed simp
  then show "concat (write_pages pages buf_pos buf) = copy_into 0 (drop buf_pos buf) (concat pages)"
    and "pages_ok (write_pages pages buf_pos buf)" and "length (write_pages pages buf_pos buf) = length pages"
    by blast+
qed

lemma fpos_update_simps [simp]:
  "vf_ok (f\<lparr>fpos := p\<rparr>) = vf_ok f" "contents (f\<lparr>fpos := p\<rparr>) = contents f"
  by (simp_all add: vf_ok_def contents_def)

lemma length_contents: "vf_ok f \<Longrightarrow> length (contents f) = fsize f"
  by (simp add: vf_ok_def contents_def length_concat_pages)

lemma page_split: "PAGE_BYTES * addr_to_page_id a + page_offset a = a"
  by (simp add: addr_to_page_id_def page_offset_def)

lemma page_offset_less: "page_offset a < PAGE_BYTES"
  by (simp add: page_offset_def)

lemma addr_page_less: "a < PAGE_BYTES * n \<Longrightarrow> addr_to_page_id a < n"
  by (simp add: addr_to_page_id_def less_mult_imp_div_less mult.commute)

lemma word_diff_nat: "b \<le> a \<Longrightarrow> a < 2 ^ 64 \<Longrightarrow> unat (of_nat a - of_nat b :: u64) = a - b"
  by (simp add: unsigned_of_nat take_bit_nat_eq_self flip: of_nat_diff)

text \<open>A read from a position inside the file takes what is there, as far as the buffer goes.\<close>

lemma read_inner_ok:
  assumes "vf_ok f" and "fpos f \<le> fsize f"
  shows "read_inner buf f =
    Some (min (length buf) (fsize f - fpos f),
      copy_into 0 (take (length buf) (drop (fpos f) (contents f))) buf,
      f\<lparr>fpos := fpos f + min (length buf) (fsize f - fpos f)\<rparr>)"
proof -
  define n k off where "n = min (length buf) (fsize f - fpos f)" and "k = addr_to_page_id (fpos f)"
    and "off = page_offset (fpos f)"
  have ok: "pages_ok (frames f)" "fsize f \<le> PAGE_BYTES * length (frames f)" "fsize f < 2 ^ 63"
    using assms(1) by (simp_all add: vf_ok_def)
  have diff: "unat (of_nat (fsize f) - of_nat (fpos f) :: u64) = fsize f - fpos f"
    using assms(2) ok(3) by (intro word_diff_nat) simp_all
  have data: "take (length buf) (drop (fpos f) (contents f)) = take n (drop (fpos f) (concat (frames f)))"
    by (simp add: contents_def n_def drop_take min.commute)
  show ?thesis
  proof (cases "n = 0")
    case True
    then show ?thesis unfolding data by (simp add: read_inner_def Let_def diff n_def [symmetric])
  next
    case False
    have pos: "PAGE_BYTES * k + off = fpos f" "off < PAGE_BYTES"
      by (simp_all add: k_def off_def page_split page_offset_less)
    have "fpos f < fsize f" using False by (simp add: n_def)
    then have k: "k < length (frames f)" using ok(2) by (simp add: k_def addr_page_less)
    have d: "drop (fpos f) (concat (frames f)) = drop off (frames f ! k) @ concat (drop (k + 1) (frames f))"
      using drop_concat_in_page [OF ok(1) k, of off] pos by simp
    have page: "length (drop off (frames f ! k)) = PAGE_BYTES - off"
      using pages_ok_nth [OF ok(1) k] by simp
    obtain j where j: "length (frames f) = Suc (k + j)" using k less_imp_Suc_add by blast
    have "fpos f + n \<le> PAGE_BYTES * length (frames f)"
      using ok(2) assms(2) by (simp add: n_def)
    then have "n - (PAGE_BYTES - off) \<le> PAGE_BYTES * length (drop (k + 1) (frames f))"
      using pos by (simp add: j algebra_simps)
    moreover have "n \<le> length buf" by (simp add: n_def)
    ultimately have r: "read_pages (drop (k + 1) (frames f)) (PAGE_BYTES - off) n (copy_into 0 (drop off (frames f ! k)) buf)
        = copy_into 0 (take n (drop (fpos f) (concat (frames f)))) buf" if "\<not> off + n \<le> PAGE_BYTES"
      using that page pos(2) ok(1) copy_into_twice [of 0 "drop off (frames f ! k)" buf]
      by (subst read_pages_concat) (simp_all add: d pages_ok_drop)
    show ?thesis
      unfolding data using k False r d page
      by (simp add: read_inner_def diff n_def [symmetric] k_def [symmetric] off_def [symmetric] linorder_not_le)
  qed
qed

lemma push_frames_ok:
  assumes "push_frames alloc n fs w = Some (gs, w')" and "frames_ok alloc" and "pages_ok fs"
  shows "\<exists>hs. gs = fs @ hs \<and> length hs = n \<and> pages_ok gs"
  using assms
proof (induction n arbitrary: fs w)
  case (Suc n)
  then obtain p w1 where p: "alloc w = Some (p, w1)" "push_frames alloc n (fs @ [p]) w1 = Some (gs, w')"
    by (auto split: option.splits)
  have "length p = PAGE_BYTES" using Suc.prems(2) p(1) unfolding frames_ok_def by blast
  then obtain hs where "gs = (fs @ [p]) @ hs" "length hs = n" "pages_ok gs"
    using Suc.IH [OF p(2) Suc.prems(2)] Suc.prems(3) by auto
  then show ?case by (intro exI [of _ "p # hs"]) simp
qed simp

lemma copy_into_append_right: "copy_into (length xs + i) ys (xs @ zs) = xs @ copy_into i ys zs"
  by (simp add: copy_into_def add.assoc)

lemma copy_into_in_prefix: "i + length ys \<le> length xs \<Longrightarrow> copy_into i ys (xs @ zs) = copy_into i ys xs @ zs"
  by (simp add: copy_into_def)

lemma concat_put_pages:
  assumes "pages_ok fs" and "k < length fs" and "concat new = copy_into off buf (concat (drop k fs))"
  shows "concat (take k fs @ new) = copy_into (PAGE_BYTES * k + off) buf (concat fs)"
proof -
  have "length (concat (take k fs)) = PAGE_BYTES * k"
    using assms(1,2) by (simp add: length_concat_pages pages_ok_take)
  then have "concat (take k fs) @ copy_into off buf (concat (drop k fs))
      = copy_into (PAGE_BYTES * k + off) buf (concat (take k fs) @ concat (drop k fs))"
    using copy_into_append_right by metis
  then show ?thesis using assms(3) by (metis append_take_drop_id concat_append)
qed

text \<open>A write stores the bytes at the position, in the old frames with the new ones behind them.\<close>

lemma write_inner_frames:
  assumes ok: "vf_ok f" and fa: "frames_ok alloc" and buf: "buf \<noteq> []" and pos: "fpos f + length buf < 2 ^ 63"
    and fs: "push_frames alloc (addr_to_page_id (fpos f + length buf - 1) + 1 - length (frames f)) (frames f) w = Some (fs, w')"
  shows "\<exists>f'. write_inner alloc buf f w = Some ((length buf, f'), w') \<and> vf_ok f' \<and> fpos f' = fpos f + length buf \<and>
    fsize f' = max (fsize f) (fpos f + length buf) \<and> concat (frames f') = copy_into (fpos f) buf (concat fs) \<and>
    length (frames f') = length fs"
proof -
  define k off where "k = addr_to_page_id (fpos f)" and "off = page_offset (fpos f)"
  have ko: "PAGE_BYTES * k + off = fpos f" "off < PAGE_BYTES"
    by (simp_all add: k_def off_def page_split page_offset_less)
  obtain hs where hs: "fs = frames f @ hs" "length hs = addr_to_page_id (fpos f + length buf - 1) + 1 - length (frames f)"
      "pages_ok fs"
    using push_frames_ok [OF fs fa] ok by (auto simp: vf_ok_def)
  have len: "addr_to_page_id (fpos f + length buf - 1) < length fs" using hs(1,2) by simp
  then have room: "fpos f + length buf \<le> PAGE_BYTES * length fs"
    unfolding addr_to_page_id_def using div_less_iff_less_mult [of PAGE_BYTES "fpos f + length buf - 1" "length fs"] buf
    by (simp add: mult.commute)
  have k: "k < length fs" using room buf by (auto simp: k_def intro!: addr_page_less simp flip: length_greater_0_conv)
  obtain j where j: "length fs = Suc (k + j)" using k less_imp_Suc_add by blast
  have page: "length (fs ! k) = PAGE_BYTES" using hs(3) k by (rule pages_ok_nth)
  define new where "new = (if off + length buf \<le> PAGE_BYTES then copy_into off buf (fs ! k) # drop (Suc k) fs
      else copy_into off (take (PAGE_BYTES - off) buf) (fs ! k) # write_pages (drop (k + 1) fs) (PAGE_BYTES - off) buf)"
  have dk: "drop k fs = fs ! k # drop (Suc k) fs" using k by (simp add: Cons_nth_drop_Suc)
  have new: "concat new = copy_into off buf (concat (drop k fs)) \<and> pages_ok new \<and> length new = Suc j"
  proof (cases "off + length buf \<le> PAGE_BYTES")
    case True
    then show ?thesis
      using page hs(3) j by (simp add: new_def dk copy_into_in_prefix pages_ok_drop)
  next
    case False
    have rest: "length buf - (PAGE_BYTES - off) \<le> PAGE_BYTES * length (drop (k + 1) fs)"
      using room ko False by (simp add: j algebra_simps)
    note wp = write_pages_concat [OF pages_ok_drop [OF hs(3)] _ rest]
    have "copy_into off buf (fs ! k @ concat (drop (Suc k) fs))
        = copy_into off (take (PAGE_BYTES - off) buf) (fs ! k) @ copy_into 0 (drop (PAGE_BYTES - off) buf) (concat (drop (Suc k) fs))"
      using False ko(2) page
      by (simp add: copy_into_def add.commute [of off])
    then show ?thesis using False ko(2) page wp j by (simp add: new_def dk)
  qed
  have cat: "concat (take k fs @ new) = copy_into (fpos f) buf (concat fs)"
    using concat_put_pages [OF hs(3) k, of new off buf] new ko(1) by simp
  have upd: "fs[k := x] = take k fs @ x # drop (Suc k) fs" for x using k by (rule upd_conv_take_nth_drop)
  let ?f = "f\<lparr>frames := take k fs @ new, fpos := fpos f + length buf, fsize := max (fsize f) (fpos f + length buf)\<rparr>"
  have "write_inner alloc buf f w = Some ((length buf, ?f), w')"
    using buf pos fs k ko(2)
    by (simp add: write_inner_def Let_def new_def upd k_def [symmetric] off_def [symmetric])
  moreover have L: "length (take k fs @ new) = length fs" using new j k by simp
  moreover have size: "fsize f \<le> PAGE_BYTES * length fs" using ok hs(1) by (simp add: vf_ok_def algebra_simps)
  moreover have "vf_ok ?f"
    using ok new hs(3) size L room pos by (simp add: vf_ok_def pages_ok_take del: length_append)
  ultimately show ?thesis using cat new j k by (intro exI [of _ ?f]) simp
qed

lemma write_inner_ok:
  assumes ok: "vf_ok f" and fa: "frames_ok alloc" and buf: "buf \<noteq> []" and pos: "fpos f + length buf < 2 ^ 63"
    and fs: "push_frames alloc (addr_to_page_id (fpos f + length buf - 1) + 1 - length (frames f)) (frames f) w = Some (fs, w')"
    and inside: "fpos f \<le> fsize f"
  shows "\<exists>f'. write_inner alloc buf f w = Some ((length buf, f'), w') \<and> vf_ok f' \<and> fpos f' = fpos f + length buf \<and>
    fsize f' = max (fsize f) (fpos f + length buf) \<and>
    contents f' = take (fpos f) (contents f) @ buf @ drop (fpos f + length buf) (contents f)"
proof -
  obtain hs where hs: "fs = frames f @ hs" using push_frames_ok [OF fs fa] ok by (auto simp: vf_ok_def)
  obtain f' where f': "write_inner alloc buf f w = Some ((length buf, f'), w')" "vf_ok f'" "fpos f' = fpos f + length buf"
      "fsize f' = max (fsize f) (fpos f + length buf)" "concat (frames f') = copy_into (fpos f) buf (concat fs)"
    using write_inner_frames [OF ok fa buf pos fs] by blast
  have size: "fsize f \<le> length (concat (frames f))" using ok by (simp add: vf_ok_def length_concat_pages)
  then have c: "contents f = take (fsize f) (concat fs)" by (simp add: contents_def hs)
  have "contents f' = take (fpos f) (contents f) @ buf @ drop (fpos f + length buf) (contents f)"
    using inside size unfolding c by (simp add: contents_def f'(4,5) copy_into_def drop_take hs max_def) arith
  then show ?thesis using f' by blast
qed

subsection \<open>Sequences of operations\<close>

datatype file_op = Read nat | Write "u8 list" | Seek seek_from | ReadAt nat nat | WriteAt nat "u8 list" | Clear

datatype file_out = Bytes "u8 list" | Count nat | Position "nat option" | Cleared

fun file_step ::
    "('w \<Rightarrow> (u8 list \<times> 'w) option) \<Rightarrow> file_op \<Rightarrow> virt_file \<times> 'w \<Rightarrow> (file_out \<times> virt_file \<times> 'w) option" where
  "file_step alloc (Read n) (f, w) =
     map_option (\<lambda>(k, buf, f). (Bytes (take k buf), f, w)) (read_inner (replicate n 0) f)"
| "file_step alloc (Write buf) (f, w) = map_option (\<lambda>((k, f), w). (Count k, f, w)) (write_inner alloc buf f w)"
| "file_step alloc (Seek from) (f, w) = (case seek from f of (r, f) \<Rightarrow> Some (Position r, f, w))"
| "file_step alloc (ReadAt p n) (f, w) =
     map_option (\<lambda>(k, buf, f). (Bytes (take k buf), f, w)) (read_from_offset p (replicate n 0) f)"
| "file_step alloc (WriteAt p buf) (f, w) =
     map_option (\<lambda>((k, f), w). (Count k, f, w)) (write_to_offset alloc p buf f w)"
| "file_step alloc Clear (f, w) = Some (Cleared, clear f, w)"

fun file_run ::
    "('w \<Rightarrow> (u8 list \<times> 'w) option) \<Rightarrow> file_op list \<Rightarrow> virt_file \<times> 'w \<Rightarrow> (file_out list \<times> virt_file \<times> 'w) option" where
  "file_run alloc [] s = Some ([], s)"
| "file_run alloc (op # ops) s =
     (case file_step alloc op s of
        None \<Rightarrow> None
      | Some (out, s) \<Rightarrow> map_option (\<lambda>(outs, s). (out # outs, s)) (file_run alloc ops s))"

text \<open>The specification: the bytes of the file and the position.  It says nothing (\<open>None\<close>) about operations that
  start behind the end of the file or would make it longer than \<open>2 ^ 63\<close> bytes.\<close>

definition flat_read :: "nat \<Rightarrow> nat \<Rightarrow> u8 list \<Rightarrow> u8 list option" where
  "flat_read p n d = (if p \<le> length d then Some (take n (drop p d)) else None)"

definition flat_write :: "nat \<Rightarrow> u8 list \<Rightarrow> u8 list \<Rightarrow> u8 list option" where
  "flat_write p buf d =
     (if buf = [] then Some d
      else if p \<le> length d \<and> p + length buf < 2 ^ 63 then Some (take p d @ buf @ drop (p + length buf) d)
      else None)"

definition flat_move :: "int \<Rightarrow> int \<Rightarrow> u8 list \<Rightarrow> nat \<Rightarrow> (file_out \<times> u8 list \<times> nat) option" where
  "flat_move base d bytes p =
     (if d < - (2 ^ 63) \<or> 2 ^ 63 \<le> d then None
      else if 0 \<le> base + d \<and> base + d < 2 ^ 63 then Some (Position (Some (nat (base + d))), bytes, nat (base + d))
      else Some (Position None, bytes, p))"

fun flat_step :: "file_op \<Rightarrow> u8 list \<times> nat \<Rightarrow> (file_out \<times> u8 list \<times> nat) option" where
  "flat_step (Read n) (d, p) = map_option (\<lambda>bs. (Bytes bs, d, p + length bs)) (flat_read p n d)"
| "flat_step (Write buf) (d, p) = map_option (\<lambda>d'. (Count (length buf), d', p + length buf)) (flat_write p buf d)"
| "flat_step (Seek (Start q)) (d, p) = (if q < 2 ^ 63 then Some (Position (Some q), d, q) else None)"
| "flat_step (Seek (Current n)) (d, p) = flat_move (int p) n d p"
| "flat_step (Seek (End n)) (d, p) = flat_move (int (length d)) n d p"
| "flat_step (ReadAt q n) (d, p) = map_option (\<lambda>bs. (Bytes bs, d, p)) (flat_read q n d)"
| "flat_step (WriteAt q buf) (d, p) = map_option (\<lambda>d'. (Count (length buf), d', p)) (flat_write q buf d)"
| "flat_step Clear (d, p) = Some (Cleared, [], 0)"

fun flat_run :: "file_op list \<Rightarrow> u8 list \<times> nat \<Rightarrow> (file_out list \<times> u8 list \<times> nat) option" where
  "flat_run [] s = Some ([], s)"
| "flat_run (op # ops) s =
     (case flat_step op s of
        None \<Rightarrow> None
      | Some (out, s) \<Rightarrow> map_option (\<lambda>(outs, s). (out # outs, s)) (flat_run ops s))"

definition flat :: "virt_file \<Rightarrow> u8 list \<times> nat" where
  "flat f = (contents f, fpos f)"

definition file_ok :: "virt_file \<Rightarrow> bool" where
  "file_ok f \<longleftrightarrow> vf_ok f \<and> fpos f < 2 ^ 63"

lemma push_frames_plenty: "\<forall>w. alloc w \<noteq> None \<Longrightarrow> \<exists>fs w'. push_frames alloc n gs w = Some (fs, w')"
proof (induction n arbitrary: gs w)
  case (Suc n)
  obtain p w1 where "alloc w = Some (p, w1)" using Suc.prems by (metis option.exhaust surj_pair)
  then show ?case using Suc by auto
qed simp

lemma read_flat:
  assumes "vf_ok f" and "fpos f < 2 ^ 63" and "flat_read (fpos f) n (contents f) = Some bs"
  shows "\<exists>k buf f'. read_inner (replicate n 0) f = Some (k, buf, f') \<and> take k buf = bs \<and> vf_ok f' \<and>
    fpos f' < 2 ^ 63 \<and> contents f' = contents f \<and> fpos f' = fpos f + length bs"
proof -
  have le: "fpos f \<le> fsize f" and bs: "bs = take n (drop (fpos f) (contents f))"
    using assms(1,3) by (simp_all add: flat_read_def length_contents split: if_splits)
  then have len: "length bs = min n (fsize f - fpos f)" using assms(1) by (simp add: length_contents min.commute)
  have "take (length bs) (copy_into 0 bs (replicate n 0)) = bs" by (simp add: copy_into_def)
  moreover have "fpos f + length bs < 2 ^ 63" using le len assms(1) by (simp add: vf_ok_def) linarith
  ultimately show ?thesis
    using read_inner_ok [OF assms(1) le, of "replicate n 0"] assms(1)
    by (simp add: bs [symmetric] len [symmetric])
qed

lemma write_flat:
  assumes "vf_ok f" and "fpos f < 2 ^ 63" and "flat_write (fpos f) buf (contents f) = Some d"
    and "frames_ok alloc" and "\<forall>w. alloc w \<noteq> None"
  shows "\<exists>f' w'. write_inner alloc buf f w = Some ((length buf, f'), w') \<and> vf_ok f' \<and> fpos f' < 2 ^ 63 \<and>
    contents f' = d \<and> fpos f' = fpos f + length buf"
proof (cases "buf = []")
  case True
  then show ?thesis using assms(1-3) by (simp add: write_inner_def flat_write_def)
next
  case False
  then have le: "fpos f \<le> fsize f" "fpos f + length buf < 2 ^ 63"
    and d: "d = take (fpos f) (contents f) @ buf @ drop (fpos f + length buf) (contents f)"
    using assms(1,3) by (simp_all add: flat_write_def length_contents split: if_splits)
  obtain fs w' where "push_frames alloc (addr_to_page_id (fpos f + length buf - 1) + 1 - length (frames f)) (frames f) w
      = Some (fs, w')"
    using push_frames_plenty [OF assms(5)] by metis
  from write_inner_ok [OF assms(1,4) False le(2) this le(1)] show ?thesis using d le(2) by auto
qed

lemma i64_cases:
  assumes "- (2 ^ 63) \<le> n" and "n < 2 ^ 64"
  shows "i64 n = (if n < 2 ^ 63 then n else n - 2 ^ 64)"
proof -
  have "i64 n = (n + 2 ^ 63) mod 2 ^ 64 - 2 ^ 63"
    by (simp add: i64_def int_word_sint signed_take_bit_eq_take_bit_shift take_bit_eq_mod)
  moreover have "(n + 2 ^ 63) mod 2 ^ 64 = (if n < 2 ^ 63 then n + 2 ^ 63 else n - 2 ^ 63)"
  proof (cases "n < 2 ^ 63")
    case False
    then have "(n + 2 ^ 63) mod 2 ^ 64 = (n - 2 ^ 63 + 2 ^ 64) mod 2 ^ 64" by (simp add: add.commute)
    also have "\<dots> = (n - 2 ^ 63) mod 2 ^ 64" by (rule mod_add_self2)
    finally show ?thesis using False assms(2) by simp
  qed (use assms(1) in simp)
  ultimately show ?thesis by simp
qed

lemma move_flat:
  assumes "flat_move base d bytes p = Some (out, s)" and "0 \<le> base" and "base < 2 ^ 63"
  shows "if i64 (base + d) < 0 then out = Position None \<and> s = (bytes, p)
    else out = Position (Some (nat (i64 (base + d)))) \<and> s = (bytes, nat (i64 (base + d))) \<and> nat (i64 (base + d)) < 2 ^ 63"
proof -
  have d: "- (2 ^ 63) \<le> d" "d < 2 ^ 63" using assms(1) by (simp_all add: flat_move_def split: if_splits)
  then have "i64 (base + d) = (if base + d < 2 ^ 63 then base + d else base + d - 2 ^ 64)"
    using assms(2,3) by (intro i64_cases) simp_all
  then show ?thesis using assms d by (auto simp: flat_move_def split: if_splits)
qed

lemma seek_refines:
  assumes "file_ok f" and "flat_step (Seek whence) (flat f) = Some (out, s)"
  shows "\<exists>f' w'. file_step alloc (Seek whence) (f, w) = Some (out, f', w') \<and> file_ok f' \<and> flat f' = s"
proof -
  have ok: "vf_ok f" "fpos f < 2 ^ 63" "length (contents f) = fsize f" "fsize f < 2 ^ 63"
    using assms(1) by (simp_all add: file_ok_def length_contents vf_ok_def)
  have moved: ?thesis if "flat_move (int base) d (contents f) (fpos f) = Some (out, s)" "base < 2 ^ 63"
    "seek whence f = (let p = i64 (int base + d) in if p < 0 then (None, f) else (Some (nat p), f\<lparr>fpos := nat p\<rparr>))"
    for base d
    using move_flat [OF that(1)] that(2) ok
    by (cases "i64 (int base + d) < 0") (simp_all add: that(3) Let_def flat_def file_ok_def)
  show ?thesis
  proof (cases whence)
    case (Start q)
    then show ?thesis
      using assms(2) ok by (auto simp: flat_def file_ok_def seek_def split: if_splits)
  next
    case (Current d)
    then show ?thesis
      using assms(2) ok by (intro moved [of "fpos f" d]) (simp_all add: flat_def seek_def)
  next
    case (End d)
    then show ?thesis
      using assms(2) ok by (intro moved [of "fsize f" d]) (simp_all add: flat_def seek_def)
  qed
qed

lemma file_step_refines:
  assumes "file_ok f" and "flat_step op (flat f) = Some (out, s)" and "frames_ok alloc" and "\<forall>w. alloc w \<noteq> None"
  shows "\<exists>f' w'. file_step alloc op (f, w) = Some (out, f', w') \<and> file_ok f' \<and> flat f' = s"
proof -
  have ok: "vf_ok f" "fpos f < 2 ^ 63" "length (contents f) = fsize f" "fsize f < 2 ^ 63"
    using assms(1) by (simp_all add: file_ok_def length_contents vf_ok_def)
  show ?thesis
  proof (cases op)
    case (Read n)
    then obtain bs where bs: "flat_read (fpos f) n (contents f) = Some bs" "out = Bytes bs"
        "s = (contents f, fpos f + length bs)"
      using assms(2) by (auto simp: flat_def)
    from read_flat [OF ok(1,2) bs(1)] show ?thesis using Read bs by (auto simp: flat_def file_ok_def)
  next
    case (Write buf)
    then obtain d where d: "flat_write (fpos f) buf (contents f) = Some d" "out = Count (length buf)"
        "s = (d, fpos f + length buf)"
      using assms(2) by (auto simp: flat_def)
    obtain f' w' where "write_inner alloc buf f w = Some ((length buf, f'), w')" "vf_ok f'" "fpos f' < 2 ^ 63"
        "contents f' = d" "fpos f' = fpos f + length buf"
      using write_flat [OF ok(1,2) d(1) assms(3,4)] by blast
    then show ?thesis using Write d by (simp add: flat_def file_ok_def)
  next
    case (Seek whence)
    then show ?thesis using seek_refines [where whence = whence] assms(1,2) by simp
  next
    case (ReadAt q n)
    then obtain bs where bs: "flat_read q n (contents f) = Some bs" "out = Bytes bs" "s = (contents f, fpos f)"
      using assms(2) by (auto simp: flat_def)
    then have "q < 2 ^ 63" using ok by (simp add: flat_read_def split: if_splits)
    then obtain k buf f' where "read_inner (replicate n 0) (f\<lparr>fpos := q\<rparr>) = Some (k, buf, f')" "take k buf = bs"
        "vf_ok f'" "contents f' = contents f"
      using read_flat [of "f\<lparr>fpos := q\<rparr>" n bs] ok(1) bs(1) by auto
    then show ?thesis using ReadAt bs ok(2) by (simp add: read_from_offset_def flat_def file_ok_def)
  next
    case (WriteAt q buf)
    then obtain d where d: "flat_write q buf (contents f) = Some d" "out = Count (length buf)" "s = (d, fpos f)"
      using assms(2) by (auto simp: flat_def)
    show ?thesis
    proof (cases "buf = []")
      case True
      then show ?thesis using WriteAt d ok assms(1)
        by (simp add: write_to_offset_def write_inner_def flat_write_def flat_def file_ok_def)
    next
      case False
      then have "q < 2 ^ 63" using d(1) by (simp add: flat_write_def split: if_splits)
      then obtain f' w' where "write_inner alloc buf (f\<lparr>fpos := q\<rparr>) w = Some ((length buf, f'), w')" "vf_ok f'"
          "contents f' = d"
        using write_flat [of "f\<lparr>fpos := q\<rparr>" buf d alloc w] ok(1) d(1) assms(3,4) by auto
      then show ?thesis using WriteAt d ok(2) by (simp add: write_to_offset_def flat_def file_ok_def)
    qed
  next
    case Clear
    then show ?thesis using assms(2) by (simp add: flat_def clear_def file_ok_def vf_ok_def contents_def)
  qed
qed

lemma file_run_refines:
  assumes "file_ok f" and "frames_ok alloc" and "\<forall>w. alloc w \<noteq> None"
    and "flat_run ops (contents f, fpos f) = Some (outs, bytes, pos)"
  shows "\<exists>f' w'. file_run alloc ops (f, w) = Some (outs, f', w') \<and> file_ok f' \<and> contents f' = bytes \<and> fpos f' = pos"
  using assms(1,4)
proof (induction ops arbitrary: f w outs)
  case (Cons op ops)
  then obtain out s outs' where s: "flat_step op (flat f) = Some (out, s)" "flat_run ops s = Some (outs', bytes, pos)"
      "outs = out # outs'"
    by (auto simp: flat_def split: option.splits)
  obtain f1 w1 where f1: "file_step alloc op (f, w) = Some (out, f1, w1)" "file_ok f1" "flat f1 = s"
    using file_step_refines [OF Cons.prems(1) s(1) assms(2,3)] by blast
  from Cons.IH [OF f1(2), of outs' w1] s(2) f1(3) obtain f' w' where
    "file_run alloc ops (f1, w1) = Some (outs', f', w')" "file_ok f'" "contents f' = bytes" "fpos f' = pos"
    by (auto simp: flat_def)
  then show ?case using f1(1) s(3) by simp
qed simp

lemma read_past_end:
  assumes "fsize f < fpos f" and "fpos f < 2 ^ 63" and "buf \<noteq> []" and "length buf < 2 ^ 63"
  shows "length (frames f) \<le> addr_to_page_id (fpos f) \<Longrightarrow> read_inner buf f = None"
    and "addr_to_page_id (fpos f) < length (frames f) \<Longrightarrow> page_offset (fpos f) + length buf \<le> PAGE_BYTES \<Longrightarrow>
        read_inner buf f = Some (length buf,
          copy_into 0 (take (length buf) (drop (page_offset (fpos f)) (frames f ! addr_to_page_id (fpos f)))) buf,
          f\<lparr>fpos := fpos f + length buf\<rparr>)"
proof -
  define n where "n = fpos f - fsize f"
  have n: "fpos f = fsize f + n" "0 < n" "n < 2 ^ 63" using assms(1,2) by (simp_all add: n_def)
  have "(of_nat (2 ^ 64 - n) :: u64) = of_nat (2 ^ 64) - of_nat n" using n(3) by (intro of_nat_diff) simp
  then have "(of_nat (fsize f) - of_nat (fpos f) :: u64) = of_nat (2 ^ 64 - n)" by (simp add: n(1))
  then have "unat (of_nat (fsize f) - of_nat (fpos f) :: u64) = 2 ^ 64 - n"
    using n(2,3) by (simp only: unsigned_of_nat) (simp add: take_bit_nat_eq_self)
  then have len: "min (length buf) (unat (of_nat (fsize f) - of_nat (fpos f) :: u64)) = length buf"
    using n(3) assms(4) by simp
  show "length (frames f) \<le> addr_to_page_id (fpos f) \<Longrightarrow> read_inner buf f = None"
    and "addr_to_page_id (fpos f) < length (frames f) \<Longrightarrow> page_offset (fpos f) + length buf \<le> PAGE_BYTES \<Longrightarrow>
        read_inner buf f = Some (length buf,
          copy_into 0 (take (length buf) (drop (page_offset (fpos f)) (frames f ! addr_to_page_id (fpos f)))) buf,
          f\<lparr>fpos := fpos f + length buf\<rparr>)"
    using assms(3) by (auto simp: read_inner_def Let_def len)
qed

lemma write_hole:
  assumes "alloc w = Some (page, w')" and "length page = PAGE_BYTES" and "p < PAGE_BYTES"
  shows "\<exists>f'. write_inner alloc [b] (virt_file_new\<lparr>fpos := p\<rparr>) w = Some ((1, f'), w') \<and> contents f' = take p page @ [b]"
proof -
  have "write_inner alloc [b] (virt_file_new\<lparr>fpos := p\<rparr>) w =
      Some ((1, virt_file_new\<lparr>fpos := p + 1, frames := [copy_into p [b] page], fsize := p + 1\<rparr>), w')"
    using assms by (simp add: write_inner_def virt_file_new_def addr_to_page_id_def page_offset_def PAGE_BYTES_def)
  moreover have "take (p + 1) (copy_into p [b] page) = take p page @ [b]"
    using assms(2,3) by (simp add: copy_into_def)
  ultimately show ?thesis by (auto simp: contents_def)
qed

text \<open>C27: on every sequence of operations for which the specification of a flat file has a result, the paged file
  gives the same results, byte by byte, and holds the same bytes with the same position at the end, as long as there
  are frames: no byte is lost or misplaced at a page boundary, and nothing panics.  What the specification leaves out
  is wrong in the code.  When the position is behind the end, where POSIX has a read return 0, the length left wraps
  around: the read panics the kernel if the page of the position is not there, and returns what the frame holds behind
  the end of the file if it is.  And the hole that a write behind the end leaves, which is to read as zeros, shows
  what the new frame held before.\<close>

theorem virt_file_refines_flat:
  assumes "frames_ok alloc" and "\<forall>w. alloc w \<noteq> None"
  shows "(file_ok f \<and> flat_run ops (contents f, fpos f) = Some (outs, bytes, pos) \<longrightarrow>
      (\<exists>f' w'. file_run alloc ops (f, w) = Some (outs, f', w') \<and> file_ok f' \<and> contents f' = bytes \<and> fpos f' = pos))
    \<and> (fsize g < fpos g \<and> fpos g < 2 ^ 63 \<and> buf \<noteq> [] \<and> length buf < 2 ^ 63 \<longrightarrow>
        (length (frames g) \<le> addr_to_page_id (fpos g) \<longrightarrow> read_inner buf g = None) \<and>
        (addr_to_page_id (fpos g) < length (frames g) \<and> page_offset (fpos g) + length buf \<le> PAGE_BYTES \<longrightarrow>
          read_inner buf g = Some (length buf,
            copy_into 0 (take (length buf) (drop (page_offset (fpos g)) (frames g ! addr_to_page_id (fpos g)))) buf,
            g\<lparr>fpos := fpos g + length buf\<rparr>)))
    \<and> (alloc w = Some (page, w') \<and> p < PAGE_BYTES \<longrightarrow>
        (\<exists>f'. write_inner alloc [b] (virt_file_new\<lparr>fpos := p\<rparr>) w = Some ((1, f'), w') \<and> contents f' = take p page @ [b]))"
proof (intro conjI impI)
  show "\<exists>f' w'. file_run alloc ops (f, w) = Some (outs, f', w') \<and> file_ok f' \<and> contents f' = bytes \<and> fpos f' = pos"
    if "file_ok f \<and> flat_run ops (contents f, fpos f) = Some (outs, bytes, pos)"
    using file_run_refines [OF _ assms] that by blast
  show "\<exists>f'. write_inner alloc [b] (virt_file_new\<lparr>fpos := p\<rparr>) w = Some ((1, f'), w') \<and> contents f' = take p page @ [b]"
    if "alloc w = Some (page, w') \<and> p < PAGE_BYTES"
    using that assms(1) by (intro write_hole) (auto simp: frames_ok_def)
qed (use read_past_end in blast)+

theorem virt_file_refines_flat_witness:
  "\<exists>f'. file_run (\<lambda>w. Some (replicate PAGE_BYTES 7, w))
      [Write [1, 2, 3], Seek (Start 1), Read 5, Write [4], Seek (End (-4)), Seek (Start 0), Read 2] (virt_file_new, ())
    = Some ([Count 3, Position (Some 1), Bytes [2, 3], Count 1, Position (Some 0), Position (Some 0), Bytes [1, 2]], f', ())
    \<and> contents f' = [1, 2, 3, 4] \<and> fpos f' = 2 \<and> read_inner [0] (virt_file_new\<lparr>fpos := 10\<rparr>) = None"
proof -
  have ok: "file_ok virt_file_new" by (simp add: file_ok_def vf_ok_def virt_file_new_def)
  have fa: "frames_ok (\<lambda>w. Some (replicate PAGE_BYTES 7, w))" by (simp add: frames_ok_def)
  have r: "flat_run [Write [1, 2, 3], Seek (Start 1), Read 5, Write [4], Seek (End (-4)), Seek (Start 0), Read 2]
      (contents virt_file_new, fpos virt_file_new)
    = Some ([Count 3, Position (Some 1), Bytes [2, 3], Count 1, Position (Some 0), Position (Some 0), Bytes [1, 2]],
        [1, 2, 3, 4], 2)"
    by (simp add: virt_file_new_def contents_def flat_write_def flat_read_def flat_move_def)
  have "\<forall>w :: unit. Some (replicate PAGE_BYTES 7 :: u8 list, w) \<noteq> None" by simp
  note v = virt_file_refines_flat [OF fa this, of virt_file_new _ _ _ _ "()" "virt_file_new\<lparr>fpos := 10\<rparr>" "[0]"]
  have "read_inner [0] (virt_file_new\<lparr>fpos := 10\<rparr>) = None"
    using v [THEN conjunct2, THEN conjunct1] by (simp add: virt_file_new_def)
  moreover note v [THEN conjunct1, THEN mp, OF conjI [OF ok r]]
  ultimately show ?thesis by auto
qed

end
