(* ===== verification/KernelPipe.thy ===== *)
theory KernelPipe
  imports KernelFile
begin

text \<open>
  The kernel's pipes: \<open>RingBuffer\<close> and \<open>Pipe\<close> of kernel/src/file/pipe.rs.  The ring buffer stores its bytes in a file
  in memory (theory KernelFile) between the positions \<open>head\<close> and \<open>end\<close>, around the end of the buffer; it is refined to a
  queue of bytes.  Reading and writing a pipe gives way to other tasks at most twice; what they do to the buffer in the
  meantime is an argument.
\<close>

record ring_buffer =
  data :: virt_file
  head :: nat
  ring_end :: nat
  ring_len :: nat
  size_limit :: nat

definition ring_new :: "nat \<Rightarrow> ring_buffer" where
  "ring_new limit = \<lparr>data = virt_file_new, head = 0, ring_end = 0, ring_len = 0, size_limit = limit\<rparr>"

definition ring_read :: "u8 list \<Rightarrow> ring_buffer \<Rightarrow> (nat \<times> u8 list \<times> ring_buffer) option" where
  "ring_read buf r =
     (let max_len = min (length buf) (ring_len r);
          r = r\<lparr>ring_len := ring_len r - max_len, data := set_pos (head r) (data r)\<rparr>
      in if head r + max_len \<le> size_limit r then
           (case read_inner (take max_len buf) (data r) of
              None \<Rightarrow> None
            | Some (_, part, d) \<Rightarrow>
                Some (max_len, part @ drop max_len buf, r\<lparr>data := d, head := head r + max_len\<rparr>))
         else
           let k = size_limit r - head r
           in case read_inner (take k buf) (data r) of
                None \<Rightarrow> None
              | Some (_, part, d) \<Rightarrow>
                  (case read_inner (drop k (take max_len buf)) (set_pos 0 d) of
                     None \<Rightarrow> None
                   | Some (_, rest, d) \<Rightarrow>
                       Some (max_len, part @ rest @ drop max_len buf,
                             r\<lparr>data := d, head := head r + max_len - size_limit r\<rparr>)))"

definition ring_write ::
    "('w \<Rightarrow> (u8 list \<times> 'w) option) \<Rightarrow> u8 list \<Rightarrow> ring_buffer \<Rightarrow> 'w \<Rightarrow> ((nat \<times> ring_buffer) \<times> 'w) option" where
  "ring_write alloc buf r w =
     (let max_len = min (length buf) (size_limit r - ring_len r);
          r = r\<lparr>ring_len := ring_len r + max_len, data := set_pos (ring_end r) (data r)\<rparr>
      in if ring_end r + max_len \<le> size_limit r then
           (case write_inner alloc (take max_len buf) (data r) w of
              None \<Rightarrow> None
            | Some ((_, d), w) \<Rightarrow> Some ((max_len, r\<lparr>data := d, ring_end := ring_end r + max_len\<rparr>), w))
         else
           let k = size_limit r - ring_end r
           in case write_inner alloc (take k buf) (data r) w of
                None \<Rightarrow> None
              | Some ((_, d), w) \<Rightarrow>
                  (case write_inner alloc (drop k (take max_len buf)) (set_pos 0 d) w of
                     None \<Rightarrow> None
                   | Some ((_, d), w) \<Rightarrow>
                       Some ((max_len, r\<lparr>data := d, ring_end := ring_end r + max_len - size_limit r\<rparr>), w)))"

definition ring_is_full :: "ring_buffer \<Rightarrow> bool" where
  "ring_is_full r \<longleftrightarrow> ring_len r = size_limit r"

definition ring_is_empty :: "ring_buffer \<Rightarrow> bool" where
  "ring_is_empty r \<longleftrightarrow> ring_len r = 0"

subsection \<open>The queue of bytes\<close>

definition ring_queue :: "ring_buffer \<Rightarrow> u8 list" where
  "ring_queue r = take (ring_len r) (drop (head r) (contents (data r)) @ contents (data r))"

definition ring_ok :: "ring_buffer \<Rightarrow> bool" where
  "ring_ok r \<longleftrightarrow> vf_ok (data r) \<and> size_limit r < 2 ^ 62 \<and> fsize (data r) \<le> size_limit r \<and>
     head r \<le> fsize (data r) \<and> ring_end r \<le> fsize (data r) \<and> ring_len r \<le> size_limit r \<and>
     (head r + ring_len r = ring_end r \<or>
      head r + ring_len r = ring_end r + size_limit r \<and> fsize (data r) = size_limit r)"

lemma ring_new_ok: "limit < 2 ^ 62 \<Longrightarrow> ring_ok (ring_new limit)" "ring_queue (ring_new limit) = []"
  by (simp_all add: ring_ok_def ring_new_def ring_queue_def vf_ok_def virt_file_new_def)

lemma length_ring_queue: "ring_ok r \<Longrightarrow> length (ring_queue r) = ring_len r"
  by (auto simp: ring_ok_def ring_queue_def length_contents)

text \<open>Reading and writing at a position of the file, in terms of its bytes.\<close>

lemma read_at:
  assumes "vf_ok d" and "p + length buf \<le> fsize d"
  shows "\<exists>d'. read_inner buf (set_pos p d) = Some (length buf, take (length buf) (drop p (contents d)), d') \<and>
    vf_ok d' \<and> contents d' = contents d \<and> fsize d' = fsize d"
proof -
  have "copy_into 0 (take (length buf) (drop p (contents d))) buf = take (length buf) (drop p (contents d))"
    using assms by (simp add: copy_into_def length_contents)
  then show ?thesis
    using read_inner_ok [of "set_pos p d" buf] assms by (simp add: set_pos_def min_absorb1)
qed

lemma write_at:
  assumes "vf_ok d" and "p \<le> fsize d" and "p + length buf < 2 ^ 63" and "frames_ok alloc" and "\<forall>w. alloc w \<noteq> None"
  shows "\<exists>d' w'. write_inner alloc buf (set_pos p d) w = Some ((length buf, d'), w') \<and> vf_ok d' \<and>
    contents d' = take p (contents d) @ buf @ drop (p + length buf) (contents d) \<and>
    fsize d' = max (fsize d) (p + length buf)"
proof (cases "buf = []")
  case True
  then show ?thesis using assms(1,2) by (simp add: write_inner_def set_pos_def)
next
  case False
  let ?d = "set_pos p d"
  have "vf_ok ?d" "fpos ?d = p" "contents ?d = contents d" "fsize ?d = fsize d"
    using assms(1) by (simp_all add: set_pos_def)
  moreover obtain fs w' where
    "push_frames alloc (addr_to_page_id (fpos ?d + length buf - 1) + 1 - length (frames ?d)) (frames ?d) w = Some (fs, w')"
    using push_frames_plenty [OF assms(5)] by metis
  ultimately show ?thesis using write_inner_ok [of ?d alloc buf w fs w'] assms False by auto
qed

lemma drop_take_min: "drop a (take b xs) = take (b - min a b) (drop (min a b) xs)"
  by (cases "a \<le> b") (simp_all add: drop_take)

lemma ring_read_ok:
  assumes "ring_ok r"
  shows "\<exists>r'. ring_read buf r = Some (min (length buf) (length (ring_queue r)),
      take (length buf) (ring_queue r) @ drop (length (ring_queue r)) buf, r') \<and>
    ring_ok r' \<and> ring_queue r' = drop (length buf) (ring_queue r) \<and> size_limit r' = size_limit r"
proof -
  define n c where "n = min (length buf) (ring_len r)" and "c = contents (data r)"
  have ok: "vf_ok (data r)" "size_limit r < 2 ^ 62" "fsize (data r) \<le> size_limit r" "head r \<le> fsize (data r)"
    "ring_end r \<le> fsize (data r)" "ring_len r \<le> size_limit r" "length c = fsize (data r)"
    using assms by (simp_all add: ring_ok_def c_def length_contents)
  have split: "head r + ring_len r = ring_end r \<or>
      head r + ring_len r = ring_end r + size_limit r \<and> fsize (data r) = size_limit r"
    using assms by (simp add: ring_ok_def)
  have n: "n \<le> length buf" "n \<le> ring_len r" by (simp_all add: n_def)
  have q: "take (length buf) (ring_queue r) = take n (drop (head r) c @ c)"
      "drop (length buf) (ring_queue r) = take (ring_len r - n) (drop n (drop (head r) c @ c))"
    unfolding ring_queue_def c_def n_def by (simp_all only: take_take drop_take_min)
  have b: "drop (ring_len r) buf = drop n buf" by (simp add: n_def min_def)
  have l: "length (ring_queue r) = ring_len r" by (rule length_ring_queue [OF assms])
  show ?thesis
  proof (cases "head r + n \<le> size_limit r")
    case True
    then have le: "head r + length (take n buf) \<le> fsize (data r)" using split n ok by auto
    from read_at [OF ok(1) this] obtain d where
      d: "read_inner (take n buf) (set_pos (head r) (data r)) = Some (n, take n (drop (head r) c), d)"
        "vf_ok d" "contents d = c" "fsize d = fsize (data r)"
      using n(1) by (auto simp: c_def)
    let ?r = "r\<lparr>ring_len := ring_len r - n, data := d, head := head r + n\<rparr>"
    have "ring_read buf r = Some (n, take n (drop (head r) c) @ drop n buf, ?r)"
      using True d(1) by (simp add: ring_read_def Let_def n_def [symmetric])
    moreover have "n \<le> length c - head r" using le n(1) ok(7) by simp
    moreover from this have "ring_queue ?r = take (ring_len r - n) (drop n (drop (head r) c @ c))"
      by (simp add: ring_queue_def d(3) add.commute)
    moreover have "ring_ok ?r" using ok split n d le by (auto simp: ring_ok_def)
    ultimately show ?thesis unfolding q b l n_def [symmetric] by (intro exI [of _ ?r]) simp
  next
    case False
    define k where "k = size_limit r - head r"
    have full: "fsize (data r) = size_limit r" "head r + ring_len r = ring_end r + size_limit r" "k < n"
      using False split n ok by (auto simp: k_def)
    have "head r + length (take k buf) \<le> fsize (data r)" using full ok by (simp add: k_def)
    from read_at [OF ok(1) this] obtain d where
      d: "read_inner (take k buf) (set_pos (head r) (data r)) = Some (k, drop (head r) c, d)"
        "vf_ok d" "contents d = c" "fsize d = size_limit r"
      using n(1) full ok(7) by (auto simp: c_def k_def)
    have "0 + length (drop k (take n buf)) \<le> fsize d" using n d(4) full ok by (simp add: k_def)
    from read_at [OF d(2) this] obtain d' where
      d': "read_inner (drop k (take n buf)) (set_pos 0 d) = Some (n - k, take (n - k) c, d')"
        "vf_ok d'" "contents d' = c" "fsize d' = size_limit r"
      using n(1) d(3,4) by auto
    let ?r = "r\<lparr>ring_len := ring_len r - n, data := d', head := head r + n - size_limit r\<rparr>"
    have "ring_read buf r = Some (n, drop (head r) c @ take (n - k) c @ drop n buf, ?r)"
      using False d(1) d'(1) by (simp add: ring_read_def Let_def n_def [symmetric] k_def [symmetric])
    moreover have "take n (drop (head r) c @ c) = drop (head r) c @ take (n - k) c"
      using full ok(7) by (simp add: k_def)
    moreover have "n - k = head r + n - size_limit r" "ring_len r - n \<le> length c - (head r + n - size_limit r)"
      using full ok False by (simp_all add: k_def)
    then have "ring_queue ?r = take (ring_len r - n) (drop n (drop (head r) c @ c))"
      using full ok(7) by (simp add: ring_queue_def d'(3) k_def)
    moreover have "ring_ok ?r" using ok full n d' False by (auto simp: ring_ok_def k_def)
    ultimately show ?thesis unfolding q b l n_def [symmetric] by (intro exI [of _ ?r]) simp
  qed
qed

lemma ring_write_ok:
  assumes "ring_ok r" and alloc: "frames_ok alloc" "\<forall>w. alloc w \<noteq> None"
  shows "\<exists>r' w'. ring_write alloc buf r w = Some ((min (length buf) (size_limit r - length (ring_queue r)), r'), w') \<and>
    ring_ok r' \<and> ring_queue r' = ring_queue r @ take (size_limit r - length (ring_queue r)) buf \<and>
    size_limit r' = size_limit r"
proof -
  define n c where "n = min (length buf) (size_limit r - ring_len r)" and "c = contents (data r)"
  have ok: "vf_ok (data r)" "size_limit r < 2 ^ 62" "fsize (data r) \<le> size_limit r" "head r \<le> fsize (data r)"
    "ring_end r \<le> fsize (data r)" "ring_len r \<le> size_limit r" "length c = fsize (data r)"
    using assms by (simp_all add: ring_ok_def c_def length_contents)
  have split: "head r + ring_len r = ring_end r \<or>
      head r + ring_len r = ring_end r + size_limit r \<and> fsize (data r) = size_limit r"
    using assms by (simp add: ring_ok_def)
  have n: "n \<le> length buf" "n \<le> size_limit r - ring_len r" by (simp_all add: n_def)
  have q: "ring_queue r = take (ring_len r) (drop (head r) c @ c)" by (simp add: ring_queue_def c_def)
  have l: "length (ring_queue r) = ring_len r" by (rule length_ring_queue [OF assms(1)])
  have b: "take (size_limit r - ring_len r) buf = take n buf" by (simp add: n_def min_def)
  show ?thesis
  proof (cases "ring_end r + n \<le> size_limit r")
    case True
    have "ring_end r + length (take n buf) < 2 ^ 63" using True ok(2) by simp
    from write_at [OF ok(1,5) this alloc, of w] obtain d w' where
      d: "write_inner alloc (take n buf) (set_pos (ring_end r) (data r)) w = Some ((n, d), w')" "vf_ok d"
        "contents d = take (ring_end r) c @ take n buf @ drop (ring_end r + n) c" "fsize d = max (fsize (data r)) (ring_end r + n)"
      using n(1) by (auto simp: c_def)
    let ?r = "r\<lparr>ring_len := ring_len r + n, data := d, ring_end := ring_end r + n\<rparr>"
    have "ring_write alloc buf r w = Some ((n, ?r), w')"
      using True d(1) by (simp add: ring_write_def Let_def n_def [symmetric])
    moreover have "ring_ok ?r" using True ok split n d(2,4) by (auto simp: ring_ok_def)
    moreover have qr: "ring_queue ?r = take (ring_len r + n) (drop (head r) (contents d) @ contents d)"
      by (simp add: ring_queue_def)
    have "ring_queue ?r = ring_queue r @ take n buf"
      using split
    proof
      assume u: "head r + ring_len r = ring_end r"
      then have e: "ring_end r = head r + ring_len r" by simp
      then have "take (ring_len r) (drop (head r) c @ c) = drop (head r) (take (ring_end r) c)"
        using ok by (simp add: drop_take)
      then show ?thesis using ok n(1) unfolding qr q by (simp add: d(3) e)
    next
      assume w: "head r + ring_len r = ring_end r + size_limit r \<and> fsize (data r) = size_limit r"
      then have e: "ring_len r = size_limit r - head r + ring_end r" using ok by linarith
      then have "take (ring_len r) (drop (head r) c @ c) = drop (head r) c @ take (ring_end r) c"
        using w ok by simp
      moreover have hn: "ring_end r + n \<le> head r" using w n ok(6) by linarith
      then have "drop (head r) (contents d) = drop (head r) c" using n(1) ok by (simp add: d(3))
      ultimately show ?thesis using e w ok n unfolding qr q by (simp add: d(3))
    qed
    ultimately show ?thesis unfolding l b n_def [symmetric] by (intro exI [of _ ?r] exI [of _ w']) simp
  next
    case False
    then have u: "head r + ring_len r = ring_end r" using split n ok by auto
    define k where "k = size_limit r - ring_end r"
    have k: "k < n" "ring_end r + k = size_limit r" "n - k \<le> head r" using False u n ok by (auto simp: k_def)
    have "ring_end r + length (take k buf) < 2 ^ 63" using k n ok by simp
    from write_at [OF ok(1,5) this alloc, of w] obtain d w1 where
      d: "write_inner alloc (take k buf) (set_pos (ring_end r) (data r)) w = Some ((k, d), w1)" "vf_ok d"
        "contents d = take (ring_end r) c @ take k buf" "fsize d = size_limit r"
      using n(1) k ok by (auto simp: c_def max_def)
    have "0 + length (drop k (take n buf)) < 2 ^ 63" using n ok by simp
    from write_at [OF d(2) _ this alloc, of w1] obtain d' w' where
      d': "write_inner alloc (drop k (take n buf)) (set_pos 0 d) w1 = Some ((n - k, d'), w')" "vf_ok d'"
        "contents d' = drop k (take n buf) @ drop (n - k) (contents d)" "fsize d' = size_limit r"
      using n k d(4) by auto
    let ?r = "r\<lparr>ring_len := ring_len r + n, data := d', ring_end := ring_end r + n - size_limit r\<rparr>"
    have "ring_write alloc buf r w = Some ((n, ?r), w')"
      using False d(1) d'(1) by (simp add: ring_write_def Let_def n_def [symmetric] k_def [symmetric])
    moreover have "ring_ok ?r" using False ok u k n d'(2,4) by (auto simp: ring_ok_def)
    moreover have "ring_queue ?r = ring_queue r @ take n buf"
    proof -
      have "drop (head r) (contents d') = drop (head r) (contents d)" using k n by (simp add: d'(3))
      also have "\<dots> = take (ring_len r) (drop (head r) c @ c) @ take k buf"
        using u ok by (simp add: d(3) drop_take flip: u)
      finally have h: "drop (head r) (contents d') = ring_queue r @ take k buf" by (simp add: q)
      have "take n buf = take k buf @ drop k (take n buf)" using k(1) by (metis append_take_drop_id less_imp_le min.absorb1 take_take)
      moreover have "ring_queue ?r = take (ring_len r + n) (drop (head r) (contents d') @ contents d')"
        by (simp add: ring_queue_def)
      ultimately show ?thesis using k n unfolding h by (simp add: l d'(3))
    qed
    ultimately show ?thesis unfolding l b n_def [symmetric] by (intro exI [of _ ?r] exI [of _ w']) simp
  qed
qed

subsection \<open>Streams of operations\<close>

text \<open>What the two ends of a pipe rely on: a bounded queue of bytes.\<close>

datatype stream_op = Take nat | Give "u8 list"

text \<open>A sequence of operations of both ends, with the bytes that were read and the ones that were accepted.\<close>

fun stream_run ::
    "(nat \<Rightarrow> 's \<Rightarrow> (u8 list \<times> 's) option) \<Rightarrow> (u8 list \<Rightarrow> 's \<Rightarrow> (nat \<times> 's) option) \<Rightarrow> stream_op list \<Rightarrow> 's \<Rightarrow>
     (u8 list \<times> u8 list \<times> 's) option" where
  "stream_run rd wr [] s = Some ([], [], s)"
| "stream_run rd wr (Take n # ops) s =
     (case rd n s of
        None \<Rightarrow> None
      | Some (bs, s) \<Rightarrow> map_option (\<lambda>(got, given, s). (bs @ got, given, s)) (stream_run rd wr ops s))"
| "stream_run rd wr (Give bs # ops) s =
     (case wr bs s of
        None \<Rightarrow> None
      | Some (n, s) \<Rightarrow> map_option (\<lambda>(got, given, s). (got, take n bs @ given, s)) (stream_run rd wr ops s))"

locale byte_queue =
  fixes rd :: "nat \<Rightarrow> 's \<Rightarrow> (u8 list \<times> 's) option" and wr :: "u8 list \<Rightarrow> 's \<Rightarrow> (nat \<times> 's) option"
    and ok :: "'s \<Rightarrow> bool" and queue :: "'s \<Rightarrow> u8 list" and capacity :: "'s \<Rightarrow> nat"
  assumes rd_law: "ok s \<Longrightarrow> \<exists>s'. rd n s = Some (take n (queue s), s') \<and> ok s' \<and> queue s' = drop n (queue s) \<and>
      capacity s' = capacity s"
    and wr_law: "ok s \<Longrightarrow> \<exists>s'. wr bs s = Some (min (length bs) (capacity s - length (queue s)), s') \<and> ok s' \<and>
      queue s' = queue s @ take (capacity s - length (queue s)) bs \<and> capacity s' = capacity s"
    and bounded: "ok s \<Longrightarrow> length (queue s) \<le> capacity s"
begin

lemma stream_in_order:
  "ok s \<Longrightarrow> \<exists>got given s'. stream_run rd wr ops s = Some (got, given, s') \<and> ok s' \<and>
     got @ queue s' = queue s @ given \<and> capacity s' = capacity s"
proof (induction ops arbitrary: s)
  case (Cons op ops)
  show ?case
  proof (cases op)
    case (Take n)
    obtain s1 where s1: "rd n s = Some (take n (queue s), s1)" "ok s1" "queue s1 = drop n (queue s)" "capacity s1 = capacity s"
      using rd_law [OF Cons.prems] by blast
    obtain got given s' where "stream_run rd wr ops s1 = Some (got, given, s')" "ok s'"
        "got @ queue s' = queue s1 @ given" "capacity s' = capacity s1"
      using Cons.IH [OF s1(2)] by blast
    moreover from this have "(take n (queue s) @ got) @ queue s' = queue s @ given" using s1(3) by simp
    ultimately show ?thesis using Take s1 by simp
  next
    case (Give bs)
    let ?n = "capacity s - length (queue s)"
    obtain s1 where s1: "wr bs s = Some (min (length bs) ?n, s1)" "ok s1" "queue s1 = queue s @ take ?n bs"
        "capacity s1 = capacity s"
      using wr_law [OF Cons.prems] by blast
    obtain got given s' where "stream_run rd wr ops s1 = Some (got, given, s')" "ok s'"
        "got @ queue s' = queue s1 @ given" "capacity s' = capacity s1"
      using Cons.IH [OF s1(2)] by blast
    moreover have "take (min (length bs) ?n) bs = take ?n bs" by (simp add: min_def)
    ultimately show ?thesis using Give s1 by simp
  qed
qed simp

end

definition ring_take :: "nat \<Rightarrow> ring_buffer \<times> 'w \<Rightarrow> (u8 list \<times> ring_buffer \<times> 'w) option" where
  "ring_take n s = map_option (\<lambda>(k, buf, r). (take k buf, r, snd s)) (ring_read (replicate n 0) (fst s))"

definition ring_give ::
    "('w \<Rightarrow> (u8 list \<times> 'w) option) \<Rightarrow> u8 list \<Rightarrow> ring_buffer \<times> 'w \<Rightarrow> (nat \<times> ring_buffer \<times> 'w) option" where
  "ring_give alloc bs s = map_option (\<lambda>((k, r), w). (k, r, w)) (ring_write alloc bs (fst s) (snd s))"

lemma byte_queue_ring:
  fixes alloc :: "'w \<Rightarrow> (u8 list \<times> 'w) option"
  assumes "frames_ok alloc" and "\<forall>w. alloc w \<noteq> None"
  shows "byte_queue ring_take (ring_give alloc) (\<lambda>s. ring_ok (fst s)) (\<lambda>s. ring_queue (fst s)) (\<lambda>s. size_limit (fst s))"
proof
  fix n bs and s :: "ring_buffer \<times> 'w"
  assume ok: "ring_ok (fst s)"
  obtain r where r: "ring_read (replicate n 0) (fst s) = Some (min n (length (ring_queue (fst s))),
      take n (ring_queue (fst s)) @ drop (length (ring_queue (fst s))) (replicate n 0), r)" "ring_ok r"
      "ring_queue r = drop n (ring_queue (fst s))" "size_limit r = size_limit (fst s)"
    using ring_read_ok [OF ok, of "replicate n 0"] by auto
  have "take (min n (length q)) (take n q @ z) = take n q" for q z :: "u8 list" by (simp add: min_def)
  then show "\<exists>s'. ring_take n s = Some (take n (ring_queue (fst s)), s') \<and> ring_ok (fst s') \<and>
      ring_queue (fst s') = drop n (ring_queue (fst s)) \<and> size_limit (fst s') = size_limit (fst s)"
    using r by (simp add: ring_take_def)
  show "\<exists>s'. ring_give alloc bs s = Some (min (length bs) (size_limit (fst s) - length (ring_queue (fst s))), s') \<and>
      ring_ok (fst s') \<and> ring_queue (fst s') = ring_queue (fst s) @ take (size_limit (fst s) - length (ring_queue (fst s))) bs \<and>
      size_limit (fst s') = size_limit (fst s)"
    using ring_write_ok [OF ok assms, of bs "snd s"] by (auto simp: ring_give_def)
  show "length (ring_queue (fst s)) \<le> size_limit (fst s)"
    using ok by (simp add: length_ring_queue) (simp add: ring_ok_def)
qed

text \<open>A supply of frames with arbitrary contents.\<close>

definition frame_supply :: "(nat \<Rightarrow> u8 list) \<Rightarrow> (u8 list \<times> (nat \<Rightarrow> u8 list)) option" where
  "frame_supply w = Some (take PAGE_BYTES (w 0 @ replicate PAGE_BYTES 0), \<lambda>i. w (Suc i))"

lemma frame_supply_ok: "frames_ok frame_supply" "\<forall>w. frame_supply w \<noteq> None"
  by (auto simp: frames_ok_def frame_supply_def min_def)

interpretation rq: byte_queue ring_take "ring_give frame_supply" "\<lambda>s. ring_ok (fst s)"
    "\<lambda>s. ring_queue (fst s)" "\<lambda>s. size_limit (fst s)"
  by (rule byte_queue_ring [OF frame_supply_ok])

subsection \<open>The two ends of a pipe\<close>

text \<open>\<open>strong\<close> is the number of ends that are not closed.  \<open>suspend\<close> is what the other tasks do while this one waits.\<close>

record 'w pipe =
  ring :: ring_buffer
  strong :: nat
  world :: 'w

definition PIPE_SIZE_LIMIT :: nat where
  "PIPE_SIZE_LIMIT = 0x40000"

definition pipe_new :: "'w \<Rightarrow> 'w pipe" where
  "pipe_new w = \<lparr>ring = ring_new PIPE_SIZE_LIMIT, strong = 2, world = w\<rparr>"

function read_more ::
    "('w pipe \<Rightarrow> 'w pipe option) \<Rightarrow> nat \<Rightarrow> nat \<Rightarrow> u8 list \<Rightarrow> 'w pipe \<Rightarrow> (nat \<times> u8 list \<times> 'w pipe) option" where
  "read_more suspend cnt read_len buf p =
     (if read_len < length buf \<and> strong p = 2 then
        (if cnt + 1 > 2 then Some (read_len, buf, p)
         else
           case suspend p of
             None \<Rightarrow> None
           | Some p \<Rightarrow>
               (case ring_read (drop read_len buf) (ring p) of
                  None \<Rightarrow> None
                | Some (n, part, r) \<Rightarrow>
                    read_more suspend (cnt + 1) (read_len + n) (take read_len buf @ part) (p\<lparr>ring := r\<rparr>)))
      else Some (read_len, buf, p))"
  by pat_completeness auto
termination by (relation "measure (\<lambda>(suspend, cnt, _). 2 - cnt)") auto

declare read_more.simps [simp del]

definition pipe_read ::
    "('w pipe \<Rightarrow> 'w pipe option) \<Rightarrow> bool \<Rightarrow> u8 list \<Rightarrow> 'w pipe \<Rightarrow> (nat option \<times> u8 list \<times> 'w pipe) option" where
  "pipe_read suspend is_read buf p =
     (if is_read then
        (case ring_read buf (ring p) of
           None \<Rightarrow> None
         | Some (n, buf, r) \<Rightarrow>
             map_option (\<lambda>(n, buf, p). (Some n, buf, p)) (read_more suspend 0 n buf (p\<lparr>ring := r\<rparr>)))
      else Some (None, buf, p))"

function write_more ::
    "('w \<Rightarrow> (u8 list \<times> 'w) option) \<Rightarrow> ('w pipe \<Rightarrow> 'w pipe option) \<Rightarrow> nat \<Rightarrow> nat \<Rightarrow> u8 list \<Rightarrow> 'w pipe \<Rightarrow>
     (nat \<times> 'w pipe) option" where
  "write_more alloc suspend cnt write_len buf p =
     (if write_len < length buf \<and> strong p = 2 then
        (if cnt + 1 > 2 then Some (write_len, p)
         else
           case suspend p of
             None \<Rightarrow> None
           | Some p \<Rightarrow>
               (case ring_write alloc (drop write_len buf) (ring p) (world p) of
                  None \<Rightarrow> None
                | Some ((n, r), w) \<Rightarrow>
                    write_more alloc suspend (cnt + 1) (write_len + n) buf (p\<lparr>ring := r, world := w\<rparr>)))
      else Some (write_len, p))"
  by pat_completeness auto
termination by (relation "measure (\<lambda>(_, suspend, cnt, _). 2 - cnt)") auto

declare write_more.simps [simp del]

definition pipe_write ::
    "('w \<Rightarrow> (u8 list \<times> 'w) option) \<Rightarrow> ('w pipe \<Rightarrow> 'w pipe option) \<Rightarrow> bool \<Rightarrow> u8 list \<Rightarrow> 'w pipe \<Rightarrow>
     (nat option \<times> 'w pipe) option" where
  "pipe_write alloc suspend is_read buf p =
     (if is_read then Some (None, p)
      else
        case ring_write alloc buf (ring p) (world p) of
          None \<Rightarrow> None
        | Some ((n, r), w) \<Rightarrow>
            map_option (\<lambda>(n, p). (Some n, p)) (write_more alloc suspend 0 n buf (p\<lparr>ring := r, world := w\<rparr>)))"

definition ready_to_read :: "bool \<Rightarrow> 'w pipe \<Rightarrow> bool" where
  "ready_to_read is_read p \<longleftrightarrow> is_read \<and> \<not> ring_is_empty (ring p)"

definition ready_to_write :: "bool \<Rightarrow> 'w pipe \<Rightarrow> bool" where
  "ready_to_write is_read p \<longleftrightarrow> \<not> is_read \<and> \<not> ring_is_full (ring p)"

definition is_hang_up :: "bool \<Rightarrow> 'w pipe \<Rightarrow> bool" where
  "is_hang_up is_read p \<longleftrightarrow>
     (if is_read then ring_is_empty (ring p) \<and> strong p < 2 else strong p < 2)"

text \<open>What the task at the other end may do to the ring while this one waits.\<close>

definition others_write :: "('w pipe \<Rightarrow> 'w pipe option) \<Rightarrow> bool" where
  "others_write suspend \<longleftrightarrow> (\<forall>p. ring_ok (ring p) \<longrightarrow>
     (\<exists>p' ys. suspend p = Some p' \<and> ring_ok (ring p') \<and> ring_queue (ring p') = ring_queue (ring p) @ ys))"

definition others_read :: "('w pipe \<Rightarrow> 'w pipe option) \<Rightarrow> bool" where
  "others_read suspend \<longleftrightarrow> (\<forall>p. ring_ok (ring p) \<longrightarrow>
     (\<exists>p' xs. suspend p = Some p' \<and> ring_ok (ring p') \<and> xs @ ring_queue (ring p') = ring_queue (ring p)))"

lemma ring_read_min:
  assumes "ring_ok r" and "m = min (length buf) (length (ring_queue r))"
  shows "\<exists>r'. ring_read buf r = Some (m, take m (ring_queue r) @ drop m buf, r') \<and> ring_ok r' \<and>
    ring_queue r' = drop m (ring_queue r)"
proof -
  have "take (length buf) (ring_queue r) = take m (ring_queue r)" "drop (length (ring_queue r)) buf = drop m buf"
    "drop (length buf) (ring_queue r) = drop m (ring_queue r)"
    by (auto simp: assms(2) min_def)
  then show ?thesis using ring_read_ok [OF assms(1), of buf] by (auto simp: assms(2))
qed

lemma read_more_ok:
  assumes "others_write suspend" and "ring_ok (ring p)" and "k \<le> length buf"
  shows "\<exists>n buf' p' ys. read_more suspend cnt k buf p = Some (n, buf', p') \<and> ring_ok (ring p') \<and> k \<le> n \<and> n \<le> length buf \<and>
    take k buf' = take k buf \<and> drop k (take n buf') @ ring_queue (ring p') = ring_queue (ring p) @ ys \<and>
    drop n buf' = drop n buf \<and> length buf' = length buf"
  using assms
proof (induction suspend cnt k buf p rule: read_more.induct)
  case (1 suspend cnt k buf p)
  show ?case
  proof (cases "k < length buf \<and> strong p = 2 \<and> cnt + 1 \<le> 2")
    case False
    then have "read_more suspend cnt k buf p = Some (k, buf, p)" by (subst read_more.simps) auto
    then show ?thesis using "1.prems" by (intro exI [of _ k] exI [of _ buf] exI [of _ p] exI [of _ "[]"]) simp
  next
    case True
    obtain p1 zs where p1: "suspend p = Some p1" "ring_ok (ring p1)" "ring_queue (ring p1) = ring_queue (ring p) @ zs"
      using "1.prems"(1,2) unfolding others_write_def by blast
    define q where "q = ring_queue (ring p1)"
    define m where "m = min (length (drop k buf)) (length q)"
    obtain r where r: "ring_read (drop k buf) (ring p1) = Some (m, take m q @ drop (k + m) buf, r)"
        "ring_ok r" "ring_queue r = drop m q"
      using ring_read_min [OF p1(2) m_def [unfolded q_def]] by (auto simp: q_def add.commute)
    define buf1 where "buf1 = take k buf @ take m q @ drop (k + m) buf"
    have m: "m \<le> length q" "k + m \<le> length buf" using "1.prems"(3) by (auto simp: m_def)
    have run: "read_more suspend cnt k buf p = read_more suspend (cnt + 1) (k + m) buf1 (p1\<lparr>ring := r\<rparr>)"
      using True p1(1) r(1) by (subst read_more.simps) (simp add: buf1_def)
    have buf1: "length buf1 = length buf" "take (k + m) buf1 = take k buf @ take m q" "drop (k + m) buf1 = drop (k + m) buf"
      using m by (simp_all add: buf1_def)
    obtain n buf' p' ys where h: "read_more suspend (cnt + 1) (k + m) buf1 (p1\<lparr>ring := r\<rparr>) = Some (n, buf', p')"
        "ring_ok (ring p')" "k + m \<le> n" "n \<le> length buf1" "take (k + m) buf' = take (k + m) buf1"
        "drop (k + m) (take n buf') @ ring_queue (ring p') = drop m q @ ys" "drop n buf' = drop n buf1"
        "length buf' = length buf1"
      using "1.IH" [OF _ _ p1(1) r(1) refl refl] True "1.prems"(1) r(2,3) m buf1(1)
      unfolding buf1_def by auto
    have "take k buf' = take k (take (k + m) buf')" by (simp add: min_def)
    also have "\<dots> = take k buf" using m by (simp add: h(5) buf1(2))
    finally have t: "take k buf' = take k buf" .
    have "drop k (take n buf') = drop k (take (k + m) (take n buf')) @ drop (k + m) (take n buf')"
      by (metis append_take_drop_id drop_drop drop_take add.commute diff_add_inverse)
    also have "take (k + m) (take n buf') = take (k + m) buf'" using h(3) by (simp add: min_def)
    finally have "drop k (take n buf') = take m q @ drop (k + m) (take n buf')"
      using m by (simp add: h(5) buf1(2))
    then have "drop k (take n buf') @ ring_queue (ring p') = q @ ys"
      using h(6) by (metis append.assoc append_take_drop_id)
    then have "drop k (take n buf') @ ring_queue (ring p') = ring_queue (ring p) @ (zs @ ys)"
      using p1(3) q_def by simp
    moreover have "drop n buf' = drop n buf"
      using h(3,7) buf1(3) by (metis drop_drop le_add_diff_inverse2)
    ultimately show ?thesis using run h t buf1(1) by auto
  qed
qed

lemma pipe_read_ok:
  assumes "others_write suspend" and "ring_ok (ring p)"
  shows "\<exists>n buf' p' ys. pipe_read suspend True buf p = Some (Some n, buf', p') \<and> ring_ok (ring p') \<and>
    min (length buf) (length (ring_queue (ring p))) \<le> n \<and> n \<le> length buf \<and>
    take n buf' @ ring_queue (ring p') = ring_queue (ring p) @ ys \<and> drop n buf' = drop n buf"
proof -
  define q m where "q = ring_queue (ring p)" and "m = min (length buf) (length q)"
  define buf1 where "buf1 = take m q @ drop m buf"
  obtain r where r: "ring_read buf (ring p) = Some (m, buf1, r)" "ring_ok r" "ring_queue r = drop m q"
    using ring_read_min [OF assms(2) m_def [unfolded q_def]] by (auto simp: q_def buf1_def)
  have m: "m \<le> length q" "m \<le> length buf" by (simp_all add: m_def)
  then have buf1: "length buf1 = length buf" "take m buf1 = take m q" "drop m buf1 = drop m buf"
    by (simp_all add: buf1_def)
  obtain n buf' p' ys where h: "read_more suspend 0 m buf1 (p\<lparr>ring := r\<rparr>) = Some (n, buf', p')" "ring_ok (ring p')"
      "m \<le> n" "n \<le> length buf" "take m buf' = take m q" "drop m (take n buf') @ ring_queue (ring p') = drop m q @ ys"
      "drop n buf' = drop n buf1"
    using read_more_ok [OF assms(1), of "p\<lparr>ring := r\<rparr>" m buf1 0] r(2,3) m buf1 by auto
  have "take n buf' = take m q @ drop m (take n buf')"
    using h(3,5) by (metis append_take_drop_id min.absorb1 take_take)
  then have "take n buf' @ ring_queue (ring p') = q @ ys"
    using h(6) by (metis append.assoc append_take_drop_id)
  moreover have "drop n buf' = drop n buf"
    using h(3,7) buf1(3) by (metis drop_drop le_add_diff_inverse2)
  moreover have "pipe_read suspend True buf p = Some (Some n, buf', p')"
    using r(1) h(1) by (simp add: pipe_read_def)
  ultimately show ?thesis using h(2-4) by (auto simp: q_def m_def)
qed

lemma write_more_ok:
  assumes "frames_ok alloc" and "\<forall>w. alloc w \<noteq> None"
    and "others_read suspend" and "ring_ok (ring p)" and "k \<le> length buf"
  shows "\<exists>n p' xs. write_more alloc suspend cnt k buf p = Some (n, p') \<and> ring_ok (ring p') \<and> k \<le> n \<and> n \<le> length buf \<and>
    xs @ ring_queue (ring p') = ring_queue (ring p) @ drop k (take n buf)"
  using assms
proof (induction alloc suspend cnt k buf p rule: write_more.induct)
  case (1 alloc suspend cnt k buf p)
  show ?case
  proof (cases "k < length buf \<and> strong p = 2 \<and> cnt + 1 \<le> 2")
    case False
    then have "write_more alloc suspend cnt k buf p = Some (k, p)" by (subst write_more.simps) auto
    then show ?thesis using "1.prems" by (intro exI [of _ k] exI [of _ p] exI [of _ "[]"]) simp
  next
    case True
    obtain p1 zs where p1: "suspend p = Some p1" "ring_ok (ring p1)" "zs @ ring_queue (ring p1) = ring_queue (ring p)"
      using "1.prems"(3,4) unfolding others_read_def by blast
    define room where "room = size_limit (ring p1) - length (ring_queue (ring p1))"
    define m where "m = min (length (drop k buf)) room"
    obtain r w where r: "ring_write alloc (drop k buf) (ring p1) (world p1) = Some ((m, r), w)"
        "ring_ok r" "ring_queue r = ring_queue (ring p1) @ take room (drop k buf)"
      using ring_write_ok [OF p1(2) "1.prems"(1,2), of "drop k buf" "world p1"] unfolding m_def room_def by blast
    have t: "take room (drop k buf) = take m (drop k buf)" by (simp add: m_def min_def)
    have m: "k + m \<le> length buf" using "1.prems"(5) by (auto simp: m_def)
    have run: "write_more alloc suspend cnt k buf p
        = write_more alloc suspend (cnt + 1) (k + m) buf (p1\<lparr>ring := r, world := w\<rparr>)"
      using True p1(1) r(1) by (subst write_more.simps) simp
    obtain n p' xs where h: "write_more alloc suspend (cnt + 1) (k + m) buf (p1\<lparr>ring := r, world := w\<rparr>) = Some (n, p')"
        "ring_ok (ring p')" "k + m \<le> n" "n \<le> length buf"
        "xs @ ring_queue (ring p') = ring_queue r @ drop (k + m) (take n buf)"
      using "1.IH" [OF _ _ p1(1) r(1) refl refl] True "1.prems"(1-3) r(2) m by auto
    have "drop k (take n buf) = take m (drop k (take n buf)) @ drop (k + m) (take n buf)"
      by (metis append_take_drop_id drop_drop add.commute)
    also have "take m (drop k (take n buf)) = take m (drop k buf)"
      using h(3) by (simp add: drop_take min_def)
    finally have "(zs @ xs) @ ring_queue (ring p') = ring_queue (ring p) @ drop k (take n buf)"
      using h(5) r(3) t p1(3) by (metis append.assoc)
    moreover have "k \<le> n" using h(3) by simp
    ultimately show ?thesis using run h(1,2,4) by metis
  qed
qed

lemma pipe_write_ok:
  assumes alloc: "frames_ok alloc" "\<forall>w. alloc w \<noteq> None" and "others_read suspend" and "ring_ok (ring p)"
  shows "\<exists>n p' xs. pipe_write alloc suspend False buf p = Some (Some n, p') \<and> ring_ok (ring p') \<and> n \<le> length buf \<and>
    min (length buf) (size_limit (ring p) - length (ring_queue (ring p))) \<le> n \<and>
    xs @ ring_queue (ring p') = ring_queue (ring p) @ take n buf"
proof -
  define room where "room = size_limit (ring p) - length (ring_queue (ring p))"
  define m where "m = min (length buf) room"
  obtain r w where r: "ring_write alloc buf (ring p) (world p) = Some ((m, r), w)"
      "ring_ok r" "ring_queue r = ring_queue (ring p) @ take room buf"
    using ring_write_ok [OF assms(4) alloc, of buf "world p"] unfolding m_def room_def by blast
  have t: "take room buf = take m buf" by (simp add: m_def min_def)
  have m: "m \<le> length buf" by (simp add: m_def)
  obtain n p' xs where h: "write_more alloc suspend 0 m buf (p\<lparr>ring := r, world := w\<rparr>) = Some (n, p')"
      "ring_ok (ring p')" "m \<le> n" "n \<le> length buf" "xs @ ring_queue (ring p') = ring_queue r @ drop m (take n buf)"
    using write_more_ok [OF alloc assms(3), of "p\<lparr>ring := r, world := w\<rparr>" m buf 0] r(2) m by auto
  have "take n buf = take m buf @ drop m (take n buf)" using h(3) by (metis append_take_drop_id min.absorb1 take_take)
  then have "xs @ ring_queue (ring p') = ring_queue (ring p) @ take n buf" using h(5) r(3) t by (metis append.assoc)
  moreover have "pipe_write alloc suspend False buf p = Some (Some n, p')"
    using r(1) h(1) by (simp add: pipe_write_def)
  ultimately show ?thesis using h(2-4) by (auto simp: m_def room_def)
qed

text \<open>A reader that waits for a writer that does nothing gives up after two rounds.\<close>

lemma pipe_read_gives_up:
  assumes "ring_ok (ring p)" and "ring_queue (ring p) = []" and "others = Some"
  shows "\<exists>p'. pipe_read others True buf p = Some (Some 0, buf, p') \<and> ring_ok (ring p') \<and> strong p' = strong p"
proof -
  have empty: "\<exists>r'. ring_read buf r = Some (0, buf, r') \<and> ring_ok r' \<and> ring_queue r' = []"
    if "ring_ok r" "ring_queue r = []" for r and buf
    using ring_read_ok [OF that(1), of buf] that(2) by auto
  obtain r1 where r1: "ring_read buf (ring p) = Some (0, buf, r1)" "ring_ok r1" "ring_queue r1 = []"
    using empty assms(1,2) by blast
  obtain r2 where r2: "ring_read buf r1 = Some (0, buf, r2)" "ring_ok r2" "ring_queue r2 = []" using empty r1(2,3) by blast
  obtain r3 where r3: "ring_read buf r2 = Some (0, buf, r3)" "ring_ok r3" using empty r2(2,3) by blast
  have "read_more Some 0 0 buf (p\<lparr>ring := r1\<rparr>) =
      Some (0, buf, p\<lparr>ring := (if 0 < length buf \<and> strong p = 2 then r3 else r1)\<rparr>)"
    by (subst read_more.simps, subst read_more.simps, subst read_more.simps) (simp add: r2(1) r3(1))
  then show ?thesis using r1 r3(2) assms(3) by (simp add: pipe_read_def)
qed

text \<open>C26: a pipe is a bounded queue of bytes.  Whatever its two ends do, and in whatever order, as long as there are
  frames, nothing panics, the bytes that were read are those that were accepted, in the same order, up to what is still
  inside, and that is never more than the capacity.  One call of \<open>read\<close> that waits for writers returns the first bytes
  of the queue, followed by those that were written while it waited, and leaves the rest of its buffer alone; one call
  of \<open>write\<close> appends the first \<open>n\<close> bytes of its buffer, \<open>n\<close> its result.  But a \<open>read\<close> whose writer is alive and slow
  returns 0 after two rounds of waiting, as at the end of the file.\<close>

theorem pipe_is_fifo:
  assumes "frames_ok alloc" and "\<forall>w. alloc w \<noteq> None" and "ring_ok (ring p)"
  shows "(\<exists>got given s. stream_run ring_take (ring_give alloc) ops (ring (pipe_new w), w) = Some (got, given, s) \<and>
        got @ ring_queue (fst s) = given \<and> length given \<le> length got + PIPE_SIZE_LIMIT)
    \<and> (others_write suspend \<longrightarrow>
        (\<exists>n buf' p' ys. pipe_read suspend True buf p = Some (Some n, buf', p') \<and> ring_ok (ring p') \<and>
          min (length buf) (length (ring_queue (ring p))) \<le> n \<and> n \<le> length buf \<and>
          take n buf' @ ring_queue (ring p') = ring_queue (ring p) @ ys \<and> drop n buf' = drop n buf))
    \<and> (others_read suspend \<longrightarrow>
        (\<exists>n p' xs. pipe_write alloc suspend False buf p = Some (Some n, p') \<and> ring_ok (ring p') \<and> n \<le> length buf \<and>
          min (length buf) (size_limit (ring p) - length (ring_queue (ring p))) \<le> n \<and>
          xs @ ring_queue (ring p') = ring_queue (ring p) @ take n buf))
    \<and> (ring_queue (ring p) = [] \<longrightarrow>
        (\<exists>p'. pipe_read Some True buf p = Some (Some 0, buf, p') \<and> strong p' = strong p))"
proof (intro conjI impI)
  have new: "ring_ok (ring_new PIPE_SIZE_LIMIT)" "ring_queue (ring_new PIPE_SIZE_LIMIT) = []"
    "size_limit (ring_new PIPE_SIZE_LIMIT) = PIPE_SIZE_LIMIT"
    using ring_new_ok [of PIPE_SIZE_LIMIT] by (simp_all add: PIPE_SIZE_LIMIT_def ring_new_def)
  obtain got given s where s: "stream_run ring_take (ring_give alloc) ops (ring_new PIPE_SIZE_LIMIT, w) = Some (got, given, s)"
      "ring_ok (fst s)" "got @ ring_queue (fst s) = given" "size_limit (fst s) = PIPE_SIZE_LIMIT"
    using byte_queue.stream_in_order [OF byte_queue_ring [OF assms(1,2)], of "(ring_new PIPE_SIZE_LIMIT, w)" ops] new by auto
  moreover have "length (ring_queue (fst s)) \<le> PIPE_SIZE_LIMIT"
    using byte_queue.bounded [OF byte_queue_ring [OF assms(1,2)] s(2)] s(4) by simp
  moreover from this have "length given \<le> length got + PIPE_SIZE_LIMIT" unfolding s(3) [symmetric] by simp
  ultimately show "\<exists>got given s. stream_run ring_take (ring_give alloc) ops (ring (pipe_new w), w) = Some (got, given, s) \<and>
        got @ ring_queue (fst s) = given \<and> length given \<le> length got + PIPE_SIZE_LIMIT"
    by (simp add: pipe_new_def)
qed (use pipe_read_ok [OF _ assms(3)] pipe_write_ok [OF assms(1,2) _ assms(3)] pipe_read_gives_up [OF assms(3)] in blast)+

theorem pipe_is_fifo_witness:
  "\<exists>p1 p2 got given s. pipe_write frame_supply Some False [1, 2, 3] (pipe_new (\<lambda>_. [])) = Some (Some 3, p1) \<and>
     pipe_read Some True [0, 0] (pipe_new (\<lambda>_ :: nat. [] :: u8 list)) = Some (Some 0, [0, 0], p2) \<and>
     stream_run ring_take (ring_give frame_supply) [Give [1, 2, 3], Take 2, Give [4], Take 9] (ring (pipe_new (\<lambda>_ :: nat. [] :: u8 list)), \<lambda>_. [])
       = Some (got, given, s) \<and> got @ ring_queue (fst s) = given"
proof -
  have ok: "ring_ok (ring (pipe_new (\<lambda>_. [])))" "ring_queue (ring (pipe_new (\<lambda>_. []))) = []"
    "size_limit (ring (pipe_new (\<lambda>_. []))) = PIPE_SIZE_LIMIT"
    using ring_new_ok [of PIPE_SIZE_LIMIT] by (simp_all add: PIPE_SIZE_LIMIT_def pipe_new_def ring_new_def)
  have others: "others_read Some" by (auto simp: others_read_def)
  note fifo = pipe_is_fifo [OF frame_supply_ok ok(1), of "[Give [1, 2, 3], Take 2, Give [4], Take 9]" "\<lambda>_. []" Some]
  obtain n p1 where "pipe_write frame_supply Some False [1, 2, 3] (pipe_new (\<lambda>_. [])) = Some (Some n, p1)"
      "n \<le> length [1, 2, 3 :: u8]" "min (length [1, 2, 3 :: u8]) (PIPE_SIZE_LIMIT - 0) \<le> n"
    using fifo [of "[1, 2, 3]", THEN conjunct2, THEN conjunct2, THEN conjunct1, rule_format, OF others] ok(2,3)
    by (metis list.size(3))
  moreover from this have "n = 3" by (simp add: PIPE_SIZE_LIMIT_def)
  moreover obtain p2 where "pipe_read Some True [0, 0] (pipe_new (\<lambda>_ :: nat. [] :: u8 list)) = Some (Some 0, [0, 0], p2)"
    using fifo [of "[0, 0]", THEN conjunct2, THEN conjunct2, THEN conjunct2, rule_format, OF ok(2)] by blast
  moreover obtain got given s where
    "stream_run ring_take (ring_give frame_supply) [Give [1, 2, 3], Take 2, Give [4], Take 9] (ring (pipe_new (\<lambda>_ :: nat. [] :: u8 list)), \<lambda>_. [])
       = Some (got, given, s)" "got @ ring_queue (fst s) = given"
    using fifo [of "[]", THEN conjunct1] by blast
  ultimately show ?thesis by blast
qed

end
