(* ===== verification/StrptimeTest.thy ===== *)
theory StrptimeTest
  imports StrftimeTest
begin

text \<open>
  strptime.c of libc/src/functional: reading times and dates, in the time zone UTC, which \<open>main\<close> sets first.
  \<open>strptime\<close> is an argument: given the text, the format and the structure it gives the position in the text where
  it stopped, \<open>None\<close> for a null pointer, and the structure.  So is \<open>strftime\<close>, which the test calls to print a
  difference.
\<close>

subsection \<open>The test\<close>

record xtm = tm +
  tm_gmtoff :: int

type_synonym strptime_fn = "cstr \<Rightarrow> cstr \<Rightarrow> xtm \<Rightarrow> nat option \<times> xtm"

datatype strptime_report =
  NotParsed cstr cstr
| WrongTime cstr cstr cstr cstr
| ZoneNotParsed cstr
| WrongZone cstr int int

definition no_time :: xtm where
  "no_time = \<lparr>tm_sec = 0, tm_min = 0, tm_hour = 0, tm_mday = 0, tm_mon = 0, tm_year = 0, tm_wday = 0,
     tm_yday = 0, tm_isdst = 0, tm_gmtoff = 0\<rparr>"

definition not_at_end :: "cstr \<Rightarrow> nat option \<Rightarrow> bool" where
  "not_at_end s ret = (case ret of None \<Rightarrow> True | Some k \<Rightarrow> (s @ [NUL]) ! k \<noteq> NUL)"

definition checkStrptime ::
    "strftime_fn \<Rightarrow> strptime_fn \<Rightarrow> cstr \<Rightarrow> cstr \<Rightarrow> tm \<Rightarrow> strptime_report list" where
  "checkStrptime strftime strptime s format expected =
     (case strptime s format no_time of (ret, tm) \<Rightarrow>
        if not_at_end s ret then [NotParsed format s]
        else if tm_sec tm \<noteq> tm_sec expected \<or>
                tm_min tm \<noteq> tm_min expected \<or>
                tm_hour tm \<noteq> tm_hour expected \<or>
                tm_mday tm \<noteq> tm_mday expected \<or>
                tm_mon tm \<noteq> tm_mon expected \<or>
                tm_year tm \<noteq> tm_year expected
        then [WrongTime format s
                (buffer_str (snd (strftime 64 ''%FT%H:%M:%S%Z'' expected)))
                (buffer_str (snd (strftime 64 ''%FT%H:%M:%S%Z'' (tm.truncate tm))))]
        else [])"

definition checkStrptimeTz :: "strptime_fn \<Rightarrow> cstr \<Rightarrow> int \<Rightarrow> int \<Rightarrow> strptime_report list" where
  "checkStrptimeTz strptime s h m =
     (let expected = h * 3600 + m * 60
      in case strptime s ''%z'' no_time of (ret, tm) \<Rightarrow>
           if not_at_end s ret then [ZoneNotParsed s]
           else if tm_gmtoff tm \<noteq> expected then [WrongZone s (tm_gmtoff tm) expected]
           else [])"

definition time1 :: tm where
  "time1 = TM 8 57 20 0 0 0 0 0 0"

definition time2 :: tm where
  "time2 = TM 0 0 0 25 (8 - 1) (1991 - 1900) 0 0 0"

definition time3 :: tm where
  "time3 = TM 0 0 0 21 (10 - 1) (2015 - 1900) 0 0 0"

definition time4 :: tm where
  "time4 = TM 0 0 0 10 (7 - 1) (1856 - 1900) 0 0 0"

definition strptime_uses :: "(cstr \<times> cstr \<times> tm) list" where
  "strptime_uses =
    [(''20:57:08'', ''%H:%M:%S'', time1),
     (''20:57:8'', ''%R:%S'', time1),
     (''20:57:08'', ''%T'', time1),
     (''20:57:08'', ''%H : %M  :  %S'', time1),
     (''20 57  08'', ''%H %M %S'', time1),
     (''20%57%08'', ''%H %% %M%%%S'', time1),
     (''foo20bar57qux08      '', ''foo %Hbar %M qux%S '', time1),
     (''1991-08-25'', ''%Y-%m-%d'', time2),
     (''25.08.91'', ''%d.%m.%y'', time2),
     (''08/25/91'', ''%D'', time2),
     (''21.10.15'', ''%d.%m.%y'', time3),
     (''10.7.56 in 18th'', ''%d.%m.%y in %C th'', time4),
     (''1856-07-10'', ''%F'', time4),
     (''683078400'', ''%s'', time2)]"

definition zone_uses :: "(cstr \<times> int \<times> int) list" where
  "zone_uses = [(''+0200'', 2, 0), (''-0530'', -5, -30), (''-06'', -6, 0)]"

definition strptime_main :: "strftime_fn \<Rightarrow> strptime_fn \<Rightarrow> strptime_report list" where
  "strptime_main strftime strptime =
     concat (map (\<lambda>(s, f, e). checkStrptime strftime strptime s f e) strptime_uses) @
     concat (map (\<lambda>(s, h, m). checkStrptimeTz strptime s h m) zone_uses)"

subsection \<open>Reading a time, as POSIX states it\<close>

text \<open>The state of the conversion: the structure, with the century and the year of the century, which are put
  together at the end.\<close>

record scan =
  scan_tm :: xtm
  century :: "int option"
  year2 :: "int option"

definition number :: "nat \<Rightarrow> cstr \<Rightarrow> (int \<times> cstr) option" where
  "number n s =
     (let ds = takeWhile is_digit (take n s)
      in if ds = [] then None
         else Some (foldl (\<lambda>a c. 10 * a + (of_char c - 48)) 0 ds, drop (length ds) s))"

definition ranged :: "nat \<Rightarrow> int \<Rightarrow> int \<Rightarrow> (int \<Rightarrow> scan) \<Rightarrow> cstr \<Rightarrow> (scan \<times> cstr) option" where
  "ranged n a b store s =
     (case number n s of
        None \<Rightarrow> None
      | Some (v, s) \<Rightarrow> if a \<le> v \<and> v \<le> b then Some (store v, s) else None)"

definition zone :: "scan \<Rightarrow> cstr \<Rightarrow> (scan \<times> cstr) option" where
  "zone st s =
     (case s of
        [] \<Rightarrow> None
      | c # s \<Rightarrow>
          if c \<noteq> CHR ''+'' \<and> c \<noteq> CHR ''-'' then None
          else
            case number 2 s of
              None \<Rightarrow> None
            | Some (h, r) \<Rightarrow>
                let (m, r) = (case number 2 r of None \<Rightarrow> (0, r) | Some x \<Rightarrow> x);
                    off = (if c = CHR ''-'' then - 1 else 1) * (h * 3600 + m * 60)
                in if h \<le> 24 \<and> m < 60 then Some (st\<lparr>scan_tm := (scan_tm st)\<lparr>tm_gmtoff := off\<rparr>\<rparr>, r) else None)"

definition field :: "char \<Rightarrow> scan \<Rightarrow> cstr \<Rightarrow> (scan \<times> cstr) option" where
  "field c st s =
     (let t = scan_tm st
      in if c = CHR ''H'' then ranged 2 0 23 (\<lambda>v. st\<lparr>scan_tm := t\<lparr>tm_hour := v\<rparr>\<rparr>) s
         else if c = CHR ''M'' then ranged 2 0 59 (\<lambda>v. st\<lparr>scan_tm := t\<lparr>tm_min := v\<rparr>\<rparr>) s
         else if c = CHR ''S'' then ranged 2 0 60 (\<lambda>v. st\<lparr>scan_tm := t\<lparr>tm_sec := v\<rparr>\<rparr>) s
         else if c = CHR ''d'' then ranged 2 1 31 (\<lambda>v. st\<lparr>scan_tm := t\<lparr>tm_mday := v\<rparr>\<rparr>) s
         else if c = CHR ''m'' then ranged 2 1 12 (\<lambda>v. st\<lparr>scan_tm := t\<lparr>tm_mon := v - 1\<rparr>\<rparr>) s
         else if c = CHR ''Y'' then ranged 4 0 9999 (\<lambda>v. st\<lparr>scan_tm := t\<lparr>tm_year := v - 1900\<rparr>, year2 := None\<rparr>) s
         else if c = CHR ''y'' then ranged 2 0 99 (\<lambda>v. st\<lparr>year2 := Some v\<rparr>) s
         else if c = CHR ''C'' then ranged 2 0 99 (\<lambda>v. st\<lparr>century := Some v\<rparr>) s
         else if c = CHR ''s'' then
           (case number (length s) s of
              None \<Rightarrow> None
            | Some (v, r) \<Rightarrow> Some (st\<lparr>scan_tm := tm.extend (gmtime_ref v) (xtm.fields 0)\<rparr>, r))
         else if c = CHR ''z'' then zone st s
         else if c = CHR ''%'' then (if s \<noteq> [] \<and> hd s = CHR ''%'' then Some (st, tl s) else None)
         else None)"

text \<open>The conversions that stand for several others.\<close>

fun expand :: "cstr \<Rightarrow> cstr" where
  "expand [] = []"
| "expand [c] = [c]"
| "expand (p # c # f) =
     (if p \<noteq> CHR ''%'' then p # expand (c # f)
      else (if c = CHR ''R'' then ''%H:%M''
            else if c = CHR ''T'' then ''%H:%M:%S''
            else if c = CHR ''D'' then ''%m/%d/%y''
            else if c = CHR ''F'' then ''%Y-%m-%d''
            else [p, c]) @ expand f)"

fun scan_format :: "cstr \<Rightarrow> scan \<Rightarrow> cstr \<Rightarrow> (scan \<times> cstr) option" where
  "scan_format [] st s = Some (st, s)"
| "scan_format (p # f) st s =
     (if p = CHR ''%'' then
        (case f of
           [] \<Rightarrow> None
         | c # f' \<Rightarrow>
             (case field c st s of None \<Rightarrow> None | Some (st, s) \<Rightarrow> scan_format f' st s))
      else if is_space p then scan_format f st (dropWhile is_space s)
      else
        case s of
          [] \<Rightarrow> None
        | c # s \<Rightarrow> if c = p then scan_format f st s else None)"

definition scan_year :: "scan \<Rightarrow> xtm" where
  "scan_year st =
     (case (century st, year2 st) of
        (None, None) \<Rightarrow> scan_tm st
      | (Some c, None) \<Rightarrow> (scan_tm st)\<lparr>tm_year := 100 * c - 1900\<rparr>
      | (Some c, Some y) \<Rightarrow> (scan_tm st)\<lparr>tm_year := 100 * c + y - 1900\<rparr>
      | (None, Some y) \<Rightarrow> (scan_tm st)\<lparr>tm_year := (if y < 69 then y + 100 else y)\<rparr>)"

definition strptime_ref :: strptime_fn where
  "strptime_ref s f tm =
     (case scan_format (expand f) \<lparr>scan_tm = tm, century = None, year2 = None\<rparr> s of
        None \<Rightarrow> (None, tm)
      | Some (st, r) \<Rightarrow> (Some (length s - length r), scan_year st))"

subsection \<open>Every use expects the time of the specification\<close>

definition same_time :: "xtm \<Rightarrow> tm \<Rightarrow> bool" where
  "same_time a b \<longleftrightarrow>
     tm_sec a = tm_sec b \<and> tm_min a = tm_min b \<and> tm_hour a = tm_hour b \<and>
     tm_mday a = tm_mday b \<and> tm_mon a = tm_mon b \<and> tm_year a = tm_year b"

text \<open>A result agrees with the specification on the text when the whole text is read and the six fields are the
  same, or the offset of the zone is.\<close>

definition reads_time :: "nat option \<times> xtm \<Rightarrow> cstr \<Rightarrow> cstr \<Rightarrow> bool" where
  "reads_time r s f \<longleftrightarrow>
     \<not> not_at_end s (fst r) \<and> fst (strptime_ref s f no_time) = Some (length s) \<and>
     same_time (snd r) (tm.truncate (snd (strptime_ref s f no_time)))"

definition reads_zone :: "nat option \<times> xtm \<Rightarrow> cstr \<Rightarrow> bool" where
  "reads_zone r s \<longleftrightarrow>
     \<not> not_at_end s (fst r) \<and> fst (strptime_ref s ''%z'' no_time) = Some (length s) \<and>
     tm_gmtoff (snd r) = tm_gmtoff (snd (strptime_ref s ''%z'' no_time))"

lemma strptime_uses_ok:
  "list_all (\<lambda>(s, f, e). case strptime_ref s f no_time of (ret, t) \<Rightarrow> ret = Some (length s) \<and> same_time t e) strptime_uses"
  by code_simp

lemma zone_uses_ok:
  "list_all (\<lambda>(s, h, m). case strptime_ref s ''%z'' no_time of (ret, t) \<Rightarrow>
     ret = Some (length s) \<and> tm_gmtoff t = h * 3600 + m * 60) zone_uses"
  by code_simp

lemma same_time_truncate: "same_time a (tm.truncate b) \<longleftrightarrow> same_time a e" if "same_time b e"
  using that by (auto simp: same_time_def tm.truncate_def)

lemma checkStrptime_silent:
  assumes "strptime_ref s f no_time = (Some (length s), t)" and "same_time t e"
  shows "checkStrptime strftime strptime s f e = [] \<longleftrightarrow> reads_time (strptime s f no_time) s f"
  using assms(1) same_time_truncate [OF assms(2)]
  by (auto simp: checkStrptime_def reads_time_def same_time_def split: prod.splits)

lemma strptime_main_silent:
  "strptime_main strftime strptime = [] \<longleftrightarrow>
     list_all (\<lambda>(s, f, _). reads_time (strptime s f no_time) s f) strptime_uses \<and>
     list_all (\<lambda>(s, _, _). reads_zone (strptime s ''%z'' no_time) s) zone_uses"
proof -
  have "list_all (\<lambda>u. (case u of (s, f, e) \<Rightarrow> checkStrptime strftime strptime s f e) = [] \<longleftrightarrow>
      (case u of (s, f, _) \<Rightarrow> reads_time (strptime s f no_time) s f)) strptime_uses"
    by (rule list_all_mono_imp [OF strptime_uses_ok]) (auto simp: checkStrptime_silent)
  moreover have "list_all (\<lambda>u. (case u of (s, h, m) \<Rightarrow> checkStrptimeTz strptime s h m) = [] \<longleftrightarrow>
      (case u of (s, _, _) \<Rightarrow> reads_zone (strptime s ''%z'' no_time) s)) zone_uses"
    by (rule list_all_mono_imp [OF zone_uses_ok]) (auto simp: checkStrptimeTz_def reads_zone_def Let_def split: prod.splits)
  ultimately show ?thesis
    unfolding strptime_main_def append_is_Nil_conv concat_map_Nil
    by (intro arg_cong2 [where f = "(\<and>)"] list_all_iff_cong)
qed

subsection \<open>Reading back what strftime prints\<close>

definition scan_value :: "int \<Rightarrow> cstr \<Rightarrow> int" where
  "scan_value v ds = foldl (\<lambda>a c. 10 * a + (of_char c - 48)) v ds"

lemma scan_value_append: "scan_value v (a @ b) = scan_value (scan_value v a) b"
  by (simp add: scan_value_def)

lemma scan_value_acc: "scan_value v ds = 10 ^ length ds * v + scan_value 0 ds"
proof (induction ds rule: rev_induct)
  case (snoc c ds)
  have e: "scan_value x (ds @ [c]) = 10 * scan_value x ds + (of_char c - 48)" for x by (simp add: scan_value_def)
  show ?case unfolding e snoc by (simp add: algebra_simps)
qed (simp add: scan_value_def)

lemma number_digits:
  assumes "length ds = n" and "ds \<noteq> []" and "list_all is_digit ds"
  shows "number n (ds @ r) = Some (scan_value 0 ds, r)"
proof -
  have "takeWhile is_digit ds = ds" using assms(3) by (simp add: list_all_iff takeWhile_eq_all_conv)
  moreover have "take n (ds @ r) = ds" using assms(1) by simp
  ultimately show ?thesis using assms(2) unfolding number_def Let_def by (simp only: if_False) (simp add: scan_value_def)
qed

lemma two_digits:
  "list_all (\<lambda>n. length (pad_int 2 n) = 2 \<and> list_all is_digit (pad_int 2 n) \<and> scan_value 0 (pad_int 2 n) = n \<and>
     pad_int 2 n = [char_of (48 + n div 10), char_of (48 + n mod 10)] \<and>
     replicate (4 - length (dec_int n)) CHR ''0'' @ dec_int n = ''00'' @ pad_int 2 n) [0..99]"
  by code_simp

lemma pad_2:
  assumes "0 \<le> n" and "n < 100"
  shows "length (pad_int 2 n) = 2" "list_all is_digit (pad_int 2 n)" "scan_value 0 (pad_int 2 n) = n"
    "pad_int 2 n = [char_of (48 + n div 10), char_of (48 + n mod 10)]"
    "replicate (4 - length (dec_int n)) CHR ''0'' @ dec_int n = ''00'' @ pad_int 2 n"
proof -
  have "n \<in> set [0..99]" using assms by simp
  from bspec [OF iffD1 [OF list_all_iff two_digits] this]
  show "length (pad_int 2 n) = 2" "list_all is_digit (pad_int 2 n)" "scan_value 0 (pad_int 2 n) = n"
    "pad_int 2 n = [char_of (48 + n div 10), char_of (48 + n mod 10)]"
    "replicate (4 - length (dec_int n)) CHR ''0'' @ dec_int n = ''00'' @ pad_int 2 n"
    by blast+
qed

lemma number_pad_2: "0 \<le> n \<Longrightarrow> n < 100 \<Longrightarrow> number 2 (pad_int 2 n @ r) = Some (n, r)"
  using number_digits [of "pad_int 2 n" 2 r] pad_2 [of n] by (metis list.size(3) zero_neq_numeral)

lemma year_field_4:
  assumes "0 \<le> y" and "y < 10000"
  shows "year_field 4 True 4 y = pad_int 2 (y div 100) @ pad_int 2 (y mod 100)"
proof -
  have r: "0 \<le> y mod 100" "y mod 100 < 100" "0 \<le> y div 100" "y div 100 < 100" using assms by auto
  have field: "year_field 4 True 4 y = replicate (4 - length (dec_int y)) CHR ''0'' @ dec_int y"
    if "length (dec_int y) \<le> 4" using assms that by (simp add: year_field_def Let_def)
  show ?thesis
  proof (cases "y < 100")
    case True
    have "length (dec_int y) \<le> 2"
      using pad_2(1,4) [OF assms(1) True] assms(1) by (simp add: pad_int_def split: if_splits)
    moreover have "pad_int 2 0 = ''00''" by code_simp
    ultimately show ?thesis using field pad_2(5) [OF assms(1) True] True assms(1) by simp
  next
    case False
    have "int_digits y = int_digits (y div 10) @ [char_of (48 + y mod 10)]"
      using False by (subst int_digits.simps) simp
    also have "int_digits (y div 10) = int_digits (y div 100) @ [char_of (48 + y div 10 mod 10)]"
    proof -
      have h: "(y div 10 < 10) = False" using zdiv_mono1 [of 100 y 10] False by simp
      have "y div 10 div 10 = y div 100" by (simp flip: zdiv_zmult2_eq)
      then show ?thesis using int_digits.simps [of "y div 10"] by (simp only: h if_False)
    qed
    finally have "dec_int y = dec_int (y div 100) @ [char_of (48 + y div 10 mod 10), char_of (48 + y mod 10)]"
      using assms r(3) by (simp add: dec_int_code)
    also have "y div 10 mod 10 = y mod 100 div 10" using zmod_zmult2_eq [of 10 y 10] by simp
    also have "y mod 10 = y mod 100 mod 10" by (simp add: mod_mod_cancel)
    finally have d: "dec_int y = dec_int (y div 100) @ pad_int 2 (y mod 100)" using pad_2(4) [OF r(1,2)] by simp
    moreover have "length (dec_int (y div 100)) \<le> 2"
      using pad_2(1) [OF r(3,4)] r(3) by (simp add: pad_int_def split: if_splits)
    ultimately show ?thesis using field pad_2(1) [OF r(1,2)] r(3) by (simp add: pad_int_def)
  qed
qed

lemma number_year:
  assumes "0 \<le> y" and "y < 10000"
  shows "number 4 (year_field 4 True 4 y @ r) = Some (y, r)"
proof -
  have r: "0 \<le> y mod 100" "y mod 100 < 100" "0 \<le> y div 100" "y div 100 < 100" using assms by auto
  let ?ds = "pad_int 2 (y div 100) @ pad_int 2 (y mod 100)"
  have len: "length ?ds = 4" using pad_2(1) [OF r(1,2)] pad_2(1) [OF r(3,4)] by simp
  then have "?ds \<noteq> []" by force
  moreover have "list_all is_digit ?ds" using pad_2(2) [OF r(1,2)] pad_2(2) [OF r(3,4)] by simp
  ultimately have "number 4 (?ds @ r) = Some (scan_value 0 ?ds, r)" by (rule number_digits [OF len])
  moreover have "scan_value 0 ?ds = y"
    using pad_2(1,3) [OF r(1,2)] pad_2(3) [OF r(3,4)]
    by (simp add: scan_value_append scan_value_acc [of "y div 100"])
  ultimately show ?thesis by (simp only: year_field_4 [OF assms])
qed

lemma int_digits_value: "0 \<le> n \<Longrightarrow> int_digits n \<noteq> [] \<and> list_all is_digit (int_digits n) \<and> scan_value 0 (int_digits n) = n"
proof (induction n rule: int_digits.induct)
  case (1 n)
  have d: "is_digit (char_of (48 + k)) \<and> scan_value v [char_of (48 + k)] = 10 * v + k" if "0 \<le> k" "k < 10" for k v :: int
  proof -
    define c :: char where "c = char_of (48 + k)"
    have "(of_char c :: int) = (48 + k) mod 256" unfolding c_def by (rule of_char_of)
    then have i: "(of_char c :: int) = 48 + k" using that by simp
    moreover have "int (of_char c) = of_char c" by (rule of_nat_of_char)
    ultimately have "is_digit c" using that unfolding is_digit_def by linarith
    then show ?thesis using i by (simp add: scan_value_def c_def)
  qed
  show ?case
  proof (cases "n < 10")
    case True
    then show ?thesis using d [of n 0] 1 by (subst (1 2 3) int_digits.simps) simp
  next
    case False
    then have e: "int_digits n = int_digits (n div 10) @ [char_of (48 + n mod 10)]" by (subst int_digits.simps) simp
    have "int_digits (n div 10) \<noteq> [] \<and> list_all is_digit (int_digits (n div 10)) \<and> scan_value 0 (int_digits (n div 10)) = n div 10"
      using 1 False by auto
    then show ?thesis using d [of "n mod 10"] False by (simp add: e scan_value_append)
  qed
qed

lemma scan_digit_field:
  assumes "0 \<le> n" and "n < 100" and "a \<le> n" and "n \<le> b"
  shows "ranged 2 a b store (pad_int 2 n @ r) = Some (store n, r)"
  using assms by (simp add: ranged_def number_pad_2)

lemma read_back_time:
  assumes "tm_valid t"
  shows "strptime_ref (strftime_text ''%T'' t) ''%T'' z =
    (Some (length (strftime_text ''%T'' t)), z\<lparr>tm_sec := tm_sec t, tm_min := tm_min t, tm_hour := tm_hour t\<rparr>)"
proof -
  have "0 \<le> tm_sec t" "tm_sec t < 60" "0 \<le> tm_min t" "tm_min t < 60" "0 \<le> tm_hour t" "tm_hour t < 24"
    using assms by (auto simp: tm_valid_def)
  moreover have "strftime_text ''%T'' t =
      pad_int 2 (tm_hour t) @ CHR '':'' # pad_int 2 (tm_min t) @ CHR '':'' # pad_int 2 (tm_sec t) @ []"
    by (simp add: strftime_text_def parse_directive_def conversion_def hms_def is_digit_def)
  ultimately show ?thesis
    by (simp add: strptime_ref_def field_def scan_digit_field is_space_def scan_year_def del: append_Nil2)
qed

lemma month_length: "list_all (\<lambda>l. list_all (\<lambda>m. month_days l ! Suc m - month_days l ! m \<le> 31) [0..<12]) [True, False]"
  by code_simp

lemma mday_le:
  assumes "tm_valid t"
  shows "tm_mday t \<le> 31"
proof -
  define l m where "l = leap (tm_year t + 1900)" and "m = nat (tm_mon t)"
  have "tm_yday t = month_days l ! m + tm_mday t - 1" "tm_yday t < month_days l ! Suc m" "m < 12"
    using assms by (simp_all add: tm_valid_def Let_def l_def m_def nat_less_iff)
  moreover have "month_days l ! Suc m - month_days l ! m \<le> 31" if "m < 12" for m
    using month_length that by (cases l) (simp_all only: list_all_iff set_simps set_upt, auto)
  ultimately show ?thesis by fastforce
qed

lemma read_back_date:
  assumes "tm_valid t" and "0 \<le> tm_year t + 1900" and "tm_year t + 1900 < 10000"
  shows "strptime_ref (strftime_text ''%F'' t) ''%F'' z =
    (Some (length (strftime_text ''%F'' t)), z\<lparr>tm_mday := tm_mday t, tm_mon := tm_mon t, tm_year := tm_year t\<rparr>)"
proof -
  have "tm_mday t \<le> 31" by (rule mday_le [OF assms(1)])
  moreover have "0 \<le> tm_mon t" "tm_mon t < 12" "1 \<le> tm_mday t"
    using assms(1) by (auto simp: tm_valid_def)
  moreover have "strftime_text ''%F'' t =
      year_field 4 True 4 (tm_year t + 1900) @ CHR ''-'' # pad_int 2 (tm_mon t + 1) @ CHR ''-'' # pad_int 2 (tm_mday t) @ []"
    by (simp add: strftime_text_def parse_directive_def conversion_def iso_date_def is_digit_def)
  moreover have "ranged 4 0 9999 store (year_field 4 True 4 (tm_year t + 1900) @ r) = Some (store (tm_year t + 1900), r)"
    for store r using assms(2,3) by (simp add: ranged_def number_year)
  ultimately show ?thesis
    by (simp add: strptime_ref_def field_def scan_digit_field is_space_def scan_year_def del: append_Nil2)
qed

lemma read_back_seconds:
  assumes "tm_valid t" and "0 \<le> posix_secs t"
  shows "fst (strptime_ref (strftime_text ''%s'' t) ''%s'' z) = Some (length (strftime_text ''%s'' t)) \<and>
    tm.truncate (snd (strptime_ref (strftime_text ''%s'' t) ''%s'' z)) = t"
proof -
  define n where "n = posix_secs t"
  have printed: "strftime_text ''%s'' t = int_digits n"
    using assms(2)
    by (simp add: strftime_text_def parse_directive_def conversion_def is_digit_def dec_int_code n_def)
  have "number (length (int_digits n)) (int_digits n @ []) = Some (n, [])"
    using number_digits [of "int_digits n" "length (int_digits n)" "[]"] int_digits_value [of n] assms(2)
    by (simp add: n_def)
  moreover have "gmtime_ref n = t"
    using tm_valid_unique [OF gmtime_ref_valid assms(1)] gmtime_ref_secs by (simp add: n_def)
  ultimately show ?thesis
    by (simp add: printed strptime_ref_def field_def scan_year_def tm.extend_def xtm.fields_def tm.truncate_def)
qed

text \<open>C28: the strptime test reports nothing exactly when, on each of its seventeen calls, \<open>strptime\<close> reads the whole
  text and finds the time of day, the date or the offset of the zone that the POSIX rules give: white space in the
  format matches any white space, the two-digit years 69 to 99 are of the twentieth century unless \<open>%C\<close> gives another,
  fields that the format does not name stay as they are.  Those rules read back what the rules of strftime print: the
  time of day by \<open>%T\<close>, the date by \<open>%F\<close> for the years 0 to 9999, and the whole broken-down time by \<open>%s\<close>.\<close>

theorem strptime_main_verdict:
  "(strptime_main strftime strptime = [] \<longleftrightarrow>
      list_all (\<lambda>(s, f, _). reads_time (strptime s f no_time) s f) strptime_uses \<and>
      list_all (\<lambda>(s, _, _). reads_zone (strptime s ''%z'' no_time) s) zone_uses) \<and>
   (tm_valid t \<longrightarrow>
      strptime_ref (strftime_text ''%T'' t) ''%T'' z =
        (Some (length (strftime_text ''%T'' t)), z\<lparr>tm_sec := tm_sec t, tm_min := tm_min t, tm_hour := tm_hour t\<rparr>) \<and>
      (0 \<le> tm_year t + 1900 \<and> tm_year t + 1900 < 10000 \<longrightarrow>
        strptime_ref (strftime_text ''%F'' t) ''%F'' z =
          (Some (length (strftime_text ''%F'' t)), z\<lparr>tm_mday := tm_mday t, tm_mon := tm_mon t, tm_year := tm_year t\<rparr>)) \<and>
      (0 \<le> posix_secs t \<longrightarrow>
        fst (strptime_ref (strftime_text ''%s'' t) ''%s'' z) = Some (length (strftime_text ''%s'' t)) \<and>
        tm.truncate (snd (strptime_ref (strftime_text ''%s'' t) ''%s'' z)) = t))"
  using strptime_main_silent read_back_time read_back_date read_back_seconds by blast

theorem strptime_main_verdict_witness:
  "strptime_main (\<lambda>_ _ _. (0, [])) strptime_ref = [] \<and>
   tm.truncate (snd (strptime_ref (strftime_text ''%s'' tm1) ''%s'' no_time)) = tm1"
proof -
  have "list_all (\<lambda>(s, f, _). reads_time (strptime_ref s f no_time) s f) strptime_uses" by code_simp
  moreover have "list_all (\<lambda>(s, _, _). reads_zone (strptime_ref s ''%z'' no_time) s) zone_uses" by code_simp
  moreover have "tm_valid tm1" "0 \<le> posix_secs tm1" by code_simp+
  ultimately show ?thesis
    using strptime_main_verdict [of "\<lambda>_ _ _. (0, [])" strptime_ref tm1 no_time] by blast
qed

end
