(* ===== verification/PthreadRobust.thy ===== *)
theory PthreadRobust
  imports TestLog Reach
begin

text \<open>
  pthread_robust.c of libc/src/functional: a robust mutex whose owner ends without unlocking it.  The mutexes are
  those of POSIX, which leaves open what the destruction of a locked mutex returns: it is an argument, \<open>busy\<close>.  The
  main thread and the ones it creates, one after the other, are sequences of the calls of the source, interleaved in
  all ways; a call that has to wait is one that cannot be made yet.
\<close>

subsection \<open>Robust mutexes\<close>

record attr =
  a_robust :: bool
  a_pshared :: bool
  a_inherit :: bool

datatype health = Healthy | Owner_died | Lost

record rmutex =
  m_attr :: attr
  m_holder :: "nat option"
  m_health :: health

definition EINVAL :: int where "EINVAL = 22"
definition EBUSY :: int where "EBUSY = 16"
definition EOWNERDEAD :: int where "EOWNERDEAD = 130"
definition ENOTRECOVERABLE :: int where "ENOTRECOVERABLE = 131"

definition attr_init :: attr where
  "attr_init = \<lparr>a_robust = False, a_pshared = False, a_inherit = False\<rparr>"

definition robust_init :: "attr \<Rightarrow> rmutex" where
  "robust_init a = \<lparr>m_attr = a, m_holder = None, m_health = Healthy\<rparr>"

text \<open>\<open>None\<close>: the call waits.  A mutex that was unlocked without having been made consistent is lost.\<close>

definition robust_lock :: "nat \<Rightarrow> rmutex \<Rightarrow> (int \<times> rmutex) option" where
  "robust_lock t m =
     (case (m_health m, m_holder m) of
        (Lost, _) \<Rightarrow> Some (ENOTRECOVERABLE, m)
      | (_, Some _) \<Rightarrow> None
      | (Healthy, None) \<Rightarrow> Some (0, m\<lparr>m_holder := Some t\<rparr>)
      | (Owner_died, None) \<Rightarrow> Some (EOWNERDEAD, m\<lparr>m_holder := Some t\<rparr>))"

definition robust_unlock :: "nat \<Rightarrow> rmutex \<Rightarrow> int \<times> rmutex" where
  "robust_unlock t m =
     (if m_holder m \<noteq> Some t then (1, m)
      else (0, m\<lparr>m_holder := None, m_health := (if m_health m = Owner_died then Lost else m_health m)\<rparr>))"

definition robust_consistent :: "nat \<Rightarrow> rmutex \<Rightarrow> int \<times> rmutex" where
  "robust_consistent t m =
     (if m_holder m = Some t \<and> m_health m = Owner_died then (0, m\<lparr>m_health := Healthy\<rparr>) else (EINVAL, m))"

definition robust_destroy :: "bool \<Rightarrow> rmutex \<Rightarrow> int" where
  "robust_destroy busy m = (if m_holder m \<noteq> None \<and> busy then EBUSY else 0)"

definition owner_ends :: "nat \<Rightarrow> rmutex \<Rightarrow> rmutex" where
  "owner_ends t m =
     (if m_holder m = Some t \<and> a_robust (m_attr m) then m\<lparr>m_holder := None, m_health := Owner_died\<rparr> else m)"

subsection \<open>The threads\<close>

datatype rinstr =
    Barrier_init nat | Attr_init nat | Set_robust nat | Set_pshared nat | Set_inherit nat
  | M_init nat | M_lock nat int | M_unlock nat | M_consistent nat | M_destroy nat
  | Create nat "tinstr list" | Join nat | Barrier nat | Barrier_destroy nat
and tinstr = Lock | Barrier_wait | Sleep

datatype tstate = Absent | Alive "tinstr list" | Ended

record rmachine =
  rpc :: nat
  rattr :: attr
  rmtx :: rmutex
  other :: tstate
  rerrs :: log

definition start_lock :: "tinstr list" where
  "start_lock = [Lock]"

definition start_wait :: "tinstr list" where
  "start_wait = [Lock, Barrier_wait, Sleep]"

definition f :: "bool \<Rightarrow> bool \<Rightarrow> rinstr list" where
  "f pshared pi =
     [Barrier_init 35, Attr_init 38, Set_robust 39] @
     (if pshared then [Set_pshared 41] else []) @
     (if pi then [Set_inherit 43] else []) @
     [M_init 44, M_lock 45 0, M_unlock 46,
      Create 47 start_lock, Join 48,
      M_lock 49 EOWNERDEAD, M_unlock 50,
      M_lock 51 ENOTRECOVERABLE,
      M_destroy 52,
      M_init 54,
      Create 55 start_lock, Join 56,
      M_lock 57 EOWNERDEAD, M_consistent 58, M_unlock 59,
      M_lock 60 0,
      M_destroy 61,
      M_init 63,
      Create 64 start_wait,
      Barrier 66,
      Barrier_destroy 69,
      M_lock 70 EOWNERDEAD,
      Join 71,
      M_consistent 72, M_unlock 73, M_destroy 74]"

definition step_on :: "nat \<Rightarrow> bool \<Rightarrow> rmachine \<Rightarrow> rmachine" where
  "step_on l ok s = s\<lparr>rpc := rpc s + 1, rerrs := rerrs s @ check l ok\<rparr>"

text \<open>The steps of the main thread, thread 0.  The barrier is passed by both threads at once; which of them is told
  to be the serial one makes no difference to the check.\<close>

fun main_step :: "bool \<Rightarrow> rinstr \<Rightarrow> rmachine \<Rightarrow> rmachine list" where
  "main_step busy (Barrier_init l) s = [step_on l True s]"
| "main_step busy (Attr_init l) s = [step_on l True (s\<lparr>rattr := attr_init\<rparr>)]"
| "main_step busy (Set_robust l) s = [step_on l True (s\<lparr>rattr := (rattr s)\<lparr>a_robust := True\<rparr>\<rparr>)]"
| "main_step busy (Set_pshared l) s = [step_on l True (s\<lparr>rattr := (rattr s)\<lparr>a_pshared := True\<rparr>\<rparr>)]"
| "main_step busy (Set_inherit l) s = [step_on l True (s\<lparr>rattr := (rattr s)\<lparr>a_inherit := True\<rparr>\<rparr>)]"
| "main_step busy (M_init l) s = [step_on l True (s\<lparr>rmtx := robust_init (rattr s)\<rparr>)]"
| "main_step busy (M_lock l x) s =
     (case robust_lock 0 (rmtx s) of None \<Rightarrow> [] | Some (r, m) \<Rightarrow> [step_on l (r = x) (s\<lparr>rmtx := m\<rparr>)])"
| "main_step busy (M_unlock l) s =
     (case robust_unlock 0 (rmtx s) of (r, m) \<Rightarrow> [step_on l (r = 0) (s\<lparr>rmtx := m\<rparr>)])"
| "main_step busy (M_consistent l) s =
     (case robust_consistent 0 (rmtx s) of (r, m) \<Rightarrow> [step_on l (r = 0) (s\<lparr>rmtx := m\<rparr>)])"
| "main_step busy (M_destroy l) s = [step_on l (robust_destroy busy (rmtx s) = 0) s]"
| "main_step busy (Create l body) s = [step_on l True (s\<lparr>other := Alive body\<rparr>)]"
| "main_step busy (Join l) s = (if other s = Ended then [step_on l True (s\<lparr>other := Absent\<rparr>)] else [])"
| "main_step busy (Barrier l) s =
     (case other s of
        Alive (Barrier_wait # body) \<Rightarrow> [step_on l True (s\<lparr>other := Alive body\<rparr>)]
      | _ \<Rightarrow> [])"
| "main_step busy (Barrier_destroy l) s = [step_on l True s]"

text \<open>The steps of the other thread; it ends when its body does, and the mutex learns of it.\<close>

definition other_step :: "rmachine \<Rightarrow> rmachine list" where
  "other_step s =
     (case other s of
        Alive [] \<Rightarrow> [s\<lparr>other := Ended, rmtx := owner_ends 1 (rmtx s)\<rparr>]
      | Alive (Lock # body) \<Rightarrow>
          (case robust_lock 1 (rmtx s) of None \<Rightarrow> [] | Some (_, m) \<Rightarrow> [s\<lparr>other := Alive body, rmtx := m\<rparr>])
      | Alive (Sleep # body) \<Rightarrow> [s\<lparr>other := Alive body\<rparr>]
      | _ \<Rightarrow> [])"

definition rsuccs :: "bool \<Rightarrow> rinstr list \<Rightarrow> rmachine \<Rightarrow> rmachine list" where
  "rsuccs busy prog s =
     (if length prog \<le> rpc s then [] else main_step busy (prog ! rpc s) s) @ other_step s"

definition rstart :: rmachine where
  "rstart = \<lparr>rpc = 0, rattr = attr_init, rmtx = robust_init attr_init, other = Absent, rerrs = []\<rparr>"

definition f_returns :: "bool \<Rightarrow> bool \<Rightarrow> bool \<Rightarrow> log \<Rightarrow> bool" where
  "f_returns busy pshared pi ls \<longleftrightarrow>
     (\<exists>s. reach (rsuccs busy (f pshared pi)) rstart s \<and> length (f pshared pi) \<le> rpc s \<and> rerrs s = ls)"

definition f_calls :: "(bool \<times> bool) list" where
  "f_calls = [(pshared, pi). pshared \<leftarrow> [False, True], pi \<leftarrow> [False, True]]"

definition robust_main :: "bool \<Rightarrow> log \<Rightarrow> bool" where
  "robust_main busy ls \<longleftrightarrow>
     (\<exists>lss. list_all2 (\<lambda>(pshared, pi) l. f_returns busy pshared pi l) f_calls lss \<and> ls = concat lss)"

subsection \<open>All interleavings\<close>

definition f_verdict :: "bool \<Rightarrow> bool \<Rightarrow> bool \<Rightarrow> log list option" where
  "f_verdict busy pshared pi =
     (let prog = f pshared pi; S = explore 200 (rsuccs busy prog) [rstart] []
      in if closed_under (rsuccs busy prog) S \<and> List.member S rstart \<and>
            list_all (\<lambda>s. length prog \<le> rpc s \<or> rsuccs busy prog s \<noteq> []) S
         then Some (remdups (map rerrs (filter (\<lambda>s. length prog \<le> rpc s) S))) else None)"

lemma f_verdict:
  assumes "f_verdict busy pshared pi = Some lss"
  shows "f_returns busy pshared pi ls \<longleftrightarrow> ls \<in> set lss"
    and "reach (rsuccs busy (f pshared pi)) rstart s \<Longrightarrow>
      length (f pshared pi) \<le> rpc s \<or> rsuccs busy (f pshared pi) s \<noteq> []"
proof -
  define prog where "prog = f pshared pi"
  define S where "S = explore 200 (rsuccs busy prog) [rstart] []"
  have c: "closed_under (rsuccs busy prog) S" "List.member S rstart"
    "list_all (\<lambda>s. length prog \<le> rpc s \<or> rsuccs busy prog s \<noteq> []) S"
    "lss = remdups (map rerrs (filter (\<lambda>s. length prog \<le> rpc s) S))"
    using assms by (auto simp: f_verdict_def S_def prog_def Let_def split: if_splits)
  note reach = reach_explore [OF S_def c(1,2)]
  show "f_returns busy pshared pi ls \<longleftrightarrow> ls \<in> set lss"
    by (auto simp: f_returns_def reach c(4) prog_def [symmetric])
  show "length (f pshared pi) \<le> rpc s \<or> rsuccs busy (f pshared pi) s \<noteq> []"
    if "reach (rsuccs busy (f pshared pi)) rstart s"
    using that c(3) unfolding prog_def [symmetric] reach list_all_iff by blast
qed

lemma f_verdicts:
  "list_all (\<lambda>busy. list_all (\<lambda>(pshared, pi). f_verdict busy pshared pi = Some [if busy then [61] else []]) f_calls)
     [True, False]"
  by code_simp

lemma f_verdict_all: "f_verdict busy pshared pi = Some [if busy then [61] else []]"
  using f_verdicts by (cases busy; cases pshared; cases pi) (simp_all add: f_calls_def)

lemma f_returns_iff: "f_returns busy pshared pi ls \<longleftrightarrow> ls = (if busy then [61] else [])"
  using f_verdict(1) [OF f_verdict_all] by simp

text \<open>No run goes on for ever.\<close>

definition weight :: "rinstr list \<Rightarrow> rmachine \<Rightarrow> nat" where
  "weight prog s = 5 * (length prog - rpc s) + (case other s of Alive body \<Rightarrow> length body + 1 | _ \<Rightarrow> 0)"

lemma step_on_simps [simp]: "rpc (step_on l ok s) = rpc s + 1" "other (step_on l ok s) = other s"
  by (simp_all add: step_on_def)

lemma other_step_weight: "s' \<in> set (other_step s) \<Longrightarrow> weight prog s' < weight prog s"
proof (cases "other s")
  case (Alive body)
  assume s': "s' \<in> set (other_step s)"
  show ?thesis
  proof (cases body)
    case Nil
    then show ?thesis using s' Alive by (simp add: other_step_def weight_def)
  next
    case (Cons c cs)
    then show ?thesis using s' Alive by (cases c) (auto simp: other_step_def weight_def split: option.splits)
  qed
qed (simp_all add: other_step_def)

lemma main_step_weight:
  assumes "s' \<in> set (main_step busy c s)" and "rpc s < length prog" and "\<And>l body. c = Create l body \<Longrightarrow> length body \<le> 3"
  shows "weight prog s' < weight prog s"
proof -
  have "rpc s' = rpc s + 1 \<and> (case other s' of Alive body \<Rightarrow> length body + 1 | _ \<Rightarrow> 0) \<le>
      (case other s of Alive body \<Rightarrow> length body + 1 | _ \<Rightarrow> 0) + 4"
    using assms(1,3)
    by (cases c) (auto split: option.splits tstate.splits list.splits tinstr.splits prod.splits)
  then show ?thesis using assms(2) by (auto simp: weight_def)
qed

lemma bodies_short: "Create l body \<in> set (f pshared pi) \<Longrightarrow> length body \<le> 3"
  by (auto simp: f_def start_lock_def start_wait_def split: if_splits)

lemma step_weight:
  "s' \<in> set (rsuccs busy (f pshared pi) s) \<Longrightarrow> weight (f pshared pi) s' < weight (f pshared pi) s"
  using main_step_weight [of s' busy "f pshared pi ! rpc s" s "f pshared pi"] other_step_weight bodies_short
  by (auto simp: rsuccs_def split: if_splits) (metis nth_mem not_less)

text \<open>C29: in every interleaving, and with each of the four kinds of attributes, the lock of a robust mutex whose owner
  has ended returns \<open>EOWNERDEAD\<close>, one that was not made consistent before the unlock is not recoverable, and one that
  was can be locked again: the test reports nothing but that the locked mutex cannot be destroyed on line 61, on the
  systems where that call fails, which POSIX allows.  No run gets stuck, and every run ends.\<close>

theorem pthread_robust_verdict:
  "(robust_main busy ls \<longleftrightarrow> ls = (if busy then [61, 61, 61, 61] else [])) \<and>
   (reach (rsuccs busy (f pshared pi)) rstart s \<longrightarrow>
      length (f pshared pi) \<le> rpc s \<or> rsuccs busy (f pshared pi) s \<noteq> []) \<and>
   (s' \<in> set (rsuccs busy (f pshared pi) s) \<longrightarrow> weight (f pshared pi) s' < weight (f pshared pi) s)"
  using f_verdict(2) [OF f_verdict_all] step_weight
  by (auto simp: robust_main_def f_calls_def list_all2_Cons1 f_returns_iff)

theorem pthread_robust_verdict_witness:
  "robust_main False [] \<and> reach (rsuccs False (f True True)) rstart rstart \<and> rsuccs False (f True True) rstart \<noteq> []"
  using pthread_robust_verdict [of False "[]" True True rstart rstart]
  by (auto intro: reach_init) (simp_all add: f_def rstart_def)

end
