(* ===== verification/PthreadTsd.thy ===== *)
theory PthreadTsd
  imports TestLog Runtest
begin

text \<open>
  pthread_tsd.c of libc/src/functional and pthread_exit-dtor.c of libc/src/regression: thread-specific data and its
  destructors, which run when a thread ends, also the last one, and before the handlers of \<open>atexit\<close>.  The functions of
  the system are arguments over a state \<open>'w\<close>, with keys \<open>'k\<close>; the end of a thread gives the values with which the
  destructor is called.  Thread 0 is the main one, and it does nothing between the creation and the join of the other.
\<close>

subsection \<open>The tests\<close>

text \<open>The variables whose addresses are stored, and what the destructor does to them.\<close>

datatype ptr = Foo nat | Bar nat | Arg | Data

type_synonym memory = "ptr \<Rightarrow> int"

definition dtor :: "ptr \<Rightarrow> memory \<Rightarrow> memory" where
  "dtor p m = m(p := 1)"

definition next_int :: "ptr \<Rightarrow> ptr" where
  "next_int p = (case p of Foo i \<Rightarrow> Foo (i + 1) | Bar i \<Rightarrow> Bar (i + 1) | _ \<Rightarrow> p)"

record ('w, 'k) tsd_fns =
  t_key_create :: "'w \<Rightarrow> (int \<times> 'k) \<times> 'w"
  t_setspecific :: "nat \<Rightarrow> 'k \<Rightarrow> ptr option \<Rightarrow> 'w \<Rightarrow> int \<times> 'w"
  t_getspecific :: "nat \<Rightarrow> 'k \<Rightarrow> 'w \<Rightarrow> ptr option"
  t_key_delete :: "'k \<Rightarrow> 'w \<Rightarrow> int \<times> 'w"
  t_create :: "'w \<Rightarrow> (int \<times> nat) \<times> 'w"
  t_exit :: "nat \<Rightarrow> 'w \<Rightarrow> ptr list \<times> 'w"
  t_join :: "nat \<Rightarrow> 'w \<Rightarrow> int \<times> 'w"
  t_handlers_run :: "'w \<Rightarrow> bool"
  t_atexit :: "'w \<Rightarrow> int \<times> 'w"
  t_fork :: "'w \<Rightarrow> int \<times> 'w"
  t_waitpid :: "int \<Rightarrow> int \<Rightarrow> 'w \<Rightarrow> (int \<times> u32) \<times> 'w"

definition start :: "('w, 'k) tsd_fns \<Rightarrow> 'k \<Rightarrow> 'k \<Rightarrow> nat \<Rightarrow> ptr \<Rightarrow> 'w \<Rightarrow> ptr option \<times> 'w" where
  "start f k1 k2 t p w =
     (let (r, w) = t_setspecific f t k1 (Some p) w
      in if r \<noteq> 0 then (Some p, w)
         else
           let (r, w) = t_setspecific f t k2 (Some (next_int p)) w
           in if r \<noteq> 0 then (Some p, w) else (None, w))"

text \<open>A thread that is created and joined: its body, the destructors, and the join.  The result of a failed creation is
  \<open>None\<close>: the code joins a thread that does not exist.\<close>

definition run_thread ::
    "('w, 'k) tsd_fns \<Rightarrow> (nat \<Rightarrow> 'w \<Rightarrow> ptr option \<times> 'w) \<Rightarrow> memory \<Rightarrow> 'w \<Rightarrow> (int \<times> ptr option \<times> memory \<times> 'w) option" where
  "run_thread f body m w =
     (let ((r, t), w) = t_create f w
      in if r \<noteq> 0 then None
         else
           let (res, w) = body t w;
               (calls, w) = t_exit f t w;
               (r, w) = t_join f t w
           in Some (r, res, fold dtor calls m, w))"

definition tsd_main :: "('w, 'k) tsd_fns \<Rightarrow> 'w \<Rightarrow> log option" where
  "tsd_main f w =
     (let ((r, k1), w) = t_key_create f w;
          ls = check 32 (r = 0);
          ((r, k2), w) = t_key_create f w;
          ls = ls @ check 33 (r = 0);
          m = (\<lambda>_. 0);
          (r, w) = t_setspecific f 0 k1 (Some (Bar 0)) w;
          ls = ls @ check 35 (r = 0);
          (r, w) = t_setspecific f 0 k2 (Some (next_int (Bar 0))) w;
          ls = ls @ check 36 (r = 0)
      in case run_thread f (\<lambda>t. start f k1 k2 t (Foo 0)) m w of
           None \<Rightarrow> None
         | Some (r, res, m, w) \<Rightarrow>
             let ls = ls @ check 38 (r = 0) @ check 39 (res = None) @ check 40 (m (Foo 0) = 1) @ check 41 (m (Foo 1) = 1) @
                   check 42 (t_getspecific f 0 k1 w = Some (Bar 0)) @
                   check 43 (t_getspecific f 0 k2 w = Some (next_int (Bar 0)));
                 (r, w) = t_setspecific f 0 k1 None w;
                 ls = ls @ check 44 (r = 0);
                 (r, w) = t_setspecific f 0 k2 None w;
                 ls = ls @ check 45 (r = 0);
                 (r, w) = t_key_delete f k1 w;
                 ls = ls @ check 46 (r = 0);
                 (r, w) = t_key_delete f k2 w
             in Some (ls @ check 47 (r = 0)))"

definition start1 :: "('w, 'k) tsd_fns \<Rightarrow> 'k \<Rightarrow> nat \<Rightarrow> ptr \<Rightarrow> 'w \<Rightarrow> ptr option \<times> 'w" where
  "start1 f k t p w =
     (let (r, w) = t_setspecific f t k (Some p) w in if r \<noteq> 0 then (Some p, w) else (None, w))"

text \<open>The handlers \<open>cleanup\<close> and \<open>die\<close>: what is reported, and the status of the process.\<close>

definition cleanup :: "memory \<Rightarrow> log \<Rightarrow> log \<times> int" where
  "cleanup m ls = (let ls = ls @ check 31 (m Data = 1) in (ls, t_status ls))"

definition die :: int where
  "die = 1"

text \<open>The status of the child: it ends its only thread, and the handler runs if the system runs handlers then.\<close>

definition child_status :: "('w, 'k) tsd_fns \<Rightarrow> 'w \<Rightarrow> int" where
  "child_status f w =
     (let (r, w) = t_atexit f w; (calls, w) = t_exit f 0 w in if t_handlers_run f w then die else 0)"

definition exit_dtor_main :: "('w, 'k) tsd_fns \<Rightarrow> 'w \<Rightarrow> (log \<times> int) option" where
  "exit_dtor_main f w =
     (let m = (\<lambda>_. 0);
          (pid, w) = t_fork f w
      in if pid = -1 then Some ([51], 1)
         else
           let ((c, r), w) = t_waitpid f pid (child_status f w) w
           in if c \<noteq> pid then Some ([58], 1)
              else if \<not> WIFEXITED r \<or> WEXITSTATUS r \<noteq> 1 then Some ([62], 1)
              else
                let (r, w) = t_atexit f w
                in if r \<noteq> 0 then Some ([71], 1)
                   else
                     let ((r, k), w) = t_key_create f w;
                         ls = check 74 (r = 0);
                         (r, w) = t_setspecific f 0 k (Some Data) w;
                         ls = ls @ check 75 (r = 0)
                     in case run_thread f (\<lambda>t. start1 f k t Arg) m w of
                          None \<Rightarrow> None
                        | Some (r, res, m, w) \<Rightarrow>
                            let ls = ls @ check 77 (r = 0) @ check 78 (res = None) @ check 79 (m Arg = 1) @
                                  check 80 (m Data = 0) @ check 81 (t_getspecific f 0 k w = Some Data);
                                (calls, w) = t_exit f 0 w
                            in Some (if t_handlers_run f w then cleanup (fold dtor calls m) ls else (ls, 0)))"

subsection \<open>The contract\<close>

text \<open>\<open>keys w\<close> are the keys in use, \<open>val w t k\<close> the value of a thread for a key.\<close>

locale tsd_contract =
  fixes f :: "('w, 'k) tsd_fns" and keys :: "'w \<Rightarrow> 'k set" and val :: "'w \<Rightarrow> nat \<Rightarrow> 'k \<Rightarrow> ptr option"
  assumes key_create_law: "\<exists>k w'. t_key_create f w = ((0, k), w') \<and> k \<notin> keys w \<and> keys w' = Set.insert k (keys w) \<and>
      val w' = (\<lambda>t. (val w t)(k := None))"
    and setspecific_law: "k \<in> keys w \<Longrightarrow> \<exists>w'. t_setspecific f t k p w = (0, w') \<and> keys w' = keys w \<and>
      val w' = (val w)(t := (val w t)(k := p))"
    and getspecific_law: "k \<in> keys w \<Longrightarrow> t_getspecific f t k w = val w t k"
    and key_delete_law: "k \<in> keys w \<Longrightarrow> \<exists>w'. t_key_delete f k w = (0, w') \<and> keys w' = keys w - {k}"
    and create_law: "\<exists>t w'. t_create f w = ((0, t), w') \<and> t \<noteq> 0 \<and> keys w' = keys w \<and> val w' = (val w)(t := \<lambda>_. None)"
    and exit_law: "\<exists>ps w'. t_exit f t w = (ps, w') \<and> set ps = {p. \<exists>k \<in> keys w. val w t k = Some p} \<and> keys w' = keys w \<and>
      val w' = (val w)(t := \<lambda>_. None)"
    and join_law: "\<exists>w'. t_join f t w = (0, w') \<and> keys w' = keys w \<and> val w' = val w"
    and handlers_law: "t_handlers_run f w"
    and atexit_law: "\<exists>w'. t_atexit f w = (0, w') \<and> keys w' = keys w \<and> val w' = val w"
    and fork_law: "\<exists>pid w'. t_fork f w = (pid, w') \<and> 0 < pid \<and> keys w' = keys w \<and> val w' = val w"
    and waitpid_law: "0 \<le> c \<and> c < 256 \<Longrightarrow> \<exists>r w'. t_waitpid f pid c w = ((pid, r), w') \<and> WIFEXITED r \<and> WEXITSTATUS r = nat c \<and>
      keys w' = keys w \<and> val w' = val w"
begin

lemma fold_dtor: "fold dtor ps m p = (if p \<in> set ps then 1 else m p)"
  by (induction ps arbitrary: m) (auto simp: dtor_def)

lemma tsd_main_silent: "tsd_main f w = Some []"
proof -
  obtain k1 w1 where w1: "t_key_create f w = ((0, k1), w1)" "k1 \<in> keys w1" using key_create_law by blast
  obtain k2 w2 where w2: "t_key_create f w1 = ((0, k2), w2)" "k2 \<noteq> k1" "k1 \<in> keys w2" "k2 \<in> keys w2"
    using key_create_law [of w1] w1(2) by auto
  obtain w3 where w3: "t_setspecific f 0 k1 (Some (Bar 0)) w2 = (0, w3)" "keys w3 = keys w2"
      "val w3 = (val w2)(0 := (val w2 0)(k1 := Some (Bar 0)))"
    using setspecific_law [OF w2(3)] by blast
  obtain w4 where w4: "t_setspecific f 0 k2 (Some (Bar 1)) w3 = (0, w4)" "keys w4 = keys w2"
      "val w4 = (val w3)(0 := (val w3 0)(k2 := Some (Bar 1)))"
    using setspecific_law [of k2 w3] w2(4) w3(2) by metis
  obtain t w5 where w5: "t_create f w4 = ((0, t), w5)" "t \<noteq> 0" "keys w5 = keys w2" "val w5 = (val w4)(t := \<lambda>_. None)"
    using create_law [of w4] w4(2) by metis
  obtain w6 where w6: "t_setspecific f t k1 (Some (Foo 0)) w5 = (0, w6)" "keys w6 = keys w2"
      "val w6 = (val w5)(t := (val w5 t)(k1 := Some (Foo 0)))"
    using setspecific_law [of k1 w5] w2(3) w5(3) by metis
  obtain w7 where w7: "t_setspecific f t k2 (Some (Foo 1)) w6 = (0, w7)" "keys w7 = keys w2"
      "val w7 = (val w6)(t := (val w6 t)(k2 := Some (Foo 1)))"
    using setspecific_law [of k2 w6] w2(4) w6(2) by metis
  obtain ps w8 where w8: "t_exit f t w7 = (ps, w8)" "set ps = {p. \<exists>k \<in> keys w2. val w7 t k = Some p}" "keys w8 = keys w2"
      "val w8 = (val w7)(t := \<lambda>_. None)"
    using exit_law [of t w7] w7(2) by metis
  obtain w9 where w9: "t_join f t w8 = (0, w9)" "keys w9 = keys w2" "val w9 = val w8"
    using join_law [of t w8] w8(3) by metis
  have "val w7 t k1 = Some (Foo 0)" "val w7 t k2 = Some (Foo 1)" using w2(2) w5(4) w6(3) w7(3) by simp_all
  then have set: "Foo 0 \<in> set ps" "Foo 1 \<in> set ps" using w2(3,4) w8(2) by blast+
  have get: "t_getspecific f 0 k1 w9 = Some (Bar 0)" "t_getspecific f 0 k2 w9 = Some (Bar 1)"
    using w2(2-4) w5(2,4) w6(3) w7(3) w8(4) w9(2,3) w3(3) w4(3) by (simp_all add: getspecific_law)
  obtain w10 where w10: "t_setspecific f 0 k1 None w9 = (0, w10)" "keys w10 = keys w2"
    using setspecific_law [of k1 w9] w2(3) w9(2) by metis
  obtain w11 where w11: "t_setspecific f 0 k2 None w10 = (0, w11)" "keys w11 = keys w2"
    using setspecific_law [of k2 w10] w2(4) w10(2) by metis
  obtain w12 where w12: "t_key_delete f k1 w11 = (0, w12)" "k2 \<in> keys w12"
    using key_delete_law [of k1 w11] w2(2-4) w11(2) by auto
  obtain w13 where w13: "t_key_delete f k2 w12 = (0, w13)" using key_delete_law [OF w12(2)] by blast
  have run: "run_thread f (\<lambda>t. start f k1 k2 t (Foo 0)) (\<lambda>_. 0) w4 = Some (0, None, fold dtor ps (\<lambda>_. 0), w9)"
    using w5(1) w6(1) w7(1) w8(1) w9(1) by (simp add: run_thread_def start_def next_int_def)
  show ?thesis
    using w1(1) w2(1) w3(1) w4(1) w10(1) w11(1) w12(1) w13 get set
    by (simp add: tsd_main_def next_int_def run fold_dtor)
qed

lemma exit_dtor_main_silent: "exit_dtor_main f w = Some ([], 0)"
proof -
  obtain pid w0 where w0: "t_fork f w = (pid, w0)" "0 < pid" using fork_law by blast
  have "child_status f w0 = 1" using handlers_law by (simp add: child_status_def die_def split: prod.split)
  then obtain r w1 where w1: "t_waitpid f pid (child_status f w0) w0 = ((pid, r), w1)" "WIFEXITED r" "WEXITSTATUS r = 1"
    using waitpid_law [of 1 pid w0] by auto
  obtain w2 where w2: "t_atexit f w1 = (0, w2)" using atexit_law by blast
  obtain k w3 where w3: "t_key_create f w2 = ((0, k), w3)" "k \<in> keys w3" using key_create_law by blast
  obtain w4 where w4: "t_setspecific f 0 k (Some Data) w3 = (0, w4)" "keys w4 = keys w3"
      "val w4 = (val w3)(0 := (val w3 0)(k := Some Data))"
    using setspecific_law [OF w3(2)] by blast
  obtain t w5 where w5: "t_create f w4 = ((0, t), w5)" "t \<noteq> 0" "keys w5 = keys w3" "val w5 = (val w4)(t := \<lambda>_. None)"
    using create_law [of w4] w4(2) by metis
  obtain w6 where w6: "t_setspecific f t k (Some Arg) w5 = (0, w6)" "keys w6 = keys w3"
      "val w6 = (val w5)(t := (val w5 t)(k := Some Arg))"
    using setspecific_law [of k w5] w3(2) w5(3) by metis
  obtain ps w7 where w7: "t_exit f t w6 = (ps, w7)" "set ps = {p. \<exists>k \<in> keys w3. val w6 t k = Some p}" "keys w7 = keys w3"
      "val w7 = (val w6)(t := \<lambda>_. None)"
    using exit_law [of t w6] w6(2) by metis
  obtain w8 where w8: "t_join f t w7 = (0, w8)" "keys w8 = keys w3" "val w8 = val w7"
    using join_law [of t w7] w7(3) by metis
  obtain qs w9 where w9: "t_exit f 0 w8 = (qs, w9)" "set qs = {p. \<exists>k \<in> keys w3. val w8 0 k = Some p}"
    using exit_law [of 0 w8] w8(2) by metis
  have "val w6 t = [k \<mapsto> Arg]" using w5(4) w6(3) by simp
  then have ps: "set ps = {Arg}" using w3(2) w7(2) by (auto split: if_splits)
  have "val w8 0 k = Some Data" using w4(3) w5(2,4) w6(3) w7(4) w8(3) by simp
  then have data: "t_getspecific f 0 k w8 = Some Data" "Data \<in> set qs"
    using w3(2) w8(2) w9(2) by (auto simp: getspecific_law)
  have run: "run_thread f (\<lambda>t. start1 f k t Arg) (\<lambda>_. 0) w4 = Some (0, None, fold dtor ps (\<lambda>_. 0), w8)"
    using w5(1) w6(1) w7(1) w8(1) by (simp add: run_thread_def start1_def)
  show ?thesis
    using w0 w1 w2(1) w3(1) w4(1) w9(1) data handlers_law
    by (simp add: exit_dtor_main_def run fold_dtor ps cleanup_def Let_def)
qed

end

subsection \<open>A system that keeps the contract\<close>

text \<open>The keys are numbers, a new one greater than all in use; the state is the list of the keys and the values.\<close>

type_synonym tsd_state = "nat list \<times> (nat \<Rightarrow> nat \<Rightarrow> ptr option)"

definition tsd_ref :: "(tsd_state, nat) tsd_fns" where
  "tsd_ref =
     \<lparr>t_key_create = (\<lambda>(ks, v). ((0, sum_list ks + 1), ((sum_list ks + 1) # ks, \<lambda>t. (v t)(sum_list ks + 1 := None)))),
      t_setspecific = (\<lambda>t k p (ks, v). (0, (ks, v(t := (v t)(k := p))))),
      t_getspecific = (\<lambda>t k (ks, v). v t k),
      t_key_delete = (\<lambda>k (ks, v). (0, (filter (\<lambda>j. j \<noteq> k) ks, v))),
      t_create = (\<lambda>(ks, v). ((0, 1), (ks, v(1 := \<lambda>_. None)))),
      t_exit = (\<lambda>t (ks, v). (concat (map (\<lambda>k. case v t k of None \<Rightarrow> [] | Some p \<Rightarrow> [p]) ks), (ks, v(t := \<lambda>_. None)))),
      t_join = (\<lambda>t w. (0, w)),
      t_handlers_run = (\<lambda>w. True),
      t_atexit = (\<lambda>w. (0, w)),
      t_fork = (\<lambda>w. (7, w)),
      t_waitpid = (\<lambda>pid c w. ((pid, push_bit 8 (word_of_int c)), w))\<rparr>"

lemma fresh_key: "Suc (sum_list ks) \<notin> set ks"
  using member_le_sum_list [of "Suc (sum_list ks)" ks] by auto

lemma low_bits_of_shift: "push_bit 8 x AND mask 7 = 0" for x :: u32
  by (rule bit_word_eqI) (auto simp: bit_simps)

lemma high_byte_of_shift: "drop_bit 8 (push_bit 8 x AND push_bit 8 (mask 8)) = take_bit 8 x" for x :: u32
  by (rule bit_word_eqI) (auto simp: bit_simps)

lemma status_masks: "mask 7 = (0x7f :: u32)" "push_bit 8 (mask 8) = (0xff00 :: u32)"
  by (simp_all add: mask_eq_exp_minus_1)

lemma exit_status_encoded:
  assumes "0 \<le> c" and "c < 256"
  shows "WIFEXITED (push_bit 8 (word_of_int c))" "WEXITSTATUS (push_bit 8 (word_of_int c)) = nat c"
proof -
  show "WIFEXITED (push_bit 8 (word_of_int c))"
    unfolding WIFEXITED_def status_masks(1) [symmetric] low_bits_of_shift ..
  have "uint (take_bit 8 (word_of_int c :: u32)) = c"
    unfolding unsigned_take_bit_eq using assms by (simp add: unsigned_of_int take_bit_eq_mod)
  then have "unat (take_bit 8 (word_of_int c :: u32)) = nat c"
    by (metis nat_uint_eq)
  then show "WEXITSTATUS (push_bit 8 (word_of_int c)) = nat c"
    unfolding WEXITSTATUS_def status_masks(2) [symmetric] high_byte_of_shift .
qed

interpretation tref: tsd_contract tsd_ref "\<lambda>w. set (fst w)" snd
  by unfold_locales
    (auto simp: tsd_ref_def fresh_key exit_status_encoded simp del: sum_list.Cons split: option.splits, metis+)

text \<open>C30: on every system that keeps the contract of thread-specific data (a key starts without a value in every thread,
  a value belongs to one thread and one key, and when a thread ends, the last one included, the destructor is called
  with each of its values, before the handlers of \<open>atexit\<close>), the two tests report nothing, and the second one ends with
  status 0.\<close>

theorem tsd_tests_pass:
  assumes "tsd_contract f keys val"
  shows "tsd_main f w = Some [] \<and> exit_dtor_main f w = Some ([], 0)"
  using tsd_contract.tsd_main_silent [OF assms] tsd_contract.exit_dtor_main_silent [OF assms] by blast

theorem tsd_tests_pass_witness:
  "tsd_main tsd_ref ([], \<lambda>_ _. None) = Some [] \<and> exit_dtor_main tsd_ref ([], \<lambda>_ _. None) = Some ([], 0)"
  by (rule tsd_tests_pass [OF tref.tsd_contract_axioms])

end
