(* ===== verification/KernelPosix.thy ===== *)
theory KernelPosix
  imports KernelFd
begin

text \<open>
  The calls of kernel/src/syscall that work on a descriptor table, and the tables of several tasks: \<open>clone\<close> of
  kernel/src/task/task.rs shares the table of the parent when it is asked to and copies it otherwise.  The table of
  theory KernelFd refines a map from numbers to files, and the tasks refine tasks with such maps.
\<close>

subsection \<open>The calls on one table\<close>

datatype 'f fd_call = Create 'f | Close nat | Dup nat | Dup3 nat nat | Pipe 'f 'f

datatype answer = Zero | Fd nat | Fds nat nat

definition sys_close :: "nat \<Rightarrow> 'f fd_manager \<Rightarrow> (answer sysret \<times> 'f fd_manager) option" where
  "sys_close fd m =
     (case remove_file fd m of
        None \<Rightarrow> None
      | Some (Inr _, m) \<Rightarrow> Some (Inr Zero, m)
      | Some (Inl _, m) \<Rightarrow> Some (Inl EINVAL, m))"

text \<open>A pipe is created with its two ends, which are arguments here.\<close>

definition sys_pipe :: "'f \<Rightarrow> 'f \<Rightarrow> 'f fd_manager \<Rightarrow> (answer sysret \<times> 'f fd_manager) option" where
  "sys_pipe pipe_read pipe_write m =
     (case push pipe_read m of
        None \<Rightarrow> None
      | Some (Inl _, m) \<Rightarrow> Some (Inl EINVAL, m)
      | Some (Inr fd1, m) \<Rightarrow>
          (case push pipe_write m of
             None \<Rightarrow> None
           | Some (Inr fd2, m) \<Rightarrow> Some (Inr (Fds fd1 fd2), m)
           | Some (Inl _, m) \<Rightarrow>
               (case remove_file fd1 m of
                  None \<Rightarrow> None
                | Some (_, m) \<Rightarrow> Some (Inl EINVAL, m))))"

definition sys_epoll_create :: "'f \<Rightarrow> 'f fd_manager \<Rightarrow> (answer sysret \<times> 'f fd_manager) option" where
  "sys_epoll_create epoll_file m =
     (case push epoll_file m of
        None \<Rightarrow> None
      | Some (Inr fd, m) \<Rightarrow> Some (Inr (Fd fd), m)
      | Some (Inl _, m) \<Rightarrow> Some (Inl EMFILE, m))"

definition fd_answer :: "(nat sysret \<times> 'm) option \<Rightarrow> (answer sysret \<times> 'm) option" where
  "fd_answer r = map_option (map_prod (map_sum id Fd) id) r"

fun table_call :: "'f fd_call \<Rightarrow> 'f fd_manager \<Rightarrow> (answer sysret \<times> 'f fd_manager) option" where
  "table_call (Create f) m = sys_epoll_create f m"
| "table_call (Close fd) m = sys_close fd m"
| "table_call (Dup fd) m = fd_answer (sys_dup fd m)"
| "table_call (Dup3 old_fd new_fd) m = fd_answer (sys_dup3 old_fd new_fd m)"
| "table_call (Pipe r w) m = sys_pipe r w m"

subsection \<open>The tables of the tasks\<close>

text \<open>A table is shared by the tasks that name it.  \<open>Clone t share\<close> is the part of \<open>clone\<close> that sets up the table of
  the new task.\<close>

datatype 'c event = Call nat 'c | Clone nat bool

record 'm tasks =
  tables :: "'m list"
  table_of :: "nat list"

fun task_step ::
    "('c \<Rightarrow> 'm \<Rightarrow> ('r \<times> 'm) option) \<Rightarrow> ('m \<Rightarrow> 'm option) \<Rightarrow> 'c event \<Rightarrow> 'm tasks \<Rightarrow> ('r option \<times> 'm tasks) option" where
  "task_step exec copy (Call t c) s =
     (if length (table_of s) \<le> t then None
      else
        case exec c (tables s ! (table_of s ! t)) of
          None \<Rightarrow> None
        | Some (r, m) \<Rightarrow> Some (Some r, s\<lparr>tables := (tables s)[table_of s ! t := m]\<rparr>))"
| "task_step exec copy (Clone t share) s =
     (if length (table_of s) \<le> t then None
      else if share then Some (None, s\<lparr>table_of := table_of s @ [table_of s ! t]\<rparr>)
      else
        case copy (tables s ! (table_of s ! t)) of
          None \<Rightarrow> None
        | Some m \<Rightarrow> Some (None, s\<lparr>tables := tables s @ [m], table_of := table_of s @ [length (tables s)]\<rparr>))"

fun task_run ::
    "('c \<Rightarrow> 'm \<Rightarrow> ('r \<times> 'm) option) \<Rightarrow> ('m \<Rightarrow> 'm option) \<Rightarrow> 'c event list \<Rightarrow> 'm tasks \<Rightarrow>
     ('r option list \<times> 'm tasks) option" where
  "task_run exec copy [] s = Some ([], s)"
| "task_run exec copy (e # es) s =
     (case task_step exec copy e s of
        None \<Rightarrow> None
      | Some (r, s) \<Rightarrow> map_option (\<lambda>(rs, s). (r # rs, s)) (task_run exec copy es s))"

definition one_task :: "'m \<Rightarrow> 'm tasks" where
  "one_task m = \<lparr>tables = [m], table_of = [0]\<rparr>"

definition tasks_ok :: "('m \<Rightarrow> bool) \<Rightarrow> 'm tasks \<Rightarrow> bool" where
  "tasks_ok ok s \<longleftrightarrow> list_all ok (tables s) \<and> list_all (\<lambda>i. i < length (tables s)) (table_of s)"

definition abstract_tasks :: "('m \<Rightarrow> 'a) \<Rightarrow> 'm tasks \<Rightarrow> 'a tasks" where
  "abstract_tasks abstract s = \<lparr>tables = map abstract (tables s), table_of = table_of s\<rparr>"

subsection \<open>Refinement of tables lifts to tasks\<close>

text \<open>A kind of table with its calls and its copy, and the specification of it on abstract tables; a call for which
  the specification has no result may do anything.\<close>

locale table_refinement =
  fixes exec :: "'c \<Rightarrow> 'm \<Rightarrow> ('r \<times> 'm) option" and copy :: "'m \<Rightarrow> 'm option"
    and spec :: "'c \<Rightarrow> 'a \<Rightarrow> ('r \<times> 'a) option"
    and ok :: "'m \<Rightarrow> bool" and abstract :: "'m \<Rightarrow> 'a"
  assumes call_refines: "ok m \<Longrightarrow> spec c (abstract m) = Some (r, a) \<Longrightarrow>
      \<exists>m'. exec c m = Some (r, m') \<and> ok m' \<and> abstract m' = a"
    and copy_refines: "ok m \<Longrightarrow> \<exists>m'. copy m = Some m' \<and> ok m' \<and> abstract m' = abstract m"
begin

lemma step_refines:
  assumes "tasks_ok ok s" and "task_step spec Some e (abstract_tasks abstract s) = Some (r, a)"
  shows "\<exists>s'. task_step exec copy e s = Some (r, s') \<and> tasks_ok ok s' \<and> abstract_tasks abstract s' = a"
proof (cases e)
  case (Call t c)
  let ?i = "table_of s ! t"
  have t: "t < length (table_of s)" using assms(2) Call by (auto simp: abstract_tasks_def split: if_splits)
  have i: "?i < length (tables s)" "ok (tables s ! ?i)"
    using assms(1) t by (auto simp: tasks_ok_def list_all_length)
  obtain q m where q: "spec c (abstract (tables s ! ?i)) = Some (q, m)" "r = Some q"
      "a = (abstract_tasks abstract s)\<lparr>tables := (tables (abstract_tasks abstract s))[?i := m]\<rparr>"
    using assms(2) Call t i(1) by (auto simp: abstract_tasks_def split: option.splits)
  obtain m' where m': "exec c (tables s ! ?i) = Some (q, m')" "ok m'" "abstract m' = m"
    using call_refines [OF i(2) q(1)] by blast
  have "tasks_ok ok (s\<lparr>tables := (tables s)[?i := m']\<rparr>)"
    using assms(1) m'(2) i(1) by (simp add: tasks_ok_def list_all_length nth_list_update)
  then show ?thesis using Call t q m'(1,3) by (auto simp: abstract_tasks_def map_update)
next
  case (Clone t share)
  let ?i = "table_of s ! t"
  have t: "t < length (table_of s)" using assms(2) Clone by (auto simp: abstract_tasks_def split: if_splits)
  have i: "?i < length (tables s)" "ok (tables s ! ?i)"
    using assms(1) t by (auto simp: tasks_ok_def list_all_length)
  show ?thesis
  proof (cases share)
    case True
    have "tasks_ok ok (s\<lparr>table_of := table_of s @ [?i]\<rparr>)" using assms(1) i(1) by (simp add: tasks_ok_def)
    then show ?thesis using assms(2) Clone True t by (auto simp: abstract_tasks_def)
  next
    case False
    obtain m' where m': "copy (tables s ! ?i) = Some m'" "ok m'" "abstract m' = abstract (tables s ! ?i)"
      using copy_refines [OF i(2)] by blast
    have "tasks_ok ok (s\<lparr>tables := tables s @ [m'], table_of := table_of s @ [length (tables s)]\<rparr>)"
      using assms(1) m'(2) by (auto simp: tasks_ok_def list_all_iff less_Suc_eq)
    then show ?thesis using assms(2) Clone False t i(1) m'(1,3) by (auto simp: abstract_tasks_def)
  qed
qed

lemma run_refines:
  assumes "tasks_ok ok s" and "task_run spec Some es (abstract_tasks abstract s) = Some (rs, a)"
  shows "\<exists>s'. task_run exec copy es s = Some (rs, s') \<and> tasks_ok ok s' \<and> abstract_tasks abstract s' = a"
  using assms
proof (induction es arbitrary: s rs)
  case (Cons e es)
  then obtain r b rs' where b: "task_step spec Some e (abstract_tasks abstract s) = Some (r, b)"
      "task_run spec Some es b = Some (rs', a)" "rs = r # rs'"
    by (auto split: option.splits)
  obtain s' where s': "task_step exec copy e s = Some (r, s')" "tasks_ok ok s'" "abstract_tasks abstract s' = b"
    using step_refines [OF Cons.prems(1) b(1)] by blast
  with Cons.IH [OF s'(2)] b show ?case by auto
qed simp

end

subsection \<open>The specification of the calls\<close>

text \<open>A table is a map from numbers to files, and a new file takes the least number that is not used.  The error
  numbers are those of POSIX; \<open>kernel_errno\<close> is what the kernel gives in their place.  \<open>dup3\<close> to a number behind the
  end of the table, which is to fail with \<open>EBADF\<close>, has no result: see \<open>dup3_beyond\<close>.\<close>

definition least_unused :: "(nat \<rightharpoonup> 'f) \<Rightarrow> nat option" where
  "least_unused m = find (\<lambda>k. m k = None) [0..<FD_LIMIT_ORIGIN]"

definition posix_create :: "'f \<Rightarrow> (nat \<rightharpoonup> 'f) \<Rightarrow> answer sysret \<times> (nat \<rightharpoonup> 'f)" where
  "posix_create f m =
     (case least_unused m of None \<Rightarrow> (Inl EMFILE, m) | Some k \<Rightarrow> (Inr (Fd k), m(k \<mapsto> f)))"

fun posix_call :: "'f fd_call \<Rightarrow> (nat \<rightharpoonup> 'f) \<Rightarrow> (answer sysret \<times> (nat \<rightharpoonup> 'f)) option" where
  "posix_call (Create f) m = Some (posix_create f m)"
| "posix_call (Close k) m = Some (if m k = None then (Inl EBADF, m) else (Inr Zero, m(k := None)))"
| "posix_call (Dup k) m = Some (case m k of None \<Rightarrow> (Inl EBADF, m) | Some f \<Rightarrow> posix_create f m)"
| "posix_call (Dup3 a b) m =
     (case m a of
        None \<Rightarrow> Some (Inl EBADF, m)
      | Some f \<Rightarrow> if b < FD_LIMIT_ORIGIN then Some (Inr (Fd b), m(b \<mapsto> f)) else None)"
| "posix_call (Pipe r w) m =
     Some (case least_unused m of
        None \<Rightarrow> (Inl EMFILE, m)
      | Some a \<Rightarrow>
          (case least_unused (m(a \<mapsto> r)) of
             None \<Rightarrow> (Inl EMFILE, m)
           | Some b \<Rightarrow> (Inr (Fds a b), m(a \<mapsto> r, b \<mapsto> w))))"

fun kernel_errno :: "'f fd_call \<Rightarrow> int \<Rightarrow> int" where
  "kernel_errno (Close _) e = (if e = EBADF then EINVAL else e)"
| "kernel_errno (Dup _) e = (if e = EBADF then EMFILE else e)"
| "kernel_errno (Dup3 _ _) e = (if e = EBADF then EINVAL else e)"
| "kernel_errno (Pipe _ _) e = (if e = EMFILE then EINVAL else e)"
| "kernel_errno (Create _) e = e"

definition spec_call :: "'f fd_call \<Rightarrow> (nat \<rightharpoonup> 'f) \<Rightarrow> (answer sysret \<times> (nat \<rightharpoonup> 'f)) option" where
  "spec_call c m = map_option (map_prod (map_sum (kernel_errno c) id) id) (posix_call c m)"

subsection \<open>The table refines the map\<close>

definition table_map :: "'f fd_manager \<Rightarrow> nat \<rightharpoonup> 'f" where
  "table_map m k = (case get_file k m of Inl _ \<Rightarrow> None | Inr f \<Rightarrow> Some f)"

definition table_ok :: "'f fd_manager \<Rightarrow> bool" where
  "table_ok m \<longleftrightarrow> fd_ok m \<and> fd_limit m = FD_LIMIT_ORIGIN"

lemma table_map_None: "table_map m k = None \<longleftrightarrow> \<not> is_open m k"
  by (auto simp: table_map_def get_file_open split: sum.split)

lemma table_map_Some: "table_map m k = Some f \<longleftrightarrow> get_file k m = Inr f"
  by (auto simp: table_map_def split: sum.split)

lemma table_map_closed: "table_map m k = None \<Longrightarrow> get_file k m = Inl FdNotFound"
  by (simp add: table_map_None get_file_closed)

lemma least_unused_None: "least_unused m = None \<longleftrightarrow> (\<forall>k < 256. m k \<noteq> None)"
  by (auto simp: least_unused_def find_None_iff FD_LIMIT_ORIGIN_def)

lemma least_unused_Some: "least_unused m = Some k \<longleftrightarrow> k < 256 \<and> m k = None \<and> (\<forall>j < k. m j \<noteq> None)"
  unfolding least_unused_def find_Some_iff FD_LIMIT_ORIGIN_def by (auto simp: nth_append)

lemma push_full_table:
  assumes "table_ok m" and "least_unused (table_map m) = None"
  shows "push f m = Some (Inl NoAvailableFd, m)"
  using assms by (intro push_full) (auto simp: table_ok_def FD_LIMIT_ORIGIN_def least_unused_None table_map_None)

lemma push_table:
  assumes "table_ok m" and "least_unused (table_map m) = Some k"
  shows "\<exists>m'. push f m = Some (Inr k, m') \<and> table_ok m' \<and> table_map m' = (table_map m)(k \<mapsto> f)"
proof -
  have k: "k < 256" "\<not> is_open m k" "\<forall>j < k. is_open m j"
    using assms(2) by (auto simp: least_unused_Some table_map_None)
  obtain fd m' where m': "push f m = Some (Inr fd, m')" "fd_ok m'" "fd \<le> k" "\<not> is_open m fd" "fd_limit m' = fd_limit m"
      "\<forall>j. get_file j m' = (if j = fd then Inr f else get_file j m)"
    using push_least [of m k f] assms(1) k by (auto simp: table_ok_def FD_LIMIT_ORIGIN_def)
  have "fd = k" using m'(3,4) k(3) by (auto simp: le_less)
  moreover have "table_map m' = (table_map m)(fd \<mapsto> f)" using m'(6) by (auto simp: table_map_def)
  ultimately show ?thesis using m'(1,2,5) assms(1) by (auto simp: table_ok_def)
qed

lemma remove_file_table:
  assumes "table_ok m" and "is_open m k"
  shows "\<exists>f m'. remove_file k m = Some (Inr f, m') \<and> table_ok m' \<and> table_map m' = (table_map m)(k := None)"
proof -
  obtain f m' where m': "remove_file k m = Some (Inr f, m')" "fd_ok m'" "fd_limit m' = fd_limit m"
      "\<forall>j. is_open m' j \<longleftrightarrow> is_open m j \<and> j \<noteq> k" "\<forall>j. j \<noteq> k \<longrightarrow> get_file j m' = get_file j m"
    using remove_file_open [of m k] assms by (auto simp: table_ok_def)
  have "table_map m' j = ((table_map m)(k := None)) j" for j
    using m'(4,5) table_map_None [of m' k] by (cases "j = k") (auto simp: table_map_def)
  then show ?thesis using m'(1-3) assms(1) by (auto simp: table_ok_def)
qed

lemma remove_file_closed: "\<not> is_open m k \<Longrightarrow> remove_file k m = Some (Inl FdNotFound, m)"
  by (simp add: remove_file_def get_file_closed)

lemma copy_fd_to_table:
  assumes "table_ok m" and "get_file a m = Inr f" and "b < 256"
  shows "\<exists>m'. copy_fd_to a b m = Some (True, m') \<and> table_ok m' \<and> table_map m' = (table_map m)(b \<mapsto> f)"
proof -
  obtain m' where "copy_fd_to a b m = Some (True, m')" "fd_ok m'" "fd_limit m' = fd_limit m"
      "\<forall>j. get_file j m' = (if j = b then Inr f else get_file j m)"
    using copy_fd_to_ok [of m a b] assms by (auto simp: table_ok_def FD_LIMIT_ORIGIN_def get_file_open)
  then show ?thesis using assms(1) by (auto simp: table_ok_def table_map_def)
qed

lemma create_refines:
  assumes "table_ok m" and "posix_create f (table_map m) = (r, a)"
  shows "\<exists>m'. push f m = Some (case r of Inl _ \<Rightarrow> Inl NoAvailableFd | Inr (Fd k) \<Rightarrow> Inr k, m') \<and>
    (isl r \<longrightarrow> r = Inl EMFILE) \<and> (\<not> isl r \<longrightarrow> (\<exists>k. r = Inr (Fd k))) \<and> table_ok m' \<and> table_map m' = a"
proof (cases "least_unused (table_map m)")
  case None
  then show ?thesis using assms push_full_table [OF assms(1) None] by (auto simp: posix_create_def)
next
  case (Some k)
  then show ?thesis using assms push_table [OF assms(1) Some] by (auto simp: posix_create_def)
qed

lemma pipe_refines:
  assumes "table_ok m" and "posix_call (Pipe r w) (table_map m) = Some (x, a)"
  shows "\<exists>m'. sys_pipe r w m = Some (map_sum (kernel_errno (Pipe r w)) id x, m') \<and> table_ok m' \<and> table_map m' = a"
proof (cases "least_unused (table_map m)")
  case None
  then show ?thesis
    using assms push_full_table [OF assms(1) None] by (auto simp: sys_pipe_def)
next
  case (Some k)
  obtain m1 where m1: "push r m = Some (Inr k, m1)" "table_ok m1" "table_map m1 = (table_map m)(k \<mapsto> r)"
    using push_table [OF assms(1) Some] by blast
  show ?thesis
  proof (cases "least_unused (table_map m1)")
    case None
    have "is_open m1 k" using m1(3) table_map_None [of m1 k] by simp
    then obtain f m2 where m2: "remove_file k m1 = Some (Inr f, m2)" "table_ok m2" "table_map m2 = (table_map m1)(k := None)"
      using remove_file_table [OF m1(2)] by blast
    have "table_map m2 = table_map m" using m2(3) m1(3) Some by (auto simp: least_unused_Some)
    then show ?thesis
      using assms(2) Some None m1 m2 push_full_table [OF m1(2) None] by (auto simp: sys_pipe_def)
  next
    case (Some l)
    then obtain m2 where "push w m1 = Some (Inr l, m2)" "table_ok m2" "table_map m2 = (table_map m1)(l \<mapsto> w)"
      using push_table [OF m1(2)] by blast
    then show ?thesis
      using assms(2) \<open>least_unused (table_map m) = Some k\<close> Some m1 by (auto simp: sys_pipe_def)
  qed
qed

lemma table_call_refines:
  assumes "table_ok m" and "spec_call c (table_map m) = Some (r, a)"
  shows "\<exists>m'. table_call c m = Some (r, m') \<and> table_ok m' \<and> table_map m' = a"
proof -
  obtain x where x: "posix_call c (table_map m) = Some (x, a)" "r = map_sum (kernel_errno c) id x"
    using assms(2) by (auto simp: spec_call_def)
  show ?thesis
  proof (cases c)
    case (Create f)
    then show ?thesis
      using x create_refines [OF assms(1), of f] by (auto simp: sys_epoll_create_def split: sum.splits)
  next
    case (Close k)
    then show ?thesis
      using x remove_file_closed [of m k] remove_file_table [OF assms(1), of k] assms(1)
      by (cases "is_open m k") (auto simp: sys_close_def table_map_None)
  next
    case (Dup k)
    show ?thesis
    proof (cases "table_map m k")
      case None
      then show ?thesis
        using x Dup None assms(1) table_map_closed [OF None]
        by (auto simp: fd_answer_def sys_dup_def copy_fd_anywhere_def)
    next
      case (Some f)
      then have "get_file k m = Inr f" by (simp add: table_map_Some)
      then show ?thesis
        using x Dup Some create_refines [OF assms(1), of f x a]
        by (auto simp: fd_answer_def sys_dup_def copy_fd_anywhere_def split: sum.splits)
    qed
  next
    case (Dup3 b d)
    show ?thesis
    proof (cases "table_map m b")
      case None
      then show ?thesis
        using x Dup3 None assms(1) table_map_closed [OF None]
        by (auto simp: fd_answer_def sys_dup3_def copy_fd_to_def)
    next
      case (Some f)
      then have "get_file b m = Inr f" by (simp add: table_map_Some)
      then show ?thesis
        using x Dup3 Some copy_fd_to_table [OF assms(1), of b f d]
        by (auto simp: fd_answer_def sys_dup3_def FD_LIMIT_ORIGIN_def split: if_splits)
    qed
  next
    case (Pipe f g)
    then show ?thesis using x pipe_refines [OF assms(1)] by auto
  qed
qed

lemma copy_all_refines:
  assumes "table_ok m"
  shows "\<exists>m'. copy_all m = Some m' \<and> table_ok m' \<and> table_map m' = table_map m"
  using copy_all_ok [of m] assms by (auto simp: table_ok_def FD_LIMIT_ORIGIN_def table_map_def [abs_def])

interpretation fdt: table_refinement table_call copy_all spec_call table_ok table_map
  by unfold_locales (use table_call_refines copy_all_refines in blast)+

lemma dup3_beyond:
  assumes "is_open m a" and "256 \<le> b"
  shows "sys_dup3 a b m = None"
  using assms
  by (auto simp: sys_dup3_def copy_fd_to_def get_file_open alloc_exact_if_possible_def is_allocated_def bitalloc_test_def)



end
