(* ===== verification/KernelPath.thy ===== *)
theory KernelPath
  imports CString
begin

text \<open>
  Paths of kernel/src/file/device/mod.rs: the kernel writes the directory of a file as a text that begins with
  \<open>./\<close> and ends with a slash, and the name apart.  Texts are lists of characters; the positions of the code count
  bytes, which makes no difference, as a slash is no part of another character.
\<close>

subsection \<open>The code\<close>

definition find_char :: "char \<Rightarrow> string \<Rightarrow> nat option" where
  "find_char c s = (let n = length (takeWhile (\<lambda>x. x \<noteq> c) s) in if n < length s then Some n else None)"

text \<open>The loop that removes the last directory up to the slash before it.\<close>

function pop_dir :: "string \<Rightarrow> string" where
  "pop_dir path =
     (if 1 < length path then (if last path \<noteq> CHR ''/'' then pop_dir (butlast path) else butlast path) else path)"
  by pat_completeness auto
termination by (relation "measure length") auto

declare pop_dir.simps [simp del]

definition parse_part :: "string \<Rightarrow> string \<Rightarrow> string" where
  "parse_part path part =
     (if length part = 2 \<and> part = ''..'' then pop_dir (butlast path) @ ''/''
      else if length part = 1 \<and> part = ''.'' then path
      else if length part \<noteq> 0 then path @ part @ ''/''
      else path)"

function parse_from :: "nat \<Rightarrow> string \<Rightarrow> string \<Rightarrow> string \<times> nat" where
  "parse_from pos path child_path =
     (case find_char CHR ''/'' (drop pos child_path) of
        None \<Rightarrow> (path, pos)
      | Some new_pos \<Rightarrow>
          parse_from (pos + new_pos + 1) (parse_part path (take new_pos (drop pos child_path))) child_path)"
  by pat_completeness auto
termination
  by (relation "measure (\<lambda>(pos, _, child). length child - pos)")
    (auto simp: find_char_def Let_def split: if_splits)

declare parse_from.simps [simp del]

definition parse_dir :: "string \<Rightarrow> string \<Rightarrow> string \<times> nat" where
  "parse_dir path child_path = parse_from 0 path child_path"

definition ends_with :: "string \<Rightarrow> string \<Rightarrow> bool" where
  "ends_with s t \<longleftrightarrow> drop (length s - length t) s = t"

definition starts_with :: "string \<Rightarrow> string \<Rightarrow> bool" where
  "starts_with s t \<longleftrightarrow> take (length t) s = t"

definition start_pos :: "string \<Rightarrow> nat" where
  "start_pos dir_name = (if starts_with dir_name ''./'' then 2 else if starts_with dir_name ''/'' then 1 else 0)"

definition split_path_and_file :: "string \<Rightarrow> string \<Rightarrow> (string \<times> string) option" where
  "split_path_and_file dir_name file_path =
     (if \<not> ends_with dir_name ''/'' then None
      else
        let (dir, _) = parse_dir ''./'' (drop (start_pos dir_name) dir_name);
            (dir, pos) = parse_dir dir file_path
        in Some (dir, drop pos file_path))"

text \<open>The table of links maps a directory and a name to those of the real file.\<close>

type_synonym file_disc = "string \<times> string"

definition parse_file_name :: "(file_disc \<rightharpoonup> file_disc) \<Rightarrow> file_disc \<Rightarrow> file_disc" where
  "parse_file_name links d = (case links d of Some real \<Rightarrow> real | None \<Rightarrow> d)"

definition map_path_and_file :: "(file_disc \<rightharpoonup> file_disc) \<Rightarrow> string \<Rightarrow> string \<Rightarrow> file_disc option" where
  "map_path_and_file links dir_name file_path =
     (if \<not> ends_with dir_name ''/'' then None
      else
        let (dir, _) = parse_dir ''./'' (drop (start_pos dir_name) dir_name);
            (dir, pos) = parse_dir dir file_path
        in Some (parse_file_name links (dir, drop pos file_path)))"

subsection \<open>The specification: a path is a list of names\<close>

fun parts :: "string \<Rightarrow> string list" where
  "parts [] = [[]]"
| "parts (c # s) = (if c = CHR ''/'' then [] # parts s else (c # hd (parts s)) # tl (parts s))"

definition enter :: "string \<Rightarrow> string list \<Rightarrow> string list" where
  "enter name ds =
     (if name = ''..'' then butlast ds else if name = ''.'' \<or> name = [] then ds else ds @ [name])"

definition walk :: "string list \<Rightarrow> string list \<Rightarrow> string list" where
  "walk names ds = fold enter names ds"

definition dir_text :: "string list \<Rightarrow> string" where
  "dir_text ds = ''./'' @ concat (map (\<lambda>d. d @ ''/'') ds)"

definition dir_name_ok :: "string \<Rightarrow> bool" where
  "dir_name_ok d \<longleftrightarrow> d \<notin> {[], ''.'', ''..''} \<and> CHR ''/'' \<notin> set d"

subsection \<open>Lemmas\<close>

lemma parts_not_Nil [simp]: "parts s \<noteq> []"
  by (cases s) auto

lemma parts_no_slash: "CHR ''/'' \<notin> set s \<Longrightarrow> parts s = [s]"
  by (induction s) auto

lemma parts_append: "CHR ''/'' \<notin> set d \<Longrightarrow> parts (d @ CHR ''/'' # s) = d # parts s"
  by (induction d) auto

lemma parts_in: "p \<in> set (parts s) \<Longrightarrow> CHR ''/'' \<notin> set p"
proof (induction s arbitrary: p)
  case (Cons c s)
  have "hd (parts s) \<in> set (parts s)" "set (tl (parts s)) \<subseteq> set (parts s)"
    by (auto simp: list.set_sel(2) in_mono)
  with Cons show ?case by (auto split: if_splits)
qed simp

lemma find_char_None: "find_char c s = None \<longleftrightarrow> c \<notin> set s"
  by (induction s) (auto simp: find_char_def Let_def)

lemma find_char_Some:
  assumes "find_char c s = Some n"
  shows "n < length s" "c \<notin> set (take n s)" "s = take n s @ c # drop (Suc n) s"
proof -
  have n: "n = length (takeWhile (\<lambda>x. x \<noteq> c) s)" "n < length s"
    using assms by (auto simp: find_char_def Let_def split: if_splits)
  then show "n < length s" by simp
  have t: "take n s = takeWhile (\<lambda>x. x \<noteq> c) s" by (metis n(1) takeWhile_eq_take)
  then show "c \<notin> set (take n s)" by (auto dest: set_takeWhileD)
  have "s ! n = c" using nth_length_takeWhile [of "\<lambda>x. x \<noteq> c" s] n by simp
  then show "s = take n s @ c # drop (Suc n) s" using n(2) id_take_nth_drop by metis
qed

lemma dir_text_snoc: "dir_text (ds @ [d]) = dir_text ds @ d @ ''/''"
  by (simp add: dir_text_def)

lemma dir_text_last: "dir_text ds = butlast (dir_text ds) @ ''/''" "1 < length (dir_text ds)"
  by (induction ds rule: rev_induct) (auto simp: dir_text_snoc butlast_append, auto simp: dir_text_def)

lemma pop_dir_name:
  assumes "CHR ''/'' \<notin> set d" and "p \<noteq> []"
  shows "pop_dir (p @ CHR ''/'' # d) = p"
  using assms(1)
proof (induction d rule: rev_induct)
  case Nil
  then show ?case using assms(2) by (subst pop_dir.simps) (cases p; auto)
next
  case (snoc c d)
  then show ?case by (subst pop_dir.simps) (auto simp: butlast_append)
qed

lemma parse_part_enter:
  assumes "CHR ''/'' \<notin> set name" and "list_all dir_name_ok ds"
  shows "parse_part (dir_text ds) name = dir_text (enter name ds)"
proof (cases "name = ''..''")
  case True
  show ?thesis
  proof (cases ds rule: rev_cases)
    case Nil
    then show ?thesis using True by (simp add: parse_part_def enter_def dir_text_def pop_dir.simps)
  next
    case (snoc xs d)
    obtain p where p: "dir_text xs = p @ ''/''" "p \<noteq> []"
      using dir_text_last [of xs] by (cases "butlast (dir_text xs)") auto
    have "CHR ''/'' \<notin> set d" using assms(2) snoc by (simp add: dir_name_ok_def)
    then have "pop_dir (p @ CHR ''/'' # d) = p" using p(2) by (rule pop_dir_name)
    then show ?thesis using True snoc p(1) by (simp add: parse_part_def enter_def dir_text_snoc butlast_append)
  qed
qed (auto simp: parse_part_def enter_def dir_text_snoc)

lemma enter_ok:
  assumes "CHR ''/'' \<notin> set name" and "list_all dir_name_ok ds"
  shows "list_all dir_name_ok (enter name ds)"
  using assms by (auto simp: enter_def dir_name_ok_def list_all_iff dest: in_set_butlastD)

lemma parse_from_walk:
  assumes "list_all dir_name_ok ds" and "pos \<le> length child"
  shows "parse_from pos (dir_text ds) child =
    (dir_text (walk (butlast (parts (drop pos child))) ds), length child - length (last (parts (drop pos child))))"
  using assms
proof (induction "length child - pos" arbitrary: pos ds rule: less_induct)
  case less
  show ?case
  proof (cases "find_char CHR ''/'' (drop pos child)")
    case None
    then have "parts (drop pos child) = [drop pos child]" by (simp add: parts_no_slash find_char_None)
    then show ?thesis using None less.prems(2) by (subst parse_from.simps) (simp add: walk_def)
  next
    case (Some n)
    let ?p = "take n (drop pos child)"
    note n = find_char_Some [OF Some]
    have "drop (Suc n) (drop pos child) = drop (pos + n + 1) child" by (simp add: add.commute)
    then have parts: "parts (drop pos child) = ?p # parts (drop (pos + n + 1) child)"
      using n(2,3) parts_append by metis
    have lt: "pos + n + 1 \<le> length child" using n(1) by simp
    have "parse_from (pos + n + 1) (dir_text (enter ?p ds)) child =
      (dir_text (walk (butlast (parts (drop (pos + n + 1) child))) (enter ?p ds)),
       length child - length (last (parts (drop (pos + n + 1) child))))"
      using less.hyps [OF _ enter_ok [OF n(2) less.prems(1)] lt] n(1) by simp
    then show ?thesis
      using Some parse_part_enter [OF n(2) less.prems(1)] parts by (subst parse_from.simps) (simp add: walk_def)
  qed
qed

lemma parse_dir_walk:
  "list_all dir_name_ok ds \<Longrightarrow>
   parse_dir (dir_text ds) child = (dir_text (walk (butlast (parts child)) ds), length child - length (last (parts child)))"
  using parse_from_walk [of ds 0 child] by (simp add: parse_dir_def)

lemma walk_ok:
  "list_all dir_name_ok ds \<Longrightarrow> list_all (\<lambda>p. CHR ''/'' \<notin> set p) ps \<Longrightarrow> list_all dir_name_ok (walk ps ds)"
  unfolding walk_def by (induction ps arbitrary: ds) (auto simp: enter_ok)

lemma walk_append: "walk (a @ b) ds = walk b (walk a ds)"
  by (simp add: walk_def)

lemma walk_names: "list_all dir_name_ok ds \<Longrightarrow> walk ds es = es @ ds"
  unfolding walk_def by (induction ds arbitrary: es) (auto simp: enter_def dir_name_ok_def)

lemma butlast_parts_ok: "list_all (\<lambda>p. CHR ''/'' \<notin> set p) (butlast (parts s))"
  by (auto simp: list_all_iff dest!: in_set_butlastD parts_in)

lemma parts_names: "list_all dir_name_ok ds \<Longrightarrow> parts (concat (map (\<lambda>d. d @ ''/'') ds) @ f) = ds @ parts f"
  by (induction ds) (auto simp: dir_name_ok_def parts_append)

lemma parts_dir_text: "list_all dir_name_ok ds \<Longrightarrow> parts (dir_text ds) = ''.'' # ds @ [[]]"
  using parts_names [of ds "[]"] by (simp add: dir_text_def)

lemma parts_single: "parts s = [x] \<Longrightarrow> s = x"
  by (induction s arbitrary: x) (auto split: if_splits simp: hd_Cons_tl, metis hd_Cons_tl list.sel(1) parts_not_Nil)

lemma last_part_suffix: "\<exists>p. s = p @ last (parts s)"
proof (induction s)
  case (Cons c s)
  then obtain p where p: "s = p @ last (parts s)" by blast
  show ?case
  proof (cases "c = CHR ''/'' \<or> tl (parts s) \<noteq> []")
    case True
    then have "last (parts (c # s)) = last (parts s)" by (cases "parts s") auto
    then show ?thesis using p by (intro exI [of _ "c # p"]) simp
  next
    case False
    then have "parts s = [hd (parts s)]" by (metis hd_Cons_tl parts_not_Nil)
    then have "s = hd (parts s)" by (rule parts_single)
    then show ?thesis using False by (intro exI [of _ "[]"]) simp
  qed
qed simp

lemma drop_last_part: "drop (length s - length (last (parts s))) s = last (parts s)"
proof -
  obtain p where "s = p @ last (parts s)" using last_part_suffix by blast
  then show ?thesis by (metis append_eq_conv_conj diff_diff_cancel length_append length_drop add_diff_cancel_right')
qed

lemma walk_start: "walk (butlast (parts (drop (start_pos s) s))) ds = walk (butlast (parts s)) ds"
proof -
  have e: "s = t @ drop (length t) s" if "starts_with s t" for t
    using that unfolding starts_with_def by (metis append_take_drop_id)
  show ?thesis
  proof (cases "starts_with s ''./''")
    case True
    then have "start_pos s = 2" by (simp add: start_pos_def)
    moreover obtain r where "s = ''./'' @ r" using e [OF True] by blast
    ultimately show ?thesis by (simp add: walk_def enter_def)
  next
    case dot: False
    show ?thesis
    proof (cases "starts_with s ''/''")
      case True
      then have "start_pos s = 1" using dot by (simp add: start_pos_def)
      moreover obtain r where "s = ''/'' @ r" using e [OF True] by blast
      ultimately show ?thesis by (simp add: walk_def enter_def)
    qed (use dot in \<open>simp add: start_pos_def\<close>)
  qed
qed

lemma split_path_and_file_walk:
  "split_path_and_file dir_name file_path =
     (if ends_with dir_name ''/''
      then Some (dir_text (walk (butlast (parts dir_name) @ butlast (parts file_path)) []), last (parts file_path))
      else None)"
proof -
  have "dir_text [] = ''./''" by (simp add: dir_text_def)
  then have "parse_dir ''./'' (drop (start_pos dir_name) dir_name) =
      (dir_text (walk (butlast (parts dir_name)) []), length (drop (start_pos dir_name) dir_name)
         - length (last (parts (drop (start_pos dir_name) dir_name))))"
    using parse_dir_walk [of "[]" "drop (start_pos dir_name) dir_name"] walk_start [of dir_name "[]"] by simp
  moreover have "list_all dir_name_ok (walk (butlast (parts dir_name)) [])"
    by (rule walk_ok [OF _ butlast_parts_ok]) simp
  ultimately show ?thesis
    by (simp add: split_path_and_file_def parse_dir_walk drop_last_part walk_append)
qed

lemma map_path_and_file_split:
  "map_path_and_file links dir_name file_path = map_option (parse_file_name links) (split_path_and_file dir_name file_path)"
  by (simp add: map_path_and_file_def split_path_and_file_def split: prod.split)

lemma dir_text_eq:
  assumes "list_all dir_name_ok ds" and "list_all dir_name_ok es"
  shows "dir_text ds = dir_text es \<longleftrightarrow> ds = es"
  by (metis parts_dir_text [OF assms(1)] parts_dir_text [OF assms(2)] append_same_eq list.inject)

lemma ends_dir_text [simp]: "ends_with (dir_text ds) ''/''"
proof -
  have "ends_with (s @ ''/'') ''/''" for s by (simp add: ends_with_def)
  then show ?thesis by (metis dir_text_last(1))
qed

lemma split_canonical:
  assumes "list_all dir_name_ok ds" and "CHR ''/'' \<notin> set name"
  shows "split_path_and_file (dir_text ds) name = Some (dir_text ds, name)"
proof -
  have "walk (''.'' # ds) [] = ds" using walk_names [OF assms(1), of "[]"] by (simp add: walk_def enter_def)
  then show ?thesis
    by (simp add: split_path_and_file_walk parts_dir_text [OF assms(1)] parts_no_slash [OF assms(2)])
qed

text \<open>C33: the kernel reads a path as its list of names.  A directory without a slash at its end is refused; else the
  directory of the file is found by walking the names of both texts from the root, where the empty name and \<open>.\<close> stay
  and \<open>..\<close> goes up, in the root not at all, and the name of the file is what follows the last slash.  The text of the
  directory is canonical: it holds no empty name, \<open>.\<close> or \<open>..\<close>, texts of different directories differ, and reading a
  canonical directory and a plain name gives them back.\<close>

theorem paths_canonical:
  shows "split_path_and_file dir_name file_path =
      (if ends_with dir_name ''/''
       then Some (dir_text (walk (butlast (parts dir_name) @ butlast (parts file_path)) []), last (parts file_path))
       else None)
    \<and> map_path_and_file links dir_name file_path =
        map_option (parse_file_name links) (split_path_and_file dir_name file_path)
    \<and> list_all dir_name_ok (walk (butlast (parts dir_name) @ butlast (parts file_path)) [])
    \<and> (list_all dir_name_ok ds \<and> list_all dir_name_ok es \<longrightarrow> (dir_text ds = dir_text es \<longleftrightarrow> ds = es))
    \<and> (list_all dir_name_ok ds \<and> CHR ''/'' \<notin> set name \<longrightarrow>
        split_path_and_file (dir_text ds) name = Some (dir_text ds, name))"
proof -
  have "list_all dir_name_ok (walk (butlast (parts dir_name) @ butlast (parts file_path)) [])"
    by (rule walk_ok) (simp_all add: butlast_parts_ok)
  then show ?thesis
    by (intro conjI split_path_and_file_walk map_path_and_file_split)
      (use dir_text_eq [of ds es] split_canonical [of ds name] in blast)+
qed

theorem paths_canonical_witness:
  "split_path_and_file ''./usr/../'' ''lib//./gcc/../x.so'' = Some (''./lib/'', ''x.so'')
   \<and> split_path_and_file (dir_text [''lib'']) ''x.so'' = Some (dir_text [''lib''], ''x.so'')"
proof -
  have "ends_with ''./usr/../'' ''/''" "dir_name_ok ''lib''" "CHR ''/'' \<notin> set ''x.so''"
    "dir_text (walk (butlast (parts ''./usr/../'') @ butlast (parts ''lib//./gcc/../x.so'')) []) = ''./lib/''"
    "last (parts ''lib//./gcc/../x.so'') = ''x.so''"
    by code_simp+
  then show ?thesis
    using paths_canonical [of "''./usr/../''" "''lib//./gcc/../x.so''" Map.empty "[''lib'']" "[''lib'']" "''x.so''"]
    by (simp only: if_True list.pred_inject simp_thms)
qed

end
