(* ===== verification/KernelLink.thy ===== *)
theory KernelLink
  imports KernelPath
begin

text \<open>
  Hard links of kernel/src/file/device/link.rs.  The FAT file system knows no links, so the kernel keeps a table from
  the names the user sees to the real names, and the number of links of each real file.  The disc below (the vendored
  FAT file system and the virtual files) is an argument: which files and directories it holds, and how it erases one,
  where \<open>None\<close> is a panic.
\<close>

subsection \<open>The code\<close>

record 'w store =
  file_at :: "file_disc \<Rightarrow> 'w \<Rightarrow> bool"
  dir_at :: "string \<Rightarrow> 'w \<Rightarrow> bool"
  erase :: "file_disc \<Rightarrow> 'w \<Rightarrow> 'w option"

record 'w link_state =
  path_map :: "file_disc \<rightharpoonup> file_disc"
  count_map :: "file_disc \<rightharpoonup> nat"
  disc :: 'w

definition check_file_exists :: "'w store \<Rightarrow> string \<Rightarrow> string \<Rightarrow> 'w link_state \<Rightarrow> bool" where
  "check_file_exists st dir_name file_path s =
     (case map_path_and_file (path_map s) dir_name file_path of
        None \<Rightarrow> False
      | Some real \<Rightarrow> file_at st real (disc s))"

definition check_dir_exists :: "'w store \<Rightarrow> string \<Rightarrow> 'w link_state \<Rightarrow> bool" where
  "check_dir_exists st dir_name s =
     (let dir_name = (if ends_with dir_name ''/'' then dir_name else dir_name @ ''/'')
      in case map_path_and_file (path_map s) dir_name '''' of
           None \<Rightarrow> False
         | Some (dir, _) \<Rightarrow> dir_at st dir (disc s))"

definition add_link :: "file_disc \<Rightarrow> file_disc \<Rightarrow> 'w link_state \<Rightarrow> 'w link_state" where
  "add_link real user s =
     s\<lparr>count_map := (count_map s)(real \<mapsto> (case count_map s real of None \<Rightarrow> 1 | Some n \<Rightarrow> n) + 1),
       path_map := (case path_map s user of
          Some _ \<Rightarrow> (path_map s)(user \<mapsto> real)
        | None \<Rightarrow> (path_map s)(user \<mapsto> real, real \<mapsto> real))\<rparr>"

definition try_add_link :: "'w store \<Rightarrow> file_disc \<Rightarrow> file_disc \<Rightarrow> 'w link_state \<Rightarrow> bool \<times> 'w link_state" where
  "try_add_link st old new s =
     (case map_option (parse_file_name (path_map s)) (split_path_and_file (fst old) (snd old)) of
        None \<Rightarrow> (False, s)
      | Some (old_path, old_file) \<Rightarrow>
          (case map_option (parse_file_name (path_map s)) (split_path_and_file (fst new) (snd new)) of
             None \<Rightarrow> (False, s)
           | Some (new_path, new_file) \<Rightarrow>
               if check_file_exists st old_path old_file s \<and> \<not> check_file_exists st new_path new_file s
               then (True, add_link (old_path, old_file) (new_path, new_file) s)
               else (False, s)))"

definition get_link_count :: "file_disc \<Rightarrow> 'w link_state \<Rightarrow> nat" where
  "get_link_count d s = (case count_map s (parse_file_name (path_map s) d) of None \<Rightarrow> 1 | Some n \<Rightarrow> n)"

definition remove_file :: "'w store \<Rightarrow> file_disc \<Rightarrow> 'w link_state \<Rightarrow> 'w link_state option" where
  "remove_file st d s = map_option (\<lambda>w. s\<lparr>disc := w\<rparr>) (erase st d (disc s))"

definition try_remove_link :: "'w store \<Rightarrow> file_disc \<Rightarrow> 'w link_state \<Rightarrow> (bool \<times> 'w link_state) option" where
  "try_remove_link st key s =
     (case map_option (parse_file_name (path_map s)) (split_path_and_file (fst key) (snd key)) of
        None \<Rightarrow> Some (False, s)
      | Some (real_path, real_file) \<Rightarrow>
          let real = (real_path, real_file)
          in if check_file_exists st real_path real_file s then
               (if count_map s real \<noteq> None \<and> path_map s key = None then None
                else
                  let s = (if count_map s real \<noteq> None then s\<lparr>path_map := (path_map s)(key := None)\<rparr> else s);
                      count = (case count_map s real of None \<Rightarrow> 1 | Some n \<Rightarrow> n) - 1
                  in if count = 0
                     then map_option (Pair True) (remove_file st real (s\<lparr>count_map := (count_map s)(real := None)\<rparr>))
                     else Some (True, s\<lparr>count_map := (count_map s)(real \<mapsto> count)\<rparr>))
             else if check_dir_exists st (real_path @ real_file) s
             then map_option (Pair True) (remove_file st real s)
             else Some (False, s))"

datatype link_op = Link file_disc file_disc | Unlink file_disc | Count file_disc

datatype link_answer = Done bool | Links nat

fun link_step :: "'w store \<Rightarrow> link_op \<Rightarrow> 'w link_state \<Rightarrow> (link_answer \<times> 'w link_state) option" where
  "link_step st (Link a b) s = (case try_add_link st a b s of (r, s) \<Rightarrow> Some (Done r, s))"
| "link_step st (Unlink k) s = (case try_remove_link st k s of None \<Rightarrow> None | Some (r, s) \<Rightarrow> Some (Done r, s))"
| "link_step st (Count k) s = Some (Links (get_link_count k s), s)"

fun link_run :: "'w store \<Rightarrow> link_op list \<Rightarrow> 'w link_state \<Rightarrow> (link_answer list \<times> 'w link_state) option" where
  "link_run st [] s = Some ([], s)"
| "link_run st (op # ops) s =
     (case link_step st op s of
        None \<Rightarrow> None
      | Some (r, s) \<Rightarrow> map_option (\<lambda>(rs, s). (r # rs, s)) (link_run st ops s))"

subsection \<open>The specification\<close>

text \<open>A list of names, each with its file; a file is known by its first name.  The operations of the kernel are wrong
  in two cases, which have no result here: a name that is not spelled canonically is unlinked, and the first name of
  a file that has others is.\<close>

type_synonym names = "(file_disc \<times> file_disc) list"

definition links_of :: "'i \<Rightarrow> ('k \<times> 'i) list \<Rightarrow> nat" where
  "links_of i names = length (filter (\<lambda>(_, j). j = i) names)"

definition canonical :: "file_disc \<Rightarrow> bool" where
  "canonical k \<longleftrightarrow> split_path_and_file (fst k) (snd k) = Some k"

fun posix_step :: "link_op \<Rightarrow> names \<Rightarrow> (link_answer \<times> names) option" where
  "posix_step (Link a b) names =
     (case (split_path_and_file (fst a) (snd a), split_path_and_file (fst b) (snd b)) of
        (Some a, Some b) \<Rightarrow>
          (case (map_of names a, map_of names b) of
             (Some i, None) \<Rightarrow> Some (Done True, (b, i) # names)
           | _ \<Rightarrow> Some (Done False, names))
      | _ \<Rightarrow> Some (Done False, names))"
| "posix_step (Unlink k) names =
     (case map_of names k of
        Some i \<Rightarrow>
          if i = k \<and> links_of i names \<noteq> 1 then None
          else Some (Done True, filter (\<lambda>(n, _). n \<noteq> k) names)
      | None \<Rightarrow> None)"
| "posix_step (Count k) names =
     (case map_of names k of Some i \<Rightarrow> Some (Links (links_of i names), names) | None \<Rightarrow> None)"

fun posix_run :: "link_op list \<Rightarrow> names \<Rightarrow> (link_answer list \<times> names) option" where
  "posix_run [] names = Some ([], names)"
| "posix_run (op # ops) names =
     (case posix_step op names of
        None \<Rightarrow> None
      | Some (r, names) \<Rightarrow> map_option (\<lambda>(rs, names). (r # rs, names)) (posix_run ops names))"

text \<open>What the disc promises: a file that is there can be erased, and nothing else goes with it.\<close>

locale file_store =
  fixes st :: "'w store"
  assumes erase_file: "file_at st k w \<Longrightarrow> \<exists>w'. erase st k w = Some w' \<and> (\<forall>j. file_at st j w' \<longleftrightarrow> file_at st j w \<and> j \<noteq> k)"

text \<open>How the tables and the disc represent the list of names.\<close>

definition links_ok :: "'w store \<Rightarrow> 'w link_state \<Rightarrow> names \<Rightarrow> bool" where
  "links_ok st s names \<longleftrightarrow>
     distinct (map fst names) \<and> (\<forall>k \<in> fst ` set names. canonical k) \<and>
     (\<forall>k r. path_map s k = Some r \<longrightarrow> canonical k \<and> canonical r \<and> path_map s r = Some r \<and>
        file_at st r (disc s) \<and> (k = r \<or> \<not> file_at st k (disc s))) \<and>
     (\<forall>r. count_map s r = (if path_map s r = Some r then Some (links_of r names) else None)) \<and>
     (\<forall>k. canonical k \<longrightarrow>
        map_of names k =
          (let r = parse_file_name (path_map s) k in if file_at st r (disc s) then Some r else None))"

subsection \<open>Lists of names\<close>

lemma map_of_without: "map_of (filter (\<lambda>(n, _). n \<noteq> k) names) = (map_of names)(k := None)"
  by (induction names) (auto simp: fun_eq_iff)

lemma links_of_simps [simp]:
  "links_of i [] = 0" "links_of i ((k, j) # names) = (if j = i then Suc (links_of i names) else links_of i names)"
  by (simp_all add: links_of_def)

lemma without_absent: "k \<notin> fst ` set names \<Longrightarrow> filter (\<lambda>(n, _). n \<noteq> k) names = names"
  by (induction names) auto

lemma links_of_without:
  assumes "distinct (map fst names)" and "map_of names k = Some i"
  shows "links_of j names = links_of j (filter (\<lambda>(n, _). n \<noteq> k) names) + (if j = i then 1 else 0)"
  using assms by (induction names) (auto simp: without_absent split: if_splits)

lemma links_of_none: "(\<And>k. map_of names k \<noteq> Some i) \<Longrightarrow> distinct (map fst names) \<Longrightarrow> links_of i names = 0"
  unfolding links_of_def using map_of_is_SomeI [of names] by (fastforce simp: filter_empty_conv)

lemma links_of_one:
  assumes "distinct (map fst names)" and "map_of names k = Some i"
  shows "links_of i names = 1 \<longleftrightarrow> (\<forall>l. map_of names l = Some i \<longrightarrow> l = k)"
proof
  let ?names = "filter (\<lambda>(n, _). n \<noteq> k) names"
  have d: "distinct (map fst ?names)" using assms(1) by (rule distinct_map_filter)
  have s: "links_of i names = links_of i ?names + 1" using links_of_without [OF assms, of i] by simp
  show "links_of i names = 1" if "\<forall>l. map_of names l = Some i \<longrightarrow> l = k"
  proof -
    have "map_of ?names l \<noteq> Some i" for l using that by (auto simp: map_of_without)
    then show ?thesis using links_of_none [OF _ d] s by simp
  qed
  show "\<forall>l. map_of names l = Some i \<longrightarrow> l = k" if "links_of i names = 1"
  proof (intro allI impI, rule ccontr)
    fix l assume l: "map_of names l = Some i" "l \<noteq> k"
    then have "map_of ?names l = Some i" by (simp add: map_of_without)
    then have "1 \<le> links_of i ?names" using links_of_without [OF d, of l i i] by simp
    then show False using s that by simp
  qed
qed

lemma split_is_canonical:
  assumes "split_path_and_file p f = Some k"
  shows "canonical k"
proof -
  define ds where "ds = walk (butlast (parts p) @ butlast (parts f)) []"
  have k: "k = (dir_text ds, last (parts f))"
    using assms by (auto simp: split_path_and_file_walk ds_def split: if_splits)
  have "list_all dir_name_ok ds" unfolding ds_def by (rule walk_ok) (simp_all add: butlast_parts_ok)
  moreover have "CHR ''/'' \<notin> set (last (parts f))" using parts_in last_in_set parts_not_Nil by blast
  ultimately show ?thesis by (simp add: canonical_def k split_canonical)
qed

lemma canonical_map: "canonical k \<Longrightarrow> map_path_and_file links (fst k) (snd k) = Some (parse_file_name links k)"
  by (simp add: canonical_def map_path_and_file_split)

subsection \<open>The tables represent the names\<close>

lemma links_ok_D:
  assumes "links_ok st s names"
  shows "distinct (map fst names)"
    and "map_of names k = Some i \<Longrightarrow> canonical k"
    and "path_map s k = Some r \<Longrightarrow> canonical k \<and> canonical r \<and> path_map s r = Some r \<and> file_at st r (disc s) \<and>
      (k = r \<or> \<not> file_at st k (disc s))"
    and "count_map s r = (if path_map s r = Some r then Some (links_of r names) else None)"
    and "canonical k \<Longrightarrow>
      map_of names k = (let r = parse_file_name (path_map s) k in if file_at st r (disc s) then Some r else None)"
proof -
  note ok = assms [unfolded links_ok_def]
  show "distinct (map fst names)" using ok by blast
  show "map_of names k = Some i \<Longrightarrow> canonical k" 
    using ok [THEN conjunct2, THEN conjunct1, THEN bspec, of k] map_of_SomeD [of names k i] by (metis fst_conv image_eqI)
  show "path_map s k = Some r \<Longrightarrow> canonical k \<and> canonical r \<and> path_map s r = Some r \<and> file_at st r (disc s) \<and>
      (k = r \<or> \<not> file_at st k (disc s))"
    by (rule ok [THEN conjunct2, THEN conjunct2, THEN conjunct1, THEN spec, THEN spec, THEN mp])
  show "count_map s r = (if path_map s r = Some r then Some (links_of r names) else None)"
    by (rule ok [THEN conjunct2, THEN conjunct2, THEN conjunct2, THEN conjunct1, THEN spec])
  show "canonical k \<Longrightarrow>
      map_of names k = (let r = parse_file_name (path_map s) k in if file_at st r (disc s) then Some r else None)"
    by (rule ok [THEN conjunct2, THEN conjunct2, THEN conjunct2, THEN conjunct2, THEN spec, THEN mp])
qed

lemma parse_real:
  assumes "links_ok st s names" and "canonical k" and "r = parse_file_name (path_map s) k"
  shows "canonical r" "parse_file_name (path_map s) r = r"
    "check_file_exists st (fst r) (snd r) s \<longleftrightarrow> file_at st r (disc s)"
    "map_of names k = (if file_at st r (disc s) then Some r else None)"
proof -
  show c: "canonical r" and p: "parse_file_name (path_map s) r = r"
    using assms links_ok_D(3) [OF assms(1), of k] by (auto simp: parse_file_name_def split: option.splits)
  then show "check_file_exists st (fst r) (snd r) s \<longleftrightarrow> file_at st r (disc s)"
    by (simp add: check_file_exists_def canonical_map)
  show "map_of names k = (if file_at st r (disc s) then Some r else None)"
    using links_ok_D(5) [OF assms(1,2)] assms(3) by (simp add: Let_def)
qed

lemma first_name:
  assumes "links_ok st s names" and "map_of names k = Some i"
  shows "canonical i" "file_at st i (disc s)" "map_of names i = Some i" "i = parse_file_name (path_map s) k"
    "path_map s i \<noteq> Some i \<Longrightarrow> links_of i names = 1 \<and> k = i"
proof -
  have k: "canonical k" using assms by (rule links_ok_D(2))
  note r = parse_real [OF assms(1) k refl]
  show i: "i = parse_file_name (path_map s) k" and f: "file_at st i (disc s)"
    using r(4) assms(2) by (auto split: if_splits)
  show c: "canonical i" using r(1) i by simp
  show m: "map_of names i = Some i" using links_ok_D(5) [OF assms(1) c] r(2) i f by (simp add: Let_def)
  have only: "l = i" if "map_of names l = Some i" "path_map s i \<noteq> Some i" for l
    using links_ok_D(5) [OF assms(1) links_ok_D(2) [OF assms(1) that(1)]] that links_ok_D(3) [OF assms(1), of l i]
    by (auto simp: Let_def parse_file_name_def split: option.splits if_splits)
  show "links_of i names = 1 \<and> k = i" if "path_map s i \<noteq> Some i"
    using only [OF _ that] links_of_one [OF links_ok_D(1) [OF assms(1)] m] assms(2) by blast
qed

lemma get_link_count_ok:
  assumes "links_ok st s names" and "map_of names k = Some i"
  shows "get_link_count k s = links_of i names"
  using first_name(4,5) [OF assms] links_ok_D(4) [OF assms(1), of i] by (auto simp: get_link_count_def)

lemma links_okI:
  assumes "distinct (map fst names)" and "\<And>k. k \<in> fst ` set names \<Longrightarrow> canonical k"
    and "\<And>k r. path_map s k = Some r \<Longrightarrow> canonical k \<and> canonical r \<and> path_map s r = Some r \<and> file_at st r (disc s) \<and>
      (k = r \<or> \<not> file_at st k (disc s))"
    and "\<And>r. count_map s r = (if path_map s r = Some r then Some (links_of r names) else None)"
    and "\<And>k. canonical k \<Longrightarrow>
      map_of names k = (let r = parse_file_name (path_map s) k in if file_at st r (disc s) then Some r else None)"
  shows "links_ok st s names"
  unfolding links_ok_def
  by (rule conjI, rule assms(1), rule conjI, rule ballI, rule assms(2), assumption, rule conjI, intro allI impI,
      rule assms(3), assumption, rule conjI, rule allI, rule assms(4), intro allI impI, rule assms(5))

lemma add_link_ok:
  assumes "links_ok st s names" and "canonical a" and "canonical b"
    and "parse_file_name (path_map s) a = r" and "file_at st r (disc s)"
    and "path_map s b = None" and "\<not> file_at st b (disc s)"
  shows "links_ok st (add_link r b s) ((b, r) # names)"
proof -
  let ?s = "add_link r b s"
  note A = parse_real [OF assms(1,2) assms(4) [symmetric]]
  have new: "b \<noteq> r" using assms(5,7) by blast
  have nb: "map_of names b = None"
    using links_ok_D(5) [OF assms(1,3)] assms(6,7) by (simp add: parse_file_name_def)
  have nr: "map_of names a = Some r" using A(4) assms(5) by simp
  have paths: "path_map ?s = (path_map s)(b \<mapsto> r, r \<mapsto> r)" by (simp add: add_link_def assms(6))
  have disc: "disc ?s = disc s" by (simp add: add_link_def)
  have pr: "path_map s r = None \<or> path_map s r = Some r"
    using A(2) by (auto simp: parse_file_name_def split: option.splits)
  have pb: "path_map s k \<noteq> Some b" for k using links_ok_D(3) [OF assms(1), of k b] assms(6) by auto
  have parse: "parse_file_name (path_map ?s) k = (if k = b then r else parse_file_name (path_map s) k)" for k
    using pr new by (auto simp: paths parse_file_name_def)
  show ?thesis
  proof (rule links_okI)
    show "distinct (map fst ((b, r) # names))"
      using links_ok_D(1) [OF assms(1)] nb by (simp add: map_of_eq_None_iff)
    show "canonical k" if "k \<in> fst ` set ((b, r) # names)" for k
    proof (cases "k = b")
      case False
      then have "map_of names k \<noteq> None" using that by (auto simp: map_of_eq_None_iff)
      then show ?thesis using links_ok_D(2) [OF assms(1)] by blast
    qed (simp add: assms(3))
    show "canonical k \<and> canonical q \<and> path_map ?s q = Some q \<and> file_at st q (disc ?s) \<and> (k = q \<or> \<not> file_at st k (disc ?s))"
      if "path_map ?s k = Some q" for k q
      using that links_ok_D(3) [OF assms(1), of k q] assms(3,5,7) A(1) new pb [of k]
      by (simp add: paths disc split: if_splits) blast
    show "count_map ?s q = (if path_map ?s q = Some q then Some (links_of q ((b, r) # names)) else None)" for q
    proof (cases "q = r")
      case True
      have "(case count_map s r of None \<Rightarrow> 1 | Some n \<Rightarrow> n) = links_of r names"
        using links_ok_D(4) [OF assms(1), of r] first_name(5) [OF assms(1) nr] by auto
      then show ?thesis using True new by (simp add: paths) (simp add: add_link_def)
    next
      case False
      then show ?thesis
        using links_ok_D(4) [OF assms(1), of q] assms(6) new by (auto simp: paths) (auto simp: add_link_def)
    qed
    show "map_of ((b, r) # names) k =
        (let q = parse_file_name (path_map ?s) k in if file_at st q (disc ?s) then Some q else None)" if "canonical k" for k
      using links_ok_D(5) [OF assms(1) that] assms(5) unfolding parse disc by (simp add: Let_def)
  qed
qed

lemma link_ok:
  assumes "links_ok st s names" and "posix_step (Link a b) names = Some (r, names')"
  shows "\<exists>s'. link_step st (Link a b) s = Some (r, s') \<and> links_ok st s' names'"
proof (cases "split_path_and_file (fst a) (snd a) = None \<or> split_path_and_file (fst b) (snd b) = None")
  case True
  then show ?thesis using assms by (auto simp: try_add_link_def split: option.splits prod.splits)
next
  case False
  then obtain ca cb where c: "split_path_and_file (fst a) (snd a) = Some ca" "split_path_and_file (fst b) (snd b) = Some cb"
    by (metis option.exhaust)
  let ?parse = "parse_file_name (path_map s)"
  define ra where "ra = ?parse ca"
  define rb where "rb = ?parse cb"
  note A = parse_real [OF assms(1) split_is_canonical [OF c(1)] ra_def]
  note B = parse_real [OF assms(1) split_is_canonical [OF c(2)] rb_def]
  have step: "try_add_link st a b s =
      (if file_at st ra (disc s) \<and> \<not> file_at st rb (disc s) then (True, add_link ra rb s) else (False, s))"
    using c A(3) B(3) by (cases ra, cases rb) (simp add: try_add_link_def ra_def [symmetric] rb_def [symmetric])
  show ?thesis
  proof (cases "file_at st ra (disc s) \<and> \<not> file_at st rb (disc s)")
    case False
    then show ?thesis using assms c A(4) B(4) step by (auto split: if_splits)
  next
    case True
    have names': "r = Done True" "names' = (cb, ra) # names"
      using assms(2) c A(4) B(4) True by auto
    have none: "path_map s cb = None" "rb = cb"
      using True links_ok_D(3) [OF assms(1), of cb] by (auto simp: rb_def parse_file_name_def split: option.splits)
    have new: "cb \<noteq> ra" using True none(2) by blast
    have "links_ok st (add_link ra cb s) ((cb, ra) # names)"
      using add_link_ok [OF assms(1) split_is_canonical [OF c(1)] split_is_canonical [OF c(2)]] True none by (simp add: ra_def)
    then show ?thesis using step True names' none(2) by simp
  qed
qed

context file_store
begin

lemma unlink_only:
  assumes "links_ok st s names" and "map_of names k = Some k" and "links_of k names = 1"
    and "path_map s k = None \<or> path_map s k = Some k"
  shows "\<exists>w. erase st k (disc s) = Some w \<and>
     links_ok st (s\<lparr>path_map := (path_map s)(k := None), count_map := (count_map s)(k := None), disc := w\<rparr>)
       (filter (\<lambda>(n, _). n \<noteq> k) names)"
proof -
  note f = first_name [OF assms(1,2)]
  have only: "l = k" if "map_of names l = Some k" for l
    using links_of_one [OF links_ok_D(1) [OF assms(1)] assms(2)] assms(3) that by blast
  have target: "q \<noteq> k" if "path_map s l = Some q" "l \<noteq> k" for l q
  proof
    assume "q = k"
    then have "map_of names l = Some k"
      using that(1) links_ok_D(3) [OF assms(1) that(1)] links_ok_D(5) [OF assms(1), of l] by (simp add: parse_file_name_def Let_def)
    then show False using only that(2) by blast
  qed
  obtain w where w: "erase st k (disc s) = Some w" "\<forall>j. file_at st j w \<longleftrightarrow> file_at st j (disc s) \<and> j \<noteq> k"
    using erase_file [OF f(2)] by blast
  let ?s = "s\<lparr>path_map := (path_map s)(k := None), count_map := (count_map s)(k := None), disc := w\<rparr>"
  have "links_ok st ?s (filter (\<lambda>(n, _). n \<noteq> k) names)"
  proof (rule links_okI)
    show "distinct (map fst (filter (\<lambda>(n, _). n \<noteq> k) names))" using links_ok_D(1) [OF assms(1)] by (rule distinct_map_filter)
    show "canonical l" if "l \<in> fst ` set (filter (\<lambda>(n, _). n \<noteq> k) names)" for l
      using that assms(1) by (auto simp: links_ok_def)
    show "canonical l \<and> canonical q \<and> path_map ?s q = Some q \<and> file_at st q (disc ?s) \<and> (l = q \<or> \<not> file_at st l (disc ?s))"
      if "path_map ?s l = Some q" for l q
    proof -
      have l: "l \<noteq> k" "path_map s l = Some q" using that by (auto split: if_splits)
      then show ?thesis using links_ok_D(3) [OF assms(1) l(2)] target [OF l(2,1)] w(2) [THEN spec, of q] w(2) [THEN spec, of l] by auto
    qed
    show "count_map ?s q = (if path_map ?s q = Some q then Some (links_of q (filter (\<lambda>(n, _). n \<noteq> k) names)) else None)" for q
      using links_ok_D(4) [OF assms(1), of q] links_of_without [OF links_ok_D(1) [OF assms(1)] assms(2), of q] by auto
    show "map_of (filter (\<lambda>(n, _). n \<noteq> k) names) l =
        (let q = parse_file_name (path_map ?s) l in if file_at st q (disc ?s) then Some q else None)" if "canonical l" for l
    proof (cases "l = k")
      case True
      then show ?thesis using w(2) [THEN spec, of k] by (simp add: map_of_without parse_file_name_def Let_def)
    next
      case False
      have "parse_file_name (path_map ?s) l = parse_file_name (path_map s) l" using False by (simp add: parse_file_name_def)
      moreover have "parse_file_name (path_map s) l \<noteq> k"
        using target False by (auto simp: parse_file_name_def split: option.splits)
      ultimately show ?thesis using links_ok_D(5) [OF assms(1) that] w(2) [THEN spec, of "parse_file_name (path_map s) l"] False
        by (simp add: map_of_without Let_def)
    qed
  qed
  then show ?thesis using w(1) by blast
qed

lemma unlink_one:
  assumes "links_ok st s names" and "path_map s k = Some i" and "k \<noteq> i"
  shows "1 < links_of i names"
    "links_ok st (s\<lparr>path_map := (path_map s)(k := None), count_map := (count_map s)(i \<mapsto> links_of i names - 1)\<rparr>)
       (filter (\<lambda>(n, _). n \<noteq> k) names)"
proof -
  note p = links_ok_D(3) [OF assms(1,2)]
  have k: "map_of names k = Some i"
    using p assms(2) links_ok_D(5) [OF assms(1), of k] by (simp add: parse_file_name_def Let_def)
  note f = first_name [OF assms(1) k]
  let ?names = "filter (\<lambda>(n, _). n \<noteq> k) names"
  note w = links_of_without [OF links_ok_D(1) [OF assms(1)] k]
  have "links_of i names \<noteq> 1"
    using links_of_one [OF links_ok_D(1) [OF assms(1)] k] f(3) assms(3) by blast
  then show "1 < links_of i names" using w [of i] by simp
  have target: "q \<noteq> k" if "path_map s l = Some q" for l q
    using links_ok_D(3) [OF assms(1) that] assms(2,3) by auto
  let ?s = "s\<lparr>path_map := (path_map s)(k := None), count_map := (count_map s)(i \<mapsto> links_of i names - 1)\<rparr>"
  show "links_ok st ?s ?names"
  proof (rule links_okI)
    show "distinct (map fst ?names)" using links_ok_D(1) [OF assms(1)] by (rule distinct_map_filter)
    show "canonical l" if "l \<in> fst ` set ?names" for l using that assms(1) by (auto simp: links_ok_def)
    show "canonical l \<and> canonical q \<and> path_map ?s q = Some q \<and> file_at st q (disc ?s) \<and> (l = q \<or> \<not> file_at st l (disc ?s))"
      if "path_map ?s l = Some q" for l q
    proof -
      have l: "path_map s l = Some q" using that by (auto split: if_splits)
      then show ?thesis using links_ok_D(3) [OF assms(1) l] target [OF l] by auto
    qed
    show "count_map ?s q = (if path_map ?s q = Some q then Some (links_of q ?names) else None)" for q
    proof (cases "q = i")
      case True
      then show ?thesis using w [of i] p assms(3) by simp
    next
      case False
      then show ?thesis using links_ok_D(4) [OF assms(1), of q] w [of q] assms(2) by auto
    qed
    show "map_of ?names l = (let q = parse_file_name (path_map ?s) l in if file_at st q (disc ?s) then Some q else None)"
      if "canonical l" for l
      using links_ok_D(5) [OF assms(1) that] p assms(3) by (cases "l = k") (auto simp: map_of_without parse_file_name_def Let_def)
  qed
qed

lemma unlink_ok:
  assumes "links_ok st s names" and "posix_step (Unlink k) names = Some (r, names')"
  shows "\<exists>s'. link_step st (Unlink k) s = Some (r, s') \<and> links_ok st s' names'"
proof -
  obtain i where i: "map_of names k = Some i" "i \<noteq> k \<or> links_of i names = 1" "r = Done True"
      "names' = filter (\<lambda>(n, _). n \<noteq> k) names"
    using assms(2) by (auto split: option.splits if_splits)
  note f = first_name [OF assms(1) i(1)]
  have k: "canonical k" using assms(1) i(1) by (rule links_ok_D(2))
  have split: "split_path_and_file (fst k) (snd k) = Some k" "parse_file_name (path_map s) k = i"
    using k f(4) by (simp_all add: canonical_def)
  have ex: "check_file_exists st (fst i) (snd i) s"
    using parse_real(3) [OF assms(1) k f(4)] f(2) by simp
  show ?thesis
  proof (cases "i = k")
    case True
    have p: "path_map s k = None \<or> path_map s k = Some k"
      using f(4) True by (auto simp: parse_file_name_def split: option.splits)
    obtain w where w: "erase st k (disc s) = Some w"
       "links_ok st (s\<lparr>path_map := (path_map s)(k := None), count_map := (count_map s)(k := None), disc := w\<rparr>) names'"
      using unlink_only [OF assms(1) _ _ p] i True by auto
    have c: "count_map s k = (if path_map s k = Some k then Some 1 else None)"
      using links_ok_D(4) [OF assms(1), of k] i(2) True by simp
    have "try_remove_link st k s =
        Some (True, s\<lparr>path_map := (path_map s)(k := None), count_map := (count_map s)(k := None), disc := w\<rparr>)"
      using split ex c p w(1) True
      by (cases k) (auto simp: try_remove_link_def remove_file_def Let_def fun_upd_idem)
    then show ?thesis using w(2) i(3) by simp
  next
    case False
    then have p: "path_map s k = Some i" using f(4) by (auto simp: parse_file_name_def split: option.splits)
    note u = unlink_one [OF assms(1) p] False
    have c: "count_map s i = Some (links_of i names)"
      using links_ok_D(3) [OF assms(1) p] links_ok_D(4) [OF assms(1), of i] by simp
    have "try_remove_link st k s =
        Some (True, s\<lparr>path_map := (path_map s)(k := None), count_map := (count_map s)(i \<mapsto> links_of i names - 1)\<rparr>)"
      using split ex c p u(1) False by (cases i) (simp add: try_remove_link_def Let_def)
    then show ?thesis using u(2) False i(3,4) by auto
  qed
qed

lemma step_ok:
  assumes "links_ok st s names" and "posix_step op names = Some (r, names')"
  shows "\<exists>s'. link_step st op s = Some (r, s') \<and> links_ok st s' names'"
proof (cases op)
  case (Link a b)
  then show ?thesis using link_ok [OF assms(1)] assms(2) by blast
next
  case (Unlink k)
  then show ?thesis using unlink_ok [OF assms(1)] assms(2) by blast
next
  case (Count k)
  then show ?thesis using get_link_count_ok [OF assms(1)] assms by (auto split: option.splits)
qed

lemma run_ok:
  assumes "links_ok st s names" and "posix_run ops names = Some (rs, names')"
  shows "\<exists>s'. link_run st ops s = Some (rs, s') \<and> links_ok st s' names'"
  using assms
proof (induction ops arbitrary: s names rs)
  case (Cons op ops)
  then obtain r names1 rs1 where n: "posix_step op names = Some (r, names1)" "posix_run ops names1 = Some (rs1, names')"
      "rs = r # rs1"
    by (auto split: option.splits)
  obtain s1 where s1: "link_step st op s = Some (r, s1)" "links_ok st s1 names1"
    using step_ok [OF Cons.prems(1) n(1)] by blast
  obtain s' where "link_run st ops s1 = Some (rs1, s')" "links_ok st s' names'"
    using Cons.IH [OF s1(2) n(2)] by blast
  then show ?case using s1(1) n(3) by simp
qed simp

end

subsection \<open>The two cases where the calls are wrong\<close>

lemma unlink_first_name:
  assumes "links_ok st s names" and "map_of names i = Some i" and "1 < links_of i names"
  shows "\<exists>s'. try_remove_link st i s = Some (True, s') \<and> check_file_exists st (fst i) (snd i) s' \<and>
    try_remove_link st i s' = None"
proof -
  note f = first_name [OF assms(1,2)]
  have p: "path_map s i = Some i" using f(5) assms(3) by fastforce
  have c: "count_map s i = Some (links_of i names)" using links_ok_D(4) [OF assms(1), of i] p by simp
  have sp: "split_path_and_file (fst i) (snd i) = Some i" using f(1) by (simp add: canonical_def)
  have parse: "parse_file_name m i = i" if "m i = None \<or> m i = Some i" for m :: "file_disc \<rightharpoonup> file_disc"
    using that by (auto simp: parse_file_name_def)
  let ?s = "s\<lparr>path_map := (path_map s)(i := None), count_map := (count_map s)(i \<mapsto> links_of i names - 1)\<rparr>"
  have ex: "check_file_exists st (fst i) (snd i) s" "check_file_exists st (fst i) (snd i) ?s"
    using f(2) parse p by (simp_all add: check_file_exists_def canonical_map [OF f(1)])
  have "try_remove_link st i s = Some (True, ?s)"
    using sp ex(1) p c parse assms(3) by (cases i) (simp add: try_remove_link_def Let_def)
  moreover have "try_remove_link st i ?s = None"
    using sp ex(2) parse by (cases i) (simp add: try_remove_link_def Let_def)
  ultimately show ?thesis using ex(2) by blast
qed

lemma unlink_not_canonical:
  assumes "links_ok st s names" and "split_path_and_file (fst key) (snd key) = Some k" and "key \<noteq> k"
    and "path_map s k = Some i"
  shows "try_remove_link st key s = None"
proof -
  have "\<not> canonical key" using assms(2,3) by (simp add: canonical_def)
  then have "path_map s key = None" using links_ok_D(3) [OF assms(1), of key] by (cases "path_map s key") auto
  moreover have "count_map s i \<noteq> None"
    using links_ok_D(3) [OF assms(1,4)] links_ok_D(4) [OF assms(1), of i] by simp
  moreover have "parse_file_name (path_map s) k = i" using assms(4) by (simp add: parse_file_name_def)
  moreover have "check_file_exists st (fst i) (snd i) s"
    using parse_real(3) [OF assms(1) split_is_canonical [OF assms(2)]] links_ok_D(3) [OF assms(1,4)] calculation(3) by simp
  ultimately show ?thesis using assms(2) by (cases i) (simp add: try_remove_link_def Let_def)
qed

subsection \<open>A disc, and the property\<close>

definition list_store :: "(file_disc list \<times> string list) store" where
  "list_store =
     \<lparr>file_at = \<lambda>k (fs, _). k \<in> set fs,
      dir_at = \<lambda>d (_, ds). d \<in> set ds,
      erase = \<lambda>k (fs, ds).
        if k \<in> set fs then Some (filter (\<lambda>f. f \<noteq> k) fs, ds)
        else if fst k @ snd k @ ''/'' \<in> set ds then Some (fs, filter (\<lambda>d. d \<noteq> fst k @ snd k @ ''/'') ds)
        else None\<rparr>"

interpretation ldisc: file_store list_store
  by unfold_locales (auto simp: list_store_def)

definition no_links :: "'w \<Rightarrow> 'w link_state" where
  "no_links w = \<lparr>path_map = Map.empty, count_map = Map.empty, disc = w\<rparr>"

definition own_names :: "file_disc list \<Rightarrow> names" where
  "own_names fs = map (\<lambda>k. (k, k)) fs"

lemma no_links_ok:
  assumes "distinct fs" and "\<And>k. k \<in> set fs \<Longrightarrow> canonical k" and "\<And>k. file_at st k w \<longleftrightarrow> k \<in> set fs"
  shows "links_ok st (no_links w) (own_names fs)"
proof (rule links_okI)
  show "distinct (map fst (own_names fs))" using assms(1) by (simp add: own_names_def comp_def)
  show "canonical k" if "k \<in> fst ` set (own_names fs)" for k
    using that assms(2) by (auto simp: own_names_def)
  have "map_of (map (\<lambda>k. (k, k)) fs) k = (if k \<in> set fs then Some k else None)" for k
    by (induction fs) auto
  then show "map_of (own_names fs) k =
      (let r = parse_file_name (path_map (no_links w)) k in if file_at st r (disc (no_links w)) then Some r else None)" for k
    using assms(3) by (simp add: own_names_def no_links_def parse_file_name_def)
qed (simp_all add: no_links_def)



end
