(* ===== verification/KernelOpen.thy ===== *)
theory KernelOpen
  imports KernelLink KernelPosix
begin

text \<open>
  The calls of kernel/src/syscall/fs.rs that name a file: \<open>getcwd\<close>, \<open>chdir\<close> and \<open>open\<close>, with the resolution of a path
  from a directory descriptor.  The fields of a task are behind spin locks that are not reentrant: a task that takes a
  lock it holds waits for itself for ever.  What the file system does to open a file is an argument; whether the page
  of a user pointer can be mapped is \<open>page_ok\<close>.
\<close>

subsection \<open>The code\<close>

definition AT_FDCWD :: int where
  "AT_FDCWD = -100"

datatype klock = Inner | Fd_manager | Vm

definition take_lock :: "klock \<Rightarrow> klock list \<Rightarrow> klock list option" where
  "take_lock l held = (if l \<in> set held then None else Some (l # held))"

record ('f, 'w) process =
  cwd :: string
  fds :: "'f fd_manager"
  links :: "'w link_state"

definition sys_getcwd :: "bool \<Rightarrow> nat \<Rightarrow> ('f, 'w) process \<Rightarrow> string sysret" where
  "sys_getcwd page_ok len p =
     (if \<not> page_ok then Inl EFAULT
      else if length (cwd p) - 1 + 1 \<le> len then Inr (tl (cwd p) @ [NUL])
      else Inl ERANGE)"

definition sys_chdir :: "'w store \<Rightarrow> bool \<Rightarrow> string \<Rightarrow> ('f, 'w) process \<Rightarrow> answer sysret \<times> ('f, 'w) process" where
  "sys_chdir st page_ok file_path p =
     (if \<not> page_ok then (Inl EINVAL, p)
      else
        let (new_path, p) =
          (if starts_with file_path ''/'' then (''.'' @ file_path, p)
           else
             let current_path = (if \<not> ends_with (cwd p) ''/'' then cwd p @ ''/'' else cwd p)
             in (current_path @ file_path, p\<lparr>cwd := current_path\<rparr>))
        in if check_dir_exists st new_path (links p) then (Inr Zero, p\<lparr>cwd := new_path\<rparr>) else (Inl EINVAL, p))"

text \<open>\<open>get_dir\<close> is the path of a file that is a directory.  \<open>None\<close> is a task that waits for itself.\<close>

definition get_dir_from_fd ::
    "('f \<Rightarrow> string option) \<Rightarrow> klock list \<Rightarrow> int \<Rightarrow> ('f, 'w) process \<Rightarrow> string option option" where
  "get_dir_from_fd get_dir held dir_fd p =
     (if dir_fd = AT_FDCWD then
        (case take_lock Inner held of None \<Rightarrow> None | Some _ \<Rightarrow> Some (Some (cwd p)))
      else
        case take_lock Fd_manager held of
          None \<Rightarrow> None
        | Some _ \<Rightarrow>
            (case get_file (size_t dir_fd) (fds p) of
               Inl _ \<Rightarrow> Some None
             | Inr f \<Rightarrow> Some (get_dir f)))"

definition resolve_path_from_fd ::
    "('f \<Rightarrow> string option) \<Rightarrow> klock list \<Rightarrow> int \<Rightarrow> string \<Rightarrow> ('f, 'w) process \<Rightarrow> (string \<times> string) option option" where
  "resolve_path_from_fd get_dir held dir_fd file_path p =
     (if starts_with file_path ''/'' then
        Some (Some (''./'', if 1 < length file_path then drop 1 file_path else file_path))
      else
        case get_dir_from_fd get_dir held dir_fd p of
          None \<Rightarrow> None
        | Some None \<Rightarrow> Some None
        | Some (Some dir) \<Rightarrow> Some (Some (dir, file_path)))"

definition OPEN_FLAGS :: u32 where
  "OPEN_FLAGS = 2 ^ 0 OR 2 ^ 1 OR 2 ^ 6 OR 2 ^ 7 OR 2 ^ 8 OR 2 ^ 9 OR 2 ^ 11 OR 2 ^ 14 OR 2 ^ 15 OR 2 ^ 16 OR 2 ^ 17
     OR 2 ^ 19 OR 2 ^ 21"

definition O_EXCL :: u32 where
  "O_EXCL = 2 ^ 9"

definition flags_known :: "u32 \<Rightarrow> bool" where
  "flags_known flags \<longleftrightarrow> flags AND NOT OPEN_FLAGS = 0"

type_synonym ('f, 'w) open_fn = "file_disc \<Rightarrow> u32 \<Rightarrow> 'w \<Rightarrow> 'f option \<times> 'w"

definition open_file ::
    "('f, 'w) open_fn \<Rightarrow> string \<Rightarrow> string \<Rightarrow> u32 \<Rightarrow> ('f, 'w) process \<Rightarrow> 'f option \<times> ('f, 'w) process" where
  "open_file fs dir_name file_path flags p =
     (case map_path_and_file (path_map (links p)) dir_name file_path of
        None \<Rightarrow> (None, p)
      | Some real \<Rightarrow>
          (case fs real flags (disc (links p)) of (node, w) \<Rightarrow> (node, p\<lparr>links := (links p)\<lparr>disc := w\<rparr>\<rparr>)))"

definition open_path :: "string \<Rightarrow> string" where
  "open_path file_path =
     (if file_path = ''.'' then file_path @ ''/''
      else if starts_with file_path ''.//'' then take 1 file_path @ drop 2 file_path
      else file_path)"

definition sys_open ::
    "'w store \<Rightarrow> ('f, 'w) open_fn \<Rightarrow> ('f \<Rightarrow> string option) \<Rightarrow> bool \<Rightarrow> int \<Rightarrow> string \<Rightarrow> u32 \<Rightarrow> ('f, 'w) process \<Rightarrow>
     (nat sysret \<times> ('f, 'w) process) outcome" where
  "sys_open st fs get_dir page_ok dir_fd path flags p =
     (case is_full (fds p) of
        None \<Rightarrow> Panics
      | Some (full, m) \<Rightarrow>
          let p = p\<lparr>fds := m\<rparr>
          in if full then Returns (Inl EMFILE, p)
             else if \<not> page_ok then Returns (Inl EINVAL, p)
             else
               case resolve_path_from_fd get_dir [Vm, Fd_manager] dir_fd path p of
                 None \<Rightarrow> Hangs
               | Some None \<Rightarrow> Returns (Inl ENOENT, p)
               | Some (Some (parent_dir, file_path)) \<Rightarrow>
                   let file_path = open_path file_path
                   in if \<not> flags_known flags then Returns (Inl ENOENT, p)
                      else
                        case open_file fs parent_dir file_path flags p of
                          (Some node, p) \<Rightarrow>
                            (case push node (fds p) of
                               None \<Rightarrow> Panics
                             | Some (Inr fd, m) \<Rightarrow> Returns (Inr fd, p\<lparr>fds := m\<rparr>)
                             | Some (Inl _, m) \<Rightarrow> Returns (Inl ENOENT, p\<lparr>fds := m\<rparr>))
                        | (None, p) \<Rightarrow>
                            if flags AND O_EXCL \<noteq> 0 then Returns (Inl EEXIST, p)
                            else if check_dir_exists st (parent_dir @ file_path) (links p) then Returns (Inl EISDIR, p)
                            else Returns (Inl ENOENT, p))"

subsection \<open>Lemmas\<close>

lemma is_full_table:
  assumes "table_ok m"
  shows "\<exists>m'. is_full m = Some (least_unused (table_map m) = None, m') \<and> table_ok m' \<and> table_map m' = table_map m"
proof -
  have ok: "bitalloc_ok (fd_allocator m)" "fd_limit m = 256"
    "\<forall>k. free_at (fd_allocator m) k \<longleftrightarrow> k < 256 \<and> \<not> is_open m k"
    using assms by (auto simp: table_ok_def fd_ok_def FD_LIMIT_ORIGIN_def)
  have same: "table_ok (m\<lparr>fd_allocator := a\<rparr>) \<and> table_map (m\<lparr>fd_allocator := a\<rparr>) = table_map m"
    if "bitalloc_ok a" "\<forall>k. free_at a k \<longleftrightarrow> free_at (fd_allocator m) k" for a
    using that assms by (auto simp: table_ok_def fd_ok_def is_open_def table_map_def [abs_def] get_file_def)
  show ?thesis
  proof (cases "least_unused (table_map m) = None")
    case True
    then have "\<forall>k. \<not> free_at (fd_allocator m) k" using ok(3) by (auto simp: least_unused_None table_map_None)
    then have "bitalloc_alloc (fd_allocator m) = Some (None, fd_allocator m)"
      using ok(1) by (intro bitalloc_alloc_full) auto
    then show ?thesis using True assms by (simp add: is_full_def)
  next
    case False
    then obtain k where "free_at (fd_allocator m) k"
      using ok(3) by (auto simp: least_unused_Some table_map_None)
    then obtain fd a where a: "bitalloc_alloc (fd_allocator m) = Some (Some fd, a)" "bitalloc_ok a"
        "free_at (fd_allocator m) fd" "\<forall>j. free_at a j \<longleftrightarrow> free_at (fd_allocator m) j \<and> j \<noteq> fd"
      using bitalloc_alloc_least [OF ok(1), of k] by auto
    obtain b where b: "bitalloc_dealloc fd a = Some b" "bitalloc_ok b" "\<forall>j. free_at b j \<longleftrightarrow> free_at a j \<or> j = fd"
      using bitalloc_dealloc_spec [OF a(2), of fd] a(3,4) ok(3) by auto
    have "table_ok (m\<lparr>fd_allocator := b\<rparr>) \<and> table_map (m\<lparr>fd_allocator := b\<rparr>) = table_map m"
      using same [of b] a(3,4) b(2,3) by blast
    then show ?thesis using False a(1) b(1) by (simp add: is_full_def)
  qed
qed

text \<open>The call hangs in one case, and else puts what was opened at the least unused number.\<close>

definition relative_to_fd :: "int \<Rightarrow> string \<Rightarrow> bool" where
  "relative_to_fd dir_fd path \<longleftrightarrow> \<not> starts_with path ''/'' \<and> dir_fd \<noteq> AT_FDCWD"

definition parent_of :: "string \<Rightarrow> ('f, 'w) process \<Rightarrow> string" where
  "parent_of path p = (if starts_with path ''/'' then ''./'' else cwd p)"

definition rest_of :: "string \<Rightarrow> string" where
  "rest_of path = (if starts_with path ''/'' \<and> 1 < length path then drop 1 path else path)"

lemma resolve_from_fd:
  "resolve_path_from_fd get_dir [Vm, Fd_manager] dir_fd path p =
     (if relative_to_fd dir_fd path then None else Some (Some (parent_of path p, rest_of path)))"
  by (simp add: resolve_path_from_fd_def get_dir_from_fd_def take_lock_def relative_to_fd_def parent_of_def rest_of_def)

definition opened :: "('f, 'w) open_fn \<Rightarrow> string \<Rightarrow> u32 \<Rightarrow> ('f, 'w) process \<Rightarrow> 'f option" where
  "opened fs path flags p =
     (if flags_known flags then fst (open_file fs (parent_of path p) (open_path (rest_of path)) flags p) else None)"

lemma open_file_fds: "open_file fs d q flags (p\<lparr>fds := m\<rparr>) = map_prod id (\<lambda>r. r\<lparr>fds := m\<rparr>) (open_file fs d q flags p)"
  by (auto simp: open_file_def split: option.split prod.split)

lemma open_file_keeps: "open_file fs d q flags p = (node, p') \<Longrightarrow> fds p' = fds p \<and> cwd p' = cwd p"
  by (auto simp: open_file_def split: option.splits prod.splits)

lemma sys_open_verdict:
  assumes "table_ok (fds p)"
  shows "(least_unused (table_map (fds p)) = None \<longrightarrow>
      (\<exists>p'. sys_open st fs get_dir page_ok dir_fd path flags p = Returns (Inl EMFILE, p') \<and>
        table_ok (fds p') \<and> table_map (fds p') = table_map (fds p)))
    \<and> (\<forall>k. least_unused (table_map (fds p)) = Some k \<and> page_ok \<longrightarrow>
      (if relative_to_fd dir_fd path then sys_open st fs get_dir page_ok dir_fd path flags p = Hangs
       else \<exists>r p'. sys_open st fs get_dir page_ok dir_fd path flags p = Returns (r, p') \<and> table_ok (fds p') \<and> cwd p' = cwd p \<and>
         (case opened fs path flags p of
            Some f \<Rightarrow> r = Inr k \<and> table_map (fds p') = (table_map (fds p))(k \<mapsto> f)
          | None \<Rightarrow> r \<in> {Inl ENOENT, Inl EEXIST, Inl EISDIR} \<and> table_map (fds p') = table_map (fds p))))"
proof -
  obtain m where m: "is_full (fds p) = Some (least_unused (table_map (fds p)) = None, m)" "table_ok m"
      "table_map m = table_map (fds p)"
    using is_full_table [OF assms] by blast
  have "\<exists>p'. sys_open st fs get_dir page_ok dir_fd path flags p = Returns (Inl EMFILE, p') \<and>
        table_ok (fds p') \<and> table_map (fds p') = table_map (fds p)" if "least_unused (table_map (fds p)) = None"
    using m that by (simp add: sys_open_def)
  moreover have "if relative_to_fd dir_fd path then sys_open st fs get_dir page_ok dir_fd path flags p = Hangs
       else \<exists>r p'. sys_open st fs get_dir page_ok dir_fd path flags p = Returns (r, p') \<and> table_ok (fds p') \<and> cwd p' = cwd p \<and>
         (case opened fs path flags p of
            Some f \<Rightarrow> r = Inr k \<and> table_map (fds p') = (table_map (fds p))(k \<mapsto> f)
          | None \<Rightarrow> r \<in> {Inl ENOENT, Inl EEXIST, Inl EISDIR} \<and> table_map (fds p') = table_map (fds p))"
    if k: "least_unused (table_map (fds p)) = Some k" and page_ok for k
  proof (cases "relative_to_fd dir_fd path")
    case True
    then show ?thesis using m(1) k \<open>page_ok\<close> by (simp add: sys_open_def resolve_from_fd)
  next
    case False
    let ?parent = "parent_of path p" and ?rest = "open_path (rest_of path)"
    obtain node q where q: "open_file fs ?parent ?rest flags p = (node, q)" by fastforce
    have opened: "opened fs path flags p = (if flags_known flags then node else None)"
      using q by (simp add: opened_def)
    have keep: "cwd q = cwd p" using open_file_keeps [OF q] by simp
    have q': "open_file fs ?parent ?rest flags (p\<lparr>fds := m\<rparr>) = (node, q\<lparr>fds := m\<rparr>)"
      using q by (simp add: open_file_fds)
    have resolve: "resolve_path_from_fd get_dir [Vm, Fd_manager] dir_fd path (p\<lparr>fds := m\<rparr>) = Some (Some (?parent, rest_of path))"
      using False by (simp add: resolve_from_fd parent_of_def)
    have run: "sys_open st fs get_dir page_ok dir_fd path flags p =
       (if \<not> flags_known flags then Returns (Inl ENOENT, p\<lparr>fds := m\<rparr>)
        else case node of
          Some node \<Rightarrow>
            (case push node m of
               None \<Rightarrow> Panics
             | Some (Inr fd, m) \<Rightarrow> Returns (Inr fd, q\<lparr>fds := m\<rparr>)
             | Some (Inl _, m) \<Rightarrow> Returns (Inl ENOENT, q\<lparr>fds := m\<rparr>))
        | None \<Rightarrow>
            if flags AND O_EXCL \<noteq> 0 then Returns (Inl EEXIST, q\<lparr>fds := m\<rparr>)
            else if check_dir_exists st (?parent @ ?rest) (links q) then Returns (Inl EISDIR, q\<lparr>fds := m\<rparr>)
            else Returns (Inl ENOENT, q\<lparr>fds := m\<rparr>))"
      using m(1) k \<open>page_ok\<close> by (simp add: sys_open_def resolve q' split: option.split sum.split)
    show ?thesis
    proof (cases "opened fs path flags p")
      case None
      then show ?thesis using False run opened m(2,3) keep by (auto split: if_splits)
    next
      case (Some f)
      obtain m' where m': "push f m = Some (Inr k, m')" "table_ok m'" "table_map m' = (table_map m)(k \<mapsto> f)"
        using push_table [OF m(2), of k f] m(3) k by auto
      then show ?thesis using False run opened m(3) keep Some by (auto split: if_splits)
    qed
  qed
  ultimately show ?thesis by blast
qed

lemma append_unknown: "flags AND 2 ^ 10 \<noteq> 0 \<Longrightarrow> \<not> flags_known flags"
proof
  assume a: "flags AND 2 ^ 10 \<noteq> 0" and "flags_known flags"
  then have "\<not> bit (flags AND NOT OPEN_FLAGS) 10" by (simp add: flags_known_def)
  moreover have "bit flags 10" using a unfolding and_exp_eq_0_iff_not_bit by simp
  moreover have "\<not> bit OPEN_FLAGS 10" by (simp add: OPEN_FLAGS_def)
  ultimately show False by (simp add: bit_and_iff bit_not_iff)
qed

lemma chdir_getcwd:
  assumes "starts_with dir ''/''" and "check_dir_exists st (''.'' @ dir) (links p)"
  shows "sys_chdir st True dir p = (Inr Zero, p\<lparr>cwd := ''.'' @ dir\<rparr>)"
    "sys_getcwd True len (p\<lparr>cwd := ''.'' @ dir\<rparr>) = (if length dir < len then Inr (dir @ [NUL]) else Inl ERANGE)"
  using assms by (simp_all add: sys_chdir_def sys_getcwd_def Suc_le_eq)



end
