(* ===== verification/KernelIo.thy ===== *)
theory KernelIo
  imports KernelPipe KernelFd
begin

text \<open>
  Reading and writing through descriptors, as kernel/src/syscall/fs.rs does it over the trait \<open>File\<close>: \<open>read\<close>, \<open>write\<close>,
  \<open>readv\<close>, \<open>writev\<close>, \<open>pread\<close>, \<open>lseek\<close> and \<open>sendfile\<close>.  A descriptor leads to an open file, which other descriptors may
  lead to as well, and the file has one position.  The files are an interface, a locale below, kept by the in-memory
  files of theory KernelFile.  The outer \<open>None\<close> of a result is a panic.
\<close>

subsection \<open>The trait and the calls\<close>

record ('i, 's) file_ops =
  file_read :: "'i \<Rightarrow> nat \<Rightarrow> 's \<Rightarrow> (u8 list option \<times> 's) option"
  file_write :: "'i \<Rightarrow> u8 list \<Rightarrow> 's \<Rightarrow> (nat option \<times> 's) option"
  file_seek :: "'i \<Rightarrow> seek_from \<Rightarrow> 's \<Rightarrow> nat option \<times> 's"

definition sys_read :: "('i, 's) file_ops \<Rightarrow> nat \<Rightarrow> nat user \<Rightarrow> 'i fd_manager \<Rightarrow> 's \<Rightarrow> (u8 list sysret \<times> 's) option" where
  "sys_read ops fd buf m s =
     (case buf of
        Mapped len \<Rightarrow>
          (case get_file fd m of
             Inl _ \<Rightarrow> Some (Inl EINVAL, s)
           | Inr f \<Rightarrow>
               (case file_read ops f len s of
                  None \<Rightarrow> None
                | Some (Some bs, s) \<Rightarrow> Some (Inr bs, s)
                | Some (None, s) \<Rightarrow> Some (Inl EINVAL, s)))
      | _ \<Rightarrow> Some (Inl EFAULT, s))"

definition sys_write :: "('i, 's) file_ops \<Rightarrow> nat \<Rightarrow> u8 list user \<Rightarrow> 'i fd_manager \<Rightarrow> 's \<Rightarrow> (nat sysret \<times> 's) option" where
  "sys_write ops fd buf m s =
     (case buf of
        Mapped bs \<Rightarrow>
          (case get_file fd m of
             Inl _ \<Rightarrow> Some (Inl EINVAL, s)
           | Inr f \<Rightarrow>
               (case file_write ops f bs s of
                  None \<Rightarrow> None
                | Some (Some n, s) \<Rightarrow> Some (Inr n, s)
                | Some (None, s) \<Rightarrow> Some (Inl EINVAL, s)))
      | _ \<Rightarrow> Some (Inl EFAULT, s))"

text \<open>The buffers of \<open>readv\<close> are given by their lengths; what is read comes back in pieces, and their total length is
  the result of the call.  A null pointer among the buffers of \<open>writev\<close> is passed over.\<close>

fun sys_readv :: "('i, 's) file_ops \<Rightarrow> nat \<Rightarrow> nat user list \<Rightarrow> 'i fd_manager \<Rightarrow> 's \<Rightarrow> (u8 list list \<times> 's) option" where
  "sys_readv ops fd [] m s = Some ([], s)"
| "sys_readv ops fd (buf # bufs) m s =
     (case sys_read ops fd buf m s of
        None \<Rightarrow> None
      | Some (Inr bs, s) \<Rightarrow> map_option (\<lambda>(bss, s). (bs # bss, s)) (sys_readv ops fd bufs m s)
      | Some (Inl _, s) \<Rightarrow> Some ([], s))"

fun sys_writev :: "('i, 's) file_ops \<Rightarrow> nat \<Rightarrow> u8 list user list \<Rightarrow> 'i fd_manager \<Rightarrow> 's \<Rightarrow> (nat \<times> 's) option" where
  "sys_writev ops fd [] m s = Some (0, s)"
| "sys_writev ops fd (buf # bufs) m s =
     (if buf = Null then sys_writev ops fd bufs m s
      else
        case sys_write ops fd buf m s of
          None \<Rightarrow> None
        | Some (Inr len, s) \<Rightarrow> map_option (\<lambda>(n, s). (len + n, s)) (sys_writev ops fd bufs m s)
        | Some (Inl _, s) \<Rightarrow> Some (0, s))"

definition sys_pread ::
    "('i, 's) file_ops \<Rightarrow> nat \<Rightarrow> nat user \<Rightarrow> nat \<Rightarrow> 'i fd_manager \<Rightarrow> 's \<Rightarrow> (u8 list sysret \<times> 's) option" where
  "sys_pread ops fd buf offset m s =
     (case buf of
        Mapped len \<Rightarrow>
          (case get_file fd m of
             Inl _ \<Rightarrow> Some (Inl EINVAL, s)
           | Inr f \<Rightarrow>
               (case file_seek ops f (Start offset) s of
                  (Some pos, s) \<Rightarrow>
                    if pos = offset then
                      (case file_read ops f len s of
                         None \<Rightarrow> None
                       | Some (Some bs, s) \<Rightarrow> Some (Inr bs, s)
                       | Some (None, s) \<Rightarrow> Some (Inl EINVAL, s))
                    else Some (Inl EINVAL, s)
                | (None, s) \<Rightarrow> Some (Inl EINVAL, s)))
      | _ \<Rightarrow> Some (Inl EFAULT, s))"

definition sys_lseek :: "('i, 's) file_ops \<Rightarrow> nat \<Rightarrow> int \<Rightarrow> int \<Rightarrow> 'i fd_manager \<Rightarrow> 's \<Rightarrow> nat sysret \<times> 's" where
  "sys_lseek ops fd offset whence m s =
     (case get_file fd m of
        Inl _ \<Rightarrow> (Inl EBADF, s)
      | Inr f \<Rightarrow>
          if whence \<notin> {0, 1, 2} then (Inl EINVAL, s)
          else
            (case file_seek ops f
                (if whence = 0 then Start (size_t offset) else if whence = 1 then Current offset else End offset) s of
               (Some pos, s) \<Rightarrow> (Inr pos, s)
             | (None, s) \<Rightarrow> (Inl EINVAL, s)))"

definition SENDFILE_BUFFER_SIZE :: nat where
  "SENDFILE_BUFFER_SIZE = 0x2000"

text \<open>\<open>offset\<close> is what its pointer leads to, before and after.\<close>

definition sys_sendfile64 ::
    "('i, 's) file_ops \<Rightarrow> nat \<Rightarrow> nat \<Rightarrow> nat user \<Rightarrow> nat \<Rightarrow> 'i fd_manager \<Rightarrow> 's \<Rightarrow> ((nat sysret \<times> nat user) \<times> 's) option" where
  "sys_sendfile64 ops out_fd in_fd offset len m s =
     (case (get_file out_fd m, get_file in_fd m) of
        (Inr out_file, Inr in_file) \<Rightarrow>
          if offset = Unmapped then Some ((Inl EFAULT, offset), s)
          else
            (case file_seek ops in_file (case offset of Mapped q \<Rightarrow> Start q | _ \<Rightarrow> Current 0) s of
               (r, s) \<Rightarrow>
                 if offset \<noteq> Null \<and> r = None then Some ((Inl ESPIPE, offset), s)
                 else
                   let current_pos = (case r of None \<Rightarrow> 0 | Some pos \<Rightarrow> pos)
                   in case file_read ops in_file (min len SENDFILE_BUFFER_SIZE) s of
                        None \<Rightarrow> None
                      | Some (None, s) \<Rightarrow> Some ((Inl EINVAL, offset), s)
                      | Some (Some buf, s) \<Rightarrow>
                          (case file_write ops out_file buf s of
                             None \<Rightarrow> None
                           | Some (None, s) \<Rightarrow> Some ((Inl EINVAL, offset), s)
                           | Some (Some write_len, s) \<Rightarrow>
                               (case offset of
                                  Mapped q \<Rightarrow>
                                    Some ((Inr write_len, Mapped (q + write_len)),
                                          snd (file_seek ops in_file (Start current_pos) s))
                                | _ \<Rightarrow>
                                    Some ((Inr write_len, offset),
                                          if write_len \<noteq> length buf
                                          then snd (file_seek ops in_file (Current (int write_len - int (length buf))) s)
                                          else s))))
      | _ \<Rightarrow> Some ((Inl EBADF, offset), s))"

definition user_bytes :: "u8 list user list \<Rightarrow> u8 list" where
  "user_bytes bufs = concat (map (\<lambda>b. case b of Mapped bs \<Rightarrow> bs | _ \<Rightarrow> []) bufs)"

subsection \<open>The interface\<close>

text \<open>An open file is a list of bytes with a position, and an operation on it leaves the other files alone.\<close>

locale files =
  fixes ops :: "('i, 's) file_ops" and ok :: "'s \<Rightarrow> bool" and is_file :: "'i \<Rightarrow> 's \<Rightarrow> bool"
    and bytes :: "'i \<Rightarrow> 's \<Rightarrow> u8 list \<times> nat"
  assumes read_law: "ok s \<Longrightarrow> is_file f s \<Longrightarrow> flat_step (Read n) (bytes f s) = Some (Bytes bs, a) \<Longrightarrow>
      \<exists>s'. file_read ops f n s = Some (Some bs, s') \<and> ok s' \<and> bytes f s' = a \<and>
        (\<forall>g. is_file g s' = is_file g s) \<and> (\<forall>g. g \<noteq> f \<longrightarrow> bytes g s' = bytes g s)"
    and write_law: "ok s \<Longrightarrow> is_file f s \<Longrightarrow> flat_step (Write buf) (bytes f s) = Some (Count n, a) \<Longrightarrow>
      \<exists>s'. file_write ops f buf s = Some (Some n, s') \<and> ok s' \<and> bytes f s' = a \<and>
        (\<forall>g. is_file g s' = is_file g s) \<and> (\<forall>g. g \<noteq> f \<longrightarrow> bytes g s' = bytes g s)"
    and seek_law: "ok s \<Longrightarrow> is_file f s \<Longrightarrow> flat_step (Seek whence) (bytes f s) = Some (Position r, a) \<Longrightarrow>
      \<exists>s'. file_seek ops f whence s = (r, s') \<and> ok s' \<and> bytes f s' = a \<and>
        (\<forall>g. is_file g s' = is_file g s) \<and> (\<forall>g. g \<noteq> f \<longrightarrow> bytes g s' = bytes g s)"
begin

lemma read_bytes:
  assumes "ok s" and "is_file f s" and "bytes f s = (d, p)" and "p \<le> length d"
  shows "\<exists>s'. file_read ops f n s = Some (Some (take n (drop p d)), s') \<and> ok s' \<and>
    bytes f s' = (d, p + min n (length d - p)) \<and>
    (\<forall>g. is_file g s' = is_file g s) \<and> (\<forall>g. g \<noteq> f \<longrightarrow> bytes g s' = bytes g s)"
  using read_law [OF assms(1,2), of n "take n (drop p d)"] assms(3,4) by (simp add: flat_read_def min.commute)

lemma write_bytes:
  assumes "ok s" and "is_file f s" and "bytes f s = (d, p)" and "p \<le> length d" and "p + length buf < 2 ^ 63"
  shows "\<exists>s'. file_write ops f buf s = Some (Some (length buf), s') \<and> ok s' \<and>
    bytes f s' = (take p d @ buf @ drop (p + length buf) d, p + length buf) \<and>
    (\<forall>g. is_file g s' = is_file g s) \<and> (\<forall>g. g \<noteq> f \<longrightarrow> bytes g s' = bytes g s)"
  using write_law [OF assms(1,2), of buf "length buf"] assms(3-5) by (simp add: flat_write_def)

lemma seek_start:
  assumes "ok s" and "is_file f s" and "bytes f s = (d, p)" and "q < 2 ^ 63"
  shows "\<exists>s'. file_seek ops f (Start q) s = (Some q, s') \<and> ok s' \<and> bytes f s' = (d, q) \<and>
    (\<forall>g. is_file g s' = is_file g s) \<and> (\<forall>g. g \<noteq> f \<longrightarrow> bytes g s' = bytes g s)"
  using seek_law [OF assms(1,2), of "Start q" "Some q"] assms(3,4) by simp

lemma seek_current:
  assumes "ok s" and "is_file f s" and "bytes f s = (d, p)" and "p < 2 ^ 63" and "0 \<le> int p + n" and "n \<le> 0"
  shows "\<exists>s'. file_seek ops f (Current n) s = (Some (nat (int p + n)), s') \<and> ok s' \<and> bytes f s' = (d, nat (int p + n)) \<and>
    (\<forall>g. is_file g s' = is_file g s) \<and> (\<forall>g. g \<noteq> f \<longrightarrow> bytes g s' = bytes g s)"
proof -
  have "- (2 ^ 63) \<le> n" "n < 2 ^ 63" "int p + n < 2 ^ 63" using assms(4-6) by simp_all
  then show ?thesis
    using seek_law [OF assms(1,2), of "Current n" "Some (nat (int p + n))"] assms(3,5) by (simp add: flat_move_def)
qed

text \<open>Several buffers are one: \<open>writev\<close> writes the concatenation, and \<open>readv\<close> reads what one buffer as long as all of
  them would hold.\<close>

lemma writev_concat:
  assumes "ok s" and "is_file f s" and "get_file fd m = Inr f" and "bytes f s = (d, p)" and "p \<le> length d"
    and "p + length (user_bytes bufs) < 2 ^ 63" and "Unmapped \<notin> set bufs"
  shows "\<exists>s'. sys_writev ops fd bufs m s = Some (length (user_bytes bufs), s') \<and> ok s' \<and>
    is_file f s' \<and>
    bytes f s' = (take p d @ user_bytes bufs @ drop (p + length (user_bytes bufs)) d,
      p + length (user_bytes bufs))"
  using assms
proof (induction bufs arbitrary: s d p)
  case (Cons b bufs)
  show ?case
  proof (cases b)
    case Null
    then show ?thesis using Cons.IH [OF Cons.prems(1-5)] Cons.prems(6,7) by (simp add: user_bytes_def)
  next
    case Unmapped
    then show ?thesis using Cons.prems(7) by simp
  next
    case (Mapped buf)
    then have Some: "user_bytes (b # bufs) = buf @ user_bytes bufs" by (simp add: user_bytes_def)
    let ?rest = "user_bytes bufs"
    let ?d = "take p d @ buf @ drop (p + length buf) d"
    obtain s1 where s1: "file_write ops f buf s = Some (Some (length buf), s1)" "ok s1" "bytes f s1 = (?d, p + length buf)"
        "is_file f s1"
      using write_bytes [OF Cons.prems(1,2,4,5), of buf] Cons.prems(2,6) Some by auto
    obtain s' where s': "sys_writev ops fd bufs m s1 = Some (length ?rest, s')" "ok s'" "is_file f s'"
        "bytes f s' = (take (p + length buf) ?d @ ?rest @ drop (p + length buf + length ?rest) ?d, p + length buf + length ?rest)"
      using Cons.IH [OF s1(2,4) Cons.prems(3) s1(3)] Cons.prems(5-7) Some by auto
    have "take (p + length buf) ?d = take p d @ buf" using Cons.prems(5) by simp
    moreover have "drop (p + length buf + length ?rest) ?d = drop (p + length buf + length ?rest) d"
      using Cons.prems(5) by (simp add: add.commute add.left_commute)
    ultimately show ?thesis
      using s1(1) s' Cons.prems(3) Some Mapped by (simp add: sys_write_def add.assoc)
  qed
qed (simp add: user_bytes_def)

lemma readv_concat:
  assumes "ok s" and "is_file f s" and "get_file fd m = Inr f" and "bytes f s = (d, p)" and "p \<le> length d"
  shows "\<exists>bss s'. sys_readv ops fd (map Mapped lens) m s = Some (bss, s') \<and> concat bss = take (sum_list lens) (drop p d) \<and> ok s' \<and>
    bytes f s' = (d, p + min (sum_list lens) (length d - p))"
  using assms
proof (induction lens arbitrary: s p)
  case (Cons n lens)
  obtain s1 where s1: "file_read ops f n s = Some (Some (take n (drop p d)), s1)" "ok s1" "is_file f s1"
      "bytes f s1 = (d, p + min n (length d - p))"
    using read_bytes [OF Cons.prems(1,2,4,5), of n] Cons.prems(2) by auto
  have "p + min n (length d - p) \<le> length d" using Cons.prems(5) by simp
  from Cons.IH [OF s1(2,3) Cons.prems(3) s1(4) this] obtain bss s' where
    s': "sys_readv ops fd (map Mapped lens) m s1 = Some (bss, s')" "ok s'"
      "concat bss = take (sum_list lens) (drop (p + min n (length d - p)) d)"
      "bytes f s' = (d, p + min n (length d - p) + min (sum_list lens) (length d - (p + min n (length d - p))))"
    by blast
  have "take n (drop p d) @ take (sum_list lens) (drop (p + min n (length d - p)) d) = take (n + sum_list lens) (drop p d)"
    by (cases "n \<le> length d - p") (simp_all add: take_add add.commute min_def)
  moreover have "p + min n (length d - p) + min (sum_list lens) (length d - (p + min n (length d - p))) =
      p + min (n + sum_list lens) (length d - p)"
    by simp
  ultimately show ?case using s1(1) s' Cons.prems(3) by (simp add: sys_read_def)
qed auto

lemma pread_moves:
  assumes "ok s" and "is_file f s" and "get_file fd m = Inr f" and "bytes f s = (d, p)" and "q \<le> length d" and "q < 2 ^ 63"
  shows "\<exists>s'. sys_pread ops fd (Mapped n) q m s = Some (Inr (take n (drop q d)), s') \<and> ok s' \<and>
    bytes f s' = (d, q + min n (length d - q))"
proof -
  obtain s1 where s1: "file_seek ops f (Start q) s = (Some q, s1)" "ok s1" "bytes f s1 = (d, q)" "is_file f s1"
    using seek_start [OF assms(1,2,4,6)] assms(2) by auto
  from read_bytes [OF s1(2,4,3) assms(5), of n] show ?thesis
    using s1(1) assms(3) by (auto simp: sys_pread_def)
qed

lemma write_rewind_read:
  assumes "ok s" and "is_file f s" and "get_file a m = Inr f" and "get_file b m = Inr f"
    and "bytes f s = (d, p)" and "p \<le> length d" and "p + length buf < 2 ^ 63"
  shows "\<exists>s1 s2 s3. sys_write ops a (Mapped buf) m s = Some (Inr (length buf), s1) \<and>
    sys_lseek ops b (- int (length buf)) 1 m s1 = (Inr p, s2) \<and> sys_read ops b (Mapped (length buf)) m s2 = Some (Inr buf, s3)"
proof -
  let ?d = "take p d @ buf @ drop (p + length buf) d"
  obtain s1 where s1: "file_write ops f buf s = Some (Some (length buf), s1)" "ok s1" "is_file f s1"
      "bytes f s1 = (?d, p + length buf)"
    using write_bytes [OF assms(1,2,5-7)] assms(2) by auto
  obtain s2 where s2: "file_seek ops f (Current (- int (length buf))) s1 = (Some p, s2)" "ok s2" "is_file f s2"
      "bytes f s2 = (?d, p)"
    using seek_current [OF s1(2-4), of "- int (length buf)"] s1(3) assms(7) by auto
  have "take (length buf) (drop p ?d) = buf" using assms(6) by simp
  moreover have "p \<le> length ?d" using assms(6) by simp
  ultimately obtain s3 where "file_read ops f (length buf) s2 = Some (Some buf, s3)"
    using read_bytes [OF s2(2-4)] by metis
  then show ?thesis
    using s1(1) s2(1) assms(3,4) by (simp add: sys_write_def sys_lseek_def sys_read_def)
qed

lemma sendfile_copies:
  assumes "ok s" and "is_file f s" and "is_file g s" and "f \<noteq> g"
    and "get_file in_fd m = Inr f" and "get_file out_fd m = Inr g"
    and "bytes f s = (d, p)" and "p \<le> length d" and "p < 2 ^ 63" and "bytes g s = (e, q)" and "q \<le> length e"
    and "n = min (min len SENDFILE_BUFFER_SIZE) (length d - p)" and "q + n < 2 ^ 63"
  shows "\<exists>s'. sys_sendfile64 ops out_fd in_fd Null len m s = Some ((Inr n, Null), s') \<and> ok s' \<and>
    bytes f s' = (d, p + n) \<and> bytes g s' = (take q e @ take n (drop p d) @ drop (q + n) e, q + n)"
proof -
  let ?k = "min len SENDFILE_BUFFER_SIZE"
  obtain s1 where s1: "file_seek ops f (Current 0) s = (Some p, s1)" "ok s1" "is_file f s1" "is_file g s1"
      "bytes f s1 = (d, p)" "bytes g s1 = (e, q)"
    using seek_current [OF assms(1,2,7,9), of 0] assms(2-4,10) by auto
  have k: "take ?k (drop p d) = take n (drop p d)" "length (take n (drop p d)) = n" "min ?k (length d - p) = n"
    using assms(12) by (simp_all add: min_def)
  obtain s2 where s2: "file_read ops f ?k s1 = Some (Some (take n (drop p d)), s2)" "ok s2" "is_file g s2"
      "bytes f s2 = (d, p + n)" "bytes g s2 = (e, q)"
    using read_bytes [OF s1(2,3,5) assms(8), of ?k] s1(4,6) assms(4) unfolding k by metis
  obtain s3 where s3: "file_write ops g (take n (drop p d)) s2 = Some (Some n, s3)" "ok s3" "bytes f s3 = (d, p + n)"
      "bytes g s3 = (take q e @ take n (drop p d) @ drop (q + n) e, q + n)"
    using write_bytes [OF s2(2,3,5) assms(11), of "take n (drop p d)"] s2(4) assms(4,13) unfolding k(2) by metis
  show ?thesis
    using s1(1) s2(1) s3 k(2) assms(5,6) by (simp add: sys_sendfile64_def)
qed

lemma sendfile_offset_moves:
  assumes "ok s" and "is_file f s" and "is_file g s" and "f \<noteq> g"
    and "get_file in_fd m = Inr f" and "get_file out_fd m = Inr g"
    and "bytes f s = (d, p)" and "o' \<le> length d" and "o' < 2 ^ 63" and "bytes g s = (e, q)" and "q \<le> length e"
    and "n = min (min len SENDFILE_BUFFER_SIZE) (length d - o')" and "q + n < 2 ^ 63"
  shows "\<exists>s'. sys_sendfile64 ops out_fd in_fd (Mapped o') len m s = Some ((Inr n, Mapped (o' + n)), s') \<and> ok s' \<and>
    bytes f s' = (d, o') \<and> bytes g s' = (take q e @ take n (drop o' d) @ drop (q + n) e, q + n)"
proof -
  let ?k = "min len SENDFILE_BUFFER_SIZE"
  obtain s1 where s1: "file_seek ops f (Start o') s = (Some o', s1)" "ok s1" "is_file f s1" "is_file g s1"
      "bytes f s1 = (d, o')" "bytes g s1 = (e, q)"
    using seek_start [OF assms(1,2,7,9)] assms(2-4,10) by auto
  have k: "take ?k (drop o' d) = take n (drop o' d)" "length (take n (drop o' d)) = n" "min ?k (length d - o') = n"
    using assms(12) by (simp_all add: min_def)
  obtain s2 where s2: "file_read ops f ?k s1 = Some (Some (take n (drop o' d)), s2)" "ok s2" "is_file f s2" "is_file g s2"
      "bytes f s2 = (d, o' + n)" "bytes g s2 = (e, q)"
    using read_bytes [OF s1(2,3,5) assms(8), of ?k] s1(3,4,6) assms(4) unfolding k by metis
  obtain s3 where s3: "file_write ops g (take n (drop o' d)) s2 = Some (Some n, s3)" "ok s3" "is_file f s3"
      "bytes f s3 = (d, o' + n)" "bytes g s3 = (take q e @ take n (drop o' d) @ drop (q + n) e, q + n)"
    using write_bytes [OF s2(2,4,6) assms(11), of "take n (drop o' d)"] s2(3,5) assms(4,13) unfolding k(2) by metis
  obtain s4 where s4: "file_seek ops f (Start o') s3 = (Some o', s4)" "ok s4" "bytes f s4 = (d, o')"
      "bytes g s4 = (take q e @ take n (drop o' d) @ drop (q + n) e, q + n)"
    using seek_start [OF s3(2-4) assms(9)] s3(5) assms(4) by auto
  show ?thesis
    using s1(1) s2(1) s3(1) s4 k(2) assms(5,6) by (simp add: sys_sendfile64_def)
qed

end

subsection \<open>The in-memory files keep the interface\<close>

text \<open>The files of the system, by number, and the frames.\<close>

type_synonym 'w file_table = "virt_file list \<times> 'w"

definition virt_ops :: "('w \<Rightarrow> (u8 list \<times> 'w) option) \<Rightarrow> (nat, 'w file_table) file_ops" where
  "virt_ops alloc =
     \<lparr>file_read = \<lambda>i n (fs, w).
        (case read_inner (replicate n 0) (fs ! i) of
           None \<Rightarrow> None
         | Some (k, buf, f) \<Rightarrow> Some (Some (take k buf), fs[i := f], w)),
      file_write = \<lambda>i buf (fs, w).
        (case write_inner alloc buf (fs ! i) w of
           None \<Rightarrow> None
         | Some ((n, f), w) \<Rightarrow> Some (Some n, fs[i := f], w)),
      file_seek = \<lambda>i whence (fs, w). (case seek whence (fs ! i) of (r, f) \<Rightarrow> (r, fs[i := f], w))\<rparr>"

lemma files_virt:
  assumes "frames_ok alloc" and "\<forall>w. alloc w \<noteq> None"
  shows "files (virt_ops alloc) (\<lambda>s. list_all file_ok (fst s)) (\<lambda>i s. i < length (fst s)) (\<lambda>i s. flat (fst s ! i))"
proof
  fix s :: "'a file_table" and i n bs a
  assume ok: "list_all file_ok (fst s)" "i < length (fst s)"
    and step: "flat_step (Read n) (flat (fst s ! i)) = Some (Bytes bs, a)"
  have f: "file_ok (fst s ! i)" using ok by (simp add: list_all_length)
  obtain f' w' where "file_step alloc (Read n) (fst s ! i, snd s) = Some (Bytes bs, f', w')" "file_ok f'" "flat f' = a"
    using file_step_refines [OF f step assms] by blast
  then show "\<exists>s'. file_read (virt_ops alloc) i n s = Some (Some bs, s') \<and> list_all file_ok (fst s') \<and> flat (fst s' ! i) = a \<and>
      (\<forall>g. (g < length (fst s')) = (g < length (fst s))) \<and> (\<forall>g. g \<noteq> i \<longrightarrow> flat (fst s' ! g) = flat (fst s ! g))"
    using ok by (cases s) (auto simp: virt_ops_def list_all_length nth_list_update split: option.splits)
next
  fix s :: "'a file_table" and i buf n a
  assume ok: "list_all file_ok (fst s)" "i < length (fst s)"
    and step: "flat_step (Write buf) (flat (fst s ! i)) = Some (Count n, a)"
  have f: "file_ok (fst s ! i)" using ok by (simp add: list_all_length)
  obtain f' w' where "file_step alloc (Write buf) (fst s ! i, snd s) = Some (Count n, f', w')" "file_ok f'" "flat f' = a"
    using file_step_refines [OF f step assms] by blast
  then show "\<exists>s'. file_write (virt_ops alloc) i buf s = Some (Some n, s') \<and> list_all file_ok (fst s') \<and> flat (fst s' ! i) = a \<and>
      (\<forall>g. (g < length (fst s')) = (g < length (fst s))) \<and> (\<forall>g. g \<noteq> i \<longrightarrow> flat (fst s' ! g) = flat (fst s ! g))"
    using ok by (cases s) (auto simp: virt_ops_def list_all_length nth_list_update split: option.splits)
next
  fix s :: "'a file_table" and i whence r a
  assume ok: "list_all file_ok (fst s)" "i < length (fst s)"
    and step: "flat_step (Seek whence) (flat (fst s ! i)) = Some (Position r, a)"
  have f: "file_ok (fst s ! i)" using ok by (simp add: list_all_length)
  obtain f' w' where "file_step alloc (Seek whence) (fst s ! i, snd s) = Some (Position r, f', w')" "file_ok f'" "flat f' = a"
    using file_step_refines [OF f step assms] by blast
  then show "\<exists>s'. file_seek (virt_ops alloc) i whence s = (r, s') \<and> list_all file_ok (fst s') \<and> flat (fst s' ! i) = a \<and>
      (\<forall>g. (g < length (fst s')) = (g < length (fst s))) \<and> (\<forall>g. g \<noteq> i \<longrightarrow> flat (fst s' ! g) = flat (fst s ! g))"
    using ok by (cases s) (auto simp: virt_ops_def list_all_length nth_list_update split: prod.splits)
qed

interpretation vfiles: files "virt_ops frame_supply" "\<lambda>s. list_all file_ok (fst s)" "\<lambda>i s. i < length (fst s)"
    "\<lambda>i s. flat (fst s ! i)"
  by (rule files_virt [OF frame_supply_ok])

text \<open>C35: descriptors that lead to the same in-memory file share its bytes and its position.  \<open>writev\<close> writes the
  concatenation of its buffers, passing over null pointers, and \<open>readv\<close> reads what one long buffer would hold; what is
  written through one descriptor is read back through another one after \<open>lseek\<close>; \<open>sendfile\<close> copies at most
  8192 bytes from the position of one file to that of another and moves both.  But \<open>pread\<close> moves the position, which
  POSIX asks it to leave alone, and \<open>sendfile\<close> with an offset does not leave the position of the input file as it was
  either: it is set to the offset.  \<open>readv\<close> of a descriptor that is not open reads nothing and reports no error.\<close>

theorem shared_file_calls:
  assumes "frames_ok alloc" and "\<forall>w. alloc w \<noteq> None"
    and "list_all file_ok fs" and "i < length fs" and "j < length fs" and "i \<noteq> j"
    and "get_file a m = Inr i" and "get_file b m = Inr i" and "get_file c m = Inr j"
    and "flat (fs ! i) = (d, p)" and "flat (fs ! j) = (e, q)" and "p \<le> length d" and "q \<le> length e"
    and "r = user_bytes bufs" and "Unmapped \<notin> set bufs" and "p + length r < 2 ^ 63" and "q + length d < 2 ^ 63"
  shows "(\<exists>s. sys_writev (virt_ops alloc) a bufs m (fs, w) = Some (length r, s) \<and>
      flat (fst s ! i) = (take p d @ r @ drop (p + length r) d, p + length r))
    \<and> (\<exists>bss s. sys_readv (virt_ops alloc) a (map Mapped lens) m (fs, w) = Some (bss, s) \<and>
      concat bss = take (sum_list lens) (drop p d) \<and> flat (fst s ! i) = (d, p + min (sum_list lens) (length d - p)))
    \<and> (\<exists>s1 s2 s3. sys_write (virt_ops alloc) a (Mapped r) m (fs, w) = Some (Inr (length r), s1) \<and>
      sys_lseek (virt_ops alloc) b (- int (length r)) 1 m s1 = (Inr p, s2) \<and>
      sys_read (virt_ops alloc) b (Mapped (length r)) m s2 = Some (Inr r, s3))
    \<and> (n = min (min len SENDFILE_BUFFER_SIZE) (length d - p) \<longrightarrow>
      (\<exists>s. sys_sendfile64 (virt_ops alloc) c a Null len m (fs, w) = Some ((Inr n, Null), s) \<and>
        flat (fst s ! i) = (d, p + n) \<and> flat (fst s ! j) = (take q e @ take n (drop p d) @ drop (q + n) e, q + n)))
    \<and> (k \<le> length d \<longrightarrow>
      (\<exists>s. sys_pread (virt_ops alloc) a (Mapped len) k m (fs, w) = Some (Inr (take len (drop k d)), s) \<and>
        flat (fst s ! i) = (d, k + min len (length d - k))))
    \<and> (k \<le> length d \<and> n = min (min len SENDFILE_BUFFER_SIZE) (length d - k) \<longrightarrow>
      (\<exists>s. sys_sendfile64 (virt_ops alloc) c a (Mapped k) len m (fs, w) = Some ((Inr n, Mapped (k + n)), s) \<and>
        flat (fst s ! i) = (d, k) \<and> flat (fst s ! j) = (take q e @ take n (drop k d) @ drop (q + n) e, q + n)))
    \<and> (\<not> is_open m x \<longrightarrow> sys_readv (virt_ops alloc) x (map Mapped lens) m (fs, w) = Some ([], fs, w))"
proof -
  note V = files_virt [OF assms(1,2)]
  let ?s = "(fs, w)"
  have s: "list_all file_ok (fst ?s)" "i < length (fst ?s)" "j < length (fst ?s)" "flat (fst ?s ! i) = (d, p)"
    "flat (fst ?s ! j) = (e, q)"
    using assms by simp_all
  have "file_ok (fs ! i)" using assms(3,4) by (simp add: list_all_length)
  then have "fpos (fs ! i) < 2 ^ 63" "length (contents (fs ! i)) < 2 ^ 63"
    by (simp_all add: file_ok_def length_contents vf_ok_def)
  then have small: "p < 2 ^ 63" "length d < 2 ^ 63" using assms(10) by (simp_all add: flat_def)
  have n: "q + min (min len SENDFILE_BUFFER_SIZE) (length d - l) < 2 ^ 63" for l using assms(17) by simp
  show ?thesis
  proof (intro conjI impI)
    show "\<exists>s. sys_writev (virt_ops alloc) a bufs m ?s = Some (length r, s) \<and>
        flat (fst s ! i) = (take p d @ r @ drop (p + length r) d, p + length r)"
      using files.writev_concat [OF V s(1,2) assms(7) s(4) assms(12), of bufs] assms(15,16) unfolding assms(14) by blast
    show "\<exists>bss s. sys_readv (virt_ops alloc) a (map Mapped lens) m ?s = Some (bss, s) \<and>
        concat bss = take (sum_list lens) (drop p d) \<and> flat (fst s ! i) = (d, p + min (sum_list lens) (length d - p))"
      using files.readv_concat [OF V s(1,2) assms(7) s(4) assms(12)] by blast
    show "\<exists>s1 s2 s3. sys_write (virt_ops alloc) a (Mapped r) m ?s = Some (Inr (length r), s1) \<and>
        sys_lseek (virt_ops alloc) b (- int (length r)) 1 m s1 = (Inr p, s2) \<and>
        sys_read (virt_ops alloc) b (Mapped (length r)) m s2 = Some (Inr r, s3)"
      by (rule files.write_rewind_read [OF V s(1,2) assms(7,8) s(4) assms(12,16)])
    show "\<exists>s. sys_sendfile64 (virt_ops alloc) c a Null len m ?s = Some ((Inr n, Null), s) \<and>
        flat (fst s ! i) = (d, p + n) \<and> flat (fst s ! j) = (take q e @ take n (drop p d) @ drop (q + n) e, q + n)"
      if "n = min (min len SENDFILE_BUFFER_SIZE) (length d - p)"
      using files.sendfile_copies [OF V s(1-3) assms(6,7,9) s(4) assms(12) small(1) s(5) assms(13) that] n that by blast
    show "\<exists>s. sys_pread (virt_ops alloc) a (Mapped len) k m ?s = Some (Inr (take len (drop k d)), s) \<and>
        flat (fst s ! i) = (d, k + min len (length d - k))" if "k \<le> length d"
      using files.pread_moves [OF V s(1,2) assms(7) s(4) that] small(2) that by (meson le_less_trans)
    show "\<exists>s. sys_sendfile64 (virt_ops alloc) c a (Mapped k) len m ?s = Some ((Inr n, Mapped (k + n)), s) \<and>
        flat (fst s ! i) = (d, k) \<and> flat (fst s ! j) = (take q e @ take n (drop k d) @ drop (q + n) e, q + n)"
      if "k \<le> length d \<and> n = min (min len SENDFILE_BUFFER_SIZE) (length d - k)"
      using files.sendfile_offset_moves [OF V s(1-3) assms(6,7,9) s(4), of k e q n len] s(5) assms(13) small(2) n that
      by (meson le_less_trans)
    show "sys_readv (virt_ops alloc) x (map Mapped lens) m ?s = Some ([], fs, w)" if "\<not> is_open m x"
      using get_file_closed [OF that] by (cases lens) (simp_all add: sys_read_def)
  qed
qed

theorem shared_file_calls_witness:
  "\<exists>m f s. fd_manager_new 18 (0 :: nat) 0 1 = Some m \<and> file_ok f \<and> flat f = ([10, 20, 30], 1) \<and>
     sys_writev (virt_ops frame_supply) 0 [Mapped [40], Null, Mapped [50, 60]] m ([f, virt_file_new], \<lambda>_. []) = Some (3, s) \<and>
     flat (fst s ! 0) = ([10, 40, 50, 60], 4) \<and>
     (\<exists>s. sys_pread (virt_ops frame_supply) 0 (Mapped 2) 0 m ([f, virt_file_new], \<lambda>_. []) = Some (Inr [10, 20], s) \<and>
        flat (fst s ! 0) = ([10, 20, 30], 2)) \<and>
     (\<exists>s. sys_sendfile64 (virt_ops frame_supply) 2 0 (Mapped 0) 2 m ([f, virt_file_new], \<lambda>_. []) = Some ((Inr 2, Mapped 2), s) \<and>
        flat (fst s ! 0) = ([10, 20, 30], 0) \<and> flat (fst s ! 1) = ([10, 20], 2))"
proof -
  obtain m where m: "fd_manager_new 18 (0 :: nat) 0 1 = Some m" "get_file 0 m = Inr 0" "get_file 1 m = Inr 0" "get_file 2 m = Inr 1"
    using fd_manager_new_ok [of 18 0 0 1] by blast
  define f where "f = \<lparr>frames = [[10, 20, 30] @ replicate (PAGE_BYTES - 3) 0], fsize = 3, fpos = 1\<rparr>"
  have f: "file_ok f" "flat f = ([10, 20, 30], 1)"
    by (simp_all add: f_def file_ok_def vf_ok_def flat_def contents_def PAGE_BYTES_def)
  have v: "file_ok virt_file_new" "flat virt_file_new = ([], 0)"
    by (simp_all add: virt_file_new_def file_ok_def vf_ok_def flat_def contents_def)
  have r: "[40, 50, 60] = user_bytes [Mapped [40 :: u8], Null, Mapped [50, 60]]"
    "Unmapped \<notin> set [Mapped [40 :: u8], Null, Mapped [50, 60]]"
    by (simp_all add: user_bytes_def)
  let ?fs = "[f, virt_file_new]"
  have p: "list_all file_ok ?fs" "0 < length ?fs" "1 < length ?fs" "(0 :: nat) \<noteq> 1"
    "flat (?fs ! 0) = ([10, 20, 30], 1)" "flat (?fs ! 1) = ([], 0)" "1 \<le> length [10, 20, 30 :: u8]" "0 \<le> length ([] :: u8 list)"
    "1 + length [40, 50, 60 :: u8] < 2 ^ 63" "0 + length [10, 20, 30 :: u8] < 2 ^ 63"
    using f v by simp_all
  note c = shared_file_calls [OF frame_supply_ok p(1-4) m(2-4) p(5-8) r p(9,10),
      where n = 2 and len = 2 and k = 0 and w = "\<lambda>_. []" and x = 9]
  have l: "length [40, 50, 60 :: u8] = 3" "(1 :: nat) + 3 = 4"
    "take 1 [10, 20, 30] @ [40, 50, 60] @ drop 4 [10, 20, 30] = [10, 40, 50, 60 :: u8]"
    by simp_all
  have "\<exists>s. sys_writev (virt_ops frame_supply) 0 [Mapped [40], Null, Mapped [50, 60]] m (?fs, \<lambda>_. []) = Some (3, s) \<and>
      flat (fst s ! 0) = ([10, 40, 50, 60], 4)"
    using c [THEN conjunct1] unfolding l .
  moreover have "\<exists>s. sys_pread (virt_ops frame_supply) 0 (Mapped 2) 0 m (?fs, \<lambda>_. []) = Some (Inr [10, 20], s) \<and>
      flat (fst s ! 0) = ([10, 20, 30], 2)"
    using c [THEN conjunct2, THEN conjunct2, THEN conjunct2, THEN conjunct2, THEN conjunct1]
    by (simp add: numeral_2_eq_2)
  moreover have "\<exists>s. sys_sendfile64 (virt_ops frame_supply) 2 0 (Mapped 0) 2 m (?fs, \<lambda>_. []) = Some ((Inr 2, Mapped 2), s) \<and>
      flat (fst s ! 0) = ([10, 20, 30], 0) \<and> flat (fst s ! 1) = ([10, 20], 2)"
    using c [THEN conjunct2, THEN conjunct2, THEN conjunct2, THEN conjunct2, THEN conjunct2, THEN conjunct1]
    by (simp add: SENDFILE_BUFFER_SIZE_def numeral_2_eq_2)
  ultimately show ?thesis using m(1) f by blast
qed

end
