(* ===== verification/KernelSignal.thy ===== *)
theory KernelSignal
  imports KernelCall
begin

text \<open>
  Signals of the kernel: the sets of signals (kernel/src/signal/bitset.rs), the handlers and what a thread has received
  (signal/mod.rs, tid2signals.rs), the delivery on the way out of a trap (task/cpu_local.rs, task/task.rs, trap/mod.rs) and
  the system calls of syscall/process.rs.  Machine words are 64 bits wide and wrap, and the distance of a shift is taken
  modulo 64, as in the release build that the Makefile makes.  The user's memory is modelled as far as the kernel writes
  records there, one map for each type.
\<close>

subsection \<open>Sets of signals\<close>

type_synonym bitset = u64

definition contain_bit :: "u64 \<Rightarrow> bitset \<Rightarrow> bool" where
  "contain_bit kth b \<longleftrightarrow> drop_bit (unat kth mod 64) b AND 1 > 0"

definition add_bit :: "u64 \<Rightarrow> bitset \<Rightarrow> bitset" where
  "add_bit kth b = b OR push_bit (unat kth mod 64) 1"

definition remove_bit :: "u64 \<Rightarrow> bitset \<Rightarrow> bitset" where
  "remove_bit kth b = b AND NOT (push_bit (unat kth mod 64) 1)"

definition get_union :: "bitset \<Rightarrow> bitset \<Rightarrow> bitset" where
  "get_union s b = b OR s"

definition get_difference :: "bitset \<Rightarrow> bitset \<Rightarrow> bitset" where
  "get_difference s b = b AND NOT s"

definition get_trailing_zeros :: "bitset \<Rightarrow> nat" where
  "get_trailing_zeros b = length (takeWhile (\<lambda>i. \<not> bit b i) [0..<64])"

definition find_first_one :: "bitset \<Rightarrow> bitset \<Rightarrow> u64 option" where
  "find_first_one m b =
     (let ans = get_trailing_zeros (b AND NOT m) in if ans = 64 then None else Some (of_nat ans))"

subsection \<open>Handlers and receivers\<close>

definition SIGKILL :: u64 where "SIGKILL = 9"
definition SIGBUS :: u64 where "SIGBUS = 7"
definition SIGSEGV :: u64 where "SIGSEGV = 11"
definition SIGCHLD :: u64 where "SIGCHLD = 17"
definition SIGSTOP :: u64 where "SIGSTOP = 19"
definition SIGURG :: u64 where "SIGURG = 23"

text \<open>\<open>SignalNo::from\<close>: the number of the variant, 0 being \<open>ERR\<close>.\<close>

definition signal_no :: "u64 \<Rightarrow> u64" where
  "signal_no num = (let n = take_bit 8 num in if n \<le> 63 then n else 0)"

definition SIG_DFL :: u64 where "SIG_DFL = 0"
definition SIG_IGN :: u64 where "SIG_IGN = 1"
definition SA_SIGINFO :: u64 where "SA_SIGINFO = 4"
definition SA_RESTORER :: u64 where "SA_RESTORER = 0x04000000"
definition SIGNAL_RETURN_TRAP :: u64 where "SIGNAL_RETURN_TRAP = 0xffff000080800000"

record sig_action =
  handler :: u64
  action_flags :: u64
  restorer :: u64
  action_mask :: bitset

definition has_flag :: "u64 \<Rightarrow> sig_action \<Rightarrow> bool" where
  "has_flag flag a \<longleftrightarrow> action_flags a AND flag = flag"

definition get_restorer :: "sig_action \<Rightarrow> u64" where
  "get_restorer a = (if has_flag SA_RESTORER a then restorer a else SIGNAL_RETURN_TRAP)"

definition default_ignores :: "u64 \<Rightarrow> bool" where
  "default_ignores signal \<longleftrightarrow> signal = SIGCHLD \<or> signal = SIGURG"

type_synonym sig_handlers = "sig_action option list"

definition handlers_new :: sig_handlers where
  "handlers_new = replicate 64 None"

definition handlers_clear :: "sig_handlers \<Rightarrow> sig_handlers" where
  "handlers_clear hs = map (\<lambda>_. None) hs"

text \<open>\<open>None\<close> is an index out of bounds, a panic.\<close>

definition action_at :: "u64 \<Rightarrow> sig_handlers \<Rightarrow> sig_action option option" where
  "action_at signum hs = (if unat (signum - 1) < length hs then Some (hs ! unat (signum - 1)) else None)"

definition get_action :: "u64 \<Rightarrow> sig_action \<Rightarrow> sig_handlers \<Rightarrow> sig_action option" where
  "get_action signum old hs =
     (case action_at signum hs of None \<Rightarrow> None | Some None \<Rightarrow> Some old | Some (Some a) \<Rightarrow> Some a)"

definition get_action_ref :: "u64 \<Rightarrow> sig_handlers \<Rightarrow> sig_action option option" where
  "get_action_ref signum hs =
     (case action_at signum hs of
        None \<Rightarrow> None
      | Some None \<Rightarrow> Some None
      | Some (Some a) \<Rightarrow> Some (if handler a = SIG_DFL then None else Some a))"

definition set_action :: "u64 \<Rightarrow> sig_action \<Rightarrow> sig_handlers \<Rightarrow> sig_handlers option" where
  "set_action signum a hs =
     (if unat (signum - 1) < length hs then Some (hs[unat (signum - 1) := Some a]) else None)"

record sig_receivers =
  sig_mask :: bitset
  sig_received :: bitset

definition receivers_new :: sig_receivers where
  "receivers_new = \<lparr>sig_mask = 0, sig_received = 0\<rparr>"

definition get_one_signal :: "sig_receivers \<Rightarrow> u64 option \<times> sig_receivers" where
  "get_one_signal r =
     (case find_first_one (sig_mask r) (sig_received r) of
        None \<Rightarrow> (None, r)
      | Some pos \<Rightarrow> (Some (pos + 1), r\<lparr>sig_received := remove_bit pos (sig_received r)\<rparr>))"

definition try_add_bit :: "u64 \<Rightarrow> sig_receivers \<Rightarrow> sig_receivers" where
  "try_add_bit signum r = r\<lparr>sig_received := add_bit (signum - 1) (sig_received r)\<rparr>"

subsection \<open>Threads\<close>

record trap_context =
  regs :: "u64 list"
  sstatus :: u64
  sepc :: u64
  cpu_id :: u64
  fregs :: "u64 list"

definition set_x :: "nat \<Rightarrow> u64 \<Rightarrow> trap_context \<Rightarrow> trap_context" where
  "set_x i v cx = cx\<lparr>regs := (regs cx)[i := v]\<rparr>"

definition get_sp :: "trap_context \<Rightarrow> u64" where
  "get_sp cx = regs cx ! 2"

definition get_a0 :: "trap_context \<Rightarrow> u64" where
  "get_a0 cx = regs cx ! 10"

record sig_info =
  si_signo :: int
  si_errno :: int
  si_code :: int

text \<open>Of the context that is put on the user's stack: \<open>context.pc\<close>, the mask, and the fields in front of it; the
  reserved words and the floating-point state are 0.\<close>

record signal_user_context =
  uc_flags :: u64
  uc_link :: u64
  uc_stack :: "u64 \<times> u32 \<times> u64"
  uc_sig_mask :: bitset
  uc_pc :: u64

definition user_context_init :: "bitset \<Rightarrow> u64 \<Rightarrow> signal_user_context" where
  "user_context_init m pc = \<lparr>uc_flags = 0, uc_link = 0, uc_stack = (0, 2, 0), uc_sig_mask = m, uc_pc = pc\<rparr>"

record thread =
  trap_cx :: trap_context
  trap_cx_before_signal :: "trap_context option"
  signal_set_siginfo :: bool
  hid :: nat
  parent_id :: nat
  notifies_parent :: bool
  infos :: "u64 \<Rightarrow> sig_info"
  contexts :: "u64 \<Rightarrow> signal_user_context"

text \<open>\<open>actions\<close> holds the handlers that threads share by their number \<open>hid\<close>; \<open>locked\<close> lists those of them whose lock is
  held by a thread that is gone.  A thread and the global table share what the thread has received, so that it is kept in
  the table.\<close>

record kernel =
  tid2signals :: "nat \<rightharpoonup> sig_receivers"
  actions :: "nat \<Rightarrow> sig_handlers"
  locked :: "nat list"
  tasks :: "nat \<rightharpoonup> thread"

definition set_receivers :: "nat \<Rightarrow> sig_receivers \<Rightarrow> kernel \<Rightarrow> kernel" where
  "set_receivers tid r k = k\<lparr>tid2signals := (tid2signals k)(tid \<mapsto> r)\<rparr>"

definition set_task :: "nat \<Rightarrow> thread \<Rightarrow> kernel \<Rightarrow> kernel" where
  "set_task tid t k = k\<lparr>tasks := (tasks k)(tid \<mapsto> t)\<rparr>"

definition send_signal :: "nat \<Rightarrow> u64 \<Rightarrow> kernel \<Rightarrow> kernel" where
  "send_signal tid signum k =
     (case tid2signals k tid of None \<Rightarrow> k | Some r \<Rightarrow> set_receivers tid (try_add_bit signum r) k)"

definition save_trap_cx_if_not_handling_signals :: "thread \<Rightarrow> bool \<times> thread" where
  "save_trap_cx_if_not_handling_signals t =
     (if trap_cx_before_signal t \<noteq> None then (False, t)
      else (True, t\<lparr>trap_cx_before_signal := Some (trap_cx t), signal_set_siginfo := False\<rparr>))"

definition load_trap_cx_if_handling_signals :: "thread \<Rightarrow> bool \<times> thread" where
  "load_trap_cx_if_handling_signals t =
     (case trap_cx_before_signal t of
        None \<Rightarrow> (False, t)
      | Some trap_cx_old \<Rightarrow>
          let pc = uc_pc (contexts t (get_sp (trap_cx t)))
          in (True, t\<lparr>trap_cx_before_signal := None,
                      trap_cx := (if signal_set_siginfo t then trap_cx_old\<lparr>sepc := pc\<rparr> else trap_cx_old)\<rparr>))"

text \<open>The end of a thread in \<open>handle_zombie_task\<close>, as far as signals go; \<open>held\<close> says that the thread kept the lock of its
  handlers.\<close>

definition exit_task :: "bool \<Rightarrow> nat \<Rightarrow> kernel \<Rightarrow> kernel" where
  "exit_task held tid k =
     (case tasks k tid of
        None \<Rightarrow> k
      | Some t \<Rightarrow>
          let k = (if notifies_parent t then send_signal (parent_id t) SIGCHLD k else k)
          in k\<lparr>tid2signals := (tid2signals k)(tid := None), tasks := (tasks k)(tid := None),
               locked := (if held then hid t # locked k else locked k)\<rparr>)"

datatype fate = Runs | Exits int

definition USER_STACK_RED_ZONE :: u64 where
  "USER_STACK_RED_ZONE = 0x200"

definition enter_handler :: "u64 \<Rightarrow> sig_action \<Rightarrow> bitset \<Rightarrow> thread \<Rightarrow> thread" where
  "enter_handler signum a m t =
     (let cx = set_x 1 (get_restorer a) (trap_cx t);
          sp = get_sp cx - USER_STACK_RED_ZONE;
          old_pc = sepc cx;
          cx = set_x 10 signum (cx\<lparr>sepc := handler a\<rparr>)
      in if has_flag SA_SIGINFO a then
           let sp = (sp - 12) AND NOT 0xf;
               t = t\<lparr>signal_set_siginfo := True,
                     infos := (infos t)(sp := \<lparr>si_signo = sint (ucast signum :: u32), si_errno = 0, si_code = -6\<rparr>)\<rparr>;
               cx = set_x 11 sp cx;
               sp = (sp - 848) AND NOT 0xf;
               t = t\<lparr>contexts := (contexts t)(sp := user_context_init m old_pc)\<rparr>;
               cx = set_x 12 sp cx
           in t\<lparr>trap_cx := set_x 2 sp cx\<rparr>
         else t\<lparr>trap_cx := set_x 2 sp cx\<rparr>)"

definition handle_signals :: "nat \<Rightarrow> kernel \<Rightarrow> (fate \<times> kernel) outcome" where
  "handle_signals tid k =
     (case (tasks k tid, tid2signals k tid) of
        (Some t, Some r) \<Rightarrow>
          if hid t \<in> set (locked k) then Hangs
          else
            (case get_one_signal r of
               (None, _) \<Rightarrow> Returns (Runs, k)
             | (Some signum, r) \<Rightarrow>
                 let k = set_receivers tid r k;
                     signal = signal_no signum
                 in case save_trap_cx_if_not_handling_signals t of
                      (True, t) \<Rightarrow>
                        (case get_action_ref signum (actions k (hid t)) of
                           None \<Rightarrow> Panics
                         | Some (Some action) \<Rightarrow>
                             if handler action = SIG_IGN then Returns (Runs, set_task tid t k)
                             else Returns (Runs, set_task tid (enter_handler signum action (sig_mask r) t) k)
                         | Some None \<Rightarrow>
                             if default_ignores signal
                             then Returns (Runs, set_task tid (snd (load_trap_cx_if_handling_signals t)) k)
                             else Returns (Exits 0, exit_task False tid (set_task tid t k)))
                    | (False, t) \<Rightarrow>
                        if signal = SIGSEGV \<or> signal = SIGBUS then Returns (Exits (-1), exit_task True tid k)
                        else Returns (Runs, k))
      | _ \<Rightarrow> Panics)"

definition signal_return :: "nat \<Rightarrow> kernel \<Rightarrow> u64 \<times> kernel" where
  "signal_return tid k =
     (case tasks k tid of
        None \<Rightarrow> (-1, k)
      | Some t \<Rightarrow>
          (case load_trap_cx_if_handling_signals t of
             (True, t) \<Rightarrow> (get_a0 (trap_cx t), set_task tid t k)
           | (False, t) \<Rightarrow> (-1, k)))"

subsection \<open>System calls and traps\<close>

definition sys_kill :: "int \<Rightarrow> int \<Rightarrow> kernel \<Rightarrow> u64 sysret \<times> kernel" where
  "sys_kill pid signal_id k =
     (if pid > 0 \<and> signal_id > 0 then (Inr 0, send_signal (nat pid) (word_of_int signal_id) k)
      else if pid = 0 then (Inl ESRCH, k)
      else (Inl EINVAL, k))"

definition sys_tkill :: "int \<Rightarrow> int \<Rightarrow> kernel \<Rightarrow> u64 sysret \<times> kernel" where
  "sys_tkill tid signal_id k =
     (if tid > 0 then (Inr 0, send_signal (nat tid) (word_of_int signal_id) k) else (Inl EINVAL, k))"

text \<open>The two results are that of the call and what the pointer to the old set leads to.\<close>

definition sys_sigprocmask ::
    "int \<Rightarrow> bitset user \<Rightarrow> bitset user \<Rightarrow> nat \<Rightarrow> nat \<Rightarrow> kernel \<Rightarrow> ((u64 sysret \<times> bitset user) \<times> kernel) outcome" where
  "sys_sigprocmask how set_ptr old_set sigsetsize tid k =
     (if sigsetsize \<noteq> 8 then Returns ((Inl EINVAL, old_set), k)
      else
        (case tid2signals k tid of
           None \<Rightarrow> Panics
         | Some r \<Rightarrow>
             if old_set = Unmapped then Returns ((Inl EINVAL, old_set), k)
             else
               let old_set = (case old_set of Mapped _ \<Rightarrow> Mapped (sig_mask r) | p \<Rightarrow> p)
               in case set_ptr of
                    Null \<Rightarrow> Returns ((Inr 0, old_set), k)
                  | Unmapped \<Rightarrow> Returns ((Inl EINVAL, old_set), k)
                  | Mapped v \<Rightarrow>
                      if how = 0 then
                        Returns ((Inr 0, old_set), set_receivers tid (r\<lparr>sig_mask := get_union v (sig_mask r)\<rparr>) k)
                      else if how = 1 then
                        Returns ((Inr 0, old_set), set_receivers tid (r\<lparr>sig_mask := get_difference v (sig_mask r)\<rparr>) k)
                      else if how = 2 then Returns ((Inr 0, old_set), set_receivers tid (r\<lparr>sig_mask := v\<rparr>) k)
                      else Returns ((Inl EINVAL, old_set), k)))"

definition sys_sigaction ::
    "u64 \<Rightarrow> sig_action user \<Rightarrow> sig_action user \<Rightarrow> nat \<Rightarrow> kernel \<Rightarrow> ((u64 sysret \<times> sig_action user) \<times> kernel) outcome" where
  "sys_sigaction signum action old_action tid k =
     (if signum = SIGKILL \<or> signum = SIGSTOP then Returns ((Inl EINVAL, old_action), k)
      else
        (case tasks k tid of
           None \<Rightarrow> Panics
         | Some t \<Rightarrow>
             if hid t \<in> set (locked k) then Hangs
             else if old_action = Unmapped then Returns ((Inl EINVAL, old_action), k)
             else
               (case (case old_action of
                        Mapped a \<Rightarrow> map_option Mapped (get_action signum a (actions k (hid t)))
                      | p \<Rightarrow> Some p) of
                  None \<Rightarrow> Panics
                | Some old_action \<Rightarrow>
                    (case action of
                       Null \<Rightarrow> Returns ((Inr 0, old_action), k)
                     | Unmapped \<Rightarrow> Returns ((Inl EINVAL, old_action), k)
                     | Mapped a \<Rightarrow>
                         (case set_action signum a (actions k (hid t)) of
                            None \<Rightarrow> Panics
                          | Some hs \<Rightarrow>
                              Returns ((Inr 0, old_action), k\<lparr>actions := (actions k)(hid t := hs)\<rparr>))))))"

definition sys_sigreturn :: "nat \<Rightarrow> kernel \<Rightarrow> u64 sysret \<times> kernel" where
  "sys_sigreturn tid k =
     (case signal_return tid k of (a0, k) \<Rightarrow> if a0 = -1 then (Inl EINVAL, k) else (Inr a0, k))"

text \<open>The part of \<open>exec\<close> that is about signals: \<open>cx\<close> is the context in which the new program starts.\<close>

definition exec_signals :: "trap_context \<Rightarrow> nat \<Rightarrow> kernel \<Rightarrow> kernel outcome" where
  "exec_signals cx tid k =
     (case (tasks k tid, tid2signals k tid) of
        (Some t, Some r) \<Rightarrow>
          if hid t \<in> set (locked k) then Hangs
          else Returns (set_task tid (t\<lparr>trap_cx := cx\<rparr>)
                 (set_receivers tid (r\<lparr>sig_mask := 0, sig_received := 0\<rparr>)
                    (k\<lparr>actions := (actions k)(hid t := handlers_clear (actions k (hid t)))\<rparr>)))
      | _ \<Rightarrow> Panics)"

text \<open>The part of \<open>from_clone\<close> that is about signals: \<open>new_hid\<close> is the number of a new table of handlers.\<close>

definition clone_signals ::
    "bool \<Rightarrow> bool \<Rightarrow> bool \<Rightarrow> nat \<Rightarrow> nat \<Rightarrow> trap_context \<Rightarrow> nat \<Rightarrow> kernel \<Rightarrow> kernel outcome" where
  "clone_signals sighand clone_parent notifies new_tid new_hid cx tid k =
     (case tasks k tid of
        None \<Rightarrow> Panics
      | Some t \<Rightarrow>
          if \<not> sighand \<and> hid t \<in> set (locked k) then Hangs
          else
            let child = t\<lparr>trap_cx := cx, trap_cx_before_signal := None, signal_set_siginfo := False,
                  hid := (if sighand then hid t else new_hid),
                  parent_id := (if clone_parent then parent_id t else tid), notifies_parent := notifies\<rparr>;
                k = (if sighand then k else k\<lparr>actions := (actions k)(new_hid := actions k (hid t))\<rparr>)
            in Returns (set_task new_tid child (set_receivers new_tid receivers_new k)))"

datatype sig_call =
    Kill int int
  | Tkill int int
  | Sigprocmask int "bitset user" "bitset user" nat
  | Sigaction u64 "sig_action user" "sig_action user"
  | Sigreturn
  | Exit int
  | Other u64

definition a0_of :: "u64 sysret \<Rightarrow> u64" where
  "a0_of r = (case r of Inr n \<Rightarrow> n | Inl e \<Rightarrow> word_of_int (- e))"

definition set_a0 :: "nat \<Rightarrow> u64 \<Rightarrow> kernel \<Rightarrow> kernel" where
  "set_a0 tid v k =
     (case tasks k tid of None \<Rightarrow> k | Some t \<Rightarrow> set_task tid (t\<lparr>trap_cx := set_x 10 v (trap_cx t)\<rparr>) k)"

definition advance_pc :: "nat \<Rightarrow> kernel \<Rightarrow> kernel" where
  "advance_pc tid k =
     (case tasks k tid of
        None \<Rightarrow> k
      | Some t \<Rightarrow> set_task tid (t\<lparr>trap_cx := (trap_cx t)\<lparr>sepc := sepc (trap_cx t) + 4\<rparr>\<rparr>) k)"

definition bind_outcome :: "'a outcome \<Rightarrow> ('a \<Rightarrow> 'b outcome) \<Rightarrow> 'b outcome" where
  "bind_outcome r f = (case r of Returns a \<Rightarrow> f a | Panics \<Rightarrow> Panics | Hangs \<Rightarrow> Hangs)"

fun syscall :: "nat \<Rightarrow> sig_call \<Rightarrow> kernel \<Rightarrow> (u64 sysret \<times> kernel) outcome" where
  "syscall tid (Kill pid n) k = Returns (sys_kill pid n k)"
| "syscall tid (Tkill t n) k = Returns (sys_tkill t n k)"
| "syscall tid (Sigprocmask how s old n) k =
     bind_outcome (sys_sigprocmask how s old n tid k) (\<lambda>((r, _), k). Returns (r, k))"
| "syscall tid (Sigaction n a old) k =
     bind_outcome (sys_sigaction n a old tid k) (\<lambda>((r, _), k). Returns (r, k))"
| "syscall tid Sigreturn k = Returns (sys_sigreturn tid k)"
| "syscall tid (Other v) k = Returns (Inr v, k)"
| "syscall tid (Exit c) k = Returns (Inr 0, k)"

text \<open>A trap of a running thread: an interrupt of the timer, a page fault with whether it could be served, an access that
  no page allows, a jump to the address that stands for the return from a signal, a system call.\<close>

datatype trap = Timer | Page_fault bool | Bad_access | Return_trap | Ecall sig_call

fun user_trap_handler :: "nat \<Rightarrow> trap \<Rightarrow> kernel \<Rightarrow> (fate \<times> kernel) outcome" where
  "user_trap_handler tid Timer k = handle_signals tid k"
| "user_trap_handler tid (Page_fault ok) k =
     handle_signals tid (if ok then k else send_signal tid SIGSEGV k)"
| "user_trap_handler tid Bad_access k = handle_signals tid (send_signal tid SIGSEGV k)"
| "user_trap_handler tid Return_trap k =
     (case signal_return tid k of (a0, k) \<Rightarrow> Returns (Runs, set_a0 tid a0 k))"
| "user_trap_handler tid (Ecall (Exit c)) k = Returns (Exits c, exit_task False tid k)"
| "user_trap_handler tid (Ecall c) k =
     bind_outcome (syscall tid c (advance_pc tid k)) (\<lambda>(r, k). handle_signals tid (set_a0 tid (a0_of r) k))"

subsection \<open>Sets of signals are sets\<close>

definition members :: "bitset \<Rightarrow> nat set" where
  "members b = {n. 0 < n \<and> n \<le> 64 \<and> bit b (n - 1)}"

lemma bit_2p_64: "bit (2 ^ k :: u64) i \<longleftrightarrow> i = k \<and> k < 64"
  by (auto simp: bit_exp_iff dest: bit_imp_le_length)

lemma finite_members [simp]: "finite (members b)"
  by (rule finite_subset [of _ "{..64}"]) (auto simp: members_def)

lemma members_bound: "n \<in> members b \<Longrightarrow> 0 < n \<and> n \<le> 64"
  by (simp add: members_def)

lemma members_0 [simp]: "members 0 = {}"
  by (simp add: members_def)

lemma members_eq_empty: "members b = {} \<longleftrightarrow> b = 0"
proof
  assume e: "members b = {}"
  show "b = 0"
  proof (rule bit_word_eqI)
    fix i assume "i < LENGTH(64)"
    then show "bit b i \<longleftrightarrow> bit (0 :: u64) i"
      using e [unfolded members_def set_eq_iff, THEN spec, of "Suc i"] by simp
  qed
qed simp

lemma members_difference: "members (b AND NOT m) = members b - members m"
  by (auto simp: members_def bit_and_iff bit_not_iff)

lemma members_union: "members (get_union v b) = members b \<union> members v"
  by (auto simp: members_def get_union_def bit_or_iff)

lemma members_get_difference: "members (get_difference v b) = members b - members v"
  by (simp add: get_difference_def members_difference)

lemma unat_pred: "0 < unat (n :: u64) \<Longrightarrow> unat (n - 1) = unat n - 1"
  by (simp add: unat_minus_one word_neq_0_conv unat_gt_0)

lemma members_add:
  assumes "0 < unat n" "unat n \<le> 64"
  shows "members (add_bit (n - 1) b) = insert (unat n) (members b)"
  using assms by (auto simp: members_def add_bit_def bit_or_iff bit_2p_64 unat_pred)

lemma members_remove: "0 < n \<Longrightarrow> n \<le> 64 \<Longrightarrow> members (remove_bit (of_nat (n - 1)) b) = members b - {n}"
  by (auto simp: members_def remove_bit_def bit_and_iff bit_not_iff bit_2p_64 simp del: of_nat_diff)

lemma no_bit_zeros: "get_trailing_zeros 0 = 64"
  by (simp add: get_trailing_zeros_def takeWhile_eq_all_conv [THEN iffD2])

lemma first_bit_Min:
  assumes "members b \<noteq> {}"
  shows "get_trailing_zeros b = Min (members b) - 1"
proof -
  define n where "n = Min (members b)"
  have n: "n \<in> members b" "0 < n" "n \<le> 64" "bit b (n - 1)"
    using assms Min_in [of "members b"] by (auto simp: n_def members_def)
  have least: "\<not> bit b i" if "i < n - 1" for i
  proof
    assume "bit b i"
    then have "Suc i \<in> members b" using that n(3) by (simp add: members_def)
    then have "n \<le> Suc i" by (simp add: n_def)
    then show False using that by simp
  qed
  have "[0..<64] = [0..<n - 1] @ (n - 1) # [n..<64]"
    using n(2,3) upt_add_eq_append [of 0 "n - 1" "64 - (n - 1)"] upt_conv_Cons [of "n - 1" 64] by simp
  then have "takeWhile (\<lambda>i. \<not> bit b i) [0..<64] = [0..<n - 1]"
    using least n(4) by (subst \<open>[0..<64] = _\<close>, subst takeWhile_append2) simp_all
  then show ?thesis by (simp add: get_trailing_zeros_def n_def)
qed

lemma find_first_one_spec:
  "find_first_one m b =
     (if members b - members m = {} then None else Some (of_nat (Min (members b - members m) - 1)))"
proof (cases "members b - members m = {}")
  case True
  then have "b AND NOT m = 0" by (simp add: members_difference flip: members_eq_empty)
  then show ?thesis using True by (simp add: find_first_one_def no_bit_zeros)
next
  case False
  then have d: "members (b AND NOT m) \<noteq> {}" by (simp add: members_difference)
  then have "Min (members (b AND NOT m)) \<le> 64" using Min_in [OF finite_members, of "b AND NOT m"] members_bound by blast
  then show ?thesis using False first_bit_Min [OF d]
    by (simp add: find_first_one_def members_difference Let_def)
qed

definition pending :: "sig_receivers \<Rightarrow> nat set" where
  "pending r = members (sig_received r)"

definition blocked :: "sig_receivers \<Rightarrow> nat set" where
  "blocked r = members (sig_mask r)"

lemma get_one_signal_none: "pending r - blocked r = {} \<Longrightarrow> get_one_signal r = (None, r)"
  by (simp add: get_one_signal_def find_first_one_spec pending_def blocked_def)

lemma get_one_signal_some:
  assumes "pending r - blocked r \<noteq> {}"
  defines "n \<equiv> Min (pending r - blocked r)"
  obtains r' where "get_one_signal r = (Some (of_nat n), r')" "pending r' = pending r - {n}" "sig_mask r' = sig_mask r"
    "0 < n" "n \<le> 64" "n \<in> pending r" "n \<notin> blocked r"
proof -
  have n: "n \<in> pending r - blocked r"
    unfolding n_def by (rule Min_in [OF _ assms(1)]) (simp add: pending_def)
  then have b: "0 < n" "n \<le> 64" using members_bound by (auto simp: pending_def)
  have w: "of_nat (n - 1) + 1 = (of_nat n :: u64)" using b(1) by (simp add: of_nat_diff)
  show ?thesis
  proof (rule that)
    show "get_one_signal r = (Some (of_nat n), r\<lparr>sig_received := remove_bit (of_nat (n - 1)) (sig_received r)\<rparr>)"
      using assms(1) w unfolding get_one_signal_def find_first_one_spec pending_def blocked_def n_def by simp
    show "pending (r\<lparr>sig_received := remove_bit (of_nat (n - 1)) (sig_received r)\<rparr>) = pending r - {n}"
      using members_remove [OF b] by (simp add: pending_def)
  qed (use n b in auto)
qed

lemma try_add_bit_pending: "0 < unat n \<Longrightarrow> unat n \<le> 64 \<Longrightarrow> pending (try_add_bit n r) = insert (unat n) (pending r)"
  by (simp add: pending_def try_add_bit_def members_add)

lemma sig_mask_try_add_bit [simp]: "sig_mask (try_add_bit n r) = sig_mask r"
  by (simp add: try_add_bit_def)

subsection \<open>Saving and loading the context\<close>

lemma set_task_simps [simp]:
  "tasks (set_task tid t k) = (tasks k)(tid \<mapsto> t)" "tid2signals (set_task tid t k) = tid2signals k"
  "actions (set_task tid t k) = actions k" "locked (set_task tid t k) = locked k"
  by (simp_all add: set_task_def)

lemma set_receivers_simps [simp]:
  "tasks (set_receivers tid r k) = tasks k" "tid2signals (set_receivers tid r k) = (tid2signals k)(tid \<mapsto> r)"
  "actions (set_receivers tid r k) = actions k" "locked (set_receivers tid r k) = locked k"
  by (simp_all add: set_receivers_def)

lemma set_x_simps [simp]:
  "length (regs (set_x i v cx)) = length (regs cx)" "sepc (set_x i v cx) = sepc cx"
  "regs (set_x i v cx) = (regs cx)[i := v]"
  by (simp_all add: set_x_def)

text \<open>A program that runs changes its registers and its memory and nothing else of the thread.\<close>

definition user_runs ::
    "trap_context \<Rightarrow> (u64 \<Rightarrow> sig_info) \<Rightarrow> (u64 \<Rightarrow> signal_user_context) \<Rightarrow> thread \<Rightarrow> thread" where
  "user_runs cx is us t = t\<lparr>trap_cx := cx, infos := is, contexts := us\<rparr>"

lemma user_runs_simps [simp]:
  "trap_cx (user_runs cx is us t) = cx" "contexts (user_runs cx is us t) = us"
  "trap_cx_before_signal (user_runs cx is us t) = trap_cx_before_signal t"
  "signal_set_siginfo (user_runs cx is us t) = signal_set_siginfo t" "hid (user_runs cx is us t) = hid t"
  by (simp_all add: user_runs_def)

lemma enter_handler_simps [simp]:
  "trap_cx_before_signal (enter_handler n a m t) = trap_cx_before_signal t"
  "hid (enter_handler n a m t) = hid t"
  by (simp_all add: enter_handler_def Let_def)

lemma enter_handler_cx:
  assumes "length (regs (trap_cx t)) = 32"
  shows "sepc (trap_cx (enter_handler n a m t)) = handler a" "get_a0 (trap_cx (enter_handler n a m t)) = n"
    "regs (trap_cx (enter_handler n a m t)) ! 1 = get_restorer a"
  using assms by (simp_all add: enter_handler_def Let_def get_a0_def)

lemma enter_handler_siginfo:
  assumes "length (regs (trap_cx t)) = 32" "signal_set_siginfo (enter_handler n a m t)" "\<not> signal_set_siginfo t"
  shows "uc_pc (contexts (enter_handler n a m t) (get_sp (trap_cx (enter_handler n a m t)))) = sepc (trap_cx t)"
  using assms by (simp add: enter_handler_def Let_def get_sp_def user_context_init_def split: if_splits)

text \<open>The handler may return with any registers but the stack pointer with which it was entered, and with any memory but
  the program counter on its stack.\<close>

lemma handler_returns:
  assumes "length (regs (trap_cx t)) = 32" and "save_trap_cx_if_not_handling_signals t = (True, t1)"
    and "t2 = enter_handler n a m t1" and "get_sp cx = get_sp (trap_cx t2)"
    and "uc_pc (us (get_sp cx)) = uc_pc (contexts t2 (get_sp cx))"
  shows "\<exists>t3. load_trap_cx_if_handling_signals (user_runs cx is us t2) = (True, t3) \<and>
    trap_cx t3 = trap_cx t \<and> trap_cx_before_signal t3 = None"
proof -
  have t1: "t1 = t\<lparr>trap_cx_before_signal := Some (trap_cx t), signal_set_siginfo := False\<rparr>"
    using assms(2) by (simp add: save_trap_cx_if_not_handling_signals_def split: if_splits)
  have "(trap_cx t)\<lparr>sepc := uc_pc (us (get_sp cx))\<rparr> = trap_cx t" if "signal_set_siginfo t2"
    using enter_handler_siginfo [of t1 n a m] that assms by (simp add: t1)
  then show ?thesis
    by (simp add: load_trap_cx_if_handling_signals_def assms(3) t1)
qed

subsection \<open>Delivery\<close>

text \<open>What the default action of a signal does.\<close>

definition default_action :: "nat \<Rightarrow> nat \<Rightarrow> thread \<Rightarrow> kernel \<Rightarrow> fate \<times> kernel" where
  "default_action n tid t k =
     (if n = 17 \<or> n = 23 then (Runs, set_task tid (t\<lparr>signal_set_siginfo := False\<rparr>) k)
      else (Exits 0, exit_task False tid
              (set_task tid (t\<lparr>trap_cx_before_signal := Some (trap_cx t), signal_set_siginfo := False\<rparr>) k)))"

lemma default_ignores_iff: "0 < n \<Longrightarrow> n \<le> 64 \<Longrightarrow> default_ignores (signal_no (of_nat n)) \<longleftrightarrow> n = 17 \<or> n = 23"
proof -
  assume b: "0 < n" "n \<le> 64"
  have "unat (signal_no (of_nat n)) = (if n = 64 then 0 else n)"
    using b by (simp add: signal_no_def Let_def word_le_nat_alt unsigned_take_bit_eq take_bit_nat_eq_self)
  then show ?thesis using b
    by (auto simp: default_ignores_def SIGCHLD_def SIGURG_def word_unat_eq_iff split: if_splits)
qed

lemma handle_signals_default:
  assumes "tasks k tid = Some t" and "tid2signals k tid = Some r" and "hid t \<notin> set (locked k)"
    and "trap_cx_before_signal t = None" and "get_one_signal r = (Some (of_nat n), r')" and "0 < n" and "n \<le> 64"
    and "length (actions k (hid t)) = 64" and "case actions k (hid t) ! (n - 1) of None \<Rightarrow> True | Some a \<Rightarrow> handler a = SIG_DFL"
  shows "handle_signals tid k = Returns (default_action n tid t (set_receivers tid r' k))"
proof -
  have "unat (of_nat n - 1 :: u64) = n - 1" using assms(6,7) unat_pred [of "of_nat n"] by simp
  then have a: "get_action_ref (of_nat n) (actions k (hid t)) = Some None"
    using assms(6-9) by (auto simp: get_action_ref_def action_at_def split: option.splits)
  have t: "t\<lparr>signal_set_siginfo := False, trap_cx_before_signal := None\<rparr> = t\<lparr>signal_set_siginfo := False\<rparr>"
    using assms(4) by (cases t) simp
  show ?thesis
    using assms(1-5) a
    by (simp add: t handle_signals_def save_trap_cx_if_not_handling_signals_def default_ignores_iff [OF assms(6,7)]
        default_action_def load_trap_cx_if_handling_signals_def)
qed

lemma handle_signals_nothing:
  assumes "tasks k tid = Some t" and "tid2signals k tid = Some r" and "hid t \<notin> set (locked k)"
    and "pending r - blocked r = {}"
  shows "handle_signals tid k = Returns (Runs, k)"
  using assms by (simp add: handle_signals_def get_one_signal_none)

lemma handle_signals_action:
  assumes "tasks k tid = Some t" and "tid2signals k tid = Some r" and "hid t \<notin> set (locked k)"
    and "save_trap_cx_if_not_handling_signals t = (True, t1)"
    and "get_one_signal r = (Some (of_nat n), r')" and "0 < n" and "n \<le> 64"
    and "length (actions k (hid t)) = 64" and "actions k (hid t) ! (n - 1) = Some a" and "handler a \<noteq> SIG_DFL"
  shows "handle_signals tid k = Returns (Runs, set_task tid
     (if handler a = SIG_IGN then t1 else enter_handler (of_nat n) a (sig_mask r') t1) (set_receivers tid r' k))"
proof -
  have "unat (of_nat n - 1 :: u64) = n - 1" using assms(6,7) unat_pred [of "of_nat n"] by simp
  then have a: "get_action_ref (of_nat n) (actions k (hid t)) = Some (Some a)"
    using assms(6-10) by (auto simp: get_action_ref_def action_at_def split: option.splits)
  have "hid t1 = hid t" using assms(4) by (auto simp: save_trap_cx_if_not_handling_signals_def split: if_splits)
  then show ?thesis using assms(1-5) a by (simp add: handle_signals_def)
qed

text \<open>While a thread is inside a handler, a trap takes a signal out of the set and does nothing else with it.\<close>

lemma handle_signals_inside:
  assumes "tasks k tid = Some t" and "tid2signals k tid = Some r" and "hid t \<notin> set (locked k)"
    and "trap_cx_before_signal t \<noteq> None" and "get_one_signal r = (Some (of_nat n), r')" and "n \<noteq> 7" "n \<noteq> 11" "n \<le> 64"
  shows "handle_signals tid k = Returns (Runs, set_receivers tid r' k)"
proof -
  have "unat (signal_no (of_nat n)) = (if n = 64 then 0 else n)"
    using assms(8) by (simp add: signal_no_def Let_def word_le_nat_alt unsigned_take_bit_eq take_bit_nat_eq_self)
  then have "signal_no (of_nat n) \<noteq> SIGSEGV" "signal_no (of_nat n) \<noteq> SIGBUS"
    using assms(6,7) by (auto simp: SIGSEGV_def SIGBUS_def split: if_splits)
  then show ?thesis
    using assms(1-5) by (simp add: handle_signals_def save_trap_cx_if_not_handling_signals_def)
qed

lemma exit_task_gone:
  "tasks (exit_task held tid k) tid = None"
  "tasks k tid = Some t \<Longrightarrow> tid2signals (exit_task held tid k) tid = None"
  "u \<noteq> tid \<Longrightarrow> tasks (exit_task held tid k) u = tasks k u"
  by (simp_all add: exit_task_def send_signal_def Let_def split: option.splits)

subsection \<open>Runs of a thread\<close>

text \<open>Between two traps of a thread its program runs, and others send it signals.\<close>

datatype thread_event =
    Receives u64
  | Traps trap
  | Computes trap_context "u64 \<Rightarrow> sig_info" "u64 \<Rightarrow> signal_user_context"

fun thread_step :: "nat \<Rightarrow> thread_event \<Rightarrow> kernel \<Rightarrow> (fate \<times> kernel) outcome" where
  "thread_step tid (Receives n) k = Returns (Runs, send_signal tid n k)"
| "thread_step tid (Traps tr) k = user_trap_handler tid tr k"
| "thread_step tid (Computes cx is us) k =
     (case tasks k tid of
        None \<Rightarrow> Panics
      | Some t \<Rightarrow> Returns (Runs, set_task tid (user_runs cx is us t) k))"

fun thread_run :: "nat \<Rightarrow> thread_event list \<Rightarrow> kernel \<Rightarrow> (fate \<times> kernel) outcome" where
  "thread_run tid [] k = Returns (Runs, k)"
| "thread_run tid (e # es) k =
     bind_outcome (thread_step tid e k)
       (\<lambda>(f, k). case f of Exits c \<Rightarrow> Returns (Exits c, k) | Runs \<Rightarrow> thread_run tid es k)"

text \<open>The events that neither return from a handler nor end the thread of its own will nor send \<open>SIGSEGV\<close> or
  \<open>SIGBUS\<close>, nor install handlers.\<close>

definition spares :: "u64 \<Rightarrow> bool" where
  "spares n \<longleftrightarrow> unat (n - 1) mod 64 \<noteq> 6 \<and> unat (n - 1) mod 64 \<noteq> 10"

fun harmless :: "thread_event \<Rightarrow> bool" where
  "harmless (Receives n) = spares n"
| "harmless (Traps tr) =
     (case tr of
        Timer \<Rightarrow> True
      | Page_fault ok \<Rightarrow> ok
      | Ecall (Kill _ n) \<Rightarrow> spares (word_of_int n)
      | Ecall (Tkill _ n) \<Rightarrow> spares (word_of_int n)
      | Ecall (Sigprocmask _ _ _ _) \<Rightarrow> True
      | Ecall (Other _) \<Rightarrow> True
      | _ \<Rightarrow> False)"
| "harmless (Computes _ _ _) = True"

definition inside :: "nat \<Rightarrow> trap_context \<Rightarrow> kernel \<Rightarrow> bool" where
  "inside tid c k \<longleftrightarrow>
     (\<exists>t r. tasks k tid = Some t \<and> tid2signals k tid = Some r \<and> hid t \<notin> set (locked k) \<and>
        trap_cx_before_signal t = Some c \<and> pending r \<inter> {7, 11} = {})"

lemma pending_add: "pending (try_add_bit n r) = insert (unat (n - 1) mod 64 + 1) (pending r)"
proof -
  have "bit (add_bit (n - 1) b) i \<longleftrightarrow> bit b i \<or> i = unat (n - 1) mod 64" for b i
    by (auto simp: add_bit_def bit_or_iff bit_2p_64)
  moreover have "unat (n - 1) mod 64 < 64" by simp
  ultimately show ?thesis by (force simp: pending_def members_def try_add_bit_def)
qed

lemma inside_send:
  assumes "inside tid c k" and "spares n"
  shows "inside tid c (send_signal u n k)"
proof -
  obtain t r where w: "tasks k tid = Some t" "tid2signals k tid = Some r" "hid t \<notin> set (locked k)"
    "trap_cx_before_signal t = Some c" "pending r \<inter> {7, 11} = {}"
    using assms(1) by (auto simp: inside_def)
  have "pending (try_add_bit n r) \<inter> {7, 11} = {}"
    using w(5) assms(2) by (simp add: pending_add spares_def)
  then show ?thesis
    using w by (cases "u = tid") (auto simp: inside_def send_signal_def split: option.splits)
qed

lemma inside_update:
  "inside tid c k \<Longrightarrow> inside tid c (set_a0 u v k)"
  "inside tid c k \<Longrightarrow> inside tid c (advance_pc u k)"
  by (auto simp: inside_def set_a0_def advance_pc_def split: option.splits)

lemma inside_handle:
  assumes "inside tid c k"
  shows "\<exists>k'. handle_signals tid k = Returns (Runs, k') \<and> inside tid c k'"
proof -
  obtain t r where w: "tasks k tid = Some t" "tid2signals k tid = Some r" "hid t \<notin> set (locked k)"
    "trap_cx_before_signal t = Some c" "pending r \<inter> {7, 11} = {}"
    using assms by (auto simp: inside_def)
  show ?thesis
  proof (cases "pending r - blocked r = {}")
    case True
    then show ?thesis using handle_signals_nothing [OF w(1-3)] assms by blast
  next
    case False
    obtain r' n where r: "get_one_signal r = (Some (of_nat n), r')" "pending r' = pending r - {n}"
      "0 < n" "n \<le> 64" "n \<in> pending r"
      using get_one_signal_some [OF False] by blast
    have n: "n \<noteq> 7" "n \<noteq> 11" using r(5) w(5) by auto
    have "inside tid c (set_receivers tid r' k)" using w r(2) by (auto simp: inside_def)
    then show ?thesis
      using handle_signals_inside [OF w(1-3) _ r(1) n r(4)] w(4) by blast
  qed
qed

lemma inside_sigprocmask:
  assumes "inside tid c k"
  shows "\<exists>v k'. sys_sigprocmask how s old n tid k = Returns (v, k') \<and> inside tid c k'"
proof -
  obtain t r where w: "tasks k tid = Some t" "tid2signals k tid = Some r" "hid t \<notin> set (locked k)"
    "trap_cx_before_signal t = Some c" "pending r \<inter> {7, 11} = {}"
    using assms by (auto simp: inside_def)
  have "inside tid c (set_receivers tid (r\<lparr>sig_mask := m\<rparr>) k)" for m
    using w by (auto simp: inside_def pending_def)
  then show ?thesis using assms w(2) by (auto simp: sys_sigprocmask_def Let_def split: user.splits)
qed

lemma inside_call:
  assumes "inside tid c k" and "harmless (Traps (Ecall f))"
  shows "\<exists>v k'. syscall tid f k = Returns (v, k') \<and> inside tid c k'"
proof (cases f)
  case (Sigprocmask how s old n)
  then show ?thesis using inside_sigprocmask [OF assms(1), of how s old n] by (auto simp: bind_outcome_def)
qed (use assms inside_send in \<open>auto simp: sys_kill_def sys_tkill_def\<close>)

lemma inside_step:
  assumes "inside tid c k" and "harmless e"
  shows "\<exists>k'. thread_step tid e k = Returns (Runs, k') \<and> inside tid c k'"
proof (cases e)
  case (Traps tr)
  show ?thesis
  proof (cases tr)
    case (Ecall f)
    have h: "harmless (Traps (Ecall f))" using assms(2) Traps Ecall by simp
    have "user_trap_handler tid tr k =
        bind_outcome (syscall tid f (advance_pc tid k)) (\<lambda>(r, k). handle_signals tid (set_a0 tid (a0_of r) k))"
      using h Ecall by (cases f) simp_all
    moreover obtain v k' where "syscall tid f (advance_pc tid k) = Returns (v, k')" "inside tid c k'"
      using inside_call [OF inside_update(2) [OF assms(1)] h] by blast
    ultimately show ?thesis
      using inside_handle [OF inside_update(1), of tid c k'] Traps by (simp add: bind_outcome_def)
  qed (use assms Traps inside_handle in auto)
qed (use assms inside_send in \<open>auto simp: inside_def\<close>)

lemma inside_run:
  "inside tid c k \<Longrightarrow> list_all harmless es \<Longrightarrow> \<exists>k'. thread_run tid es k = Returns (Runs, k') \<and> inside tid c k'"
proof (induction es arbitrary: k)
  case (Cons e es)
  then obtain k' where "thread_step tid e k = Returns (Runs, k')" "inside tid c k'"
    using inside_step by fastforce
  then show ?case using Cons by (simp add: bind_outcome_def)
qed simp

lemma handle_signals_inside_step:
  assumes "tasks k tid = Some t" and "tid2signals k tid = Some r" and "hid t \<notin> set (locked k)"
    and "trap_cx_before_signal t \<noteq> None" and "pending r \<inter> {7, 11} = {}"
  shows "handle_signals tid k = Returns (Runs, if pending r - blocked r = {} then k
      else set_receivers tid (snd (get_one_signal r)) k)"
proof (cases "pending r - blocked r = {}")
  case True
  then show ?thesis using handle_signals_nothing [OF assms(1-3) True] by simp
next
  case False
  obtain r' n where r: "get_one_signal r = (Some (of_nat n), r')" "n \<le> 64" "n \<in> pending r"
    using get_one_signal_some [OF False] by blast
  have "n \<noteq> 7" "n \<noteq> 11" using r(3) assms(5) by auto
  then show ?thesis using handle_signals_inside [OF assms(1-4) r(1) _ _ r(2)] r(1) False by simp
qed

lemma handle_signals_hangs:
  "tasks k u = Some v \<Longrightarrow> tid2signals k u = Some q \<Longrightarrow> hid v \<in> set (locked k) \<Longrightarrow> handle_signals u k = Hangs"
  by (simp add: handle_signals_def)

lemma exit_task_locks:
  "tasks k tid = Some t \<Longrightarrow> hid t \<in> set (locked (exit_task True tid k))"
  "u \<noteq> tid \<Longrightarrow> tid2signals k u = Some q \<Longrightarrow> \<exists>q. tid2signals (exit_task held tid k) u = Some q"
  by (auto simp: exit_task_def send_signal_def Let_def split: option.splits)

lemma segv_inside_locks:
  assumes "tasks k tid = Some t" and "tid2signals k tid = Some r" and "hid t \<notin> set (locked k)"
    and "trap_cx_before_signal t \<noteq> None" and "11 \<notin> blocked r" and "\<forall>n\<in>pending r - blocked r. 11 \<le> n"
    and "tasks k u = Some v" and "hid v = hid t" and "u \<noteq> tid" and "tid2signals k u = Some q"
  shows "\<exists>k'. user_trap_handler tid Bad_access k = Returns (Exits (-1), k') \<and> handle_signals u k' = Hangs"
proof -
  define r1 where "r1 = try_add_bit SIGSEGV r"
  define k1 where "k1 = set_receivers tid r1 k"
  have k1: "send_signal tid SIGSEGV k = k1" using assms(2) by (simp add: send_signal_def k1_def r1_def)
  have d: "pending r1 - blocked r1 = insert 11 (pending r - blocked r)"
    using assms(5) by (auto simp: r1_def pending_add SIGSEGV_def blocked_def)
  then have ne: "pending r1 - blocked r1 \<noteq> {}" by simp
  have "Min (pending r1 - blocked r1) = 11"
    unfolding d using assms(6) by (intro Min_eqI) (auto simp: pending_def)
  then obtain r' where r: "get_one_signal r1 = (Some 11, r')" using get_one_signal_some [OF ne] by auto
  define k2 where "k2 = set_receivers tid r' k1"
  have "handle_signals tid k1 = Returns (Exits (-1), exit_task True tid k2)"
    using assms(1,3,4) r
    by (simp add: handle_signals_def k1_def k2_def save_trap_cx_if_not_handling_signals_def signal_no_def SIGSEGV_def)
  moreover obtain q' where "tid2signals (exit_task True tid k2) u = Some q'"
    using exit_task_locks(2) [of u tid k2 q True] assms(9,10) by (auto simp: k2_def k1_def)
  moreover have "tasks (exit_task True tid k2) u = Some v"
    using exit_task_gone(3) [OF assms(9)] assms(7) by (simp add: k2_def k1_def)
  moreover have "hid v \<in> set (locked (exit_task True tid k2))"
    using exit_task_locks(1) [of k2 tid t] assms(1,8) by (simp add: k2_def k1_def)
  ultimately show ?thesis using k1 handle_signals_hangs by simp
qed

subsection \<open>Properties\<close>

text \<open>What is to come of a signal \<open>n\<close> that the thread takes: \<open>handler_round\<close> is the call of a handler, up to the registers
  after its return.\<close>

definition handler_round :: "nat \<Rightarrow> sig_action \<Rightarrow> thread \<Rightarrow> thread \<Rightarrow> bool" where
  "handler_round n a t t' \<longleftrightarrow>
     sepc (trap_cx t') = handler a \<and> get_a0 (trap_cx t') = of_nat n \<and> regs (trap_cx t') ! 1 = get_restorer a \<and>
     (\<forall>cx is us. get_sp cx = get_sp (trap_cx t') \<and> uc_pc (us (get_sp cx)) = uc_pc (contexts t' (get_sp cx)) \<longrightarrow>
        (\<exists>t''. load_trap_cx_if_handling_signals (user_runs cx is us t') = (True, t'') \<and>
           trap_cx t'' = trap_cx t \<and> trap_cx_before_signal t'' = None))"

definition taken :: "nat \<Rightarrow> nat \<Rightarrow> thread \<Rightarrow> kernel \<Rightarrow> (fate \<times> kernel) outcome \<Rightarrow> bool" where
  "taken n tid t k out \<longleftrightarrow>
     (let a = (case actions k (hid t) ! (n - 1) of None \<Rightarrow> None | Some a \<Rightarrow> if handler a = SIG_DFL then None else Some a)
      in case a of
           None \<Rightarrow> out = Returns (default_action n tid t k)
         | Some a \<Rightarrow>
             if handler a = SIG_IGN
             then out = Returns (Runs, set_task tid
                    (t\<lparr>trap_cx_before_signal := Some (trap_cx t), signal_set_siginfo := False\<rparr>) k)
             else (\<exists>t'. out = Returns (Runs, set_task tid t' k) \<and> handler_round n a t t'))"

lemma handle_signals_taken:
  assumes "tasks k tid = Some t" and "tid2signals k tid = Some r" and "hid t \<notin> set (locked k)"
    and "length (actions k (hid t)) = 64" and "length (regs (trap_cx t)) = 32" and "trap_cx_before_signal t = None"
    and "get_one_signal r = (Some (of_nat n), r')" and "0 < n" and "n \<le> 64"
  shows "taken n tid t (set_receivers tid r' k) (handle_signals tid k)"
proof (cases "case actions k (hid t) ! (n - 1) of None \<Rightarrow> True | Some a \<Rightarrow> handler a = SIG_DFL")
  case True
  then show ?thesis using handle_signals_default [OF assms(1-3,6-9,4)] by (auto simp: taken_def split: option.splits)
next
  case False
  then obtain a where a: "actions k (hid t) ! (n - 1) = Some a" "handler a \<noteq> SIG_DFL" by (auto split: option.splits)
  define t1 where "t1 = t\<lparr>trap_cx_before_signal := Some (trap_cx t), signal_set_siginfo := False\<rparr>"
  have t1: "save_trap_cx_if_not_handling_signals t = (True, t1)"
    using assms(6) by (simp add: save_trap_cx_if_not_handling_signals_def t1_def)
  have "length (regs (trap_cx t1)) = 32" using assms(5) by (simp add: t1_def)
  then have "handler_round n a t (enter_handler (of_nat n) a m t1)" for m
    unfolding handler_round_def using handler_returns [OF assms(5) t1 refl] enter_handler_cx by blast
  then show ?thesis
    using handle_signals_action [OF assms(1-3) t1 assms(7-9,4) a] a by (auto simp: taken_def t1_def)
qed


text \<open>A thread that shares its handlers with another one, for the examples.\<close>

definition example_thread :: "trap_context option \<Rightarrow> thread" where
  "example_thread saved =
     \<lparr>trap_cx = \<lparr>regs = replicate 32 0, sstatus = 0, sepc = 0x1000, cpu_id = 0, fregs = [0, 0]\<rparr>,
      trap_cx_before_signal = saved, signal_set_siginfo = False, hid = 0, parent_id = 0, notifies_parent = True,
      infos = \<lambda>_. \<lparr>si_signo = 0, si_errno = 0, si_code = 0\<rparr>, contexts = \<lambda>_. user_context_init 0 0\<rparr>"

definition example_kernel :: "trap_context option \<Rightarrow> sig_handlers \<Rightarrow> sig_receivers \<Rightarrow> kernel" where
  "example_kernel saved hs r =
     \<lparr>tid2signals = (\<lambda>_. None)(1 \<mapsto> r, 2 \<mapsto> receivers_new), actions = \<lambda>_. hs, locked = [],
      tasks = (\<lambda>_. None)(1 \<mapsto> example_thread saved, 2 \<mapsto> example_thread None)\<rparr>"


text \<open>C37: a thread that is inside a handler, or that has ignored a signal before, or that has called \<open>exec\<close> inside a
  handler, is not ended by any signal but \<open>SIGSEGV\<close> and \<open>SIGBUS\<close>, whatever it computes, which signals it blocks, which
  signals are sent to it, \<open>SIGKILL\<close> among them, and how often it traps, until it returns from the handler: every signal
  it takes in the meantime is lost.  After \<open>SIGSEGV\<close> inside a handler the thread ends and keeps the lock of its handlers, so
  that every other thread that shares them hangs at its next trap.\<close>

theorem signals_lost:
  assumes "tasks k tid = Some t" and "tid2signals k tid = Some r" and "hid t \<notin> set (locked k)"
    and "trap_cx_before_signal t = Some c" and "pending r \<inter> {7, 11} = {}" and "list_all harmless es"
    and "tasks k u = Some v" and "hid v = hid t" and "u \<noteq> tid" and "tid2signals k u = Some q"
  shows "(\<exists>k' t' r'. thread_run tid es k = Returns (Runs, k') \<and> tasks k' tid = Some t' \<and>
        trap_cx_before_signal t' = Some c \<and> tid2signals k' tid = Some r' \<and>
        handle_signals tid k' = Returns (Runs, if pending r' - blocked r' = {} then k'
          else set_receivers tid (snd (get_one_signal r')) k'))
    \<and> (\<exists>k'. exec_signals cx tid k = Returns k' \<and> inside tid c k')
    \<and> (11 \<notin> blocked r \<and> (\<forall>n\<in>pending r - blocked r. 11 \<le> n) \<longrightarrow>
        (\<exists>k'. user_trap_handler tid Bad_access k = Returns (Exits (-1), k') \<and> handle_signals u k' = Hangs))"
proof (intro conjI impI)
  have inside: "inside tid c k" using assms(1-5) by (auto simp: inside_def)
  obtain k' where k': "thread_run tid es k = Returns (Runs, k')" "inside tid c k'"
    using inside_run [OF inside assms(6)] by blast
  obtain t' r' where w: "tasks k' tid = Some t'" "tid2signals k' tid = Some r'" "hid t' \<notin> set (locked k')"
    "trap_cx_before_signal t' = Some c" "pending r' \<inter> {7, 11} = {}"
    using k'(2) by (auto simp: inside_def)
  have "handle_signals tid k' = Returns (Runs, if pending r' - blocked r' = {} then k'
      else set_receivers tid (snd (get_one_signal r')) k')"
    by (rule handle_signals_inside_step [OF w(1-3) _ w(5)]) (simp add: w(4))
  then show "\<exists>k' t' r'. thread_run tid es k = Returns (Runs, k') \<and> tasks k' tid = Some t' \<and>
        trap_cx_before_signal t' = Some c \<and> tid2signals k' tid = Some r' \<and>
        handle_signals tid k' = Returns (Runs, if pending r' - blocked r' = {} then k'
          else set_receivers tid (snd (get_one_signal r')) k')"
    using k'(1) w by blast
  show "\<exists>k'. exec_signals cx tid k = Returns k' \<and> inside tid c k'"
    using assms(1-5) by (auto simp: exec_signals_def inside_def pending_def)
  show "\<exists>k'. user_trap_handler tid Bad_access k = Returns (Exits (-1), k') \<and> handle_signals u k' = Hangs"
    if "11 \<notin> blocked r \<and> (\<forall>n\<in>pending r - blocked r. 11 \<le> n)"
    using segv_inside_locks [OF assms(1-3) _ _ _ assms(7-10)] assms(4) that by blast
qed

theorem signals_lost_witness:
  "\<exists>k' t'. thread_run 1 [Receives 9, Traps Timer, Receives 9, Receives 15, Traps (Ecall (Other 0))]
       (example_kernel (Some (trap_cx (example_thread None))) handlers_new receivers_new) = Returns (Runs, k') \<and>
     tasks k' 1 = Some t' \<and> trap_cx_before_signal t' \<noteq> None
     \<and> (\<exists>k''. user_trap_handler 1 Bad_access
           (example_kernel (Some (trap_cx (example_thread None))) handlers_new receivers_new) = Returns (Exits (-1), k'') \<and>
          handle_signals 2 k'' = Hangs)"
proof -
  let ?c = "trap_cx (example_thread None)"
  have "pending receivers_new = {}" "blocked receivers_new = {}"
    by (simp_all add: pending_def blocked_def receivers_new_def)
  then show ?thesis
    using signals_lost [of "example_kernel (Some ?c) handlers_new receivers_new" 1 "example_thread (Some ?c)" receivers_new
        ?c "[Receives 9, Traps Timer, Receives 9, Receives 15, Traps (Ecall (Other 0))]" 2 "example_thread None"
        receivers_new ?c]
    by (auto simp: example_kernel_def example_thread_def spares_def)
qed

text \<open>The numbers of signals are not checked: 0 is sent as 64 by \<open>tkill\<close>, greater ones as their remainder by 64, and
  \<open>sigaction\<close> panics on a number that is not one of a signal.\<close>

lemma signal_numbers_unchecked:
  "send_signal tid 0 k = send_signal tid 64 k"
  "send_signal tid (64 + n) k = send_signal tid n k"
  "tasks k tid = Some t \<Longrightarrow> hid t \<notin> set (locked k) \<Longrightarrow> length (actions k (hid t)) = 64 \<Longrightarrow>
    unat (n - 1) \<ge> 64 \<Longrightarrow> n \<noteq> SIGKILL \<Longrightarrow> n \<noteq> SIGSTOP \<Longrightarrow> sys_sigaction n (Mapped a) Null tid k = Panics"
proof -
  have "unat (64 + m :: u64) mod 64 = unat m mod 64" for m
    by (simp add: unat_word_ariths(1) mod_mod_cancel)
  from this [of "n - 1"] have "try_add_bit (64 + n) r = try_add_bit n r" for r
    by (simp add: try_add_bit_def add_bit_def algebra_simps)
  then show "send_signal tid (64 + n) k = send_signal tid n k" by (simp add: send_signal_def split: option.split)
  show "send_signal tid 0 k = send_signal tid 64 k"
    by (simp add: send_signal_def try_add_bit_def add_bit_def unat_minus_1_64 split: option.split)
  assume "tasks k tid = Some t" "hid t \<notin> set (locked k)" "length (actions k (hid t)) = 64"
    "unat (n - 1) \<ge> 64" "n \<noteq> SIGKILL" "n \<noteq> SIGSTOP"
  then show "sys_sigaction n (Mapped a) Null tid k = Panics" by (simp add: sys_sigaction_def set_action_def)
qed

end
