(* ===== verification/KernelWait.thy ===== *)
theory KernelWait
  imports KernelSignal Runtest
begin

text \<open>
  Waiting for children (\<open>sys_wait4\<close> and \<open>waitpid\<close> of kernel/src/syscall/process.rs), and the test runner of
  libc/src/common/runtest.c on this kernel: what it reports of a test that exits, that a signal ends, or that runs on.
\<close>

subsection \<open>The code\<close>

text \<open>\<open>code_if_exit\<close> is the result of \<open>get_code_if_exit\<close>: the exit code of a child that has ended.\<close>

record child =
  child_pid :: int
  code_if_exit :: "int option"

text \<open>The search of \<open>waitpid\<close>: the flag, the exit code and the process it found.\<close>

fun find_child :: "int \<Rightarrow> int \<Rightarrow> nat \<Rightarrow> child list \<Rightarrow> int \<times> int \<times> int" where
  "find_child pid flag idx [] = (flag, -1, pid)"
| "find_child pid flag idx (c # cs) =
     (if pid = -1 then
        (case code_if_exit c of
           Some code \<Rightarrow> (int idx, code, child_pid c)
         | None \<Rightarrow> find_child pid (-2) (idx + 1) cs)
      else if child_pid c = pid then
        (case code_if_exit c of
           Some code \<Rightarrow> (int idx, code, pid)
         | None \<Rightarrow> (-2, -1, pid))
      else find_child pid flag (idx + 1) cs)"

definition wait_status :: "int \<Rightarrow> u32" where
  "wait_status exit_code = push_bit 8 (word_of_int exit_code)"

definition remove_at :: "nat \<Rightarrow> 'a list \<Rightarrow> 'a list" where
  "remove_at i xs = take i xs @ drop (Suc i) xs"

text \<open>The result, the status that is written, and the children that are left.\<close>

definition waitpid :: "int \<Rightarrow> child list \<Rightarrow> int \<times> u32 option \<times> child list" where
  "waitpid pid children =
     (case find_child pid (-1) 0 children of
        (flag, exit_code, pid_found) \<Rightarrow>
          if flag \<ge> 0 then (pid_found, Some (wait_status exit_code), remove_at (nat flag) children)
          else (flag, None, children))"

text \<open>\<open>sys_wait4\<close>: \<open>later n\<close> are the children at the \<open>n\<close>-th attempt, between which other tasks run.\<close>

partial_function (option) sys_wait4 ::
    "int \<Rightarrow> bool \<Rightarrow> (nat \<Rightarrow> child list) \<Rightarrow> nat \<Rightarrow> (int sysret \<times> u32 option \<times> child list) option" where
  "sys_wait4 pid nohang later n =
     (case waitpid pid (later n) of
        (r, s, cs) \<Rightarrow>
          if r = -1 then Some (Inl EINVAL, None, cs)
          else if r = -2 then
            if nohang then Some (Inr 0, None, cs) else sys_wait4 pid nohang later (Suc n)
          else Some (Inr r, s, cs))"

text \<open>The dispatcher answers \<open>sigtimedwait\<close> with 0, at once.\<close>

definition sys_sigtimedwait :: "u64 sysret" where
  "sys_sigtimedwait = Inr 0"

subsection \<open>What waiting finds\<close>

lemma find_child_pid:
  assumes "pid \<noteq> -1" "distinct (map child_pid cs)"
  shows "find_child pid f i cs =
    (case map_of (map (\<lambda>c. (child_pid c, code_if_exit c)) cs) pid of
       None \<Rightarrow> (f, -1, pid)
     | Some None \<Rightarrow> (-2, -1, pid)
     | Some (Some code) \<Rightarrow> (int (i + length (takeWhile (\<lambda>c. child_pid c \<noteq> pid) cs)), code, pid))"
  using assms by (induction cs arbitrary: i) (auto split: option.splits)

lemma remove_at_takeWhile:
  "distinct (map child_pid cs) \<Longrightarrow> remove_at (length (takeWhile (\<lambda>c. child_pid c \<noteq> pid) cs)) cs = filter (\<lambda>c. child_pid c \<noteq> pid) cs"
proof (induction cs)
  case (Cons c cs)
  then have "filter (\<lambda>c. child_pid c \<noteq> pid) cs = cs" if "child_pid c = pid"
    using that by (intro filter_True ballI) (use Cons.prems in \<open>auto simp: image_iff\<close>)
  then show ?case using Cons by (auto simp: remove_at_def)
qed (simp add: remove_at_def)

lemma waitpid_spec:
  assumes "0 < pid" "distinct (map child_pid cs)"
  shows "waitpid pid cs =
    (case map_of (map (\<lambda>c. (child_pid c, code_if_exit c)) cs) pid of
       None \<Rightarrow> (-1, None, cs)
     | Some None \<Rightarrow> (-2, None, cs)
     | Some (Some code) \<Rightarrow> (pid, Some (wait_status code), filter (\<lambda>c. child_pid c \<noteq> pid) cs))"
  using assms find_child_pid [of pid cs "-1" 0] remove_at_takeWhile [of cs pid]
  by (auto simp: waitpid_def split: option.splits)

lemma mask_7: "0x7f = (mask 7 :: u32)" and byte_1: "0xff00 = (push_bit 8 (mask 8) :: u32)"
  by (simp_all add: mask_eq_exp_minus_1)

lemma wait_status_exited: "WIFEXITED (wait_status c)"
proof -
  have "wait_status c AND 0x7f = 0"
    unfolding wait_status_def mask_7 by (simp add: take_bit_push_bit flip: take_bit_eq_mask)
  then show ?thesis by (simp add: WIFEXITED_def)
qed

lemma wait_status_code: "int (WEXITSTATUS (wait_status c)) = c mod 256"
proof -
  have "drop_bit 8 (wait_status c AND 0xff00) = take_bit 8 (word_of_int c)"
    unfolding wait_status_def byte_1
    by (rule bit_word_eqI) (auto simp: bit_drop_bit_eq bit_and_iff bit_push_bit_iff bit_take_bit_iff bit_mask_iff)
  then have "int (WEXITSTATUS (wait_status c)) = uint (take_bit 8 (word_of_int c :: u32))"
    by (simp add: WEXITSTATUS_def)
  also have "\<dots> = c mod 256" by (simp add: take_bit_eq_mod uint_mod uint_word_of_int mod_mod_cancel)
  finally show ?thesis .
qed

definition child_state :: "int \<Rightarrow> child list \<Rightarrow> int option option" where
  "child_state pid cs = map_of (map (\<lambda>c. (child_pid c, code_if_exit c)) cs) pid"

lemma waitpid_state:
  assumes "0 < pid" "distinct (map child_pid cs)"
  shows "child_state pid cs = Some None \<Longrightarrow> waitpid pid cs = (-2, None, cs)"
    and "child_state pid cs = Some (Some code) \<Longrightarrow>
      waitpid pid cs = (pid, Some (wait_status code), filter (\<lambda>c. child_pid c \<noteq> pid) cs)"
  using waitpid_spec [OF assms] by (simp_all add: child_state_def)

lemma wait4_ends:
  assumes "0 < pid" and "\<forall>n. distinct (map child_pid (later n))"
    and "\<forall>i<m. child_state pid (later (n + i)) = Some None" and "child_state pid (later (n + m)) = Some (Some code)"
  shows "sys_wait4 pid False later n =
    Some (Inr pid, Some (wait_status code), filter (\<lambda>c. child_pid c \<noteq> pid) (later (n + m)))"
  using assms(3,4)
proof (induction m arbitrary: n)
  case 0
  then show ?case
    using assms(1,2) waitpid_state(2) [OF assms(1), of "later n" code] by (simp add: sys_wait4.simps)
next
  case (Suc m)
  have "waitpid pid (later n) = (-2, None, later n)"
    using Suc.prems(1) [THEN spec, of 0] assms(1,2) waitpid_state(1) by simp
  moreover have "child_state pid (later (Suc n + i)) = Some None" if "i < m" for i
    using Suc.prems(1) [THEN spec, of "Suc i"] that by simp
  ultimately show ?case using Suc.IH [of "Suc n"] Suc.prems(2) by (simp add: sys_wait4.simps [of _ _ _ n])
qed

lemma wait4_hangs:
  assumes "0 < pid" and "\<forall>n. distinct (map child_pid (later n))" and "\<forall>n. child_state pid (later n) = Some None"
  shows "sys_wait4 pid False later n = None"
proof (rule ccontr)
  assume "sys_wait4 pid False later n \<noteq> None"
  then obtain y where y: "sys_wait4 pid False later n = Some y" by blast
  have w: "waitpid pid (later n) = (-2, None, later n)" for n using assms waitpid_state(1) by blast
  have "p = pid \<longrightarrow> l = later \<longrightarrow> h = False \<longrightarrow> False" if "sys_wait4 p h l n = Some y" for p h l n y
    by (rule sys_wait4.raw_induct [of "\<lambda>p h l n y. p = pid \<longrightarrow> l = later \<longrightarrow> h = False \<longrightarrow> False", OF _ that])
      (fastforce simp: w split: if_splits)
  then show False using y by blast
qed

lemma signal_exit_code:
  assumes "handle_signals tid k = Returns (Exits c, k')" and "tasks k tid = Some t" and "trap_cx_before_signal t = None"
  shows "c = 0"
  using assms
  by (auto simp: handle_signals_def save_trap_cx_if_not_handling_signals_def Let_def
      split: option.splits prod.splits if_splits)

subsection \<open>The runner on this kernel\<close>

definition sigtimedwait_call :: "int \<Rightarrow> 'w \<Rightarrow> (int + int) \<times> 'w" where
  "sigtimedwait_call t w = (case sys_sigtimedwait of Inr n \<Rightarrow> (Inr (uint n), w) | Inl e \<Rightarrow> (Inl e, w))"

definition kill_call :: "int \<Rightarrow> int \<Rightarrow> kernel \<Rightarrow> int \<times> kernel" where
  "kill_call pid n k = (case sys_kill pid n k of (Inr _, k) \<Rightarrow> (0, k) | (Inl _, k) \<Rightarrow> (-1, k))"

definition report :: "(int sysret \<times> u32 option \<times> child list) option \<Rightarrow> int \<Rightarrow> u32 \<Rightarrow> kernel \<Rightarrow> int \<Rightarrow> message list option" where
  "report waited pid status0 k t =
     (case waited of
        None \<Rightarrow> None
      | Some (r, s, _) \<Rightarrow>
          Some (messages (main_run (\<lambda>w. (pid, w)) sigtimedwait_call kill_call
            (\<lambda>_ w. ((case r of Inr p \<Rightarrow> p | Inl _ \<Rightarrow> -1, s), w)) status0 t) k))"

text \<open>C38: on this kernel the test runner reports a test that exits with the number of its exit code, waiting for it as
  long as it takes.  A test that is ended by the default action of a signal, as by an access that no page allows, is
  reported as passed, since its exit code is 0; and the time limit of the runner has no effect, since
  \<open>sigtimedwait\<close> answers at once as if the child had ended: a test that runs on is never killed, and the runner
  waits for it for ever.\<close>

theorem runner_on_kernel:
  assumes "0 < pid" and "\<forall>n. distinct (map child_pid (later n))"
    and "\<forall>n<m. child_state pid (later n) = Some None" and "child_state pid (later m) = Some (Some code)"
    and "\<forall>n. distinct (map child_pid (always n))" and "\<forall>n. child_state pid (always n) = Some None"
  shows "report (sys_wait4 pid False later 0) pid status0 k t =
      Some [Started, if code mod 256 = 0 then Pass else FailStatus (nat (code mod 256)), Ended]
    \<and> (handle_signals (nat pid) k0 = Returns (Exits code, k1) \<and>
        (\<exists>u. tasks k0 (nat pid) = Some u \<and> trap_cx_before_signal u = None) \<longrightarrow>
        report (sys_wait4 pid False later 0) pid status0 k t = Some [Started, Pass, Ended])
    \<and> report (sys_wait4 pid False always 0) pid status0 k t = None"
proof -
  have e: "WEXITSTATUS (wait_status code) = nat (code mod 256)"
    using wait_status_code [of code] by linarith
  have z: "code mod 256 \<le> 0 \<longrightarrow> code mod 256 = 0"
    using wait_status_code [of code] by linarith
  have "sys_wait4 pid False later 0 = Some (Inr pid, Some (wait_status code), filter (\<lambda>c. child_pid c \<noteq> pid) (later m))"
    using wait4_ends [OF assms(1,2), of m 0 code] assms(3,4) by simp
  then have told: "report (sys_wait4 pid False later 0) pid status0 k t =
      Some [Started, if code mod 256 = 0 then Pass else FailStatus (nat (code mod 256)), Ended]"
    using assms(1) z
    by (simp add: report_def main_run_def await_child_def messages_def verdict_run sigtimedwait_call_def
        sys_sigtimedwait_def wait_status_exited e)
  have "code mod 256 = 0" if "handle_signals (nat pid) k0 = Returns (Exits code, k1) \<and>
      (\<exists>u. tasks k0 (nat pid) = Some u \<and> trap_cx_before_signal u = None)"
    using signal_exit_code [of "nat pid" k0 code k1] that by fastforce
  then show ?thesis using told wait4_hangs [OF assms(1,5,6), of 0] by (simp add: report_def)
qed

theorem runner_on_kernel_witness:
  "report (sys_wait4 7 False (\<lambda>n. if n < 3 then [\<lparr>child_pid = 5, code_if_exit = None\<rparr>, \<lparr>child_pid = 7, code_if_exit = None\<rparr>]
       else [\<lparr>child_pid = 7, code_if_exit = Some 258\<rparr>]) 0) 7 0 (example_kernel None handlers_new receivers_new) 5 = Some [Started, FailStatus 2, Ended]
   \<and> report (sys_wait4 7 False (\<lambda>_. [\<lparr>child_pid = 7, code_if_exit = None\<rparr>]) 0) 7 0 (example_kernel None handlers_new receivers_new) 5 = None"
  using runner_on_kernel [of 7 "\<lambda>n. if n < 3 then [\<lparr>child_pid = 5, code_if_exit = None\<rparr>, \<lparr>child_pid = 7, code_if_exit = None\<rparr>]
       else [\<lparr>child_pid = 7, code_if_exit = Some 258\<rparr>]" 3 258 "\<lambda>_. [\<lparr>child_pid = 7, code_if_exit = None\<rparr>]" 0
       "example_kernel None handlers_new receivers_new" 5]
  by (simp add: child_state_def)

end
