(* ===== verification/KernelTime.thy ===== *)
theory KernelTime
  imports KernelSignal
begin

text \<open>
  The accounting of the time of a task and its timer (kernel/src/task/time_stat.rs), the records for times of
  kernel/src/timer.rs, and the calls of syscall/times.rs that read and set them.  Times are microseconds in 64-bit words,
  as in the code; the clock is an argument.
\<close>

subsection \<open>Records for times\<close>

definition USEC_PER_SEC :: u64 where "USEC_PER_SEC = 1000000"
definition NSEC_PER_SEC :: u64 where "NSEC_PER_SEC = 1000000000"

record time_spec =
  tv_sec :: u64
  tv_nsec :: u64

record time_val =
  sec :: u64
  usec :: u64

definition time_spec_add :: "time_spec \<Rightarrow> time_spec \<Rightarrow> time_spec" where
  "time_spec_add s t =
     (let n = \<lparr>tv_sec = tv_sec s + tv_sec t, tv_nsec = tv_nsec s + tv_nsec t\<rparr>
      in if tv_nsec n \<ge> NSEC_PER_SEC then n\<lparr>tv_sec := tv_sec n + 1, tv_nsec := tv_nsec n - NSEC_PER_SEC\<rparr> else n)"

definition time_val_add :: "time_val \<Rightarrow> time_val \<Rightarrow> time_val" where
  "time_val_add s t =
     (let n = \<lparr>sec = sec s + sec t, usec = usec s + usec t\<rparr>
      in if usec n \<ge> USEC_PER_SEC then n\<lparr>sec := sec n + 1, usec := usec n - USEC_PER_SEC\<rparr> else n)"

definition time_val_from_spec :: "time_spec \<Rightarrow> time_val" where
  "time_val_from_spec s = \<lparr>sec = tv_sec s, usec = tv_nsec s div USEC_PER_SEC\<rparr>"

definition time_val_from :: "u64 \<Rightarrow> time_val" where
  "time_val_from us = \<lparr>sec = us div USEC_PER_SEC, usec = us mod USEC_PER_SEC\<rparr>"

definition time_val_into :: "time_val \<Rightarrow> u64" where
  "time_val_into t = sec t * USEC_PER_SEC + usec t"

subsection \<open>The accounting of a task\<close>

datatype timer_type = NONE | REAL | VIRTUAL | PROF

definition timer_type_from :: "u64 \<Rightarrow> timer_type" where
  "timer_type_from num =
     (let n = sint (ucast num :: u32) in if n = 0 then REAL else if n = 1 then VIRTUAL else if n = 2 then PROF else NONE)"

record time_stat =
  stat_tid :: nat
  utime_us :: u64
  stime_us :: u64
  user_tick :: u64
  kernel_tick :: u64
  start_tick :: u64
  ttype :: timer_type
  timer_interval_us :: u64
  timer_remained_us :: u64

record itimer_val =
  it_interval :: time_val
  it_value :: time_val

definition time_stat_new :: "nat \<Rightarrow> u64 \<Rightarrow> time_stat" where
  "time_stat_new tid now =
     \<lparr>stat_tid = tid, utime_us = 0, stime_us = 0, user_tick = 0, kernel_tick = 0, start_tick = now, ttype = NONE,
      timer_interval_us = 0, timer_remained_us = 0\<rparr>"

definition time_stat_clear :: "u64 \<Rightarrow> time_stat \<Rightarrow> time_stat" where
  "time_stat_clear now s =
     s\<lparr>utime_us := 0, stime_us := 0, user_tick := 0, kernel_tick := 0, start_tick := now\<rparr>"

definition timer_signal :: "timer_type \<Rightarrow> u64 option" where
  "timer_signal t = (case t of REAL \<Rightarrow> Some 14 | VIRTUAL \<Rightarrow> Some 26 | PROF \<Rightarrow> Some 27 | NONE \<Rightarrow> None)"

text \<open>The first result says whether the timer went off.\<close>

definition update_timer_and_send_signal :: "u64 \<Rightarrow> time_stat \<times> kernel \<Rightarrow> bool \<times> time_stat \<times> kernel" where
  "update_timer_and_send_signal delta = (\<lambda>(s, k).
     if timer_remained_us s = 0 then (False, s, k)
     else if timer_remained_us s > delta then
       (False, s\<lparr>timer_remained_us := timer_remained_us s - delta\<rparr>, k)
     else
       (True, s\<lparr>timer_remained_us := timer_interval_us s\<rparr>,
        case timer_signal (ttype s) of None \<Rightarrow> k | Some n \<Rightarrow> send_signal (stat_tid s) n k))"

definition update_timer_if :: "bool \<Rightarrow> u64 \<Rightarrow> time_stat \<times> kernel \<Rightarrow> bool \<times> time_stat \<times> kernel" where
  "update_timer_if b delta sk = (if b then update_timer_and_send_signal delta sk else (False, sk))"

definition timer_kernel_to_user :: "u64 \<Rightarrow> time_stat \<times> kernel \<Rightarrow> bool \<times> time_stat \<times> kernel" where
  "timer_kernel_to_user now = (\<lambda>(s, k).
     let delta = now - kernel_tick s
     in case update_timer_if (ttype s = REAL \<or> ttype s = PROF) delta (s, k) of
          (b, s, k) \<Rightarrow> (b, s\<lparr>stime_us := stime_us s + delta, user_tick := now\<rparr>, k))"

definition timer_user_to_kernel :: "u64 \<Rightarrow> time_stat \<times> kernel \<Rightarrow> bool \<times> time_stat \<times> kernel" where
  "timer_user_to_kernel now = (\<lambda>(s, k).
     let delta = now - kernel_tick s
     in case update_timer_if (ttype s \<noteq> NONE) delta (s, k) of
          (b, s, k) \<Rightarrow> (b, s\<lparr>utime_us := utime_us s + delta, kernel_tick := now\<rparr>, k))"

definition switch_into_task :: "u64 \<Rightarrow> time_stat \<times> kernel \<Rightarrow> bool \<times> time_stat \<times> kernel" where
  "switch_into_task now = (\<lambda>(s, k). (False, s\<lparr>kernel_tick := now\<rparr>, k))"

definition switch_out_task :: "u64 \<Rightarrow> time_stat \<times> kernel \<Rightarrow> bool \<times> time_stat \<times> kernel" where
  "switch_out_task now = (\<lambda>(s, k).
     let delta = now - kernel_tick s;
         s = s\<lparr>stime_us := stime_us s + delta\<rparr>
     in update_timer_if (ttype s = REAL \<or> ttype s = PROF) delta (s, k))"

definition get_timer :: "time_stat \<Rightarrow> itimer_val" where
  "get_timer s = \<lparr>it_interval = time_val_from (timer_interval_us s), it_value = time_val_from (timer_remained_us s)\<rparr>"

definition set_timer :: "itimer_val \<Rightarrow> u64 \<Rightarrow> time_stat \<Rightarrow> bool \<times> time_stat" where
  "set_timer v which s =
     (let t = timer_type_from which
      in (t \<noteq> NONE,
          s\<lparr>ttype := t, timer_interval_us := time_val_into (it_interval v), timer_remained_us := time_val_into (it_value v)\<rparr>))"

subsection \<open>System calls\<close>

definition USEC_PER_INTERRUPT :: u64 where
  "USEC_PER_INTERRUPT = USEC_PER_SEC div 10"

definition sys_times :: "u64 \<Rightarrow> time_stat \<Rightarrow> (u64 \<times> u64 \<times> u64 \<times> u64) \<times> u64 sysret" where
  "sys_times now s = ((utime_us s, stime_us s, utime_us s, stime_us s), Inr (now div USEC_PER_INTERRUPT))"

definition sys_getrusage :: "int \<Rightarrow> bool \<Rightarrow> time_stat \<Rightarrow> (time_val \<times> time_val) sysret" where
  "sys_getrusage who page_ok s =
     (if \<not> page_ok then Inl EFAULT
      else if who \<in> {0, -1, 1} then Inr (time_val_from (utime_us s), time_val_from (stime_us s))
      else Inl EINVAL)"

definition sys_gettimer :: "u64 \<Rightarrow> bool \<Rightarrow> time_stat \<Rightarrow> itimer_val sysret" where
  "sys_gettimer which page_ok s = (if page_ok then Inr (get_timer s) else Inl EFAULT)"

definition sys_settimer ::
    "u64 \<Rightarrow> itimer_val user \<Rightarrow> itimer_val user \<Rightarrow> time_stat \<Rightarrow> (u64 sysret \<times> itimer_val user) \<times> time_stat" where
  "sys_settimer which new_value old_value s =
     (case new_value of
        Mapped v \<Rightarrow>
          if old_value = Unmapped then ((Inl EFAULT, old_value), s)
          else
            let old_value = (case old_value of Mapped _ \<Rightarrow> Mapped (get_timer s) | p \<Rightarrow> p)
            in (case set_timer v which s of
                  (True, s) \<Rightarrow> ((Inr 0, old_value), s)
                | (False, s) \<Rightarrow> ((Inl EFAULT, old_value), s))
      | _ \<Rightarrow> ((Inl EFAULT, old_value), s))"

subsection \<open>The time that a task really spends\<close>

text \<open>What happens to a task: it is switched in and out, it goes to its program through the end of a trap or, at its
  start and after \<open>exec\<close>, by the context that was made for it, and it comes back with a trap.  The handler of traps
  counts the entry twice.\<close>

datatype time_event = Switch_in | Switch_out | To_user | Restore | To_kernel

fun time_step :: "time_event \<Rightarrow> u64 \<Rightarrow> time_stat \<times> kernel \<Rightarrow> bool \<times> time_stat \<times> kernel" where
  "time_step Switch_in now sk = switch_into_task now sk"
| "time_step Switch_out now sk = switch_out_task now sk"
| "time_step To_user now sk = timer_kernel_to_user now sk"
| "time_step Restore now sk = (False, sk)"
| "time_step To_kernel now sk = timer_user_to_kernel now sk"

fun time_run :: "(time_event \<times> u64) list \<Rightarrow> time_stat \<times> kernel \<Rightarrow> bool \<times> time_stat \<times> kernel" where
  "time_run [] sk = (False, sk)"
| "time_run ((e, now) # es) sk =
     (case time_step e now sk of (b, sk) \<Rightarrow> case time_run es sk of (c, sk) \<Rightarrow> (b \<or> c, sk))"

text \<open>The true times: \<open>entry_time\<close> is the part of \<open>kernel_time\<close> that ended with the end of a trap, and \<open>other_time\<close>
  the part that ended with \<open>Restore\<close> or lies between the two calls at the entry of a trap.\<close>

datatype mode = Off | In_kernel | In_user

record truth =
  mode :: mode
  since :: u64
  user_time :: u64
  kernel_time :: u64
  entry_time :: u64
  other_time :: u64

definition truth_new :: truth where
  "truth_new = \<lparr>mode = Off, since = 0, user_time = 0, kernel_time = 0, entry_time = 0, other_time = 0\<rparr>"

fun truth_step :: "time_event \<Rightarrow> u64 \<Rightarrow> truth \<Rightarrow> truth option" where
  "truth_step Switch_in now g = (if mode g = Off then Some (g\<lparr>mode := In_kernel, since := now\<rparr>) else None)"
| "truth_step Switch_out now g =
     (if mode g = In_kernel then Some (g\<lparr>mode := Off, kernel_time := kernel_time g + (now - since g)\<rparr>) else None)"
| "truth_step To_user now g =
     (if mode g = In_kernel then Some (g\<lparr>mode := In_user, since := now, kernel_time := kernel_time g + (now - since g),
        entry_time := entry_time g + (now - since g)\<rparr>) else None)"
| "truth_step Restore now g =
     (if mode g = In_kernel then Some (g\<lparr>mode := In_user, since := now, kernel_time := kernel_time g + (now - since g),
        other_time := other_time g + (now - since g)\<rparr>) else None)"
| "truth_step To_kernel now g =
     (if mode g = In_user
      then Some (g\<lparr>mode := In_kernel, since := now, user_time := user_time g + (now - since g)\<rparr>)
      else if mode g = In_kernel
      then Some (g\<lparr>since := now, kernel_time := kernel_time g + (now - since g),
             other_time := other_time g + (now - since g)\<rparr>)
      else None)"

fun truth_run :: "(time_event \<times> u64) list \<Rightarrow> truth \<Rightarrow> truth option" where
  "truth_run [] g = Some g"
| "truth_run ((e, now) # es) g = (case truth_step e now g of None \<Rightarrow> None | Some g \<Rightarrow> truth_run es g)"

definition accounted :: "time_stat \<Rightarrow> truth \<Rightarrow> bool" where
  "accounted s g \<longleftrightarrow>
     stime_us s = kernel_time g - other_time g \<and>
     (case mode g of
        Off \<Rightarrow> utime_us s = user_time g + entry_time g + other_time g
      | In_kernel \<Rightarrow> utime_us s = user_time g + entry_time g + other_time g \<and> kernel_tick s = since g
      | In_user \<Rightarrow> utime_us s = user_time g + entry_time g + other_time g - (since g - kernel_tick s))"

lemmas time_defs = timer_kernel_to_user_def timer_user_to_kernel_def switch_into_task_def switch_out_task_def
  update_timer_if_def update_timer_and_send_signal_def Let_def

lemma time_step_fields:
  assumes "time_step e now (s, k) = (b, s', k')"
  shows "utime_us s' = utime_us s + (if e = To_kernel then now - kernel_tick s else 0)"
    and "stime_us s' = stime_us s + (if e = To_user \<or> e = Switch_out then now - kernel_tick s else 0)"
    and "kernel_tick s' = (if e = To_kernel \<or> e = Switch_in then now else kernel_tick s)"
    and "ttype s' = ttype s" and "timer_interval_us s' = timer_interval_us s" and "stat_tid s' = stat_tid s"
  using assms by (cases e; auto simp: time_defs split: if_splits)+

lemma accounted_step:
  assumes "accounted s g" and "truth_step e now g = Some g'" and "time_step e now (s, k) = (b, s', k')"
  shows "accounted s' g'"
  using assms(1,2) time_step_fields(1-3) [OF assms(3)]
  by (cases e; cases "mode g"; auto simp: accounted_def split: if_splits)

lemma accounted_run:
  "accounted s g \<Longrightarrow> truth_run es g = Some g' \<Longrightarrow> time_run es (s, k) = (b, s', k') \<Longrightarrow> accounted s' g'"
proof (induction es arbitrary: s g k b)
  case (Cons e es)
  obtain a now where e: "e = (a, now)" by (cases e)
  obtain c s1 k1 where s1: "time_step a now (s, k) = (c, s1, k1)" by (cases "time_step a now (s, k)")
  obtain g1 where g1: "truth_step a now g = Some g1" "truth_run es g1 = Some g'"
    using Cons.prems(2) by (auto simp: e split: option.splits)
  obtain d where "time_run es (s1, k1) = (d, s', k')"
    using Cons.prems(3) by (auto simp: e s1 split: prod.splits)
  then show ?case using Cons.IH accounted_step [OF Cons.prems(1) g1(1) s1] g1(2) by blast
qed simp

text \<open>A timer that does not go off loses exactly what is charged to the task: of the charges those that its type counts.\<close>

definition charged :: "time_stat \<Rightarrow> u64" where
  "charged s = (case ttype s of VIRTUAL \<Rightarrow> utime_us s | NONE \<Rightarrow> 0 | _ \<Rightarrow> utime_us s + stime_us s)"

lemma timer_step:
  assumes "time_step e now (s, k) = (False, s', k')" and "timer_remained_us s \<noteq> 0"
  shows "timer_remained_us s' + charged s' = timer_remained_us s + charged s \<and> timer_remained_us s' \<noteq> 0 \<and> k' = k"
  using assms by (cases e; cases "ttype s"; auto simp: time_defs charged_def split: if_splits)

lemma timer_run:
  "time_run es (s, k) = (False, s', k') \<Longrightarrow> timer_remained_us s \<noteq> 0 \<Longrightarrow>
    timer_remained_us s' + charged s' = timer_remained_us s + charged s \<and> timer_remained_us s' \<noteq> 0 \<and> k' = k \<and> ttype s' = ttype s"
proof (induction es arbitrary: s k)
  case (Cons e es)
  obtain a now where e: "e = (a, now)" by (cases e)
  obtain c s1 k1 where s1: "time_step a now (s, k) = (c, s1, k1)" by (cases "time_step a now (s, k)")
  with Cons.prems(1) have "\<not> c" and r: "time_run es (s1, k1) = (False, s', k')"
    by (auto simp: e split: prod.splits)
  then have s2: "time_step a now (s, k) = (False, s1, k1)" using s1 by simp
  show ?case using timer_step [OF s2 Cons.prems(2)] time_step_fields(4) [OF s2] Cons.IH [OF r] by simp
qed simp

lemma accounted_new: "accounted (time_stat_new tid now) truth_new"
  by (simp add: accounted_def time_stat_new_def truth_new_def)

lemma time_val_roundtrip: "time_val_into (time_val_from us) = us" "usec (time_val_from us) < 1000000"
  by (simp_all add: time_val_into_def time_val_from_def USEC_PER_SEC_def div_mult_mod_eq word_mod_less_divisor)

lemma set_timer_fields:
  "accounted (snd (set_timer v which s)) g = accounted s g" "charged (snd (set_timer v which (time_stat_new tid t))) = 0"
  "timer_remained_us (snd (set_timer v which s)) = time_val_into (it_value v)"
  "ttype (snd (set_timer v which s)) = timer_type_from which"
  by (auto simp: set_timer_def accounted_def charged_def time_stat_new_def Let_def split: timer_type.splits mode.splits)

text \<open>What a timer of each type is to count, and what it does count.\<close>

definition timer_counts :: "timer_type \<Rightarrow> truth \<Rightarrow> u64" where
  "timer_counts t g =
     (case t of
        NONE \<Rightarrow> 0
      | VIRTUAL \<Rightarrow> user_time g + entry_time g + other_time g
      | _ \<Rightarrow> user_time g + kernel_time g + entry_time g)"


definition example_run :: "(time_event \<times> u64) list" where
  "example_run = [(Switch_in, 100), (Restore, 110), (To_kernel, 150), (To_kernel, 151), (To_user, 160),
     (To_kernel, 200), (To_kernel, 200), (Switch_out, 210), (Switch_in, 500), (Switch_out, 501)]"


end
