(* ===== verification/MultibyteTest.thy ===== *)
theory MultibyteTest
  imports CString TestLog
begin

text \<open>
  mbc.c and clocale_mbfuncs.c of libc/src/functional, mbsrtowcs-overflow.c and uselocale-0.c of libc/src/regression: the
  conversion of multibyte characters in UTF-8 and in the locale C.  The functions are arguments.  Bytes and wide
  characters are integers; a state of conversion is a value of a type of its own, and for UTF-8 it stands for the bytes
  of a character that is not complete.
\<close>

subsection \<open>UTF-8\<close>

definition scalar :: "int \<Rightarrow> bool" where
  "scalar c \<longleftrightarrow> 0 \<le> c \<and> c < 0x110000 \<and> \<not> (0xd800 \<le> c \<and> c < 0xe000)"

definition utf8 :: "int \<Rightarrow> int list" where
  "utf8 c =
     (if c < 0x80 then [c]
      else if c < 0x800 then [0xc0 + c div 64, 0x80 + c mod 64]
      else if c < 0x10000 then [0xe0 + c div 4096, 0x80 + c div 64 mod 64, 0x80 + c mod 64]
      else [0xf0 + c div 262144, 0x80 + c div 4096 mod 64, 0x80 + c div 64 mod 64, 0x80 + c mod 64])"

datatype decoded = Char int nat | Incomplete | Illegal

definition cont :: "int \<Rightarrow> bool" where
  "cont b \<longleftrightarrow> 0x80 \<le> b \<and> b < 0xc0"

text \<open>What may follow a first byte.\<close>

definition second :: "int \<Rightarrow> int \<Rightarrow> bool" where
  "second a b \<longleftrightarrow> cont b \<and> (a = 0xe0 \<longrightarrow> 0xa0 \<le> b) \<and> (a = 0xed \<longrightarrow> b < 0xa0) \<and> (a = 0xf0 \<longrightarrow> 0x90 \<le> b) \<and>
     (a = 0xf4 \<longrightarrow> b < 0x90)"

fun conts :: "int list \<Rightarrow> nat \<Rightarrow> int \<Rightarrow> nat \<Rightarrow> decoded" where
  "conts bs 0 c k = Char c k"
| "conts [] (Suc n) c k = Incomplete"
| "conts (b # bs) (Suc n) c k = (if cont b then conts bs n (c * 64 + (b - 0x80)) (Suc k) else Illegal)"

fun decode :: "int list \<Rightarrow> decoded" where
  "decode [] = Incomplete"
| "decode (a # bs) =
     (if 0 \<le> a \<and> a < 0x80 then Char a 1
      else if a < 0xc2 \<or> 0xf5 \<le> a then Illegal
      else
        let n = (if a < 0xe0 then 1 else if a < 0xf0 then 2 else 3);
            c = (if a < 0xe0 then a - 0xc0 else if a < 0xf0 then a - 0xe0 else a - 0xf0)
        in case bs of
             [] \<Rightarrow> Incomplete
           | b # bs' \<Rightarrow> if second a b then conts bs n c 1 else Illegal)"

text \<open>The forms of each length, as digits to the base 64.\<close>

lemma utf8_forms:
  assumes "scalar c"
  obtains "0 \<le> c" "c < 0x80" "utf8 c = [c]"
  | x y where "0 \<le> y" "y < 64" "2 \<le> x" "x < 32" "c = 64 * x + y" "utf8 c = [0xc0 + x, 0x80 + y]"
  | z x y where "0 \<le> y" "y < 64" "0 \<le> x" "x < 64" "0 \<le> z" "z < 16" "c = 64 * (64 * z + x) + y" "0x800 \<le> c"
      "\<not> (0xd800 \<le> c \<and> c < 0xe000)" "utf8 c = [0xe0 + z, 0x80 + x, 0x80 + y]"
  | w z x y where "0 \<le> y" "y < 64" "0 \<le> x" "x < 64" "0 \<le> z" "z < 64" "0 \<le> w" "w < 5" "c = 64 * (64 * (64 * w + z) + x) + y"
      "0x10000 \<le> c" "c < 0x110000" "utf8 c = [0xf0 + w, 0x80 + z, 0x80 + x, 0x80 + y]"
proof -
  define p q where "p = c div 64" and "q = p div 64"
  define y x z w where "y = c mod 64" and "x = p mod 64" and "z = q mod 64" and "w = q div 64"
  have d: "c div 4096 = q" "c div 262144 = w"
    by (simp_all add: p_def q_def w_def flip: zdiv_zmult2_eq)
  have u: "utf8 c =
     (if c < 0x80 then [c] else if c < 0x800 then [0xc0 + p, 0x80 + y]
      else if c < 0x10000 then [0xe0 + q, 0x80 + x, 0x80 + y] else [0xf0 + w, 0x80 + z, 0x80 + x, 0x80 + y])"
    by (simp add: utf8_def d flip: p_def y_def x_def z_def)
  have r: "0 \<le> y" "y < 64" "0 \<le> x" "x < 64" "0 \<le> z" "z < 64"
    by (simp_all add: y_def x_def z_def)
  have e: "c = 64 * p + y" "p = 64 * q + x" "q = 64 * w + z"
    by (simp_all add: y_def x_def z_def w_def p_def q_def)
  have b: "0 \<le> c" "c < 0x110000" "\<not> (0xd800 \<le> c \<and> c < 0xe000)" using assms by (simp_all add: scalar_def)
  consider "c < 0x80" | "0x80 \<le> c" "c < 0x800" | "0x800 \<le> c" "c < 0x10000" | "0x10000 \<le> c" by linarith
  then show thesis
  proof cases
    case 1
    then show thesis using that(1) b u by simp
  next
    case 2
    then have n: "\<not> c < 0x80" "2 \<le> p" "p < 32" using e(1) r by linarith+
    have f: "utf8 c = [0xc0 + p, 0x80 + y]" by (simp only: u n 2 if_True if_False)
    show thesis by (rule that(2) [OF r(1,2) n(2,3) e(1) f])
  next
    case 3
    then have n: "\<not> c < 0x80" "\<not> c < 0x800" "0 \<le> q" "q < 16" using e(1,2) r by linarith+
    have f: "utf8 c = [0xe0 + q, 0x80 + x, 0x80 + y]" by (simp only: u n 3 if_True if_False)
    have "c = 64 * (64 * q + x) + y" using e(1) unfolding e(2) .
    then show thesis by (rule that(3) [OF r(1-4) n(3,4) _ 3(1) b(3) f])
  next
    case 4
    then have n: "\<not> c < 0x80" "\<not> c < 0x800" "\<not> c < 0x10000" "0 \<le> w" "w < 5" using e r b(2) by linarith+
    have f: "utf8 c = [0xf0 + w, 0x80 + z, 0x80 + x, 0x80 + y]" by (simp only: u n if_False)
    have "c = 64 * (64 * (64 * w + z) + x) + y" using e(1) unfolding e(2) unfolding e(3) .
    then show thesis by (rule that(4) [OF r n(4,5) _ 4 b(2) f])
  qed
qed

lemma decode_utf8:
  assumes "scalar c"
  shows "decode (utf8 c @ bs) = Char c (length (utf8 c))"
  using assms
proof (cases rule: utf8_forms)
  case 1
  then show ?thesis by simp
next
  case (2 x y)
  then show ?thesis by (simp add: second_def cont_def)
next
  case (3 z x y)
  then show ?thesis by (auto simp: second_def cont_def numeral_2_eq_2)
next
  case (4 w z x y)
  then show ?thesis by (simp add: second_def cont_def numeral_3_eq_3)
qed

lemma digits_64: "0 \<le> y \<Longrightarrow> y < 64 \<Longrightarrow> (64 * a + y) div 64 = (a :: int)" "0 \<le> y \<Longrightarrow> y < 64 \<Longrightarrow> (64 * a + y) mod 64 = (y :: int)"
  by simp_all

lemma utf8_2: "0 \<le> y \<Longrightarrow> y < 64 \<Longrightarrow> 2 \<le> x \<Longrightarrow> x < 32 \<Longrightarrow> utf8 (64 * x + y) = [0xc0 + x, 0x80 + y]"
  unfolding utf8_def digits_64 by simp

lemma utf8_3:
  assumes "0 \<le> y" "y < 64" "0 \<le> x" "x < 64" "z < 16" "0x800 \<le> 64 * (64 * z + x) + y"
  shows "utf8 (64 * (64 * z + x) + y) = [0xe0 + z, 0x80 + x, 0x80 + y]"
proof -
  let ?c = "64 * (64 * z + x) + y"
  have "?c div 4096 = ?c div 64 div 64" by (simp flip: zdiv_zmult2_eq)
  then have "?c div 4096 = z" "?c div 64 mod 64 = x" "?c mod 64 = y" using assms by (simp_all only: digits_64)
  moreover have "\<not> ?c < 0x80" "\<not> ?c < 0x800" "?c < 0x10000" using assms by simp_all
  ultimately show ?thesis by (simp only: utf8_def if_True if_False)
qed

lemma utf8_4:
  assumes "0 \<le> y" "y < 64" "0 \<le> x" "x < 64" "0 \<le> z" "z < 64" "0x10000 \<le> 64 * (64 * (64 * w + z) + x) + y"
  shows "utf8 (64 * (64 * (64 * w + z) + x) + y) = [0xf0 + w, 0x80 + z, 0x80 + x, 0x80 + y]"
proof -
  let ?c = "64 * (64 * (64 * w + z) + x) + y"
  have "?c div 4096 = ?c div 64 div 64" "?c div 262144 = ?c div 64 div 64 div 64" by (simp_all flip: zdiv_zmult2_eq)
  then have "?c div 262144 = w" "?c div 4096 mod 64 = z" "?c div 64 mod 64 = x" "?c mod 64 = y"
    using assms by (simp_all only: digits_64)
  moreover have "\<not> ?c < 0x80" "\<not> ?c < 0x800" "\<not> ?c < 0x10000" using assms by simp_all
  ultimately show ?thesis by (simp only: utf8_def if_False)
qed

lemma conts_Char:
  "conts bs (Suc n) c k = Char d m \<longleftrightarrow>
    (\<exists>b bs'. bs = b # bs' \<and> cont b \<and> conts bs' n (c * 64 + (b - 0x80)) (Suc k) = Char d m)"
  by (cases bs) auto

lemma decode_sound:
  assumes "decode bs = Char c k"
  shows "scalar c \<and> k = length (utf8 c) \<and> take k bs = utf8 c"
proof (cases bs)
  case Nil
  then show ?thesis using assms by simp
next
  case (Cons a as)
  consider "0 \<le> a" "a < 0x80" | "0xc2 \<le> a" "a < 0xe0" | "0xe0 \<le> a" "a < 0xf0" | "0xf0 \<le> a" "a < 0xf5"
    using assms Cons by (auto split: if_splits)
  then show ?thesis
  proof cases
    case 1
    then show ?thesis using assms Cons by (auto simp: utf8_def scalar_def)
  next
    case 2
    then obtain b bs' where b: "as = b # bs'" "second a b" "c = 64 * (a - 0xc0) + (b - 0x80)" "k = 2"
      using assms Cons by (auto split: list.splits if_splits simp: numeral_2_eq_2)
    have "utf8 c = [0xc0 + (a - 0xc0), 0x80 + (b - 0x80)]"
      unfolding b(3) by (rule utf8_2) (use b(2) 2 in \<open>auto simp: second_def cont_def\<close>)
    then show ?thesis using b 2 Cons by (auto simp: scalar_def second_def cont_def numeral_2_eq_2)
  next
    case 3
    then obtain b d bs' where b: "as = b # d # bs'" "second a b" "cont d" "k = 3"
      "c = 64 * (64 * (a - 0xe0) + (b - 0x80)) + (d - 0x80)"
      using assms Cons by (auto split: list.splits if_splits simp: numeral_2_eq_2 numeral_3_eq_3 conts_Char)
    have "utf8 c = [a, b, d]"
      using utf8_3 [of "d - 0x80" "b - 0x80" "a - 0xe0"] b 3 by (auto simp: second_def cont_def)
    moreover have "a \<le> 0xec \<or> a = 0xed \<or> 0xee \<le> a" by linarith
    then have "scalar c" using b 3 by (auto simp: scalar_def second_def cont_def)
    ultimately show ?thesis using b Cons by (simp add: numeral_3_eq_3)
  next
    case 4
    then obtain b d e bs' where b: "as = b # d # e # bs'" "second a b" "cont d" "cont e" "k = 4"
      "c = 64 * (64 * (64 * (a - 0xf0) + (b - 0x80)) + (d - 0x80)) + (e - 0x80)"
      using assms Cons by (auto split: list.splits if_splits simp: numeral_3_eq_3 conts_Char)
    have "utf8 c = [a, b, d, e]"
      using utf8_4 [of "e - 0x80" "d - 0x80" "b - 0x80" "a - 0xf0"] b 4 by (auto simp: second_def cont_def)
    moreover have "a = 0xf0 \<or> 0xf1 \<le> a" "a \<le> 0xf3 \<or> a = 0xf4" using 4 by linarith+
    then have "scalar c" using b 4 by (auto simp: scalar_def second_def cont_def)
    ultimately show ?thesis using b Cons by (simp add: eval_nat_numeral)
  qed
qed

lemma decode_prefix:
  assumes "scalar c" and "utf8 c = bs @ x # xs"
  shows "decode bs = Incomplete"
  using assms(1)
proof (cases rule: utf8_forms)
  case 1
  then show ?thesis using assms(2) by (simp add: append_eq_Cons_conv Cons_eq_append_conv)
next
  case (2 x y)
  then show ?thesis using assms(2) by (auto simp: Cons_eq_append_conv)
next
  case (3 z x y)
  then show ?thesis using assms(2) by (auto simp: Cons_eq_append_conv second_def cont_def numeral_2_eq_2)
next
  case (4 w z x y)
  then show ?thesis using assms(2) by (auto simp: Cons_eq_append_conv second_def cont_def numeral_3_eq_3)
qed

subsection \<open>The functions and the tests\<close>

text \<open>\<open>mbrtowc\<close> on the bytes it may read: the value it returns, -1 and -2 as for \<open>(size_t)\<close> -1 and -2, the wide character
  if it stores one, and the state.  \<open>mbsrtowcs\<close> with a flag for a destination, on the bytes of a string without the
  terminator and at most \<open>n\<close> characters: the value, what it stores, and what it stores in the pointer to the string,
  \<open>None\<close> for a null pointer.\<close>

type_synonym 's mbrtowc_fn = "int list \<Rightarrow> 's \<Rightarrow> (int \<times> int option) \<times> 's"
type_synonym 's mbsrtowcs_fn = "bool \<Rightarrow> int list \<Rightarrow> nat \<Rightarrow> 's \<Rightarrow> (int \<times> int list \<times> nat option) \<times> 's"

datatype row = R nat "int list" int | W nat "int list" int

text \<open>The two macros; \<open>wc\<close> is the variable of that name.\<close>

fun run_row :: "'s mbrtowc_fn \<Rightarrow> 's \<Rightarrow> row \<Rightarrow> log \<times> int \<Rightarrow> log \<times> int" where
  "run_row mbrtowc zero (R l bs want) (ls, wc) =
     (case mbrtowc bs zero of ((i, w), _) \<Rightarrow> (ls @ check l (i = want), case w of None \<Rightarrow> wc | Some c \<Rightarrow> c))"
| "run_row mbrtowc zero (W l bs want) (ls, wc) =
     (case mbrtowc bs zero of ((i, w), _) \<Rightarrow>
        let wc = (case w of None \<Rightarrow> wc | Some c \<Rightarrow> c) in (ls @ check l (wc = want), wc))"

definition mbc_rows :: "row list" where
  "mbc_rows =
     [R 46 [0x80] (-1),
      R 47 [0xc0] (-1),
      R 49 [0xc0, 0x80] (-1),
      R 50 [0xc0, 0xaf] (-1),
      R 51 [0xe0, 0x80, 0xaf] (-1),
      R 52 [0xf0, 0x80, 0x80, 0xaf] (-1),
      R 53 [0xf8, 0x80, 0x80, 0x80, 0xaf] (-1),
      R 54 [0xfc, 0x80, 0x80, 0x80, 0x80, 0xaf] (-1),
      R 55 [0xe0, 0x82, 0x80] (-1),
      R 56 [0xe0, 0x9f, 0xbf] (-1),
      R 57 [0xf0, 0x80, 0xa0, 0x80] (-1),
      R 58 [0xf0, 0x8f, 0xbf, 0xbd] (-1),
      R 60 [0xed, 0xa0, 0x80] (-1),
      R 61 [0xef, 0xbf, 0xbe] 3,
      R 62 [0xef, 0xbf, 0xbf] 3,
      R 63 [0xf4, 0x8f, 0xbf, 0xbe] 4,
      R 64 [0xf4, 0x8f, 0xbf, 0xbf] 4,
      R 66 [0xc2, 0x80] 2,
      W 67 [0xc2, 0x80] 0x80,
      R 68 [0xe0, 0xa0, 0x80] 3,
      W 69 [0xe0, 0xa0, 0x80] 0x800,
      R 70 [0xf0, 0x90, 0x80, 0x80] 4,
      W 71 [0xf0, 0x90, 0x80, 0x80] 0x10000]"

definition mbc_locales :: "cstr list" where
  "mbc_locales = [''en_US.UTF-8'', ''en_GB.UTF-8'', ''en.UTF-8'', ''POSIX.UTF-8'', ''C.UTF-8'', ''UTF-8'', '''']"

fun setlocale_first :: "(cstr \<Rightarrow> 'w \<Rightarrow> bool \<times> 'w) \<Rightarrow> cstr list \<Rightarrow> 'w \<Rightarrow> 'w" where
  "setlocale_first setlocale [] w = w"
| "setlocale_first setlocale (n # ns) w =
     (case setlocale n w of (ok, w) \<Rightarrow> if ok then w else setlocale_first setlocale ns w)"

definition abcdef :: "int list" where
  "abcdef = [0x61, 0x62, 0x63, 0x64, 0x65, 0x66]"

text \<open>The array \<open>wcs\<close> after a call: what the call stored, and behind it what was there before.\<close>

definition stored :: "int list \<Rightarrow> (nat \<Rightarrow> int) \<Rightarrow> nat \<Rightarrow> int" where
  "stored xs a = (\<lambda>i. if i < length xs then xs ! i else a i)"

definition mbc_main ::
    "(cstr \<Rightarrow> 'w \<Rightarrow> bool \<times> 'w) \<Rightarrow> ('w \<Rightarrow> cstr) \<Rightarrow> ('w \<Rightarrow> 's mbrtowc_fn) \<Rightarrow> ('w \<Rightarrow> 's mbsrtowcs_fn) \<Rightarrow> 's
     \<Rightarrow> int \<Rightarrow> (nat \<Rightarrow> int) \<Rightarrow> 'w \<Rightarrow> log" where
  "mbc_main setlocale codeset mbrtowc mbsrtowcs zero wc wcs w =
     (let w = setlocale_first setlocale mbc_locales w;
          ((i, xs, _), _) = mbsrtowcs w True abcdef 3 zero;
          wcs = stored xs wcs;
          ls = check 39 (i = 3);
          ((i, xs, _), _) = mbsrtowcs w True abcdef 8 zero;
          wcs = stored xs wcs;
          ls = ls @ check 40 (i = 6);
          ((i, _, _), _) = mbsrtowcs w False abcdef 2 zero;
          ls = ls @ check 41 (i = 6)
      in if codeset w \<noteq> ''UTF-8'' then ls @ [44]
         else
           let (ls, wc) = fold (run_row (mbrtowc w) zero) mbc_rows (ls, wc);
               ((i, c), st2) = mbrtowc w [0xc2] zero;
               wc = (case c of None \<Rightarrow> wc | Some c \<Rightarrow> c);
               ls = ls @ check 74 (i = -2);
               ((i, c), st2) = mbrtowc w [0x80] st2;
               wc = (case c of None \<Rightarrow> wc | Some c \<Rightarrow> c);
               ls = ls @ check 75 (i = 1) @ check 76 (wc = 0x80);
               ((i, c), st2) = mbrtowc w [0xc2] zero;
               ls = ls @ check 79 (i = -2);
               ((i, xs, cs), st2) = mbsrtowcs w True [0xa0, 0x61, 0x62, 0x63] 32 st2;
               wcs = stored xs wcs
           in ls @ check 80 (i = 4) @ check 81 (wcs 0 = 0xa0) @ check 82 (wcs 1 = 0x61) @ check 83 (cs = None))"

text \<open>mbsrtowcs-overflow.c: the conversion uses the state of the function itself, \<open>hidden\<close>.\<close>

definition mbsrtowcs_overflow_main :: "'s mbsrtowcs_fn \<Rightarrow> 's \<Rightarrow> log" where
  "mbsrtowcs_overflow_main mbsrtowcs hidden =
     (case mbsrtowcs True [0x61, 0x62, 0x63, 0x64] 4 hidden of
        ((r, xs, src), _) \<Rightarrow>
          let ws = xs @ drop (length xs) [0x58, 0x58, 0x58, 0x58, 0x58, 0]
          in check 15 (r = 4) @ check 17 (src = Some 4) @
             check 19 (takeWhile (\<lambda>c. c \<noteq> 0) ws = [0x61, 0x62, 0x63, 0x64, 0x58]))"

text \<open>uselocale-0.c: \<open>None\<close> is the null locale.\<close>

definition uselocale_main :: "('w \<Rightarrow> 'l option \<times> 'w) \<Rightarrow> ('l option \<Rightarrow> 'w \<Rightarrow> 'l option \<times> 'w) \<Rightarrow> 'w \<Rightarrow> log" where
  "uselocale_main newlocale uselocale w =
     (case newlocale w of
        (None, _) \<Rightarrow> [11]
      | (Some c, w) \<Rightarrow>
          let (old, w) = uselocale (Some c) w;
              (l1, w) = uselocale None w;
              (l2, w) = uselocale None w
          in check 16 (old \<noteq> None) @ check 20 (l1 = Some c) @ check 25 (l2 = l1))"

text \<open>clocale_mbfuncs.c.  Only the first byte or character of a call matters but for the conversions of strings; \<open>None\<close> is
  \<open>EOF\<close> or \<open>WEOF\<close>, which the array holds as -1.\<close>

record 's c_fns =
  c_mb_cur_max :: int
  c_mbrtowc :: "int \<Rightarrow> int"
  c_btowc :: "int \<Rightarrow> int option"
  c_wctob :: "int \<Rightarrow> int option"
  c_wcrtomb :: "int \<Rightarrow> int"
  c_wcsrtombs :: "int list \<Rightarrow> nat \<Rightarrow> 's \<Rightarrow> (int \<times> int list) \<times> 's"
  c_mbsrtowcs :: "'s mbsrtowcs_fn"
  c_classes :: "(int \<Rightarrow> bool) list"

definition map_at :: "'s c_fns \<Rightarrow> int \<Rightarrow> int" where
  "map_at f i = (case c_btowc f i of None \<Rightarrow> -1 | Some c \<Rightarrow> c)"

definition byte_tests :: "'s c_fns \<Rightarrow> log" where
  "byte_tests f =
     concat (map (\<lambda>i. check 28 (c_mbrtowc f i = (if i = 0 then 0 else 1)) @
       (if map_at f i = -1 then [30] else concat (map (\<lambda>j. check 35 (map_at f j \<noteq> map_at f i)) [0..i - 1]))) [0..255])"

definition wctob_tests :: "'s c_fns \<Rightarrow> log" where
  "wctob_tests f = concat (map (\<lambda>i. if map_at f i = -1 then [] else check 42 (c_wctob f (map_at f i) = Some i)) [0..255])"

text \<open>\<open>wcschr\<close> on the rest of an array: \<open>None\<close> when it reads behind its end.\<close>

fun wcschr :: "int list \<Rightarrow> int \<Rightarrow> bool option" where
  "wcschr [] c = None"
| "wcschr (a # s) c = (if a = c then Some True else if a = 0 then Some False else wcschr s c)"

fun image_tests :: "'s c_fns \<Rightarrow> int list \<Rightarrow> int list \<Rightarrow> int \<Rightarrow> (log \<times> int) option" where
  "image_tests f m [] ni = Some ([], ni)"
| "image_tests f m (i # is) ni =
     (case wcschr (tl m) i of
        None \<Rightarrow> None
      | Some True \<Rightarrow> image_tests f m is ni
      | Some False \<Rightarrow>
          let (l1, ni) = (if c_wctob f i \<noteq> None then (check 49 (\<not> ni < 50), ni + 1) else ([], ni));
              (l2, ni) = (if c_wcrtomb f i \<noteq> -1 then (check 52 (\<not> ni < 50), ni + 1) else ([], ni))
          in map_option (\<lambda>(ls, ni). (l1 @ l2 @ ls, ni)) (image_tests f m is ni))"

definition string_tests :: "'s c_fns \<Rightarrow> nat \<Rightarrow> int list \<Rightarrow> int list \<Rightarrow> int list \<Rightarrow> 's \<Rightarrow> log" where
  "string_tests f len s wtmp m zero =
     (let ((rv, bs), st) = c_wcsrtombs f (takeWhile (\<lambda>c. c \<noteq> 0) (tl m)) len zero;
          ls = check 60 (rv = 255);
          s = bs @ drop (length bs) s;
          ((rv, ws, _), st) = c_mbsrtowcs f True (takeWhile (\<lambda>c. c \<noteq> 0) s) 256 st;
          wtmp = ws @ drop (length ws) wtmp
      in ls @ check 62 (rv = 255) @ check 64 (tl m = take 256 wtmp))"

definition class_tests :: "'s c_fns \<Rightarrow> log" where
  "class_tests f =
     concat (map (\<lambda>i. concat (map (\<lambda>(l, p). check l (\<not> p (map_at f i))) (zip [67..<79] (c_classes f)))) [128..255])"

text \<open>\<open>u\<close> is what the last cell of the array \<open>map\<close> holds before the test stores 0 there; \<open>s\<close> and \<open>wtmp\<close> are the other
  arrays.\<close>

definition clocale_main :: "'s c_fns \<Rightarrow> nat \<Rightarrow> int \<Rightarrow> int list \<Rightarrow> int list \<Rightarrow> 's \<Rightarrow> log option" where
  "clocale_main f mb_len_max u s wtmp zero =
     (let m = map (map_at f) [0..255]
      in case image_tests f (m @ [u]) [0..0x10ffff] 0 of
           None \<Rightarrow> None
         | Some (ls, ni) \<Rightarrow>
             Some (check 23 (c_mb_cur_max f = 1) @ byte_tests f @ wctob_tests f @ ls @ check 55 (\<not> ni > 50) @
               string_tests f (mb_len_max * 256) s wtmp (m @ [0]) zero @ class_tests f))"

subsection \<open>Contracts\<close>

definition mbrtowc_ref :: "int list mbrtowc_fn" where
  "mbrtowc_ref bs st =
     (case decode (st @ bs) of
        Char c k \<Rightarrow> ((if c = 0 then 0 else int k - int (length st), Some c), [])
      | Incomplete \<Rightarrow> ((-2, None), st @ bs)
      | Illegal \<Rightarrow> ((-1, None), st))"

text \<open>At most \<open>n\<close> characters of a string, with the position behind them, \<open>None\<close> at its end.\<close>

fun mbs_chars :: "nat \<Rightarrow> int list \<Rightarrow> int list \<Rightarrow> nat \<Rightarrow> (int list \<times> nat option) option" where
  "mbs_chars 0 bs st pos = Some ([], Some pos)"
| "mbs_chars (Suc n) bs st pos =
     (if bs = [] then if st = [] then Some ([], None) else None
      else
        case decode (st @ bs) of
          Char c k \<Rightarrow>
            (let d = k - length st
             in map_option (\<lambda>(cs, e). (c # cs, e)) (mbs_chars n (drop d bs) [] (pos + d)))
        | _ \<Rightarrow> None)"

definition mbsrtowcs_result :: "bool \<Rightarrow> int list \<times> nat option \<Rightarrow> int \<times> int list \<times> nat option" where
  "mbsrtowcs_result dst r =
     (case r of (cs, e) \<Rightarrow>
        (int (length cs), if dst then cs @ (if e = None then [0] else []) else [], if dst then e else Some 0))"

definition mbsrtowcs_ref :: "int list mbsrtowcs_fn" where
  "mbsrtowcs_ref dst bs n st =
     (case mbs_chars (if dst then n else length bs + 1) bs st 0 of
        None \<Rightarrow> ((-1, [], Some 0), st)
      | Some r \<Rightarrow> (mbsrtowcs_result dst r, []))"

locale multibyte =
  fixes mbrtowc :: "'s mbrtowc_fn" and mbsrtowcs :: "'s mbsrtowcs_fn" and zero :: 's and abs :: "'s \<Rightarrow> int list"
  assumes abs_zero: "abs zero = []"
    and mbrtowc: "fst (mbrtowc bs s) = fst (mbrtowc_ref bs (abs s))"
      "fst (fst (mbrtowc bs s)) \<noteq> -1 \<Longrightarrow> abs (snd (mbrtowc bs s)) = snd (mbrtowc_ref bs (abs s))"
    and mbsrtowcs: "mbs_chars (if dst then n else length bs + 1) bs (abs s) 0 = Some r \<Longrightarrow>
      fst (mbsrtowcs dst bs n s) = mbsrtowcs_result dst r"
begin

lemma run_row_ref: "run_row mbrtowc zero r lw = run_row mbrtowc_ref [] r lw"
proof -
  obtain ls wc where lw: "lw = (ls, wc)" by (cases lw)
  show ?thesis using mbrtowc(1) [of _ zero] unfolding lw abs_zero
    by (cases r) (auto split: prod.splits simp: prod_eq_iff)
qed

lemma rows_ref: "fold (run_row mbrtowc zero) rs lw = fold (run_row mbrtowc_ref []) rs lw"
  by (induction rs arbitrary: lw) (simp_all add: run_row_ref)

lemma overflow_silent: "mbsrtowcs_overflow_main mbsrtowcs zero = []"
proof -
  have "mbs_chars 4 [0x61, 0x62, 0x63, 0x64] [] 0 = Some ([0x61, 0x62, 0x63, 0x64], Some 4)" by code_simp
  then show ?thesis
    using mbsrtowcs [of True 4 "[0x61, 0x62, 0x63, 0x64]" zero] abs_zero
    by (auto simp: mbsrtowcs_overflow_main_def mbsrtowcs_result_def split: prod.splits)
qed

end

lemma rows_silent: "\<exists>wc'. fold (run_row mbrtowc_ref []) mbc_rows ([], wc) = ([], wc')"
proof -
  have "fold (run_row mbrtowc_ref []) mbc_rows ([], wc) = ([], 0x10000)" by code_simp
  then show ?thesis by blast
qed

lemma ref_results:
  "mbs_chars 3 abcdef [] 0 = Some ([0x61, 0x62, 0x63], Some 3)"
  "mbs_chars 8 abcdef [] 0 = Some (abcdef, None)"
  "mbs_chars (length abcdef + 1) abcdef [] 0 = Some (abcdef, None)"
  "mbs_chars 32 [0xa0, 0x61, 0x62, 0x63] [0xc2] 0 = Some ([0xa0, 0x61, 0x62, 0x63], None)"
  "mbrtowc_ref [0xc2] [] = ((-2, None), [0xc2])"
  "mbrtowc_ref [0x80] [0xc2] = ((1, Some 0x80), [])"
  by code_simp+

context multibyte
begin

lemma call_zero:
  "mbs_chars (if dst then n else length bs + 1) bs [] 0 = Some r \<Longrightarrow> fst (mbsrtowcs dst bs n zero) = mbsrtowcs_result dst r"
  using mbsrtowcs [of dst n bs zero] abs_zero by simp

lemma mbc_silent:
  assumes "codeset (setlocale_first setlocale mbc_locales w) = ''UTF-8''"
    and "fr (setlocale_first setlocale mbc_locales w) = mbrtowc" and "fs (setlocale_first setlocale mbc_locales w) = mbsrtowcs"
  shows "mbc_main setlocale codeset fr fs zero wc wcs w = []"
proof -
  obtain s1 where s1: "mbsrtowcs True abcdef 3 zero = ((3, [0x61, 0x62, 0x63], Some 3), s1)"
    using call_zero [of True 3 abcdef] ref_results(1) by (cases "mbsrtowcs True abcdef 3 zero") (auto simp: mbsrtowcs_result_def)
  obtain s2 where s2: "mbsrtowcs True abcdef 8 zero = ((6, abcdef @ [0], None), s2)"
    using call_zero [of True 8 abcdef] ref_results(2)
    by (cases "mbsrtowcs True abcdef 8 zero") (auto simp: mbsrtowcs_result_def abcdef_def)
  obtain s3 where s3: "mbsrtowcs False abcdef 2 zero = ((6, [], Some 0), s3)"
    using call_zero [of False 2 abcdef] ref_results(3)
    by (cases "mbsrtowcs False abcdef 2 zero") (auto simp: mbsrtowcs_result_def abcdef_def)
  obtain wc' where rows: "fold (run_row mbrtowc zero) mbc_rows ([], wc) = ([], wc')"
    using rows_silent [of wc] rows_ref by auto
  obtain s4 where s4: "mbrtowc [0xc2] zero = ((-2, None), s4)" "abs s4 = [0xc2]"
    using mbrtowc [of "[0xc2]" zero] abs_zero ref_results(5) by (cases "mbrtowc [0xc2] zero") auto
  obtain s5 where s5: "mbrtowc [0x80] s4 = ((1, Some 0x80), s5)"
    using mbrtowc(1) [of "[0x80]" s4] s4(2) ref_results(6) by (cases "mbrtowc [0x80] s4") auto
  obtain s6 where s6: "mbsrtowcs True [0xa0, 0x61, 0x62, 0x63] 32 s4 = ((4, [0xa0, 0x61, 0x62, 0x63, 0], None), s6)"
    using mbsrtowcs [of True 32 "[0xa0, 0x61, 0x62, 0x63]" s4] s4(2) ref_results(4)
    by (cases "mbsrtowcs True [0xa0, 0x61, 0x62, 0x63] 32 s4") (auto simp: mbsrtowcs_result_def)
  show ?thesis
    unfolding mbc_main_def assms Let_def s1 s2 s3 s4 s5 s6 prod.case
    by (simp add: rows s5 s6 stored_def)
qed

end

interpretation mref: multibyte mbrtowc_ref mbsrtowcs_ref "[]" "\<lambda>s. s"
  by unfold_locales (auto simp: mbsrtowcs_ref_def)

text \<open>A test that reports nothing has found the values of the reference.\<close>

definition agrees :: "'s mbrtowc_fn \<Rightarrow> 's \<Rightarrow> row \<Rightarrow> bool" where
  "agrees f z r = (case r of R l bs v \<Rightarrow> fst (fst (f bs z)) = fst (fst (mbrtowc_ref bs [])) | W l bs c \<Rightarrow> True)"

lemma rows_expected: "list_all (\<lambda>r. case r of R l bs v \<Rightarrow> v = fst (fst (mbrtowc_ref bs [])) | W l bs c \<Rightarrow> True) mbc_rows"
  by code_simp

lemma rows_agree:
  assumes "fst (fold (run_row f z) rs (ls, wc)) = []"
    and "list_all (\<lambda>r. case r of R l bs v \<Rightarrow> v = fst (fst (mbrtowc_ref bs [])) | W l bs c \<Rightarrow> True) rs"
  shows "ls = [] \<and> list_all (agrees f z) rs"
  using assms
proof (induction rs arbitrary: ls wc)
  case (Cons r rs)
  obtain ls' wc' where r: "run_row f z r (ls, wc) = (ls', wc')" by (cases "run_row f z r (ls, wc)")
  have "ls' = [] \<and> list_all (agrees f z) rs" using Cons.IH [of ls' wc'] Cons.prems r by simp
  moreover have "ls' = [] \<longrightarrow> ls = [] \<and> agrees f z r" using r Cons.prems(2)
    by (cases r) (auto simp: agrees_def check_def Let_def split: prod.splits if_splits)
  ultimately show ?case by simp
qed simp

lemma mbc_agrees:
  assumes "mbc_main setlocale codeset fr fs zero wc wcs w = []" and "w' = setlocale_first setlocale mbc_locales w"
  shows "codeset w' = ''UTF-8'' \<and> list_all (agrees (fr w') zero) mbc_rows"
proof -
  have c: "codeset w' = ''UTF-8''" using assms by (auto simp: mbc_main_def Let_def split: prod.splits if_splits)
  obtain L where "fst (fold (run_row (fr w') zero) mbc_rows (L, wc)) = []"
    using assms(1) c unfolding mbc_main_def assms(2) [symmetric] Let_def
    by (auto split: prod.splits) (metis fst_conv)
  then show ?thesis using rows_agree [of "fr w'" zero mbc_rows L wc] c rows_expected by simp
qed


text \<open>The locale C: \<open>charmap\<close> gives the wide character of each byte.\<close>

lemma concat_silent: "(\<And>v. v \<in> set vs \<Longrightarrow> g v = []) \<Longrightarrow> concat (map g vs) = []"
  by simp

locale c_locale =
  fixes f :: "'s c_fns" and charmap :: "int \<Rightarrow> int"
  assumes inj: "inj_on charmap {0..255}" and charmap_0: "charmap 0 = 0" and not_eof: "i \<in> {0..255} \<Longrightarrow> charmap i \<noteq> -1"
    and max_1: "c_mb_cur_max f = 1"
    and btowc: "i \<in> {0..255} \<Longrightarrow> c_btowc f i = Some (charmap i)"
    and mbrtowc_1: "i \<in> {0..255} \<Longrightarrow> c_mbrtowc f i = (if i = 0 then 0 else 1)"
    and wctob: "i \<in> {0..255} \<Longrightarrow> c_wctob f (charmap i) = Some i" "c \<notin> charmap ` {0..255} \<Longrightarrow> c_wctob f c = None"
    and wcrtomb: "c \<notin> charmap ` {0..255} \<Longrightarrow> c_wcrtomb f c = -1"
    and wcsrtombs: "set bs \<subseteq> {1..255} \<Longrightarrow> length bs < n \<Longrightarrow>
      fst (c_wcsrtombs f (map charmap bs) n s) = (int (length bs), bs @ [0])"
    and mbsrtowcs_c: "set bs \<subseteq> {1..255} \<Longrightarrow> length bs < n \<Longrightarrow>
      fst (c_mbsrtowcs f True bs n s) = (int (length bs), map charmap bs @ [0], None)"
    and classes: "p \<in> set (c_classes f) \<Longrightarrow> i \<in> {128..255} \<Longrightarrow> \<not> p (charmap i)"
begin

lemma map_at: "i \<in> {0..255} \<Longrightarrow> map_at f i = charmap i"
  by (simp add: map_at_def btowc)

lemma map_array: "map (map_at f) [0..255] = map charmap [0..255]"
  using map_at by (intro map_cong) auto

lemma byte_tests_silent: "byte_tests f = []"
proof -
  have "charmap j \<noteq> charmap i" if "i \<in> {0..255}" "j \<in> {0..i - 1}" for i j
    using inj_onD [OF inj, of j i] that by fastforce
  then have "check 28 (c_mbrtowc f i = (if i = 0 then 0 else 1)) @
       (if map_at f i = -1 then [30] else concat (map (\<lambda>j. check 35 (map_at f j \<noteq> map_at f i)) [0..i - 1])) = []"
    if "i \<in> {0..255}" for i
    using that not_eof [OF that] by (auto simp: map_at mbrtowc_1)
  then show ?thesis unfolding byte_tests_def by (intro concat_silent) simp
qed

lemma wctob_tests_silent: "wctob_tests f = []"
  unfolding wctob_tests_def
proof (rule concat_silent)
  fix i :: int assume "i \<in> set [0..255]"
  then have "i \<in> {0..255}" by simp
  then show "(if map_at f i = -1 then [] else check 42 (c_wctob f (map_at f i) = Some i)) = []"
    by (simp add: map_at wctob)
qed

lemma class_tests_silent: "class_tests f = []"
proof -
  have c: "concat (map (\<lambda>(l, p). check l (\<not> p (map_at f i))) (zip ls (c_classes f))) = []" if "i \<in> {128..255}" for i ls
  proof (rule concat_silent)
    fix v assume v: "v \<in> set (zip ls (c_classes f))"
    obtain l p where lp: "v = (l, p)" by (metis surj_pair)
    then have "p \<in> set (c_classes f)" using v set_zip_rightD by fast
    then show "(case v of (l, p) \<Rightarrow> check l (\<not> p (map_at f i))) = []"
      using classes [of p i] that by (simp add: lp map_at)
  qed
  show ?thesis unfolding class_tests_def
  proof (rule concat_silent)
    fix i :: int assume "i \<in> set [128..255]"
    then have "i \<in> {128..255}" unfolding set_upto .
    then show "concat (map (\<lambda>(l, p). check l (\<not> p (map_at f i))) (zip [67..<79] (c_classes f))) = []" by (rule c)
  qed
qed

lemma wcschr_nonzero: "0 \<notin> set xs \<Longrightarrow> wcschr (xs @ ys) c = (if c \<in> set xs then Some True else wcschr ys c)"
  by (induction xs) auto

lemma nonzero: "i \<in> {1..255} \<Longrightarrow> charmap i \<noteq> 0"
  using inj_onD [OF inj, of i 0] charmap_0 by auto

lemma array_split: "map charmap [0..255] = 0 # map charmap [1..255]"
  using charmap_0 upto_rec1 [of 0 255] by simp

lemma set_tail: "0 \<notin> set (map charmap [1..255])"
  using nonzero by force

lemma image_tests_silent: "image_tests f (map charmap [0..255] @ [0]) is ni = Some ([], ni)"
proof (induction "is")
  case (Cons i "is")
  have w: "wcschr (tl (map charmap [0..255] @ [0])) i = Some (i \<in> set (map charmap [1..255]) \<or> i = 0)"
    using wcschr_nonzero [OF set_tail, of "[0]" i] unfolding array_split by auto
  show ?case
  proof (cases "i \<in> charmap ` {0..255}")
    case True
    have "{0..255} = insert 0 {1..255 :: int}" by auto
    then have "i \<in> set (map charmap [1..255]) \<or> i = 0" using True charmap_0 by auto
    then show ?thesis using Cons w by simp
  next
    case False
    then show ?thesis using Cons w wctob(2) [OF False] wcrtomb [OF False] by (auto split: bool.split)
  qed
qed simp

lemma image_tests_overrun: "u \<noteq> 0 \<Longrightarrow> image_tests f (map charmap [0..255] @ [u]) (0 # is) ni = None"
  using wcschr_nonzero [OF set_tail, of "[u]" 0] set_tail unfolding array_split by simp

lemma string_tests_silent:
  assumes "255 < n" and "length wtmp = 257"
  shows "string_tests f n s wtmp (map charmap [0..255] @ [0]) zero = []"
proof -
  have l: "length [1..255 :: int] = 255" by simp
  have m: "tl (map charmap [0..255] @ [0]) = map charmap [1..255] @ [0]" unfolding array_split by simp
  have t: "takeWhile (\<lambda>c. c \<noteq> 0) (map charmap [1..255] @ [0]) = map charmap [1..255]"
    using set_tail by (subst takeWhile_append2) auto
  have b: "takeWhile (\<lambda>c. c \<noteq> 0) (([1..255] @ [0]) @ xs) = [1..255 :: int]" for xs
    by (subst append_assoc, subst takeWhile_append2) auto
  obtain st where w: "c_wcsrtombs f (map charmap [1..255]) n zero = ((255, [1..255] @ [0]), st)"
    using wcsrtombs [of "[1..255]" n zero] assms(1) l by (cases "c_wcsrtombs f (map charmap [1..255]) n zero") auto
  obtain st' where r: "c_mbsrtowcs f True [1..255] 256 st = ((255, map charmap [1..255] @ [0], None), st')"
    using mbsrtowcs_c [of "[1..255]" 256 st] l by (cases "c_mbsrtowcs f True [1..255] 256 st") auto
  show ?thesis unfolding string_tests_def m t w Let_def prod.case b r by (simp add: l)
qed

lemma clocale_result:
  assumes "0 < n" and "length wtmp = 257"
  shows "clocale_main f n u s wtmp zero = (if u = 0 then Some [] else None)"
proof (cases "u = 0")
  case True
  then show ?thesis
    using image_tests_silent [of "[0..0x10ffff]" 0] string_tests_silent [of "n * 256" wtmp s zero] assms max_1
    by (simp add: clocale_main_def map_array byte_tests_silent wctob_tests_silent class_tests_silent Let_def
        del: image_tests.simps)
next
  case False
  have "[0..0x10ffff :: int] = 0 # [1..0x10ffff]" using upto_rec1 [of 0 "0x10ffff"] by simp
  then show ?thesis using image_tests_overrun [OF False, of "[1..0x10ffff]" 0] False
    by (simp add: clocale_main_def map_array Let_def del: image_tests.simps)
qed

end

definition c_ref :: "'s c_fns" where
  "c_ref =
     \<lparr>c_mb_cur_max = 1, c_mbrtowc = \<lambda>i. if i = 0 then 0 else 1, c_btowc = \<lambda>i. if 0 \<le> i \<and> i \<le> 255 then Some i else None,
      c_wctob = \<lambda>c. if 0 \<le> c \<and> c \<le> 255 then Some c else None, c_wcrtomb = \<lambda>c. if 0 \<le> c \<and> c \<le> 255 then 1 else -1,
      c_wcsrtombs = \<lambda>cs n s. ((int (length cs), cs @ [0]), s),
      c_mbsrtowcs = \<lambda>dst bs n s. ((int (length bs), bs @ [0], None), s),
      c_classes = [\<lambda>c. 0x30 \<le> c \<and> c \<le> 0x39, \<lambda>c. 0x41 \<le> c \<and> c \<le> 0x5a]\<rparr>"

interpretation cref: c_locale c_ref "\<lambda>i. i"
  by unfold_locales (auto simp: c_ref_def)

text \<open>The locale of a thread, with \<open>current\<close> to read it.\<close>

locale thread_locale =
  fixes newlocale :: "'w \<Rightarrow> 'l option \<times> 'w" and uselocale :: "'l option \<Rightarrow> 'w \<Rightarrow> 'l option \<times> 'w" and current :: "'w \<Rightarrow> 'l"
  assumes newlocale: "\<exists>c. fst (newlocale w) = Some c"
    and uselocale: "fst (uselocale l w) = Some (current w)"
      "current (snd (uselocale l w)) = (case l of None \<Rightarrow> current w | Some c \<Rightarrow> c)"
begin

lemma uselocale_silent: "uselocale_main newlocale uselocale w = []"
proof -
  obtain c w1 where "newlocale w = (Some c, w1)" using newlocale [of w] by (cases "newlocale w") auto
  then show ?thesis by (simp add: uselocale_main_def Let_def case_prod_beta uselocale)
qed

end

interpretation tref: thread_locale "\<lambda>w. (Some 1, w)" "\<lambda>l w. (Some w, case l of None \<Rightarrow> w | Some c \<Rightarrow> c)" "\<lambda>w. w :: int"
  by unfold_locales auto



end
