(* ===== verification/Spec2Isabelle.thy ===== *)
theory Spec2Isabelle
  imports CPrelude RandLcg Rand RandChoose TestLog CString HarnessPrint HarnessLimits HarnessVm BitAlloc KernelFd
    Runtest Mtest StringSearch StringTables StringMemory StringStrchr Numbers QsortTest FnmatchTest InetTest
    TimeTest SearchTree KernelVmm SearchTests IpcBase IpcMsg IpcSem IpcShm Reach PthreadMutex Semaphores
    StrftimeTest RandomTest PthreadCond StringBasics EnvTest SnprintfTest KernelRlimit KernelFile KernelPipe
    StrptimeTest PthreadRobust PthreadTsd KernelPosix KernelPath KernelLink KernelOpen KernelIo KernelCall
    KernelSignal KernelWait KernelTime MultibyteTest
begin

text \<open>
  A model of the C code of this repository and of the parts of the kernel that it exercises.

  \<^bold>\<open>The program.\<close>  The repository is the kernel Maturin, written in Rust (kernel/src), with the test programs that
  are run on it.  Its C code is the test suite for C libraries in libc/src: a harness (common), one program per area
  of the standard library (functional), one program per historical bug (regression).  A test program calls the
  functions of the library and of the system it runs on, compares the results with what POSIX says, and reports each
  difference with \<open>t_error\<close>, which prints the source line and sets \<open>t_status\<close>, the exit status.  The runner starts a
  program, waits for it with a timeout and prints whether it passed.

  \<^bold>\<open>How a test is modelled.\<close>  The log of a test is the list of the source lines of the checks that fired, in order
  (theory TestLog); \<open>main\<close> returns 0 exactly when the log is empty.  The functions under test are not part of the
  repository: they are arguments of the test.  The properties of a test come in three forms.
    \<^item> Equivalence: the log is empty exactly when the functions agree with a written specification on each
      use, where the test is a table of independent uses (StringSearch, StringTables, Numbers, FnmatchTest,
      StrftimeTest, StrptimeTest, SnprintfTest).
    \<^item> Completeness: the log is empty for all functions that keep a contract, a locale whose laws state what POSIX
      promises, where the calls depend on each other through a state (SearchTests, SearchTree, IpcMsg, IpcSem, IpcShm,
      StringBasics, RandomTest, EnvTest, PthreadTsd).  Every locale is interpreted on a reference model of the service, which shows that
      the laws can be kept.
    \<^item> Reachability: where threads interleave the program is a step relation, and the property is one of all reachable
      states (PthreadMutex, Semaphores, PthreadCond, PthreadRobust), by exploration of the finite state space (theory Reach) or by an
      invariant, with the absence of deadlocks.
  A null pointer that the code would use is \<open>None\<close> in the result of the test; a loop that may run for ever is a
  \<open>partial_function\<close>, and the properties state that it returns.

  \<^bold>\<open>Theories and sources.\<close>
    \<^item> CPrelude, CString, TestLog, Reach: words, swaps of list cells, the C string functions that the harness itself
      calls, the log with its programs over a service and the rules of \<open>silent\<close>, a weakest precondition of runs that
      report nothing, and reachability by exploration.
    \<^item> RandLcg, Rand, RandChoose: common/rand.c.  The generator has full period; the draws below \<open>n\<close> terminate and are
      unbiased; \<open>shuffle2\<close>, \<open>t_randrange\<close> and \<open>insert\<close> are total and correct; \<open>t_choose\<close> returns distinct numbers.
    \<^item> HarnessPrint, HarnessLimits, HarnessVm: common/print.c, path.c, utf8.c, setrlim.c, fdfill.c, memfill.c, vmfill.c.
    \<^item> Runtest, Mtest: common/runtest.c, mtest.c, mtest.h.
    \<^item> StringSearch, StringTables, StringMemory, StringStrchr, StringBasics: the string and memory tests of functional,
      with the related ones of regression.  Buffers are lists of bytes, pointers into them offsets; the tests that run
      at every alignment take the address of the buffer as an argument.
    \<^item> Numbers: strtol.c, wcstol.c and udiv.c, with the integer types at their widths.
    \<^item> QsortTest, FnmatchTest, InetTest: qsort.c, fnmatch.c, inet_pton.c.
    \<^item> TimeTest, StrftimeTest, StrptimeTest: time.c (broken-down times and seconds, inverse to each other), strftime.c
      (the texts of the conversions) and strptime.c (reading them, which gives back what strftime prints).
    \<^item> SearchTree, SearchTests: search_tsearch.c, and search_insque.c, search_lsearch.c, search_hsearch.c.
    \<^item> IpcBase, IpcMsg, IpcSem, IpcShm: ipc_msg.c, ipc_sem.c, ipc_shm.c, each a parent and a child process.
    \<^item> PthreadMutex, Semaphores, PthreadCond, PthreadRobust, PthreadTsd: pthread_mutex.c and pthread_mutex_pi.c,
      sem_init.c and sem_open.c, pthread_cond.c, pthread_robust.c, pthread_tsd.c with regression/pthread_exit-dtor.c.
    \<^item> MultibyteTest: mbc.c and clocale_mbfuncs.c, with regression/mbsrtowcs-overflow.c and uselocale-0.c; UTF-8 is given
      by a writer and a reader that are inverse to each other.
    \<^item> RandomTest: random.c and regression/lrand48-signextend.c.
    \<^item> EnvTest, SnprintfTest: env.c with regression/setenv-oom.c, and snprintf.c, where what a floating-point conversion
      prints is an argument; a tiny number is doubled as a list of decimal digits.
    \<^item> BitAlloc, KernelFd: the bitmap allocator and the kernel's descriptor table (kernel/src/file/fd_manager.rs and
      memory/allocator/fd.rs, with the calls of syscall/fs.rs and syscall/process.rs); \<open>t_fdfill\<close> and \<open>t_setrlim\<close> of the
      harness are composed with it, and KernelRlimit runs regression/rlimit-open-files.c on it.
    \<^item> KernelPosix: the calls \<open>close\<close>, \<open>dup\<close>, \<open>dup3\<close>, \<open>pipe\<close> and \<open>epoll_create\<close> on a table, and the tables that tasks
      share or copy when they are cloned (task/task.rs), refined to maps from numbers to files.
    \<^item> KernelFile, KernelPipe: the paged in-memory file (file/vfs/virt_file.rs), refined to a list of bytes with a
      position, and the pipe that keeps its bytes in one (file/pipe.rs), refined to a bounded queue.
    \<^item> KernelCall, KernelIo: what the system calls share, and reading and writing by descriptor (\<open>read\<close>, \<open>write\<close>,
      \<open>readv\<close>, \<open>writev\<close>, \<open>pread\<close>, \<open>lseek\<close> and \<open>sendfile\<close> of syscall/fs.rs) over the trait \<open>File\<close>, a locale that the
      in-memory files keep.
    \<^item> KernelSignal, KernelWait: signals (kernel/src/signal, the delivery in task/cpu_local.rs and trap/mod.rs, the calls
      of syscall/process.rs), whose words are refined to sets of numbers, and \<open>wait4\<close>, on which libc/src/common/runtest.c
      is run.
    \<^item> KernelTime: the accounting of the time of a task and its timer (task/time_stat.rs, timer.rs, syscall/times.rs),
      against the times that the task really spends.
    \<^item> KernelPath, KernelLink, KernelOpen: the reading of paths (file/device/mod.rs), refined to walking a list of names,
      the table of hard links (file/device/link.rs), refined to a list of names that share files, and \<open>getcwd\<close>, \<open>chdir\<close>
      and \<open>open\<close> of syscall/fs.rs with the locks they take.
    \<^item> KernelVmm: the kernel's memory set (kernel/src/memory/vmm.rs and memory/areas, with \<open>mmap\<close> and \<open>munmap\<close> of
      syscall/process.rs), refined to a map from pages to their flags; \<open>t_vmfill\<close> of the harness is composed with it.

  \<^bold>\<open>Bounds and fuel.\<close>  Word arithmetic is that of \<open>w word\<close> where the code can wrap, and integers elsewhere, with the
  range as a hypothesis or a lemma.  Fuel occurs in \<open>explore\<close> only, which needs as many steps as there are transitions:
  too little of it gives a list that is not closed, and the lemmas on the closed lists would not be provable.  Requests
  for memory are below \<open>2 ^ 63 + 2 ^ 62\<close>, the longest ones that \<open>t_vmfill\<close> makes.  Of the address space the lower
  4 GiB are used, as in the kernel.

  \<^bold>\<open>What the model shows to be wrong.\<close>  The properties of KernelFd, KernelPosix, KernelFile, KernelPipe, KernelLink,
  KernelOpen, KernelIo, KernelSignal, KernelWait, KernelTime and Runtest, the lemmas on \<open>munmap\<close> in KernelVmm and
  the properties of SearchTree, PthreadMutex, Semaphores and PthreadCond also state where the code does not do what it
  is meant to: descriptors that are lost or freed while open, a mapping that is lost by a failing call, reads behind
  the end of a file, pipes that end while the writer lives, links that panic the kernel, an \<open>openat\<close> that never
  returns, a \<open>pread\<close> that moves the position, signals that are lost, tests that crash and pass, time that is charged twice,
  a runner that kills every process after a failed fork, and tests that a correct system can fail.

  \<^bold>\<open>Not modelled.\<close>  Of the kernel: page tables, frames and the heap (raw pointers into hardware structures), tasks
  but for their descriptor tables, signals and times, the scheduler, the FAT file system (vendored), sockets, the assembly of
  traps, loaders and drivers.  Of the test suite: the tests of floating-point conversion and of scanf (they need binary floating point),
  of the dynamic linker, of locale data, and of process creation and of files, which are thin sequences of system
  calls; thread cancellation; most of the regression tests, one file per bug of a C library.
  The compilers and headers under oscomp_testcases, the crates under dependencies, the prebuilt images and the
  generated documentation are third-party or generated.
\<close>

end
